(* ===== verification/Prelude.thy ===== *)
theory Prelude
  imports Complex_Main "HOL-Library.Word" "HOL-Library.Monad_Syntax"
    "HOL-Library.Signed_Division" "HOL-Library.Sublist"
begin

unbundle bit_operations_syntax

text \<open>
  Shared vocabulary of the development.

  \<^item> A C++ call that may stop the process (a failed \<^verbatim>\<open>assert\<close>, \<^verbatim>\<open>LOG_FATAL\<close> or
    \<^verbatim>\<open>LOG_SYSFATAL\<close>, an access outside an allocated block) returns an \<^typ>\<open>'a option\<close>:
    \<^const>\<open>None\<close> is the stop, \<^term>\<open>Some r\<close> the normal return. The default build type of
    \<^verbatim>\<open>CMakeLists.txt\<close> is Debug, so every \<^verbatim>\<open>assert\<close> of the source is live.
  \<^item> A byte (\<^verbatim>\<open>char\<close>, \<^verbatim>\<open>unsigned char\<close>) is a \<^typ>\<open>char\<close>; a \<^verbatim>\<open>std::string\<close> or a
    \<^verbatim>\<open>std::vector<char>\<close> is a \<^typ>\<open>string\<close>.
  \<^item> C integer division truncates towards zero: \<^verbatim>\<open>/\<close> and \<^verbatim>\<open>%\<close> on signed values are
    \<^verbatim>\<open>sdiv\<close> and \<^verbatim>\<open>smod\<close> of the library.
\<close>

section \<open>Stopping\<close>

definition assertion :: "bool \<Rightarrow> unit option" where
  "assertion b = (if b then Some () else None)"

lemma assertion_simps [simp]:
  "assertion True = Some ()" "assertion False = None"
  by (simp_all add: assertion_def)

lemma assertion_eq_Some [simp]: "assertion b = Some u \<longleftrightarrow> b"
  by (cases b) simp_all

lemma assertion_bind_eq_Some [simp]:
  "(assertion b \<bind> f = Some x) \<longleftrightarrow> b \<and> f () = Some x"
  by (cases b) simp_all

lemma assertion_bind_eq_None [simp]:
  "(assertion b \<bind> f = None) \<longleftrightarrow> \<not> b \<or> f () = None"
  by (cases b) simp_all

lemma bind_eq_SomeE:
  assumes "m \<bind> f = Some y"
  obtains x where "m = Some x" "f x = Some y"
  using assms by (cases m) auto

text \<open>Running a list of calls one after the other, stopping at the first that stops.\<close>

primrec foldo :: "('a \<Rightarrow> 's \<Rightarrow> 's option) \<Rightarrow> 'a list \<Rightarrow> 's \<Rightarrow> 's option" where
  "foldo f [] s = Some s"
| "foldo f (x # xs) s = f x s \<bind> foldo f xs"

lemma foldo_Nil_fun [simp]: "foldo f [] = Some"
  by (rule ext) simp

lemma foldo_append [simp]: "foldo f (xs @ ys) s = foldo f xs s \<bind> foldo f ys"
  by (induction xs arbitrary: s) (auto split: Option.bind_splits)

lemma foldo_invariant:
  assumes "\<And>x s s'. x \<in> set xs \<Longrightarrow> P s \<Longrightarrow> f x s = Some s' \<Longrightarrow> P s'"
    and "P s" "foldo f xs s = Some s'"
  shows "P s'"
  using assms
proof (induction xs arbitrary: s)
  case (Cons x xs)
  then obtain t where t: "f x s = Some t" "foldo f xs t = Some s'"
    by (auto elim: bind_eq_SomeE)
  with Cons.prems have "P t" by (metis list.set_intros(1))
  with Cons.IH Cons.prems t show ?case by (metis list.set_intros(2))
qed simp

lemma foldo_total:
  assumes "\<And>x s. x \<in> set xs \<Longrightarrow> P s \<Longrightarrow> \<exists>s'. f x s = Some s' \<and> P s'" and "P s"
  shows "\<exists>s'. foldo f xs s = Some s' \<and> P s'"
  using assms
proof (induction xs arbitrary: s)
  case (Cons x xs)
  from Cons.prems(1) [of x s] Cons.prems(2) obtain t where t: "f x s = Some t" "P t" by auto
  moreover have "\<exists>s'. foldo f xs t = Some s' \<and> P s'"
    using Cons.prems(1) by (intro Cons.IH t(2)) auto
  ultimately show ?case by simp
qed simp

lemma foldo_Some: "foldo (\<lambda>x s. Some (f x s)) xs s = Some (fold f xs s)"
  by (induction xs arbitrary: s) simp_all

section \<open>Machines\<close>

text \<open>The contracts of components that are driven by lists of events, and what follows of whole runs. The first keeps an invariant
  wherever it gets; the second also never stops on legal events; the third does what a specification says, and is then an instance of
  the second.\<close>

locale keeping_machine =
  fixes exec :: "'e \<Rightarrow> 's \<Rightarrow> 's option"
    and ok :: "'s \<Rightarrow> bool"
  assumes keeps: "ok s \<Longrightarrow> exec e s = Some s' \<Longrightarrow> ok s'"
begin

lemma run_keeps: "ok s \<Longrightarrow> foldo exec es s = Some s' \<Longrightarrow> ok s'"
  using foldo_invariant [of es ok exec s s'] keeps by blast

end

locale safe_machine =
  fixes exec :: "'e \<Rightarrow> 's \<Rightarrow> 's option"
    and ok :: "'s \<Rightarrow> bool"
    and legal :: "'e \<Rightarrow> bool"
  assumes proceeds: "ok s \<Longrightarrow> legal e \<Longrightarrow> \<exists>s'. exec e s = Some s' \<and> ok s'"
begin

lemma run_safe: "ok s \<Longrightarrow> \<forall>e\<in>set es. legal e \<Longrightarrow> \<exists>s'. foldo exec es s = Some s' \<and> ok s'"
  using proceeds by (intro foldo_total) auto

text \<open>A run can be stopped and continued anywhere.\<close>

lemma run_continues:
  assumes "ok s" "\<forall>e\<in>set (es @ fs). legal e"
  shows "\<exists>s' s''. foldo exec es s = Some s' \<and> ok s' \<and> foldo exec fs s' = Some s'' \<and> ok s''"
proof -
  have "\<forall>e\<in>set es. legal e" "\<forall>e\<in>set fs. legal e" using assms(2) by auto
  then show ?thesis using run_safe [OF assms(1), of es] run_safe [of _ fs] by blast
qed

end

locale refining_machine =
  fixes exec :: "'e \<Rightarrow> 's \<Rightarrow> 's option"
    and rel :: "'s \<Rightarrow> 'a \<Rightarrow> bool"
    and spec :: "'e \<Rightarrow> 'a \<Rightarrow> 'a"
    and legal :: "'e \<Rightarrow> bool"
  assumes simulates: "rel s a \<Longrightarrow> legal e \<Longrightarrow> \<exists>s'. exec e s = Some s' \<and> rel s' (spec e a)"
begin

lemma run_refines: "rel s a \<Longrightarrow> \<forall>e\<in>set es. legal e \<Longrightarrow> \<exists>s'. foldo exec es s = Some s' \<and> rel s' (fold spec es a)"
proof (induction es arbitrary: s a)
  case (Cons e es)
  then obtain s1 where "exec e s = Some s1" "rel s1 (spec e a)" using simulates [of s a e] by auto
  with Cons.IH [of s1 "spec e a"] Cons.prems(2) show ?case by simp
qed simp

end

sublocale refining_machine \<subseteq> rm: safe_machine exec "\<lambda>s. \<exists>a. rel s a" legal
proof
  show "\<exists>s'. exec e s = Some s' \<and> (\<exists>a. rel s' a)" if "\<exists>a. rel s a" "legal e" for s e
    using that simulates by blast
qed

section \<open>Bytes and arrays\<close>

type_synonym byte = char

lemma char_of_of_char_nat [simp]: "char_of (of_char c :: nat) = c"
  by simp

text \<open>\<^verbatim>\<open>std::copy(src, src + n, begin() + i)\<close> into an array: the bytes from position \<open>i\<close> on are
  replaced, the length is unchanged when the copy stays inside.\<close>

definition write_at :: "nat \<Rightarrow> 'a list \<Rightarrow> 'a list \<Rightarrow> 'a list" where
  "write_at i src dst = take i dst @ src @ drop (i + length src) dst"

lemma length_write_at [simp]:
  "i + length src \<le> length dst \<Longrightarrow> length (write_at i src dst) = length dst"
  by (simp add: write_at_def)

lemma take_write_at [simp]: "i \<le> length dst \<Longrightarrow> take i (write_at i src dst) = take i dst"
  by (simp add: write_at_def)

lemma drop_write_at:
  "i \<le> length dst \<Longrightarrow> drop i (write_at i src dst) = src @ drop (i + length src) dst"
  by (simp add: write_at_def)

text \<open>The bytes between two positions of an array, \<^verbatim>\<open>std::string(begin + i, begin + j)\<close>.\<close>

definition between :: "nat \<Rightarrow> nat \<Rightarrow> 'a list \<Rightarrow> 'a list" where
  "between i j xs = take (j - i) (drop i xs)"

lemma length_between [simp]: "j \<le> length xs \<Longrightarrow> length (between i j xs) = j - i"
  by (simp add: between_def)

lemma between_empty [simp]: "between i i xs = []"
  by (simp add: between_def)

lemma between_write_at:
  assumes "i \<le> j" "j + length src \<le> length xs"
  shows "between i (j + length src) (write_at j src xs) = between i j xs @ src"
  using assms by (simp add: between_def write_at_def drop_take)

lemma between_shift: "i \<le> j \<Longrightarrow> between (i + n) j xs = drop n (between i j xs)"
  by (simp add: between_def drop_take add.commute)

lemma between_take: "n \<le> j - i \<Longrightarrow> between i (i + n) xs = take n (between i j xs)"
  by (simp add: between_def min_def)

lemma between_append_left [simp]: "j \<le> length xs \<Longrightarrow> between i j (xs @ ys) = between i j xs"
  by (cases "i \<le> j") (simp_all add: between_def)

text \<open>\<^verbatim>\<open>std::find\<close>: the position of the first element with the property, the length when there
  is none.\<close>

primrec find_index :: "('a \<Rightarrow> bool) \<Rightarrow> 'a list \<Rightarrow> nat" where
  "find_index p [] = 0"
| "find_index p (x # xs) = (if p x then 0 else Suc (find_index p xs))"

lemma find_index_le [simp]: "find_index p xs \<le> length xs"
  by (induction xs) auto

lemma find_index_less_iff: "find_index p xs < length xs \<longleftrightarrow> (\<exists>x\<in>set xs. p x)"
  by (induction xs) auto

lemma find_index_holds: "\<exists>x\<in>set xs. p x \<Longrightarrow> p (xs ! find_index p xs)"
  by (induction xs) auto

lemma find_index_eq_length: "find_index p xs = length xs \<longleftrightarrow> (\<forall>x\<in>set xs. \<not> p x)"
  by (induction xs) auto

lemma take_find_index: "take (find_index p xs) xs = takeWhile (\<lambda>x. \<not> p x) xs"
  by (induction xs) auto

lemma drop_find_index: "drop (find_index p xs) xs = dropWhile (\<lambda>x. \<not> p x) xs"
  by (induction xs) auto

lemma find_index_append:
  "find_index p (xs @ ys) =
     (if \<exists>x\<in>set xs. p x then find_index p xs else length xs + find_index p ys)"
  by (induction xs) auto

section \<open>Little-endian byte sequences\<close>

primrec le_bytes :: "nat \<Rightarrow> nat \<Rightarrow> byte list" where
  "le_bytes 0 k = []"
| "le_bytes (Suc n) k = char_of k # le_bytes n (k div 256)"

primrec le_value :: "byte list \<Rightarrow> nat" where
  "le_value [] = 0"
| "le_value (c # cs) = of_char c + 256 * le_value cs"

lemma length_le_bytes [simp]: "length (le_bytes n k) = n"
  by (induction n arbitrary: k) auto

lemma le_value_le_bytes: "le_value (le_bytes n k) = k mod 256 ^ n"
proof (induction n arbitrary: k)
  case (Suc n)
  then show ?case by (simp add: mod_mult2_eq add.commute)
qed simp

lemma le_value_less: "le_value cs < 256 ^ length cs"
proof (induction cs)
  case (Cons c cs)
  have c: "of_char c < (256::nat)" by simp
  from Cons have "le_value cs + 1 \<le> 256 ^ length cs" by simp
  then have "256 * (le_value cs + 1) \<le> 256 * 256 ^ length cs" by (rule mult_le_mono2)
  with c show ?case by (simp del: nat_of_char_less_256)
qed simp

lemma le_bytes_le_value [simp]: "le_bytes (length cs) (le_value cs) = cs"
proof (induction cs)
  case (Cons c cs)
  have lt: "of_char c < (256::nat)" by simp
  have "char_of (of_char c + 256 * le_value cs :: nat) = c"
    by (metis char_of_mod_256 char_of_char mod_mult_self2)
  with Cons lt show ?case by simp
qed simp

lemma le_bytes_le_value': "length cs = n \<Longrightarrow> le_bytes n (le_value cs) = cs"
  using le_bytes_le_value by blast

lemma power_256: "(256::nat) ^ k = 2 ^ (8 * k)"
  by (simp add: power_mult)

section \<open>Decimal text\<close>

text \<open>\<^verbatim>\<open>%u\<close> and \<^verbatim>\<open>%d\<close> of the \<^verbatim>\<open>printf\<close> family, and their zero-padded forms.\<close>

definition digit_char :: "nat \<Rightarrow> char" where
  "digit_char d = char_of (48 + d)"

fun dec :: "nat \<Rightarrow> string" where
  "dec n = (if n < 10 then [digit_char n] else dec (n div 10) @ [digit_char (n mod 10)])"

declare dec.simps [simp del]

lemma dec_less_10: "n < 10 \<Longrightarrow> dec n = [digit_char n]"
  by (simp add: dec.simps)

lemma dec_nonempty [simp]: "dec n \<noteq> []"
  by (subst dec.simps) simp

definition dec_int :: "int \<Rightarrow> string" where
  "dec_int i = (if i < 0 then CHR ''-'' # dec (nat (- i)) else dec (nat i))"

definition pad0 :: "nat \<Rightarrow> string \<Rightarrow> string" where
  "pad0 w s = replicate (w - length s) CHR ''0'' @ s"

definition pad_sp :: "nat \<Rightarrow> string \<Rightarrow> string" where
  "pad_sp w s = replicate (w - length s) CHR '' '' @ s"

definition digit_value :: "char \<Rightarrow> nat" where
  "digit_value c = of_char c - 48"

definition is_digit :: "char \<Rightarrow> bool" where
  "is_digit c \<longleftrightarrow> 48 \<le> (of_char c :: nat) \<and> (of_char c :: nat) \<le> 57"

definition dec_value :: "string \<Rightarrow> nat" where
  "dec_value s = foldl (\<lambda>v c. 10 * v + digit_value c) 0 s"

lemma digit_char_digit:
  assumes "d < 10"
  shows "is_digit (digit_char d)" "digit_value (digit_char d) = d"
  using assms by (simp_all add: is_digit_def digit_value_def digit_char_def)

lemma dec_is_digit: "c \<in> set (dec n) \<Longrightarrow> is_digit c"
proof (induction n rule: dec.induct)
  case (1 n)
  show ?case
  proof (cases "n < 10")
    case True
    with 1 show ?thesis by (simp add: dec_less_10 digit_char_digit)
  next
    case False
    with 1 show ?thesis by (auto simp: dec.simps [of n] digit_char_digit)
  qed
qed

lemma dec_value_dec [simp]: "dec_value (dec n) = n"
proof (induction n rule: dec.induct)
  case (1 n)
  show ?case
  proof (cases "n < 10")
    case True
    then show ?thesis by (simp add: dec_less_10 dec_value_def digit_char_digit)
  next
    case False
    with 1 have "dec_value (dec (n div 10)) = n div 10" by simp
    with False show ?thesis
      by (simp add: dec.simps [of n] dec_value_def digit_char_digit)
  qed
qed

text \<open>\<^verbatim>\<open>snprintf(buf, size, ...)\<close> leaves at most \<open>sz - 1\<close> characters and a terminating zero in \<^verbatim>\<open>buf\<close>.\<close>

definition snprintf :: "nat \<Rightarrow> string \<Rightarrow> string" where
  "snprintf sz s = take (sz - 1) s"

lemma snprintf_fits [simp]: "length s < sz \<Longrightarrow> snprintf sz s = s"
  by (simp add: snprintf_def)

lemma length_dec: "n < 10 ^ k \<Longrightarrow> 0 < k \<Longrightarrow> length (dec n) \<le> k"
proof (induction n arbitrary: k rule: dec.induct)
  case (1 n)
  show ?case
  proof (cases "n < 10")
    case False
    then obtain j where j: "k = Suc j" "0 < j" using 1(2) by (cases k; cases "k - 1") auto
    then have "n div 10 < 10 ^ j" using 1(2) by (simp add: less_mult_imp_div_less mult.commute)
    with 1(1) [OF False] j False show ?thesis by (simp add: dec.simps [of n])
  qed (use 1 in \<open>simp add: dec_less_10\<close>)
qed

end
