(* ===== verification/Buffer.thy ===== *)
theory Buffer
  imports Prelude
begin

text \<open>
  \<^verbatim>\<open>pallette/Endian.h\<close> and \<^verbatim>\<open>pallette/Buffer.h\<close>, \<^verbatim>\<open>pallette/Buffer.cpp\<close>: the byte-order
  conversions and the network buffer. The locale \<open>byte_queue\<close> is the contract the rest of the
  library relies on (append at the back, retrieve from the front, nothing else changes); it is
  interpreted on the buffer here. Fixed-width integers are words; \<^verbatim>\<open>size_t\<close> positions are
  \<^typ>\<open>nat\<close>, and a position that would leave the allocated vector stops the program.
\<close>

section \<open>Endian.h\<close>

text \<open>
  The object representation of a w-bit integer on the little-endian hosts the project is built
  for (\<^verbatim>\<open>-march=native\<close> on x86), and the byte swap the \<^verbatim>\<open>htobe\<close>/\<^verbatim>\<open>betoh\<close> macros of
  \<^verbatim>\<open><endian.h>\<close> perform there.
\<close>

definition mem_of :: "'a::len word \<Rightarrow> byte list" where
  "mem_of x = le_bytes (LENGTH('a) div 8) (unat x)"

definition of_mem :: "byte list \<Rightarrow> 'a::len word" where
  "of_mem bs = word_of_nat (le_value bs)"

definition byte_swap :: "'a::len word \<Rightarrow> 'a word" where
  "byte_swap x = of_mem (rev (mem_of x))"

definition hostToNetwork64 :: "64 word \<Rightarrow> 64 word" where
  "hostToNetwork64 host64 = byte_swap host64"

definition hostToNetwork32 :: "32 word \<Rightarrow> 32 word" where
  "hostToNetwork32 host32 = byte_swap host32"

definition hostToNetwork16 :: "16 word \<Rightarrow> 16 word" where
  "hostToNetwork16 host16 = byte_swap host16"

definition networkToHost64 :: "64 word \<Rightarrow> 64 word" where
  "networkToHost64 net64 = byte_swap net64"

definition networkToHost32 :: "32 word \<Rightarrow> 32 word" where
  "networkToHost32 net32 = byte_swap net32"

definition networkToHost16 :: "16 word \<Rightarrow> 16 word" where
  "networkToHost16 net16 = byte_swap net16"

section \<open>The buffer\<close>

text \<open>\<open>bufData\<close> is \<^verbatim>\<open>buffer_\<close>, \<open>readIndex\<close> and \<open>writeIndex\<close> are \<^verbatim>\<open>readIndex_\<close> and
  \<^verbatim>\<open>writeIndex_\<close>. A \<^verbatim>\<open>const char*\<close> into the buffer is its offset from \<^verbatim>\<open>begin()\<close>.\<close>

record buffer =
  bufData :: "byte list"
  readIndex :: nat
  writeIndex :: nat

definition kPrePrePend :: nat where "kPrePrePend = 8"

definition kInitalSize :: nat where "kInitalSize = 1024"

definition Buffer_new :: "nat \<Rightarrow> buffer" where
  "Buffer_new initialSize =
     \<lparr>bufData = replicate (kPrePrePend + initialSize) (char_of (0::nat)),
      readIndex = kPrePrePend, writeIndex = kPrePrePend\<rparr>"

definition Buffer_swap :: "buffer \<Rightarrow> buffer \<Rightarrow> buffer \<times> buffer" where
  "Buffer_swap b rhs =
     (b\<lparr>bufData := bufData rhs, readIndex := readIndex rhs, writeIndex := writeIndex rhs\<rparr>,
      rhs\<lparr>bufData := bufData b, readIndex := readIndex b, writeIndex := writeIndex b\<rparr>)"

definition readableBytes :: "buffer \<Rightarrow> nat" where
  "readableBytes b = writeIndex b - readIndex b"

definition writableBytes :: "buffer \<Rightarrow> nat" where
  "writableBytes b = length (bufData b) - writeIndex b"

definition prependableBytes :: "buffer \<Rightarrow> nat" where
  "prependableBytes b = readIndex b"

definition Buffer_peek :: "buffer \<Rightarrow> nat" where
  "Buffer_peek b = readIndex b"

definition beginWrite :: "buffer \<Rightarrow> nat" where
  "beginWrite b = writeIndex b"

definition retrieveAll :: "buffer \<Rightarrow> buffer" where
  "retrieveAll b = b\<lparr>readIndex := kPrePrePend, writeIndex := kPrePrePend\<rparr>"

definition retrieve :: "buffer \<Rightarrow> nat \<Rightarrow> buffer option" where
  "retrieve b len = do {
     assertion (len \<le> readableBytes b);
     Some (if len < readableBytes b then b\<lparr>readIndex := readIndex b + len\<rparr>
           else retrieveAll b) }"

definition retrieveUntil :: "buffer \<Rightarrow> nat \<Rightarrow> buffer option" where
  "retrieveUntil b end = do {
     assertion (Buffer_peek b < end);
     assertion (end \<le> beginWrite b);
     retrieve b (end - Buffer_peek b) }"

definition retrieveAsString :: "buffer \<Rightarrow> nat \<Rightarrow> (string \<times> buffer) option" where
  "retrieveAsString b len = do {
     assertion (len \<le> readableBytes b);
     let result = between (Buffer_peek b) (Buffer_peek b + len) (bufData b);
     b' \<leftarrow> retrieve b len;
     Some (result, b') }"

definition retrieveAllAsString :: "buffer \<Rightarrow> (string \<times> buffer) option" where
  "retrieveAllAsString b = retrieveAsString b (readableBytes b)"

text \<open>\<^verbatim>\<open>BuffertoString\<close> casts the length to \<^verbatim>\<open>int\<close>: what does not fit 32 bits is cut off, and a length whose bit 31 is
  set becomes negative, which \<^verbatim>\<open>std::string\<close> refuses with \<^verbatim>\<open>std::length_error\<close>.\<close>

definition BuffertoString :: "buffer \<Rightarrow> string option" where
  "BuffertoString b =
     (let len = readableBytes b mod 2 ^ 32 in
      if len < 2 ^ 31 then Some (between (Buffer_peek b) (Buffer_peek b + len) (bufData b)) else None)"

text \<open>The range \<^verbatim>\<open>[peek(), peek() + readableBytes())\<close> that callers hand on.\<close>

definition Buffer_bytes :: "buffer \<Rightarrow> string" where
  "Buffer_bytes b = between (Buffer_peek b) (Buffer_peek b + readableBytes b) (bufData b)"

text \<open>\<^verbatim>\<open>makeSpace\<close>: both branches move the readable bytes to the front; the first then grows the
  vector, whose new elements are zero.\<close>

definition makeSpace :: "buffer \<Rightarrow> nat \<Rightarrow> buffer option" where
  "makeSpace b len =
     (if writableBytes b + prependableBytes b < len + kPrePrePend then do {
        assertion (kPrePrePend \<le> readIndex b);
        let readable = readableBytes b;
        let moved = write_at kPrePrePend (between (readIndex b) (writeIndex b) (bufData b)) (bufData b);
        let w = kPrePrePend + readable;
        Some \<lparr>bufData = take (w + len) moved
                 @ replicate (w + len - length moved) (char_of (0::nat)),
              readIndex = kPrePrePend, writeIndex = w\<rparr> }
      else do {
        assertion (kPrePrePend \<le> readIndex b);
        let readable = readableBytes b;
        Some \<lparr>bufData = write_at kPrePrePend (between (readIndex b) (writeIndex b) (bufData b)) (bufData b),
              readIndex = kPrePrePend, writeIndex = kPrePrePend + readable\<rparr> })"

definition ensureWritableBytes :: "buffer \<Rightarrow> nat \<Rightarrow> buffer option" where
  "ensureWritableBytes b len = (if writableBytes b < len then makeSpace b len else Some b)"

definition hasWritten :: "buffer \<Rightarrow> nat \<Rightarrow> buffer" where
  "hasWritten b len = b\<lparr>writeIndex := writeIndex b + len\<rparr>"

definition Buffer_append :: "buffer \<Rightarrow> byte list \<Rightarrow> buffer option" where
  "Buffer_append b str = do {
     b1 \<leftarrow> ensureWritableBytes b (length str);
     assertion (beginWrite b1 + length str \<le> length (bufData b1));
     Some (hasWritten (b1\<lparr>bufData := write_at (beginWrite b1) str (bufData b1)\<rparr>) (length str)) }"

definition appendInt64 :: "buffer \<Rightarrow> 64 word \<Rightarrow> buffer option" where
  "appendInt64 b x = (let be64 = hostToNetwork64 x in Buffer_append b (mem_of be64))"

definition appendInt32 :: "buffer \<Rightarrow> 32 word \<Rightarrow> buffer option" where
  "appendInt32 b x = (let be32 = hostToNetwork32 x in Buffer_append b (mem_of be32))"

definition appendInt16 :: "buffer \<Rightarrow> 16 word \<Rightarrow> buffer option" where
  "appendInt16 b x = (let be16 = hostToNetwork16 x in Buffer_append b (mem_of be16))"

definition appendInt8 :: "buffer \<Rightarrow> 8 word \<Rightarrow> buffer option" where
  "appendInt8 b x = Buffer_append b (mem_of x)"

text \<open>\<^verbatim>\<open>memcpy(&x, peek(), n)\<close>: no check against \<^verbatim>\<open>writeIndex_\<close>, only the vector bounds the read.\<close>

definition peek_mem :: "buffer \<Rightarrow> nat \<Rightarrow> byte list option" where
  "peek_mem b n =
     (if Buffer_peek b + n \<le> length (bufData b)
      then Some (between (Buffer_peek b) (Buffer_peek b + n) (bufData b)) else None)"

definition peekInt64 :: "buffer \<Rightarrow> 64 word option" where
  "peekInt64 b = do { be64 \<leftarrow> peek_mem b 8; Some (networkToHost64 (of_mem be64)) }"

definition peekInt32 :: "buffer \<Rightarrow> 32 word option" where
  "peekInt32 b = do { be32 \<leftarrow> peek_mem b 4; Some (networkToHost32 (of_mem be32)) }"

definition peekInt16 :: "buffer \<Rightarrow> 16 word option" where
  "peekInt16 b = do { be16 \<leftarrow> peek_mem b 2; Some (networkToHost16 (of_mem be16)) }"

definition peekInt8 :: "buffer \<Rightarrow> 8 word option" where
  "peekInt8 b = do { be8 \<leftarrow> peek_mem b 1; Some (of_mem be8) }"

definition readInt64 :: "buffer \<Rightarrow> (64 word \<times> buffer) option" where
  "readInt64 b = do { result \<leftarrow> peekInt64 b; b' \<leftarrow> retrieve b 8; Some (result, b') }"

definition readInt32 :: "buffer \<Rightarrow> (32 word \<times> buffer) option" where
  "readInt32 b = do { result \<leftarrow> peekInt32 b; b' \<leftarrow> retrieve b 4; Some (result, b') }"

definition readInt16 :: "buffer \<Rightarrow> (16 word \<times> buffer) option" where
  "readInt16 b = do { result \<leftarrow> peekInt16 b; b' \<leftarrow> retrieve b 2; Some (result, b') }"

definition readInt8 :: "buffer \<Rightarrow> (8 word \<times> buffer) option" where
  "readInt8 b = do { result \<leftarrow> peekInt8 b; b' \<leftarrow> retrieve b 1; Some (result, b') }"

text \<open>\<^verbatim>\<open>prepend\<close> subtracts from the unsigned \<^verbatim>\<open>readIndex_\<close> without a check: with less room than
  \<open>len\<close> the index wraps and the copy leaves the vector.\<close>

definition prepend :: "buffer \<Rightarrow> byte list \<Rightarrow> buffer option" where
  "prepend b d = do {
     assertion (length d \<le> readIndex b);
     let r = readIndex b - length d;
     Some (b\<lparr>readIndex := r, bufData := write_at r d (bufData b)\<rparr>) }"

definition prependInt64 :: "buffer \<Rightarrow> 64 word \<Rightarrow> buffer option" where
  "prependInt64 b x = (let be64 = hostToNetwork64 x in prepend b (mem_of be64))"

definition prependInt32 :: "buffer \<Rightarrow> 32 word \<Rightarrow> buffer option" where
  "prependInt32 b x = (let be32 = hostToNetwork32 x in prepend b (mem_of be32))"

definition prependInt16 :: "buffer \<Rightarrow> 16 word \<Rightarrow> buffer option" where
  "prependInt16 b x = (let be16 = hostToNetwork16 x in prepend b (mem_of be16))"

definition prependInt8 :: "buffer \<Rightarrow> 8 word \<Rightarrow> buffer option" where
  "prependInt8 b x = prepend b (mem_of x)"

text \<open>\<^verbatim>\<open>readFd\<close>: the kernel's answer to \<^verbatim>\<open>readv\<close> is an argument, an \<^verbatim>\<open>errno\<close> or the bytes waiting on
  the descriptor, of which at most the room of the two \<^verbatim>\<open>iovec\<close>s is delivered. The result is the
  new buffer, the return value \<^verbatim>\<open>n\<close> (-1 on error) and \<^verbatim>\<open>*savedErrno\<close>.\<close>

datatype read_result = ReadErr nat | ReadBytes string

definition extraBuf_size :: nat where "extraBuf_size = 65536"

definition readv_room :: "buffer \<Rightarrow> nat" where
  "readv_room b =
     (if writableBytes b < extraBuf_size then writableBytes b + extraBuf_size else writableBytes b)"

definition readFd :: "buffer \<Rightarrow> read_result \<Rightarrow> (buffer \<times> int \<times> nat) option" where
  "readFd b answer =
     (case answer of
        ReadErr errno \<Rightarrow> Some (b, -1, errno)
      | ReadBytes pending \<Rightarrow>
          (let writable = writableBytes b;
               got = take (readv_room b) pending;
               n = length got;
               filled = b\<lparr>bufData := write_at (writeIndex b) (take writable got) (bufData b)\<rparr>
           in if n \<le> writable then Some (filled\<lparr>writeIndex := writeIndex b + n\<rparr>, int n, 0)
              else do {
                b' \<leftarrow> Buffer_append (filled\<lparr>writeIndex := length (bufData b)\<rparr>) (drop writable got);
                Some (b', int n, 0) }))"

text \<open>\<^verbatim>\<open>memmem\<close>: the first position where the needle occurs, counted from the start of the
  haystack.\<close>

primrec memmem :: "'a list \<Rightarrow> 'a list \<Rightarrow> nat option" where
  "memmem [] needle = (if needle = [] then Some 0 else None)"
| "memmem (x # xs) needle =
     (if prefix needle (x # xs) then Some 0 else map_option Suc (memmem xs needle))"

definition findSubString :: "buffer \<Rightarrow> string \<Rightarrow> nat option \<Rightarrow> nat option option" where
  "findSubString b searchString start = do {
     let startPlace = (case start of None \<Rightarrow> Buffer_peek b | Some p \<Rightarrow> p);
     assertion (Buffer_peek b \<le> startPlace);
     assertion (startPlace \<le> beginWrite b);
     Some (case memmem (between startPlace (beginWrite b) (bufData b)) searchString of
             None \<Rightarrow> None
           | Some k \<Rightarrow> if startPlace + k = beginWrite b then None else Some (startPlace + k)) }"

section \<open>Well-formedness and contents\<close>

text \<open>The picture of \<^verbatim>\<open>Buffer.h\<close>: \<^verbatim>\<open>0 <= readIndex <= writeIndex <= size\<close>, and the stronger
  form every operation but \<^verbatim>\<open>prepend\<close> keeps: the eight reserved bytes are still free.\<close>

definition buf_wf :: "buffer \<Rightarrow> bool" where
  "buf_wf b \<longleftrightarrow> readIndex b \<le> writeIndex b \<and> writeIndex b \<le> length (bufData b)
     \<and> kPrePrePend \<le> writeIndex b"

definition buf_inv :: "buffer \<Rightarrow> bool" where
  "buf_inv b \<longleftrightarrow> buf_wf b \<and> kPrePrePend \<le> readIndex b"

definition contents :: "buffer \<Rightarrow> string" where
  "contents b = between (readIndex b) (writeIndex b) (bufData b)"

lemmas buf_defs = buf_wf_def buf_inv_def contents_def readableBytes_def writableBytes_def
  prependableBytes_def Buffer_peek_def beginWrite_def hasWritten_def

lemma buf_inv_wf [intro]: "buf_inv b \<Longrightarrow> buf_wf b"
  by (simp add: buf_inv_def)

lemma length_contents [simp]: "buf_wf b \<Longrightarrow> length (contents b) = readableBytes b"
  by (simp add: buf_defs)

lemma length_contents_inv [simp]: "buf_inv b \<Longrightarrow> length (contents b) = readableBytes b"
  by (simp add: buf_inv_wf)

lemma Buffer_new_inv [simp, intro]: "buf_inv (Buffer_new n)"
  by (simp add: Buffer_new_def buf_defs kPrePrePend_def)

lemma Buffer_new_contents [simp]: "contents (Buffer_new n) = []"
  by (simp add: Buffer_new_def buf_defs)

lemma Buffer_bytes_contents: "buf_wf b \<Longrightarrow> Buffer_bytes b = contents b"
  by (simp add: Buffer_bytes_def buf_defs)

lemma BuffertoString_small:
  assumes "buf_wf b" "readableBytes b < 2 ^ 31"
  shows "BuffertoString b = Some (contents b)"
proof -
  have "readableBytes b mod 2 ^ 32 = readableBytes b" using assms(2) by (simp add: mod_less)
  then show ?thesis using assms Buffer_bytes_contents [of b] by (simp add: BuffertoString_def Buffer_bytes_def Let_def)
qed

lemma BuffertoString_stops:
  assumes "2 ^ 31 \<le> readableBytes b" "readableBytes b < 2 ^ 32"
  shows "BuffertoString b = None"
  using assms by (simp add: BuffertoString_def mod_less)

section \<open>Byte order\<close>

lemma length_mem_of [simp]: "length (mem_of (x :: 'a::len word)) = LENGTH('a) div 8"
  by (simp add: mem_of_def)

lemma of_mem_mem_of:
  assumes "8 dvd LENGTH('a)"
  shows "of_mem (mem_of (x :: 'a::len word)) = x"
proof -
  from assms have "(256::nat) ^ (LENGTH('a) div 8) = 2 ^ LENGTH('a)" by (simp add: power_256)
  then show ?thesis
    by (simp add: of_mem_def mem_of_def le_value_le_bytes)
qed

lemma mem_of_of_mem:
  assumes "8 * length bs = LENGTH('a)"
  shows "mem_of (of_mem bs :: 'a::len word) = bs"
proof -
  from assms have "le_value bs < 2 ^ LENGTH('a)" using le_value_less [of bs] by (simp add: power_256)
  moreover from assms have "LENGTH('a) div 8 = length bs" by simp
  ultimately show ?thesis
    by (simp add: of_mem_def mem_of_def unat_of_nat take_bit_nat_eq_self)
qed

lemma mem_of_byte_swap:
  "8 dvd LENGTH('a) \<Longrightarrow> mem_of (byte_swap (x :: 'a::len word)) = rev (mem_of x)"
  by (auto simp: byte_swap_def intro!: mem_of_of_mem)

lemma byte_swap_of_mem_rev:
  "8 dvd LENGTH('a) \<Longrightarrow> byte_swap (of_mem (rev (mem_of (x :: 'a::len word)))) = x"
  by (metis byte_swap_def mem_of_byte_swap of_mem_mem_of rev_rev_ident)

section \<open>Functional behaviour\<close>

lemma makeSpace_spec:
  assumes "buf_inv b"
  shows "\<exists>b'. makeSpace b len = Some b' \<and> buf_inv b' \<and> contents b' = contents b
    \<and> readIndex b' = kPrePrePend \<and> len \<le> writableBytes b'"
proof -
  let ?moved = "write_at kPrePrePend (between (readIndex b) (writeIndex b) (bufData b)) (bufData b)"
  have fits: "kPrePrePend + (writeIndex b - readIndex b) \<le> length (bufData b)"
    using assms by (auto simp: buf_defs)
  have len: "length ?moved = length (bufData b)"
    using assms fits by (simp add: buf_defs)
  have moved: "between kPrePrePend (kPrePrePend + readableBytes b) ?moved = contents b"
  proof -
    have "drop kPrePrePend ?moved = contents b @ drop (kPrePrePend + readableBytes b) (bufData b)"
      using assms fits by (subst drop_write_at) (auto simp: buf_defs)
    then show ?thesis using assms by (simp add: between_def)
  qed
  show ?thesis
  proof (cases "writableBytes b + prependableBytes b < len + kPrePrePend")
    case True
    have "length (bufData b) < kPrePrePend + readableBytes b + len"
      using True assms by (auto simp: buf_defs)
    then have grown: "take (kPrePrePend + readableBytes b + len) ?moved = ?moved"
      using len by simp
    have "between kPrePrePend (kPrePrePend + readableBytes b) (?moved @ zs) = contents b" for zs
      using moved len fits by (simp add: readableBytes_def)
    with True assms len grown fits show ?thesis
      by (auto simp: makeSpace_def Let_def buf_defs)
  next
    case False
    with assms len moved fits show ?thesis
      by (auto simp: makeSpace_def Let_def buf_defs)
  qed
qed

lemma makeSpace_stops: "readIndex b < kPrePrePend \<Longrightarrow> makeSpace b len = None"
  by (simp add: makeSpace_def)

lemma append_fits:
  assumes "buf_wf b" "length s \<le> writableBytes b"
  shows "\<exists>b'. Buffer_append b s = Some b' \<and> buf_wf b' \<and> contents b' = contents b @ s
    \<and> readIndex b' = readIndex b"
  using assms
  by (auto simp: Buffer_append_def ensureWritableBytes_def buf_defs between_write_at)

lemma append_spec:
  assumes "buf_inv b"
  shows "\<exists>b'. Buffer_append b s = Some b' \<and> buf_inv b' \<and> contents b' = contents b @ s"
proof (cases "writableBytes b < length s")
  case True
  obtain b1 where b1: "makeSpace b (length s) = Some b1" "buf_inv b1" "contents b1 = contents b"
    "length s \<le> writableBytes b1"
    using makeSpace_spec [OF assms] by blast
  from append_fits [of b1 s] b1 obtain b2 where b2: "Buffer_append b1 s = Some b2" "buf_wf b2"
    "contents b2 = contents b @ s" "readIndex b2 = readIndex b1" by auto
  from b1 b2 True have "Buffer_append b s = Some b2"
    by (auto simp: Buffer_append_def ensureWritableBytes_def)
  with b1 b2 show ?thesis by (auto simp: buf_inv_def)
next
  case False
  with append_fits [of b s] assms show ?thesis by (fastforce simp: buf_inv_def)
qed

lemma append_stops_iff:
  assumes "buf_wf b"
  shows "Buffer_append b s = None \<longleftrightarrow> writableBytes b < length s \<and> readIndex b < kPrePrePend"
proof (cases "kPrePrePend \<le> readIndex b")
  case True
  with assms append_spec [of b s] show ?thesis by (auto simp: buf_inv_def)
next
  case False
  show ?thesis
  proof (cases "writableBytes b < length s")
    case True
    with False show ?thesis
      by (simp add: Buffer_append_def ensureWritableBytes_def makeSpace_stops)
  next
    case False
    with append_fits [of b s] assms show ?thesis by auto
  qed
qed

lemma retrieve_spec:
  assumes "buf_wf b" "n \<le> readableBytes b"
  shows "\<exists>b'. retrieve b n = Some b' \<and> buf_wf b' \<and> contents b' = drop n (contents b)
    \<and> (buf_inv b \<longrightarrow> buf_inv b')"
proof (cases "n < readableBytes b")
  case True
  with assms show ?thesis
    by (auto simp: retrieve_def buf_defs between_shift)
next
  case False
  with assms have "drop n (contents b) = []" by simp
  with assms False show ?thesis
    by (auto simp: retrieve_def retrieveAll_def buf_defs)
qed

lemma retrieve_stops: "readableBytes b < n \<Longrightarrow> retrieve b n = None"
  by (simp add: retrieve_def)

lemma retrieveAll_spec:
  "buf_wf b \<Longrightarrow> buf_inv (retrieveAll b) \<and> contents (retrieveAll b) = []"
  by (auto simp: retrieveAll_def buf_defs)

lemma prepend_spec:
  assumes "buf_wf b" "length d \<le> prependableBytes b"
  shows "\<exists>b'. prepend b d = Some b' \<and> buf_wf b' \<and> contents b' = d @ contents b
    \<and> readIndex b' = readIndex b - length d"
proof -
  have "drop (readIndex b - length d) (write_at (readIndex b - length d) d (bufData b))
      = d @ drop (readIndex b) (bufData b)"
    using assms by (subst drop_write_at) (auto simp: buf_defs)
  then show ?thesis using assms
    by (auto simp: prepend_def Let_def buf_defs between_def)
qed

lemma readFd_spec:
  assumes "buf_inv b"
  shows "\<exists>b'. readFd b (ReadBytes s) = Some (b', int (length (take (readv_room b) s)), 0)
    \<and> buf_inv b' \<and> contents b' = contents b @ take (readv_room b) s"
proof -
  let ?got = "take (readv_room b) s"
  show ?thesis
  proof (cases "length ?got \<le> writableBytes b")
    case True
    then have "take (writableBytes b) ?got = ?got" by (rule take_all)
    moreover have "contents b @ ?got
      = between (readIndex b) (writeIndex b + length ?got) (write_at (writeIndex b) ?got (bufData b))"
      using assms True by (subst between_write_at) (auto simp: buf_defs simp del: length_take)
    ultimately show ?thesis using assms True
      by (auto simp: readFd_def Let_def buf_inv_def buf_wf_def contents_def writableBytes_def
          simp del: length_take take_take)
  next
    case False
    let ?f = "b\<lparr>bufData := write_at (writeIndex b) (take (writableBytes b) ?got) (bufData b),
      writeIndex := length (bufData b)\<rparr>"
    have lt: "length (take (writableBytes b) ?got) = writableBytes b" using False by simp
    have f: "buf_inv ?f" using assms lt by (auto simp: buf_defs simp del: length_take take_take)
    have "contents ?f = contents b @ take (writableBytes b) ?got"
      using assms lt between_write_at [of "readIndex b" "writeIndex b" "take (writableBytes b) ?got"]
      by (auto simp: buf_defs simp del: length_take take_take)
    with append_spec [OF f, of "drop (writableBytes b) ?got"] obtain b' where
      "Buffer_append ?f (drop (writableBytes b) ?got) = Some b'" "buf_inv b'"
      "contents b' = contents b @ ?got"
      by (auto simp del: take_take)
    with False show ?thesis
      by (auto simp: readFd_def Let_def simp del: length_take take_take)
  qed
qed

subsection \<open>Searching\<close>

lemma memmem_Some_iff:
  "memmem xs needle = Some k \<longleftrightarrow>
     k \<le> length xs \<and> prefix needle (drop k xs) \<and> (\<forall>j<k. \<not> prefix needle (drop j xs))"
proof (induction xs arbitrary: k)
  case Nil
  then show ?case by auto
next
  case (Cons x xs)
  show ?case
  proof (cases k)
    case 0
    then show ?thesis by (auto simp: map_option_case split: option.splits)
  next
    case (Suc k')
    have "(\<forall>j<Suc k'. \<not> prefix needle (drop j (x # xs))) \<longleftrightarrow>
      \<not> prefix needle (x # xs) \<and> (\<forall>j<k'. \<not> prefix needle (drop j xs))"
      by (auto simp: All_less_Suc2)
    with Suc Cons.IH [of k'] show ?thesis by auto
  qed
qed

lemma memmem_None_iff: "memmem xs needle = None \<longleftrightarrow> (\<forall>k\<le>length xs. \<not> prefix needle (drop k xs))"
proof (induction xs)
  case Nil
  then show ?case by auto
next
  case (Cons x xs)
  have "(\<forall>k\<le>length (x # xs). \<not> prefix needle (drop k (x # xs))) \<longleftrightarrow>
    \<not> prefix needle (x # xs) \<and> (\<forall>k\<le>length xs. \<not> prefix needle (drop k xs))"
    by (auto simp: less_Suc_eq_le [symmetric] All_less_Suc2 simp del: All_less_Suc)
  with Cons show ?case by auto
qed

lemma memmem_split:
  assumes "memmem xs needle = Some k"
  shows "xs = take k xs @ needle @ drop (k + length needle) xs" "k + length needle \<le> length xs"
proof -
  from assms obtain zs where z: "drop k xs = needle @ zs" and k: "k \<le> length xs"
    by (auto simp: memmem_Some_iff prefix_def)
  then have "drop (k + length needle) xs = zs"
    by (metis add.commute append_eq_conv_conj drop_drop)
  with z show "xs = take k xs @ needle @ drop (k + length needle) xs"
    by (metis append_take_drop_id)
  from z k show "k + length needle \<le> length xs"
    by (metis add_le_cancel_left le_add_diff_inverse length_append length_drop le_add1)
qed

lemma memmem_append_needle:
  "\<forall>j<length xs. \<not> prefix needle (drop j (xs @ needle @ ys)) \<Longrightarrow>
   memmem (xs @ needle @ ys) needle = Some (length xs)"
  by (auto simp: memmem_Some_iff)

lemma findSubString_peek:
  assumes "buf_wf b" "needle \<noteq> []"
  shows "findSubString b needle None
    = Some (map_option (\<lambda>k. readIndex b + k) (memmem (contents b) needle))"
proof -
  have "readIndex b + k \<noteq> writeIndex b" if k: "memmem (contents b) needle = Some k" for k
    using memmem_split(2) [OF k] assms by (cases needle) (auto simp: buf_defs)
  with assms show ?thesis
    by (auto simp: findSubString_def Let_def buf_defs split: option.splits)
qed

subsection \<open>Integers on the wire\<close>

lemma peek_mem_contents:
  assumes "buf_wf b" "n \<le> readableBytes b"
  shows "peek_mem b n = Some (take n (contents b))"
  using assms by (auto simp: peek_mem_def buf_defs between_take)

lemma wire_formats:
  "mem_of (hostToNetwork64 x8) = rev (le_bytes 8 (unat x8))"
  "mem_of (hostToNetwork32 x4) = rev (le_bytes 4 (unat x4))"
  "mem_of (hostToNetwork16 x2) = rev (le_bytes 2 (unat x2))"
  by (simp_all add: hostToNetwork64_def hostToNetwork32_def hostToNetwork16_def mem_of_byte_swap)
    (simp_all add: mem_of_def)

lemma network_host_inverse:
  "networkToHost64 (of_mem (mem_of (hostToNetwork64 x8))) = x8"
  "networkToHost32 (of_mem (mem_of (hostToNetwork32 x4))) = x4"
  "networkToHost16 (of_mem (mem_of (hostToNetwork16 x2))) = x2"
  by (simp_all add: networkToHost64_def networkToHost32_def networkToHost16_def
      hostToNetwork64_def hostToNetwork32_def hostToNetwork16_def mem_of_byte_swap
      byte_swap_of_mem_rev)

lemma peekInt_front:
  assumes "buf_wf b"
  shows "contents b = mem_of (hostToNetwork64 x8) @ rest \<Longrightarrow> peekInt64 b = Some x8"
    and "contents b = mem_of (hostToNetwork32 x4) @ rest \<Longrightarrow> peekInt32 b = Some x4"
    and "contents b = mem_of (hostToNetwork16 x2) @ rest \<Longrightarrow> peekInt16 b = Some x2"
    and "contents b = mem_of (x1 :: 8 word) @ rest \<Longrightarrow> peekInt8 b = Some x1"
proof -
  have len: "length (contents b) = readableBytes b" using assms by simp
  show "contents b = mem_of (hostToNetwork64 x8) @ rest \<Longrightarrow> peekInt64 b = Some x8"
    using len peek_mem_contents [OF assms, of 8]
    by (simp add: peekInt64_def network_host_inverse)
  show "contents b = mem_of (hostToNetwork32 x4) @ rest \<Longrightarrow> peekInt32 b = Some x4"
    using len peek_mem_contents [OF assms, of 4]
    by (simp add: peekInt32_def network_host_inverse)
  show "contents b = mem_of (hostToNetwork16 x2) @ rest \<Longrightarrow> peekInt16 b = Some x2"
    using len peek_mem_contents [OF assms, of 2]
    by (simp add: peekInt16_def network_host_inverse)
  show "contents b = mem_of (x1 :: 8 word) @ rest \<Longrightarrow> peekInt8 b = Some x1"
    using len peek_mem_contents [OF assms, of 1]
    by (simp add: peekInt8_def of_mem_mem_of)
qed

section \<open>The contract of a byte queue\<close>

text \<open>What the clients of \<^verbatim>\<open>Buffer\<close> rely on: a queue of bytes that grows at the back and shrinks at
  the front and never stops on a legal call.\<close>

locale byte_queue =
  fixes inv :: "'b \<Rightarrow> bool"
    and view :: "'b \<Rightarrow> string"
    and push :: "'b \<Rightarrow> string \<Rightarrow> 'b option"
    and pop :: "'b \<Rightarrow> nat \<Rightarrow> 'b option"
  assumes push_ok: "inv b \<Longrightarrow> \<exists>b'. push b s = Some b' \<and> inv b' \<and> view b' = view b @ s"
    and pop_ok: "inv b \<Longrightarrow> n \<le> length (view b) \<Longrightarrow>
      \<exists>b'. pop b n = Some b' \<and> inv b' \<and> view b' = drop n (view b)"
    and pop_stops: "inv b \<Longrightarrow> length (view b) < n \<Longrightarrow> pop b n = None"
begin

lemma push_all:
  assumes "inv b"
  shows "\<exists>b'. foldo (\<lambda>s b. push b s) ss b = Some b' \<and> inv b' \<and> view b' = view b @ concat ss"
  using assms
proof (induction ss arbitrary: b)
  case (Cons s ss)
  obtain b1 where "push b s = Some b1" "inv b1" "view b1 = view b @ s"
    using push_ok [OF Cons.prems] by blast
  with Cons.IH [of b1] show ?case by auto
qed simp

lemma pop_all:
  assumes "inv b" "sum_list ns \<le> length (view b)"
  shows "\<exists>b'. foldo (\<lambda>n b. pop b n) ns b = Some b' \<and> inv b' \<and> view b' = drop (sum_list ns) (view b)"
  using assms
proof (induction ns arbitrary: b)
  case (Cons n ns)
  have "n \<le> length (view b)" using Cons.prems by simp
  then obtain b1 where b1: "pop b n = Some b1" "inv b1" "view b1 = drop n (view b)"
    using pop_ok [OF Cons.prems(1)] by blast
  moreover have "sum_list ns \<le> length (view b1)" using Cons.prems b1 by simp
  ultimately show ?case using Cons.IH [of b1] by (auto simp: add.commute)
qed simp

text \<open>First in, first out: whatever the chunks were, popping as many bytes as an earlier push
  leaves exactly the later ones.\<close>

lemma push_pop_fifo:
  assumes "inv b" "push b s = Some b1" "push b1 t = Some b2"
  shows "\<exists>b'. pop b2 (length (view b @ s)) = Some b' \<and> inv b' \<and> view b' = t"
proof -
  obtain c1 where "push b s = Some c1" "inv c1" "view c1 = view b @ s"
    using push_ok [OF assms(1)] by blast
  with assms(2) have b1: "inv b1" "view b1 = view b @ s" by auto
  obtain c2 where "push b1 t = Some c2" "inv c2" "view c2 = view b1 @ t"
    using push_ok [OF b1(1)] by blast
  with assms(3) b1 have b2: "inv b2" "view b2 = (view b @ s) @ t" by auto
  then show ?thesis using pop_ok [OF b2(1), of "length (view b @ s)"] by auto
qed

lemma pop_Some:
  assumes "inv b" "pop b n = Some b'"
  shows "n \<le> length (view b)" "inv b'" "view b' = drop n (view b)"
proof -
  show n: "n \<le> length (view b)" using assms pop_stops [of b n] by fastforce
  show "inv b'" "view b' = drop n (view b)" using assms pop_ok [OF assms(1) n] by auto
qed

lemma push_Some:
  assumes "inv b" "push b s = Some b'"
  shows "inv b'" "view b' = view b @ s"
  using push_ok [OF assms(1), of s] assms(2) by auto

end

interpretation bq: byte_queue buf_inv contents Buffer_append retrieve
proof unfold_locales
  fix b :: buffer and s n
  assume b: "buf_inv b"
  show "\<exists>b'. Buffer_append b s = Some b' \<and> buf_inv b' \<and> contents b' = contents b @ s"
    using b by (rule append_spec)
  show "n \<le> length (contents b) \<Longrightarrow>
      \<exists>b'. retrieve b n = Some b' \<and> buf_inv b' \<and> contents b' = drop n (contents b)"
    using b retrieve_spec [of b n] by fastforce
  show "length (contents b) < n \<Longrightarrow> retrieve b n = None"
    using b by (simp add: retrieve_stops)
qed

section \<open>Runs of buffer operations\<close>

text \<open>The state-changing public operations as data, so that a client's use of a buffer is a list.\<close>

datatype buffer_op =
    OpAppend string
  | OpAppendInt64 "64 word" | OpAppendInt32 "32 word" | OpAppendInt16 "16 word" | OpAppendInt8 "8 word"
  | OpPrepend string
  | OpPrependInt64 "64 word" | OpPrependInt32 "32 word" | OpPrependInt16 "16 word" | OpPrependInt8 "8 word"
  | OpRetrieve nat
  | OpRetrieveUntil nat
  | OpRetrieveAll
  | OpRetrieveAsString nat
  | OpRetrieveAllAsString
  | OpReadInt64 | OpReadInt32 | OpReadInt16 | OpReadInt8
  | OpEnsureWritable nat
  | OpHasWritten nat
  | OpSwap buffer
  | OpReadFd read_result

fun buffer_step :: "buffer_op \<Rightarrow> buffer \<Rightarrow> buffer option" where
  "buffer_step (OpAppend s) b = Buffer_append b s"
| "buffer_step (OpAppendInt64 x) b = appendInt64 b x"
| "buffer_step (OpAppendInt32 x) b = appendInt32 b x"
| "buffer_step (OpAppendInt16 x) b = appendInt16 b x"
| "buffer_step (OpAppendInt8 x) b = appendInt8 b x"
| "buffer_step (OpPrepend s) b = prepend b s"
| "buffer_step (OpPrependInt64 x) b = prependInt64 b x"
| "buffer_step (OpPrependInt32 x) b = prependInt32 b x"
| "buffer_step (OpPrependInt16 x) b = prependInt16 b x"
| "buffer_step (OpPrependInt8 x) b = prependInt8 b x"
| "buffer_step (OpRetrieve n) b = retrieve b n"
| "buffer_step (OpRetrieveUntil p) b = retrieveUntil b p"
| "buffer_step OpRetrieveAll b = Some (retrieveAll b)"
| "buffer_step (OpRetrieveAsString n) b = map_option snd (retrieveAsString b n)"
| "buffer_step OpRetrieveAllAsString b = map_option snd (retrieveAllAsString b)"
| "buffer_step OpReadInt64 b = map_option snd (readInt64 b)"
| "buffer_step OpReadInt32 b = map_option snd (readInt32 b)"
| "buffer_step OpReadInt16 b = map_option snd (readInt16 b)"
| "buffer_step OpReadInt8 b = map_option snd (readInt8 b)"
| "buffer_step (OpEnsureWritable n) b = ensureWritableBytes b n"
| "buffer_step (OpHasWritten n) b = Some (hasWritten b n)"
| "buffer_step (OpSwap rhs) b = Some (fst (Buffer_swap b rhs))"
| "buffer_step (OpReadFd r) b = map_option fst (readFd b r)"

text \<open>Two operations have no check of their own and leave one to the caller: \<^verbatim>\<open>hasWritten\<close> is for bytes the caller has
  put behind \<^verbatim>\<open>beginWrite()\<close>, of which there can be at most \<^verbatim>\<open>writableBytes()\<close>, and \<^verbatim>\<open>swap\<close> takes the other buffer as it
  is. \<open>keeps_contract\<close> says a run respects this at the point where each operation happens.\<close>

fun op_contract :: "buffer_op \<Rightarrow> buffer \<Rightarrow> bool" where
  "op_contract (OpHasWritten n) b \<longleftrightarrow> n \<le> writableBytes b"
| "op_contract (OpSwap rhs) b \<longleftrightarrow> buf_wf rhs"
| "op_contract _ b \<longleftrightarrow> True"

primrec keeps_contract :: "buffer_op list \<Rightarrow> buffer \<Rightarrow> bool" where
  "keeps_contract [] b \<longleftrightarrow> True"
| "keeps_contract (op # ops) b \<longleftrightarrow> op_contract op b
     \<and> (case buffer_step op b of None \<Rightarrow> True | Some b' \<Rightarrow> keeps_contract ops b')"

lemma makeSpace_Some_wf:
  assumes "buf_wf b" "makeSpace b n = Some b'"
  shows "buf_wf b'"
proof (cases "kPrePrePend \<le> readIndex b")
  case True
  with assms makeSpace_spec [of b n] show ?thesis by (auto simp: buf_inv_def)
next
  case False
  with assms show ?thesis by (simp add: makeSpace_stops)
qed

lemma append_Some_wf:
  assumes "buf_wf b" "Buffer_append b s = Some b'"
  shows "buf_wf b'"
proof (cases "writableBytes b < length s")
  case True
  with assms append_stops_iff [of b s] append_spec [of b s] show ?thesis by (auto simp: buf_inv_def)
next
  case False
  with assms append_fits [of b s] show ?thesis by auto
qed

lemma retrieve_Some_wf:
  assumes "buf_wf b" "retrieve b n = Some b'"
  shows "buf_wf b'"
proof -
  from assms(2) have "n \<le> readableBytes b" by (auto simp: retrieve_def)
  with assms retrieve_spec [of b n] show ?thesis by auto
qed

lemma readFd_Some_wf:
  assumes "buf_wf b" "readFd b r = Some (b', n, e)"
  shows "buf_wf b'"
proof (cases r)
  case (ReadErr x)
  with assms show ?thesis by (simp add: readFd_def)
next
  case (ReadBytes s)
  let ?got = "take (readv_room b) s"
  let ?f = "b\<lparr>bufData := write_at (writeIndex b) (take (writableBytes b) ?got) (bufData b)\<rparr>"
  have len: "length (bufData ?f) = length (bufData b)"
    using assms(1) by (auto intro!: length_write_at simp: buf_wf_def writableBytes_def)
  show ?thesis
  proof (cases "length ?got \<le> writableBytes b")
    case True
    then have "b' = ?f\<lparr>writeIndex := writeIndex b + length ?got\<rparr>"
      using assms(2) ReadBytes by (auto simp: readFd_def Let_def)
    with True len assms(1) show ?thesis by (auto simp: buf_wf_def writableBytes_def)
  next
    case False
    then have "Buffer_append (?f\<lparr>writeIndex := length (bufData b)\<rparr>) (drop (writableBytes b) ?got)
        = Some b'"
      using assms(2) ReadBytes by (auto simp: readFd_def Let_def elim!: bind_eq_SomeE)
    moreover have "buf_wf (?f\<lparr>writeIndex := length (bufData b)\<rparr>)"
      using len assms(1) by (auto simp: buf_wf_def)
    ultimately show ?thesis by (metis append_Some_wf)
  qed
qed

lemma prepend_Some_wf:
  assumes "buf_wf b" "prepend b d = Some b'"
  shows "buf_wf b'"
proof -
  have "length d \<le> prependableBytes b" using assms(2) by (auto simp: prepend_def prependableBytes_def)
  with assms prepend_spec [of b d] show ?thesis by auto
qed

lemma retrieveAsString_Some_wf:
  assumes "buf_wf b" "retrieveAsString b n = Some (x, b')"
  shows "buf_wf b'"
  using assms by (auto simp: retrieveAsString_def Let_def elim!: bind_eq_SomeE intro: retrieve_Some_wf)

lemma buffer_step_wf:
  assumes "buf_wf b" "op_contract op b" "buffer_step op b = Some b'"
  shows "buf_wf b'"
proof (cases op)
  case (OpReadFd r)
  with assms show ?thesis by (auto intro: readFd_Some_wf)
next
  case OpRetrieveAll
  with assms show ?thesis using retrieveAll_spec [of b] by auto
next
  case (OpHasWritten n)
  with assms show ?thesis by (auto simp: buf_defs)
next
  case (OpSwap rhs)
  with assms show ?thesis by (auto simp: Buffer_swap_def buf_wf_def)
qed (use assms in \<open>auto simp: appendInt64_def appendInt32_def appendInt16_def appendInt8_def Let_def
    prependInt64_def prependInt32_def prependInt16_def prependInt8_def retrieveAllAsString_def
    retrieveUntil_def ensureWritableBytes_def readInt64_def readInt32_def readInt16_def readInt8_def
    split: if_splits elim!: bind_eq_SomeE
    intro: append_Some_wf prepend_Some_wf retrieve_Some_wf retrieveAsString_Some_wf makeSpace_Some_wf\<close>)

lemma run_wf:
  assumes "buf_wf b" "keeps_contract ops b" "foldo buffer_step ops b = Some b'"
  shows "buf_wf b'"
  using assms
proof (induction ops arbitrary: b)
  case (Cons op ops)
  then obtain b1 where b1: "buffer_step op b = Some b1" "foldo buffer_step ops b1 = Some b'"
    by (auto elim!: bind_eq_SomeE)
  with Cons.prems have "buf_wf b1" by (auto intro: buffer_step_wf)
  with Cons b1 show ?case by simp
qed simp

section \<open>Properties\<close>



text \<open>C6. A buffer is a first-in first-out queue of bytes: any sequence of appends to a new buffer, of
  whatever initial size, followed by \<^verbatim>\<open>retrieveAllAsString\<close> returns the appended bytes in order and
  leaves the buffer empty; nothing stops on the way, however often the vector has to grow.\<close>

theorem buffer_fifo:
  "\<exists>b b'. foldo (\<lambda>s b. Buffer_append b s) chunks (Buffer_new initialSize) = Some b
     \<and> retrieveAllAsString b = Some (concat chunks, b') \<and> readableBytes b' = 0"
proof -
  obtain b where b: "foldo (\<lambda>s b. Buffer_append b s) chunks (Buffer_new initialSize) = Some b"
    "buf_inv b" "contents b = concat chunks"
    using bq.push_all [OF Buffer_new_inv] by fastforce
  obtain b' where b': "retrieve b (readableBytes b) = Some b'" "buf_wf b'" "contents b' = []"
    using retrieve_spec [of b "readableBytes b"] b(2) by auto
  have "retrieveAllAsString b = Some (concat chunks, b')"
    using b b' Buffer_bytes_contents [of b]
    by (auto simp: retrieveAllAsString_def retrieveAsString_def Buffer_bytes_def Let_def)
  moreover have "readableBytes b' = 0" using b' by (metis length_contents list.size(3))
  ultimately show ?thesis using b by blast
qed

text \<open>\<^verbatim>\<open>append\<close> stops the process exactly when the data does not fit behind \<^verbatim>\<open>writeIndex\<close> and part
  of the reserved space has been used by \<^verbatim>\<open>prepend\<close> before: both branches of \<^verbatim>\<open>makeSpace\<close> assert
  \<^verbatim>\<open>kPrePrePend <= readIndex_\<close>.\<close>

lemma buffer_append_stops_iff:
  assumes "buf_wf b"
  shows "Buffer_append b s = None \<longleftrightarrow> writableBytes b < length s \<and> prependableBytes b < kPrePrePend"
  using append_stops_iff [OF assms] by (simp add: prependableBytes_def)

lemma buffer_append_stops_iff_witness:
  "\<exists>b. prepend (Buffer_new 2) ''abcd'' = Some b
     \<and> (Buffer_append b ''xyz'' = None
        \<longleftrightarrow> writableBytes b < length ''xyz'' \<and> prependableBytes b < kPrePrePend)
     \<and> Buffer_append b ''xyz'' = None"
proof -
  obtain b where b: "prepend (Buffer_new 2) ''abcd'' = Some b" "buf_wf b" "readIndex b = 4"
    using prepend_spec [of "Buffer_new 2" "''abcd''"]
    by (auto simp: Buffer_new_def buf_wf_def prependableBytes_def kPrePrePend_def)
  moreover have "writableBytes b < length ''xyz''"
    using b(1) by (auto simp: prepend_def Buffer_new_def writableBytes_def kPrePrePend_def Let_def)
  ultimately show ?thesis
    using buffer_append_stops_iff [OF b(2), of "''xyz''"]
    by (auto simp: prependableBytes_def kPrePrePend_def)
qed

text \<open>C18. The integer operations agree: what \<^verbatim>\<open>appendInt64/32/16/8\<close> put behind an empty buffer is read
  back unchanged, signs included, by \<^verbatim>\<open>readInt64/32/16/8\<close>, leaving the buffer empty.\<close>

theorem buffer_int_roundtrip:
  assumes "buf_inv b" "readableBytes b = 0"
  shows "do { b \<leftarrow> appendInt64 b x8; b \<leftarrow> appendInt32 b x4; b \<leftarrow> appendInt16 b x2; b \<leftarrow> appendInt8 b x1;
              (y8, b) \<leftarrow> readInt64 b; (y4, b) \<leftarrow> readInt32 b; (y2, b) \<leftarrow> readInt16 b; (y1, b) \<leftarrow> readInt8 b;
              Some (y8, y4, y2, y1, readableBytes b) }
         = Some (x8, x4, x2, x1, 0)"
proof -
  have c0: "contents b = []" using assms by (metis length_0_conv length_contents_inv)
  obtain b1 where b1: "appendInt64 b x8 = Some b1" "buf_inv b1" "contents b1 = mem_of (hostToNetwork64 x8)"
    using append_spec [OF assms(1)] c0 by (fastforce simp: appendInt64_def)
  obtain b2 where b2: "appendInt32 b1 x4 = Some b2" "buf_inv b2"
    "contents b2 = contents b1 @ mem_of (hostToNetwork32 x4)"
    using append_spec [OF b1(2)] by (fastforce simp: appendInt32_def)
  obtain b3 where b3: "appendInt16 b2 x2 = Some b3" "buf_inv b3"
    "contents b3 = contents b2 @ mem_of (hostToNetwork16 x2)"
    using append_spec [OF b2(2)] by (fastforce simp: appendInt16_def)
  obtain b4 where b4: "appendInt8 b3 x1 = Some b4" "buf_inv b4" "contents b4 = contents b3 @ mem_of x1"
    using append_spec [OF b3(2)] by (fastforce simp: appendInt8_def)
  have r4: "contents b4 = mem_of (hostToNetwork64 x8) @ mem_of (hostToNetwork32 x4)
      @ mem_of (hostToNetwork16 x2) @ mem_of x1"
    using b1 b2 b3 b4 by simp
  obtain c1 where c1: "retrieve b4 8 = Some c1" "buf_inv c1"
    "contents c1 = mem_of (hostToNetwork32 x4) @ mem_of (hostToNetwork16 x2) @ mem_of x1"
    using bq.pop_ok [OF b4(2), of 8] r4 by auto
  obtain c2 where c2: "retrieve c1 4 = Some c2" "buf_inv c2"
    "contents c2 = mem_of (hostToNetwork16 x2) @ mem_of x1"
    using bq.pop_ok [OF c1(2), of 4] c1 by auto
  obtain c3 where c3: "retrieve c2 2 = Some c3" "buf_inv c3" "contents c3 = mem_of x1"
    using bq.pop_ok [OF c2(2), of 2] c2 by auto
  obtain c4 where c4: "retrieve c3 1 = Some c4" "buf_inv c4" "contents c4 = []"
    using bq.pop_ok [OF c3(2), of 1] c3 by auto
  have "readableBytes c4 = 0" using c4 by (metis length_contents_inv list.size(3))
  then show ?thesis
    using b1 b2 b3 b4 c1 c2 c3 c4 r4 peekInt_front(1) [OF buf_inv_wf [OF b4(2)] r4]
      peekInt_front(2) [OF buf_inv_wf [OF c1(2)] c1(3)] peekInt_front(3) [OF buf_inv_wf [OF c2(2)] c2(3)]
      peekInt_front(4) [OF buf_inv_wf [OF c3(2)], of x1 "[]"]
    by (simp add: readInt64_def readInt32_def readInt16_def readInt8_def)
qed

theorem buffer_int_roundtrip_witness:
  "do { b \<leftarrow> appendInt64 (Buffer_new 4) (-2); b \<leftarrow> appendInt32 b 7; b \<leftarrow> appendInt16 b (-1); b \<leftarrow> appendInt8 b 255;
        (y8, b) \<leftarrow> readInt64 b; (y4, b) \<leftarrow> readInt32 b; (y2, b) \<leftarrow> readInt16 b; (y1, b) \<leftarrow> readInt8 b;
        Some (y8, y4, y2, y1, readableBytes b) }
   = Some (-2, 7, -1, 255, 0)"
proof -
  have "readableBytes (Buffer_new 4) = 0" by (simp add: Buffer_new_def readableBytes_def)
  then show ?thesis by (rule buffer_int_roundtrip [OF Buffer_new_inv])
qed

text \<open>C19. \<^verbatim>\<open>readFd\<close> delivers the bytes waiting on the socket in order: it takes as many as fit behind
  \<^verbatim>\<open>writeIndex\<close> plus, when that room is below 64 KiB, another 64 KiB through the stack buffer, and
  appends exactly those to the readable bytes; its return value is their number.\<close>

theorem buffer_readFd_delivers:
  assumes "buf_inv b"
  shows "\<exists>b'. readFd b (ReadBytes pending) = Some (b', int (length (take (readv_room b) pending)), 0)
    \<and> buf_inv b' \<and> contents b' = contents b @ take (readv_room b) pending
    \<and> extraBuf_size \<le> readv_room b"
  using readFd_spec [OF assms, of pending] by (auto simp: readv_room_def)

theorem buffer_readFd_delivers_witness:
  "\<exists>b'. readFd (Buffer_new 2) (ReadBytes ''hello'')
      = Some (b', int (length (take (readv_room (Buffer_new 2)) ''hello'')), 0)
    \<and> buf_inv b' \<and> contents b' = contents (Buffer_new 2) @ take (readv_room (Buffer_new 2)) ''hello''
    \<and> extraBuf_size \<le> readv_room (Buffer_new 2)"
  by (rule buffer_readFd_delivers [OF Buffer_new_inv])

end
