(* ===== verification/Codec.thy ===== *)
theory Codec
  imports Buffer
begin

text \<open>
  \<^verbatim>\<open>examples/chat/ChatCodec.h\<close>: the length-prefixed message codec. Encoding builds the frame in a
  buffer (append the message, prepend its length); decoding runs on the input buffer of a
  connection each time bytes arrive. The message callback is observed as the list of messages it is
  called with, \<^verbatim>\<open>conn->forceClose()\<close> as a flag.
\<close>

definition kHeaderLen :: nat where "kHeaderLen = 4"

function codec_onMessage :: "buffer \<Rightarrow> (string list \<times> bool \<times> buffer) option" where
  "codec_onMessage buf =
     (if kHeaderLen \<le> readableBytes buf then do {
        len \<leftarrow> peekInt32 buf;
        if sint len > 65535 \<or> sint len < 0 then Some ([], True, buf)
        else if nat (sint len) + kHeaderLen \<le> readableBytes buf then do {
          b1 \<leftarrow> retrieve buf kHeaderLen;
          let message = between (Buffer_peek b1) (Buffer_peek b1 + nat (sint len)) (bufData b1);
          b2 \<leftarrow> retrieve b1 (nat (sint len));
          (messages, closed, b3) \<leftarrow> codec_onMessage b2;
          Some (message # messages, closed, b3) }
        else Some ([], False, buf) }
      else Some ([], False, buf))"
  by pat_completeness auto

lemma retrieve_readable:
  "retrieve b n = Some b' \<Longrightarrow> readableBytes b' = readableBytes b - n"
  by (auto simp: retrieve_def retrieveAll_def readableBytes_def split: if_splits)

termination codec_onMessage
proof (relation "measure readableBytes")
  fix buf b1 b2 :: buffer and len :: "32 word" and message :: string
  assume "kHeaderLen \<le> readableBytes buf" "retrieve buf kHeaderLen = Some b1"
    "retrieve b1 (nat (sint len)) = Some b2"
  then show "(b2, buf) \<in> measure readableBytes"
    by (auto dest!: retrieve_readable simp: kHeaderLen_def)
qed auto

declare codec_onMessage.simps [simp del]

text \<open>\<^verbatim>\<open>send\<close>: the buffer handed to \<^verbatim>\<open>conn->send(&buf)\<close>.\<close>

definition codec_send :: "string \<Rightarrow> buffer option" where
  "codec_send message = do {
     let buf = Buffer_new kInitalSize;
     buf \<leftarrow> Buffer_append buf message;
     let len = (word_of_nat (length message) :: 32 word);
     prependInt32 buf len }"

section \<open>Framing\<close>

definition frame :: "string \<Rightarrow> string" where
  "frame m = mem_of (hostToNetwork32 (word_of_nat (length m))) @ m"

lemma length_frame [simp]: "length (frame m) = 4 + length m"
  by (simp add: frame_def)

lemma sint_length: "n \<le> 65535 \<Longrightarrow> sint (word_of_nat n :: 32 word) = int n"
  by (simp add: signed_take_bit_int_eq_self_iff sint_uint unsigned_of_nat take_bit_nat_eq_self_iff
      signed_of_nat take_bit_nat_def)

lemma peekInt32_frame:
  assumes "buf_inv b" "kHeaderLen \<le> readableBytes b" "contents b @ rest = frame m @ later"
  shows "peekInt32 b = Some (word_of_nat (length m))"
proof -
  have len: "4 \<le> length (contents b)"
    using assms(2) length_contents_inv [OF assms(1)] by (simp add: kHeaderLen_def)
  have "take 4 (contents b @ rest) = take 4 (frame m @ later)" using assms(3) by simp
  with len have "take 4 (contents b) = mem_of (hostToNetwork32 (word_of_nat (length m)))"
    by (simp add: frame_def)
  then have "contents b = mem_of (hostToNetwork32 (word_of_nat (length m))) @ drop 4 (contents b)"
    using append_take_drop_id [of 4 "contents b"] by simp
  then show ?thesis using peekInt_front(2) [OF buf_inv_wf [OF assms(1)]] by blast
qed

text \<open>One call of \<^verbatim>\<open>onMessage\<close> on a prefix of a well-formed stream delivers exactly the messages whose
  frames have arrived completely.\<close>

lemma codec_onMessage_prefix:
  assumes "buf_inv b" "contents b @ rest = concat (map frame msgs)"
    and "\<forall>m\<in>set msgs. length m \<le> 65535"
  shows "\<exists>k b'. k \<le> length msgs \<and> codec_onMessage b = Some (take k msgs, False, b') \<and> buf_inv b'
    \<and> contents b' @ rest = concat (map frame (drop k msgs))
    \<and> (k < length msgs \<longrightarrow> length (contents b') < length (frame (msgs ! k)))"
  using assms
proof (induction msgs arbitrary: b)
  case Nil
  then have "contents b = []" by simp
  with Nil have "\<not> kHeaderLen \<le> readableBytes b"
    using length_contents_inv [OF Nil(1)] by (simp add: kHeaderLen_def)
  with Nil show ?case by (auto simp: codec_onMessage.simps [of b])
next
  case (Cons m ms)
  have lenm: "length m \<le> 65535" using Cons.prems by simp
  have rd: "readableBytes b = length (contents b)" using Cons.prems by simp
  have split: "contents b @ rest = frame m @ concat (map frame ms)" using Cons.prems by simp
  show ?case
  proof (cases "length (contents b) < length (frame m)")
    case True
    have "codec_onMessage b = Some ([], False, b)"
    proof (cases "kHeaderLen \<le> readableBytes b")
      case hd: True
      with True rd lenm peekInt32_frame [OF Cons.prems(1) hd split] show ?thesis
        by (simp add: codec_onMessage.simps [of b] sint_length kHeaderLen_def)
    qed (simp add: codec_onMessage.simps [of b])
    with True Cons.prems show ?thesis by (intro exI [of _ 0] exI [of _ b]) auto
  next
    case False
    then have hd: "kHeaderLen \<le> readableBytes b" by (simp add: rd kHeaderLen_def)
    have c: "contents b = frame m @ drop (length (frame m)) (contents b)"
      using split False by (metis append_eq_append_conv_if append_take_drop_id not_less)
    obtain b1 where b1: "retrieve b kHeaderLen = Some b1" "buf_inv b1"
      "contents b1 = m @ drop (length (frame m)) (contents b)"
    proof -
      obtain b1 where b1: "retrieve b kHeaderLen = Some b1" "buf_inv b1"
        "contents b1 = drop kHeaderLen (contents b)"
        using bq.pop_ok [OF Cons.prems(1), of kHeaderLen] hd rd by auto
      have "drop kHeaderLen (contents b) = m @ drop (length (frame m)) (contents b)"
        by (subst c) (simp add: frame_def kHeaderLen_def)
      with b1 that show ?thesis by simp
    qed
    have msg: "between (Buffer_peek b1) (Buffer_peek b1 + length m) (bufData b1) = m"
    proof -
      have "length m \<le> readableBytes b1"
        using b1 by (metis length_append length_contents_inv le_add1)
      then have "between (Buffer_peek b1) (Buffer_peek b1 + length m) (bufData b1)
          = take (length m) (contents b1)"
        by (auto simp: buf_defs intro!: between_take)
      then show ?thesis using b1(3) by simp
    qed
    obtain b2 where b2: "retrieve b1 (length m) = Some b2" "buf_inv b2"
      "contents b2 = drop (length (frame m)) (contents b)"
      using bq.pop_ok [OF b1(2), of "length m"] b1(3) by auto
    have "contents b2 @ rest = concat (map frame ms)"
      using split c b2(3) by (metis append_assoc same_append_eq)
    with Cons.IH [OF b2(2)] Cons.prems obtain k b' where k: "k \<le> length ms"
      "codec_onMessage b2 = Some (take k ms, False, b')" "buf_inv b'"
      "contents b' @ rest = concat (map frame (drop k ms))"
      "k < length ms \<longrightarrow> length (contents b') < length (frame (ms ! k))"
      by auto
    have "nat (int (length m)) + kHeaderLen \<le> readableBytes b"
      using False rd by (simp add: kHeaderLen_def)
    then have "codec_onMessage b = Some (m # take k ms, False, b')"
      using hd b1 b2 k lenm msg peekInt32_frame [OF Cons.prems(1) hd split]
      by (simp add: codec_onMessage.simps [of b] sint_length Let_def)
    with k show ?thesis by (intro exI [of _ "Suc k"] exI [of _ b']) auto
  qed
qed

text \<open>Feeding the chunks a TCP stream happens to deliver, one \<^verbatim>\<open>onMessage\<close> call per chunk.\<close>

fun feed :: "string list \<Rightarrow> buffer \<Rightarrow> (string list \<times> bool \<times> buffer) option" where
  "feed [] b = Some ([], False, b)"
| "feed (c # cs) b = do {
     b1 \<leftarrow> Buffer_append b c;
     (ms, closed, b2) \<leftarrow> codec_onMessage b1;
     if closed then Some (ms, True, b2)
     else do { (ms', closed', b3) \<leftarrow> feed cs b2; Some (ms @ ms', closed', b3) } }"

lemma feed_stream:
  assumes "buf_inv b" "contents b @ concat chunks = concat (map frame msgs)"
    and "\<forall>m\<in>set msgs. length m \<le> 65535"
    and "msgs \<noteq> [] \<longrightarrow> length (contents b) < length (frame (hd msgs))"
  shows "\<exists>b'. feed chunks b = Some (msgs, False, b') \<and> buf_inv b' \<and> contents b' = []"
  using assms
proof (induction chunks arbitrary: b msgs)
  case Nil
  then have "msgs = []" by (cases msgs) auto
  with Nil show ?case by simp
next
  case (Cons c cs)
  obtain b1 where b1: "Buffer_append b c = Some b1" "buf_inv b1" "contents b1 = contents b @ c"
    using append_spec [OF Cons.prems(1)] by blast
  then have "contents b1 @ concat cs = concat (map frame msgs)" using Cons.prems(2) by simp
  from codec_onMessage_prefix [OF b1(2) this Cons.prems(3)] obtain k b2 where
    k: "k \<le> length msgs" "codec_onMessage b1 = Some (take k msgs, False, b2)" "buf_inv b2"
    "contents b2 @ concat cs = concat (map frame (drop k msgs))"
    "k < length msgs \<longrightarrow> length (contents b2) < length (frame (msgs ! k))" by blast
  have "\<forall>m\<in>set (drop k msgs). length m \<le> 65535"
    using Cons.prems(3) by (metis in_set_dropD)
  moreover have "drop k msgs \<noteq> [] \<longrightarrow> length (contents b2) < length (frame (hd (drop k msgs)))"
    using k by (simp add: hd_drop_conv_nth)
  ultimately obtain b' where "feed cs b2 = Some (drop k msgs, False, b')" "buf_inv b'" "contents b' = []"
    using Cons.IH [OF k(3,4)] by blast
  with b1 k show ?case by simp
qed

lemma codec_send_frame:
  "\<exists>b. codec_send m = Some b \<and> buf_wf b \<and> contents b = frame m"
proof -
  obtain b1 where b1: "Buffer_append (Buffer_new kInitalSize) m = Some b1" "buf_inv b1" "contents b1 = m"
    using append_spec [OF Buffer_new_inv] by fastforce
  have "4 \<le> prependableBytes b1" using b1(2) by (simp add: buf_defs kPrePrePend_def)
  then obtain b where "prepend b1 (mem_of (hostToNetwork32 (word_of_nat (length m)))) = Some b"
    "buf_wf b" "contents b = mem_of (hostToNetwork32 (word_of_nat (length m))) @ contents b1"
    using prepend_spec [OF buf_inv_wf [OF b1(2)],
        of "mem_of (hostToNetwork32 (word_of_nat (length m)))"] by auto
  with b1 show ?thesis
    by (auto simp: codec_send_def prependInt32_def frame_def Let_def)
qed

section \<open>The contract of a framing\<close>

text \<open>What the users of a codec rely on: a message leaves as its frame, and receiving takes every frame that is whole off the front of a
  stream of frames.\<close>

locale framing =
  fixes send :: "string \<Rightarrow> buffer option"
    and receive :: "buffer \<Rightarrow> (string list \<times> bool \<times> buffer) option"
    and enframe :: "string \<Rightarrow> string"
    and limit :: nat
  assumes send_frame: "\<exists>b. send m = Some b \<and> Buffer_bytes b = enframe m"
    and receive_prefix: "buf_inv b \<Longrightarrow> contents b @ rest = concat (map enframe msgs) \<Longrightarrow> \<forall>m\<in>set msgs. length m \<le> limit \<Longrightarrow>
      \<exists>k b'. k \<le> length msgs \<and> receive b = Some (take k msgs, False, b') \<and> buf_inv b'
        \<and> contents b' @ rest = concat (map enframe (drop k msgs))
        \<and> (k < length msgs \<longrightarrow> length (contents b') < length (enframe (msgs ! k)))"
begin

text \<open>More of a stream arrives when its first \<open>k\<close> messages are through: some more messages come out, and what is left in the buffer is
  again the beginning of the next frame.\<close>

lemma advance:
  assumes "buf_inv b" "got = concat (map enframe (take k ms)) @ contents b" "k \<le> length ms"
    and "got @ bytes @ rest = concat (map enframe ms)" "\<forall>m\<in>set ms. length m \<le> limit"
  shows "\<exists>b1 j b2. Buffer_append b bytes = Some b1 \<and> receive b1 = Some (take j (drop k ms), False, b2) \<and> buf_inv b2
    \<and> k + j \<le> length ms \<and> got @ bytes = concat (map enframe (take (k + j) ms)) @ contents b2
    \<and> (k + j < length ms \<longrightarrow> length (contents b2) < length (enframe (ms ! (k + j))))"
proof -
  obtain b1 where b1: "Buffer_append b bytes = Some b1" "buf_inv b1" "contents b1 = contents b @ bytes"
    using append_spec [OF assms(1)] by blast
  have "concat (map enframe ms) = concat (map enframe (take k ms)) @ concat (map enframe (drop k ms))"
    by (simp flip: concat_append map_append)
  then have "contents b1 @ rest = concat (map enframe (drop k ms))" using assms(2,4) b1(3) by simp
  moreover have "\<forall>m\<in>set (drop k ms). length m \<le> limit" using assms(5) by (metis in_set_dropD)
  ultimately obtain j b2 where j: "j \<le> length (drop k ms)" "receive b1 = Some (take j (drop k ms), False, b2)" "buf_inv b2"
    "contents b2 @ rest = concat (map enframe (drop j (drop k ms)))"
    "j < length (drop k ms) \<longrightarrow> length (contents b2) < length (enframe (drop k ms ! j))"
    using receive_prefix [OF b1(2)] by blast
  have "(concat (map enframe (take (k + j) ms)) @ contents b2) @ rest = concat (map enframe ms)"
    using j(4) by (simp add: drop_drop add.commute flip: concat_append map_append)
  then have "got @ bytes = concat (map enframe (take (k + j) ms)) @ contents b2"
    using assms(4) by (metis append_assoc append_same_eq)
  with b1(1) j assms(3) show ?thesis by auto
qed

end

interpretation lh: framing codec_send codec_onMessage frame 65535
proof
  show "\<exists>b. codec_send m = Some b \<and> Buffer_bytes b = frame m" for m
    using codec_send_frame [of m] Buffer_bytes_contents by force
qed (rule codec_onMessage_prefix)

section \<open>Properties\<close>

text \<open>C7. Whatever the codec sends is what the codec at the other end delivers: messages of up to 65535
  bytes, encoded by \<^verbatim>\<open>send\<close> one after the other, are handed to the message callback unchanged and in
  order, however the byte stream is cut into chunks; the connection is not closed and no byte is left
  over.\<close>

theorem codec_stream_roundtrip:
  assumes "\<forall>m\<in>set msgs. length m \<le> 65535"
    and "concat chunks = concat (map (\<lambda>m. Buffer_bytes (the (codec_send m))) msgs)"
  shows "\<exists>b'. feed chunks (Buffer_new kInitalSize) = Some (msgs, False, b') \<and> readableBytes b' = 0"
proof -
  have "Buffer_bytes (the (codec_send m)) = frame m" for m
    using codec_send_frame [of m] Buffer_bytes_contents by force
  then have "contents (Buffer_new kInitalSize) @ concat chunks = concat (map frame msgs)"
    using assms(2) by simp
  from feed_stream [OF Buffer_new_inv this assms(1)] obtain b' where
    "feed chunks (Buffer_new kInitalSize) = Some (msgs, False, b')" "buf_inv b'" "contents b' = []"
    by auto
  then show ?thesis by (metis length_contents_inv list.size(3))
qed

theorem codec_stream_roundtrip_witness:
  "\<exists>b'. feed [take 5 (concat (map (\<lambda>m. Buffer_bytes (the (codec_send m))) [''hi'', '''', ''abc''])),
      drop 5 (concat (map (\<lambda>m. Buffer_bytes (the (codec_send m))) [''hi'', '''', ''abc'']))]
      (Buffer_new kInitalSize) = Some ([''hi'', '''', ''abc''], False, b') \<and> readableBytes b' = 0"
  by (rule codec_stream_roundtrip) (simp_all only: concat.simps append_Nil2 append_take_drop_id,
      simp_all)

text \<open>A length field that is negative or above 65535 stops decoding: \<^verbatim>\<open>forceClose\<close> is called, no
  message is delivered and the buffer is left as it is.\<close>

lemma codec_invalid_length_closes:
  assumes "buf_inv b" "contents b = mem_of (hostToNetwork32 x) @ rest"
    and "sint x < 0 \<or> 65535 < sint x"
  shows "codec_onMessage b = Some ([], True, b)"
proof -
  have "peekInt32 b = Some x" using peekInt_front(2) assms by blast
  moreover have "kHeaderLen \<le> readableBytes b"
    using length_contents_inv [OF assms(1)] assms(2) by (simp add: kHeaderLen_def)
  ultimately show ?thesis using assms(3) by (auto simp: codec_onMessage.simps [of b])
qed

end
