(* ===== verification/StdMap.thy ===== *)
theory StdMap
  imports Prelude "HOL-Library.List_Lexorder" "HOL-Library.Char_ord"
begin

text \<open>
  \<^verbatim>\<open>std::map\<close>, as far as the sources use it: a sequence of key/value pairs in increasing key order,
  which is the order a range-based \<^verbatim>\<open>for\<close> visits. Strings compare bytewise, as
  \<^verbatim>\<open>std::char_traits<char>\<close> does. The locale \<open>ordered_map\<close> is the contract (what a lookup returns
  after an insertion or an erasure, and that iteration stays sorted).
\<close>

type_synonym ('k, 'v) std_map = "('k \<times> 'v) list"

primrec map_find :: "('k, 'v) std_map \<Rightarrow> 'k \<Rightarrow> 'v option" where
  "map_find [] k = None"
| "map_find (e # m) k = (if fst e = k then Some (snd e) else map_find m k)"

text \<open>\<^verbatim>\<open>m[k] = v\<close>.\<close>

primrec map_put :: "('k::linorder, 'v) std_map \<Rightarrow> 'k \<Rightarrow> 'v \<Rightarrow> ('k, 'v) std_map" where
  "map_put [] k v = [(k, v)]"
| "map_put (e # m) k v =
     (if k < fst e then (k, v) # e # m
      else if k = fst e then (k, v) # m
      else e # map_put m k v)"

text \<open>\<^verbatim>\<open>m.erase(k)\<close>, whose result is the number of erased elements.\<close>

definition map_erase :: "('k, 'v) std_map \<Rightarrow> 'k \<Rightarrow> nat \<times> ('k, 'v) std_map" where
  "map_erase m k = (length (filter (\<lambda>e. fst e = k) m), filter (\<lambda>e. fst e \<noteq> k) m)"

definition map_sorted :: "('k::linorder, 'v) std_map \<Rightarrow> bool" where
  "map_sorted m \<longleftrightarrow> sorted_wrt (<) (map fst m)"

lemma map_sorted_Nil [simp]: "map_sorted []"
  by (simp add: map_sorted_def)

lemma map_sorted_Cons [simp]:
  "map_sorted (e # m) \<longleftrightarrow> (\<forall>k\<in>fst ` set m. fst e < k) \<and> map_sorted m"
  by (auto simp: map_sorted_def)

lemma map_find_map_of: "map_find m = map_of m"
proof
  show "map_find m k = map_of m k" for k by (induction m) auto
qed

lemma fst_map_put: "fst ` set (map_put m k v) = insert k (fst ` set m)"
  by (induction m) auto

lemma map_put_sorted: "map_sorted m \<Longrightarrow> map_sorted (map_put m k v)"
  by (induction m) (auto simp: fst_map_put simp flip: image_iff)

lemma map_find_put [simp]: "map_find (map_put m k v) k' = (if k = k' then Some v else map_find m k')"
  by (induction m) auto

lemma map_find_None_iff: "map_find m k = None \<longleftrightarrow> k \<notin> fst ` set m"
  by (simp add: map_find_map_of map_of_eq_None_iff)

lemma map_find_Some_in: "map_find m k = Some v \<Longrightarrow> (k, v) \<in> set m"
  by (simp add: map_find_map_of map_of_SomeD)

lemma map_erase_sorted: "map_sorted m \<Longrightarrow> map_sorted (snd (map_erase m k))"
  by (induction m) (auto simp: map_erase_def)

lemma map_find_erase [simp]:
  "map_find (snd (map_erase m k)) k' = (if k = k' then None else map_find m k')"
  by (induction m) (auto simp: map_erase_def)

lemma map_erase_count:
  "map_sorted m \<Longrightarrow> fst (map_erase m k) = (if map_find m k = None then 0 else 1)"
proof (induction m)
  case (Cons e m)
  then show ?case by (auto simp: map_erase_def map_find_None_iff filter_empty_conv image_iff)
qed (simp add: map_erase_def)

lemma map_put_last:
  "\<forall>x\<in>set m. fst x < k \<Longrightarrow> map_put m k v = m @ [(k, v)]"
  by (induction m) auto

lemma map_sorted_append:
  "map_sorted (m @ n) \<longleftrightarrow> map_sorted m \<and> map_sorted n \<and> (\<forall>x\<in>set m. \<forall>y\<in>set n. fst x < fst y)"
  by (induction m) auto

text \<open>Inserting the entries of a sorted sequence one after the other rebuilds the sequence.\<close>

lemma map_put_rebuild:
  "map_sorted (acc @ m) \<Longrightarrow> foldl (\<lambda>a e. map_put a (fst e) (snd e)) acc m = acc @ m"
proof (induction m arbitrary: acc)
  case (Cons e m)
  have "map_put acc (fst e) (snd e) = acc @ [e]"
    using Cons.prems map_put_last [of acc "fst e" "snd e"] by (simp add: map_sorted_append)
  with Cons.IH [of "acc @ [e]"] Cons.prems show ?case by simp
qed simp

lemma map_sorted_distinct: "map_sorted m \<Longrightarrow> distinct (map fst m)"
  by (induction m) (auto simp: image_iff)

lemma map_in_find: "map_sorted m \<Longrightarrow> (k, v) \<in> set m \<Longrightarrow> map_find m k = Some v"
  by (simp add: map_find_map_of map_sorted_distinct)

lemma map_update_keys [simp]:
  "map_sorted (map (\<lambda>e. (fst e, f e)) m) \<longleftrightarrow> map_sorted m"
  by (induction m) (auto simp: image_image)

locale ordered_map =
  fixes inv :: "'m \<Rightarrow> bool"
    and entries :: "'m \<Rightarrow> ('k::linorder \<times> 'v) list"
    and find :: "'m \<Rightarrow> 'k \<Rightarrow> 'v option"
    and put :: "'m \<Rightarrow> 'k \<Rightarrow> 'v \<Rightarrow> 'm"
    and erase :: "'m \<Rightarrow> 'k \<Rightarrow> nat \<times> 'm"
  assumes put_inv: "inv m \<Longrightarrow> inv (put m k v)"
    and erase_inv: "inv m \<Longrightarrow> inv (snd (erase m k))"
    and find_put: "inv m \<Longrightarrow> find (put m k v) k' = (if k = k' then Some v else find m k')"
    and find_erase: "inv m \<Longrightarrow> find (snd (erase m k)) k' = (if k = k' then None else find m k')"
    and erase_count: "inv m \<Longrightarrow> fst (erase m k) = (if find m k = None then 0 else 1)"
    and find_entries: "inv m \<Longrightarrow> find m = map_of (entries m)"
    and entries_sorted: "inv m \<Longrightarrow> sorted_wrt (<) (map fst (entries m))"
begin

lemma erase_present: "inv m \<Longrightarrow> find m k = Some v \<Longrightarrow> fst (erase m k) = 1"
  by (simp add: erase_count)

lemma put_erase_find: "inv m \<Longrightarrow> find (snd (erase (put m k v) k)) = (find m)(k := None)"
  by (rule ext) (simp add: find_erase find_put put_inv)

lemma entries_unique:
  assumes "inv m" "inv n" "find m = find n"
  shows "entries m = entries n"
proof -
  have "map_of (entries m) = map_of (entries n)" using assms find_entries by metis
  moreover have "distinct (map fst (entries m))" "distinct (map fst (entries n))"
    using assms entries_sorted by (auto simp: strict_sorted_iff)
  ultimately have "set (entries m) = set (entries n)"
    by (metis map_of_inject_set)
  moreover have "sorted (map fst (entries m))" "sorted (map fst (entries n))"
    using assms entries_sorted by (auto simp: strict_sorted_iff)
  ultimately show ?thesis
    using \<open>distinct (map fst (entries m))\<close> \<open>distinct (map fst (entries n))\<close>
    by (intro map_sorted_distinct_set_unique [where f = fst]) (auto simp: distinct_map)
qed

end

interpretation sm: ordered_map map_sorted "\<lambda>m. m" map_find map_put map_erase
  by unfold_locales
    (auto simp: map_put_sorted map_erase_sorted map_erase_count map_find_map_of [symmetric]
      simp flip: map_sorted_def)

end
