(* ===== verification/Doubles.thy ===== *)
theory Doubles
  imports Prelude
begin

text \<open>
  The arithmetic of the type \<^verbatim>\<open>double\<close> (IEEE 754 binary64, rounding to nearest, ties to even), as the source uses it in
  \<^verbatim>\<open>pallette/Timestamp.h\<close> and \<^verbatim>\<open>pallette/StatElapseTime.h\<close>. A finite double is the rational number it stands for, and an operation
  is the exact operation followed by \<open>nearest_double\<close>. Numbers of magnitude \<open>2 ^ 1024\<close> and more, where a double is infinite,
  are not represented.
\<close>

section \<open>Rounding\<close>

definition round_even :: "rat \<Rightarrow> int" where
  "round_even y =
     (let f = \<lfloor>y\<rfloor>; r = y - rat_of_int f
      in if r < 1 / 2 then f else if r > 1 / 2 then f + 1 else if even f then f else f + 1)"

text \<open>A positive number is scaled until 53 binary digits are left of the point: up by at most 1074 places, the last of which
  a subnormal number has, or down by at most 971.\<close>

primrec scale_up :: "nat \<Rightarrow> rat \<Rightarrow> rat \<times> nat" where
  "scale_up 0 x = (x, 0)"
| "scale_up (Suc n) x = (if x < 2 ^ 52 then (case scale_up n (2 * x) of (y, e) \<Rightarrow> (y, e + 1)) else (x, 0))"

primrec scale_down :: "nat \<Rightarrow> rat \<Rightarrow> rat \<times> nat" where
  "scale_down 0 x = (x, 0)"
| "scale_down (Suc n) x = (if 2 ^ 53 \<le> x then (case scale_down n (x / 2) of (y, e) \<Rightarrow> (y, e + 1)) else (x, 0))"

definition nearest_double :: "rat \<Rightarrow> rat" where
  "nearest_double x =
     (if x = 0 then 0
      else if \<bar>x\<bar> < 2 ^ 53 then (case scale_up 1074 \<bar>x\<bar> of (y, e) \<Rightarrow> sgn x * (rat_of_int (round_even y) / 2 ^ e))
      else (case scale_down 971 \<bar>x\<bar> of (y, e) \<Rightarrow> sgn x * (rat_of_int (round_even y) * 2 ^ e)))"

text \<open>\<^verbatim>\<open>static_cast<int64_t>\<close> of a double drops the fraction.\<close>

definition truncate :: "rat \<Rightarrow> int" where
  "truncate x = (if 0 \<le> x then \<lfloor>x\<rfloor> else - \<lfloor>- x\<rfloor>)"

section \<open>The error of rounding\<close>

lemma round_even_error: "\<bar>rat_of_int (round_even y) - y\<bar> \<le> 1 / 2"
proof -
  have "rat_of_int \<lfloor>y\<rfloor> \<le> y" "y < rat_of_int \<lfloor>y\<rfloor> + 1" by linarith+
  then show ?thesis unfolding round_even_def Let_def by (auto simp: abs_le_iff)
qed

lemma round_even_nonneg: "0 \<le> y \<Longrightarrow> 0 \<le> round_even y"
  by (auto simp: round_even_def Let_def)

lemma round_even_int [simp]: "round_even (rat_of_int k) = k"
  by (simp add: round_even_def)

lemma round_even_eq:
  assumes "\<bar>y - rat_of_int f\<bar> < 1 / 2"
  shows "round_even y = f"
proof -
  have "\<bar>rat_of_int (round_even y - f)\<bar> < 1" using round_even_error [of y] assms unfolding of_int_diff by linarith
  then show ?thesis by (simp only: of_int_abs [symmetric] of_int_less_1_iff)
qed

lemma scale_up_spec:
  "0 < x \<Longrightarrow> x < 2 ^ 53 \<Longrightarrow> scale_up n x = (y, e) \<Longrightarrow> y = x * 2 ^ e \<and> e \<le> n \<and> y < 2 ^ 53 \<and> (2 ^ 52 \<le> y \<or> e = n)"
proof (induction n arbitrary: x y e)
  case (Suc n)
  show ?case
  proof (cases "x < 2 ^ 52")
    case True
    with Suc.prems obtain d where d: "scale_up n (2 * x) = (y, d)" "e = Suc d" by (auto split: prod.splits)
    show ?thesis using Suc.IH [OF _ _ d(1)] Suc.prems(1) True d(2) by auto
  qed (use Suc.prems in simp)
qed simp

lemma scale_up_eq:
  assumes "0 < x" "2 ^ 52 \<le> x * 2 ^ e" "x * 2 ^ e < 2 ^ 53" "e \<le> n"
  shows "scale_up n x = (x * 2 ^ e, e)"
  using assms
proof (induction e arbitrary: n x)
  case 0
  then show ?case by (cases n) simp_all
next
  case (Suc e)
  then obtain m where m: "n = Suc m" "e \<le> m" by (cases n) simp_all
  have "x * 2 ^ e < 2 ^ 52" using Suc.prems(3) by simp
  moreover have "x \<le> x * 2 ^ e" using Suc.prems(1) by simp
  ultimately have "x < 2 ^ 52" by linarith
  moreover have "scale_up m (2 * x) = (2 * x * 2 ^ e, e)"
    using Suc.IH [of "2 * x" m] Suc.prems m by (simp add: mult.commute mult.left_commute)
  ultimately show ?case using m by (simp add: mult.commute mult.left_commute)
qed

lemma scale_down_spec:
  "2 ^ 52 \<le> x \<Longrightarrow> scale_down n x = (y, e) \<Longrightarrow> y = x / 2 ^ e \<and> 2 ^ 52 \<le> y"
proof (induction n arbitrary: x y e)
  case (Suc n)
  show ?case
  proof (cases "2 ^ 53 \<le> x")
    case True
    with Suc.prems obtain d where d: "scale_down n (x / 2) = (y, d)" "e = Suc d" by (auto split: prod.splits)
    show ?thesis using Suc.IH [OF _ d(1)] True d(2) by simp
  qed (use Suc.prems in simp)
qed simp

lemma nearest_double_0 [simp]: "nearest_double 0 = 0"
  by (simp add: nearest_double_def)

lemma nearest_double_minus: "nearest_double (- x) = - nearest_double x"
  by (auto simp: nearest_double_def sgn_minus split: prod.split)

lemma nearest_double_nonneg: "0 \<le> x \<Longrightarrow> 0 \<le> nearest_double x"
proof (cases "x = 0")
  case False
  assume "0 \<le> x"
  with False have x: "0 < x" by simp
  show ?thesis
  proof (cases "x < 2 ^ 53")
    case True
    obtain y e where s: "scale_up 1074 x = (y, e)" by fastforce
    then have "0 \<le> y" using scale_up_spec [OF x True s] x by simp
    then show ?thesis using x True s by (simp add: nearest_double_def round_even_nonneg)
  next
    case False
    obtain y e where s: "scale_down 971 x = (y, e)" by fastforce
    then have "0 \<le> y" using scale_down_spec [OF _ s] False by simp
    then show ?thesis using x False s by (simp add: nearest_double_def round_even_nonneg)
  qed
qed simp

text \<open>Half a unit in the last of 53 digits, for every number that is not subnormal.\<close>

lemma nearest_double_error_pos:
  assumes "1 / 2 ^ 1022 \<le> x"
  shows "\<bar>nearest_double x - x\<bar> \<le> x / 2 ^ 53"
proof -
  have x: "0 < x" using assms by (rule less_le_trans [rotated]) simp
  have half: "\<bar>rat_of_int (round_even y) - y\<bar> \<le> y / 2 ^ 53" if "2 ^ 52 \<le> y" for y
    using round_even_error [of y] that by simp
  show ?thesis
  proof (cases "x < 2 ^ 53")
    case True
    obtain y e where s: "scale_up 1074 x = (y, e)" by fastforce
    have y: "y = x * 2 ^ e" "2 ^ 52 \<le> y \<or> e = 1074" using scale_up_spec [OF x True s] by auto
    have "2 ^ 52 \<le> y"
      using y assms by (auto simp: field_simps simp flip: power_add)
    have "\<bar>nearest_double x - x\<bar> * 2 ^ e = \<bar>(nearest_double x - x) * 2 ^ e\<bar>" by (simp add: abs_mult)
    also have "(nearest_double x - x) * 2 ^ e = rat_of_int (round_even y) - y"
      using x True s y(1) by (simp add: nearest_double_def left_diff_distrib)
    also have "\<bar>\<dots>\<bar> \<le> x / 2 ^ 53 * 2 ^ e" using half [OF \<open>2 ^ 52 \<le> y\<close>] y(1) by simp
    finally show ?thesis by simp
  next
    case False
    obtain y e where s: "scale_down 971 x = (y, e)" by fastforce
    have y: "x = y * 2 ^ e" "2 ^ 52 \<le> y" using scale_down_spec [OF _ s] False by simp_all
    have "nearest_double x - x = (rat_of_int (round_even y) - y) * 2 ^ e"
      using x False s y by (auto simp: nearest_double_def left_diff_distrib)
    then have "\<bar>nearest_double x - x\<bar> = \<bar>rat_of_int (round_even y) - y\<bar> * 2 ^ e" by (simp add: abs_mult)
    also have "\<dots> \<le> y / 2 ^ 53 * 2 ^ e" using half [OF y(2)] by (intro mult_right_mono) simp_all
    finally show ?thesis using y(1) by simp
  qed
qed

lemma nearest_double_error:
  assumes "x = 0 \<or> 1 / 2 ^ 1022 \<le> \<bar>x\<bar>"
  shows "\<bar>nearest_double x - x\<bar> \<le> \<bar>x\<bar> / 2 ^ 53"
  using assms nearest_double_error_pos [of "\<bar>x\<bar>"] nearest_double_minus [of x]
  by (cases "0 \<le> x") (auto simp: abs_minus_commute)

text \<open>Whole numbers of up to 53 digits are doubles.\<close>

lemma nearest_double_int:
  assumes "\<bar>k\<bar> < 2 ^ 53"
  shows "nearest_double (rat_of_int k) = rat_of_int k"
proof (cases "k = 0")
  case False
  let ?x = "\<bar>rat_of_int k\<bar>"
  have x: "0 < ?x" "?x < 2 ^ 53" using False assms by (simp_all flip: of_int_abs)
  obtain y e where s: "scale_up 1074 ?x = (y, e)" by fastforce
  have "y = rat_of_int (\<bar>k\<bar> * 2 ^ e)" using scale_up_spec [OF x s] by simp
  then have "rat_of_int (round_even y) / 2 ^ e = ?x" by (simp only: round_even_int) simp
  then show ?thesis using x s by (simp add: nearest_double_def sgn_if)
qed simp

lemma nearest_double_eq:
  assumes "0 < x" "2 ^ 52 \<le> x * 2 ^ e" "x * 2 ^ e < 2 ^ 53" "e \<le> 1074" "\<bar>x * 2 ^ e - rat_of_int f\<bar> < 1 / 2"
  shows "nearest_double x = rat_of_int f / 2 ^ e"
proof -
  have "x \<le> x * 2 ^ e" using assms(1) by simp
  with assms(3) have "x < 2 ^ 53" by linarith
  then show ?thesis using assms by (simp add: nearest_double_def scale_up_eq round_even_eq)
qed

lemma truncate_nonneg: "0 \<le> x \<Longrightarrow> 0 \<le> truncate x"
  by (simp add: truncate_def)

lemma truncate_minus: "truncate (- x) = - truncate x"
  by (auto simp: truncate_def)

end
