(* ===== verification/Timestamps.thy ===== *)
theory Timestamps
  imports Doubles
begin

text \<open>
  \<^verbatim>\<open>pallette/Timestamp.h\<close>: microseconds since the epoch, and \<^verbatim>\<open>pallette/operators.hpp\<close>, which derives its other comparisons. The
  64-bit count is an \<^typ>\<open>int\<close> (it reaches 292 thousand years). A \<^verbatim>\<open>double\<close> number of seconds is a \<^typ>\<open>rat\<close>, with the rounding
  of every operation as \<^verbatim>\<open>Doubles\<close> has it.
\<close>

section \<open>Derived comparisons\<close>

text \<open>The friends of \<^verbatim>\<open>less_than_comparable<T>\<close> and \<^verbatim>\<open>equality_comparable<T>\<close>, from \<^verbatim>\<open>operator<\<close> and \<^verbatim>\<open>operator==\<close> of \<^verbatim>\<open>T\<close>.\<close>

definition operator_greater :: "('t \<Rightarrow> 't \<Rightarrow> bool) \<Rightarrow> 't \<Rightarrow> 't \<Rightarrow> bool" where
  "operator_greater lt x y \<longleftrightarrow> lt y x"

definition operator_less_equal :: "('t \<Rightarrow> 't \<Rightarrow> bool) \<Rightarrow> 't \<Rightarrow> 't \<Rightarrow> bool" where
  "operator_less_equal lt x y \<longleftrightarrow> \<not> lt y x"

definition operator_greater_equal :: "('t \<Rightarrow> 't \<Rightarrow> bool) \<Rightarrow> 't \<Rightarrow> 't \<Rightarrow> bool" where
  "operator_greater_equal lt x y \<longleftrightarrow> \<not> lt x y"

definition operator_not_equal :: "('t \<Rightarrow> 't \<Rightarrow> bool) \<Rightarrow> 't \<Rightarrow> 't \<Rightarrow> bool" where
  "operator_not_equal eq x y \<longleftrightarrow> \<not> eq x y"

text \<open>What the two bases ask of the class: its \<^verbatim>\<open>operator<\<close> and \<^verbatim>\<open>operator==\<close> read one key of the object from a linear order. Then
  every derived operator is the comparison of the keys.\<close>

locale comparable =
  fixes lt eq :: "'t \<Rightarrow> 't \<Rightarrow> bool"
    and key :: "'t \<Rightarrow> 'k::linorder"
  assumes less_key: "lt x y \<longleftrightarrow> key x < key y"
    and equal_key: "eq x y \<longleftrightarrow> key x = key y"
begin

lemma derived:
  "operator_greater lt x y \<longleftrightarrow> key y < key x"
  "operator_less_equal lt x y \<longleftrightarrow> key x \<le> key y"
  "operator_greater_equal lt x y \<longleftrightarrow> key y \<le> key x"
  "operator_not_equal eq x y \<longleftrightarrow> key x \<noteq> key y"
  by (auto simp: operator_greater_def operator_less_equal_def operator_greater_equal_def operator_not_equal_def less_key equal_key)

lemma one_of_three:
  "lt x y \<or> eq x y \<or> operator_greater lt x y"
  "operator_less_equal lt x y \<longleftrightarrow> lt x y \<or> eq x y"
  by (auto simp: derived less_key equal_key)

end

section \<open>Timestamps\<close>

type_synonym Timestamp = int

definition kMicroSecondsPerSecond :: int where "kMicroSecondsPerSecond = 1000 * 1000"

definition kSecondsPerHour :: int where "kSecondsPerHour = 60 * 60"

definition Timestamp_valid :: "Timestamp \<Rightarrow> bool" where
  "Timestamp_valid t \<longleftrightarrow> t > 0"

definition getMicroSeconds :: "Timestamp \<Rightarrow> int" where
  "getMicroSeconds t = t"

definition Timestamp_invalid :: Timestamp where "Timestamp_invalid = 0"

definition getSeconds :: "Timestamp \<Rightarrow> int" where
  "getSeconds t = t sdiv kMicroSecondsPerSecond"

definition Timestamp_less :: "Timestamp \<Rightarrow> Timestamp \<Rightarrow> bool" where
  "Timestamp_less lhs rhs \<longleftrightarrow> getMicroSeconds lhs < getMicroSeconds rhs"

definition Timestamp_equal :: "Timestamp \<Rightarrow> Timestamp \<Rightarrow> bool" where
  "Timestamp_equal lhs rhs \<longleftrightarrow> getMicroSeconds lhs = getMicroSeconds rhs"

interpretation ts: comparable Timestamp_less Timestamp_equal getMicroSeconds
  by unfold_locales (simp_all add: Timestamp_less_def Timestamp_equal_def)

text \<open>The components write \<open><\<close> and \<open>\<le>\<close> of the count for these operators.\<close>

lemmas Timestamp_comparisons = Timestamp_less_def Timestamp_equal_def ts.derived getMicroSeconds_def

definition timeDifference :: "Timestamp \<Rightarrow> Timestamp \<Rightarrow> rat" where
  "timeDifference high low =
     (let diff = getMicroSeconds high - getMicroSeconds low
      in nearest_double (nearest_double (rat_of_int diff) / rat_of_int kMicroSecondsPerSecond))"

definition addTime :: "Timestamp \<Rightarrow> rat \<Rightarrow> Timestamp" where
  "addTime timestamp seconds =
     (let delta = truncate (nearest_double (seconds * rat_of_int kMicroSecondsPerSecond)) in getMicroSeconds timestamp + delta)"

text \<open>\<^verbatim>\<open>now()\<close> from the answer of \<^verbatim>\<open>gettimeofday\<close>.\<close>

definition Timestamp_now :: "int \<times> int \<Rightarrow> Timestamp" where
  "Timestamp_now tv = (case tv of (tv_sec, tv_usec) \<Rightarrow> tv_sec * kMicroSecondsPerSecond + tv_usec)"

definition Timestamp_toString :: "Timestamp \<Rightarrow> string" where
  "Timestamp_toString t =
     (let seconds = t sdiv kMicroSecondsPerSecond; microSeconds = t smod kMicroSecondsPerSecond
      in take 30 (dec_int seconds @ ''.'' @ pad0 6 (dec_int microSeconds)))"

lemma addTime_later: "0 < seconds \<Longrightarrow> timestamp \<le> addTime timestamp seconds"
  by (simp add: addTime_def kMicroSecondsPerSecond_def getMicroSeconds_def truncate_nonneg nearest_double_nonneg)

text \<open>The two roundings together stay below one microsecond for \<open>2 ^ 51\<close> microseconds, about 71 years, and the cast only
  drops: what comes back is the difference or one microsecond less.\<close>

lemma two_roundings:
  fixes d p :: rat
  assumes "d = 0 \<or> 1 \<le> d" "d < 2 ^ 51"
  defines "p \<equiv> nearest_double (nearest_double (d / 1000000) * 1000000)"
  shows "d - 1 < p" "p < d + 1"
proof -
  define a where "a = nearest_double (d / 1000000) * 1000000"
  have tiny: "1 / 2 ^ 1022 \<le> 1 / (2000000 :: rat)" by simp
  have normal: "d / 1000000 = 0 \<or> 1 / 2 ^ 1022 \<le> \<bar>d / 1000000\<bar>"
  proof (cases "d = 0")
    case False
    with assms(1) have "1 / 2000000 \<le> \<bar>d / 1000000\<bar>" by simp
    with tiny show ?thesis by (blast intro: order_trans)
  qed simp
  have "\<bar>d / 1000000\<bar> = d / 1000000" using assms(1) by auto
  with nearest_double_error [OF normal] have a: "\<bar>a - d\<bar> \<le> d / 2 ^ 53" by (simp add: a_def abs_le_iff field_simps)
  have "a = 0 \<or> 1 / 2000000 \<le> \<bar>a\<bar>" using a assms(1) by auto
  with tiny have "a = 0 \<or> 1 / 2 ^ 1022 \<le> \<bar>a\<bar>" by (blast intro: order_trans)
  then have "\<bar>p - a\<bar> \<le> \<bar>a\<bar> / 2 ^ 53" unfolding p_def a_def [symmetric] by (rule nearest_double_error)
  then have p: "\<bar>p - a\<bar> \<le> \<bar>a\<bar> / 9007199254740992" by simp
  have d: "0 \<le> d" "d < 2251799813685248" "\<bar>a - d\<bar> \<le> d / 9007199254740992" using a assms(1,2) by auto
  have "\<bar>a\<bar> \<le> 2 * d" using d(1,3) by linarith
  with p d have "\<bar>p - a\<bar> < 1 / 2" "\<bar>a - d\<bar> < 1 / 2" by linarith+
  then have "\<bar>p - d\<bar> < 1" by linarith
  then show "d - 1 < p" "p < d + 1" by (simp_all add: abs_less_iff)
qed

lemma truncate_near:
  assumes "rat_of_int d - 1 < p" "p < rat_of_int d + 1" "0 \<le> p"
  shows "truncate p \<in> {d - 1, d} \<and> 0 \<le> truncate p"
proof -
  have "d - 1 \<le> \<lfloor>p\<rfloor>" "\<lfloor>p\<rfloor> \<le> d" using assms(1,2) by (simp_all add: le_floor_iff floor_le_iff)
  then show ?thesis using assms(3) by (auto simp: truncate_def)
qed

lemma addTime_timeDifference_pos:
  assumes "0 \<le> d" "d < 2 ^ 51"
  shows "truncate (nearest_double (nearest_double (nearest_double (rat_of_int d) / 1000000) * 1000000)) \<in> {d - 1, d}
    \<and> 0 \<le> truncate (nearest_double (nearest_double (nearest_double (rat_of_int d) / 1000000) * 1000000))"
proof -
  have "rat_of_int d = 0 \<or> 1 \<le> rat_of_int d" "rat_of_int d < 2 ^ 51" using assms by auto
  note two = two_roundings [OF this]
  have "nearest_double (rat_of_int d) = rat_of_int d" using assms by (intro nearest_double_int) simp
  moreover have "0 \<le> nearest_double (nearest_double (rat_of_int d / 1000000) * 1000000)"
    using assms(1) by (simp add: nearest_double_nonneg)
  ultimately show ?thesis using truncate_near [OF two] by simp
qed

text \<open>C36. Differences of timestamps survive the detour over seconds in a double. For two moments less than \<open>2 ^ 51\<close> microseconds (71
  years) apart, adding their difference in seconds to the earlier one, or the later one, moves by the number of microseconds between
  them or by one less, and never past the other moment: the division and the multiplication by a million round, and the cast to an
  integer drops what is left.\<close>

theorem addTime_timeDifference:
  assumes "\<bar>high - low\<bar> < 2 ^ 51"
  shows "\<bar>addTime low (timeDifference high low) - low\<bar> \<in> {\<bar>high - low\<bar> - 1, \<bar>high - low\<bar>}
    \<and> \<bar>addTime low (timeDifference high low) - high\<bar> \<le> 1"
proof -
  let ?f = "\<lambda>d. truncate (nearest_double (nearest_double (nearest_double (rat_of_int d) / 1000000) * 1000000))"
  have eq: "addTime low (timeDifference high low) = low + ?f (high - low)"
    by (simp add: addTime_def timeDifference_def Let_def getMicroSeconds_def kMicroSecondsPerSecond_def)
  have minus: "?f (- d) = - ?f d" for d
    by (simp only: of_int_minus nearest_double_minus minus_divide_left [symmetric] mult_minus_left truncate_minus)
  show ?thesis
  proof (cases "low \<le> high")
    case True
    then show ?thesis using addTime_timeDifference_pos [of "high - low"] assms unfolding eq by auto
  next
    case False
    then show ?thesis using addTime_timeDifference_pos [of "low - high"] minus [of "low - high"] assms unfolding eq by auto
  qed
qed

theorem addTime_timeDifference_witness:
  "\<bar>249 - 0 :: int\<bar> < 2 ^ 51 \<and> \<bar>addTime 0 (timeDifference 249 0) - 0\<bar> \<in> {248, 249}
    \<and> \<bar>addTime 0 (timeDifference 249 0) - 249\<bar> \<le> 1"
  using addTime_timeDifference [of 249 0] by simp

end
