(* ===== verification/Http.thy ===== *)
theory Http
  imports Buffer StdMap Timestamps
begin

text \<open>
  \<^verbatim>\<open>pallette/http\<close>: the request object, the incremental request parser, the response and the
  server's message handler. A pair of pointers into the input buffer is the string between them.

  The parse loop of \<^verbatim>\<open>HttpContext::parseRequest\<close> can return, stop the process (an \<^verbatim>\<open>assert\<close>), leave
  by an exception of \<^verbatim>\<open>std::stoi\<close>, or run forever; the first three are the values of \<open>outcome\<close>, and
  the loop is a \<^theory_text>\<open>partial_function\<close> whose \<^const>\<open>None\<close> is the last.
\<close>

datatype 'a outcome = Returns 'a | Stops | Throws string



section \<open>HttpRequest.h\<close>

datatype Method = INVALID | GET | POST | HEAD | PUT | DELETE

datatype Version = UNKONOWN | HTTP10 | HTTP11

record HttpRequest =
  req_method :: Method
  req_version :: Version
  req_path :: string
  req_query :: string
  req_receiveTime :: Timestamp
  req_headers :: "(string, string) std_map"

definition HttpRequest_new :: HttpRequest where
  "HttpRequest_new = \<lparr>req_method = INVALID, req_version = UNKONOWN, req_path = '''', req_query = '''',
     req_receiveTime = 0, req_headers = []\<rparr>"

definition setVersion :: "HttpRequest \<Rightarrow> Version \<Rightarrow> HttpRequest" where [simp]:
  "setVersion r v = r\<lparr>req_version := v\<rparr>"

definition setPath :: "HttpRequest \<Rightarrow> string \<Rightarrow> HttpRequest" where [simp]:
  "setPath r p = r\<lparr>req_path := p\<rparr>"

definition setQuery :: "HttpRequest \<Rightarrow> string \<Rightarrow> HttpRequest" where [simp]:
  "setQuery r q = r\<lparr>req_query := q\<rparr>"

definition setReceiveTime :: "HttpRequest \<Rightarrow> Timestamp \<Rightarrow> HttpRequest" where [simp]:
  "setReceiveTime r t = r\<lparr>req_receiveTime := t\<rparr>"

definition setMethod :: "HttpRequest \<Rightarrow> string \<Rightarrow> (bool \<times> HttpRequest) option" where
  "setMethod r m = do {
     assertion (req_method r = INVALID);
     let meth = (if m = ''GET'' then GET else if m = ''POST'' then POST
                 else if m = ''HEAD'' then HEAD else if m = ''PUT'' then PUT
                 else if m = ''DELETE'' then DELETE else INVALID);
     Some (meth \<noteq> INVALID, r\<lparr>req_method := meth\<rparr>) }"

definition methodString :: "HttpRequest \<Rightarrow> string" where
  "methodString r = (case req_method r of GET \<Rightarrow> ''GET'' | POST \<Rightarrow> ''POST'' | HEAD \<Rightarrow> ''HEAD''
     | PUT \<Rightarrow> ''PUT'' | DELETE \<Rightarrow> ''DELETE'' | INVALID \<Rightarrow> ''UNKNOWN'')"

text \<open>\<^verbatim>\<open>isspace\<close> in the C locale.\<close>

definition isspace :: "char \<Rightarrow> bool" where
  "isspace c \<longleftrightarrow> of_char c \<in> {9, 10, 11, 12, 13, 32::nat}"

fun strip_back :: "string \<Rightarrow> string" where
  "strip_back value =
     (if value \<noteq> [] \<and> isspace (value ! (length value - 1))
      then strip_back (take (length value - 1) value) else value)"

declare strip_back.simps [simp del]

text \<open>\<^verbatim>\<open>addHeader(start, colon, end)\<close> on the line \<open>[start, end)\<close> with the colon at position \<open>colon\<close>.\<close>

definition HttpRequest_addHeader :: "HttpRequest \<Rightarrow> string \<Rightarrow> nat \<Rightarrow> HttpRequest" where
  "HttpRequest_addHeader r line colon =
     (let field = take colon line;
          value = strip_back (dropWhile isspace (drop (Suc colon) line))
      in r\<lparr>req_headers := map_put (req_headers r) field value\<rparr>)"

definition HttpRequest_getHeader :: "HttpRequest \<Rightarrow> string \<Rightarrow> string" where
  "HttpRequest_getHeader r field =
     (case map_find (req_headers r) field of Some v \<Rightarrow> v | None \<Rightarrow> '''')"

definition HttpRequest_swap :: "HttpRequest \<Rightarrow> HttpRequest \<Rightarrow> HttpRequest \<times> HttpRequest" where
  "HttpRequest_swap r that =
     (r\<lparr>req_method := req_method that, req_version := req_version that, req_path := req_path that,
        req_query := req_query that, req_receiveTime := req_receiveTime that,
        req_headers := req_headers that\<rparr>,
      that\<lparr>req_method := req_method r, req_version := req_version r, req_path := req_path r,
        req_query := req_query r, req_receiveTime := req_receiveTime r,
        req_headers := req_headers r\<rparr>)"

section \<open>HttpContext\<close>

datatype HttpRequestParseState = EXPECT_REQUEST_LINE | EXPECT_HEADERS | EXPECT_BODY | GOT_ALL

record HttpContext =
  ctx_state :: HttpRequestParseState
  ctx_request :: HttpRequest

definition HttpContext_new :: HttpContext where
  "HttpContext_new = \<lparr>ctx_state = EXPECT_REQUEST_LINE, ctx_request = HttpRequest_new\<rparr>"

definition gotAll :: "HttpContext \<Rightarrow> bool" where
  "gotAll c \<longleftrightarrow> ctx_state c = GOT_ALL"

definition HttpContext_reset :: "HttpContext \<Rightarrow> HttpContext" where
  "HttpContext_reset c =
     c\<lparr>ctx_state := EXPECT_REQUEST_LINE,
       ctx_request := fst (HttpRequest_swap (ctx_request c) HttpRequest_new)\<rparr>"

definition processRequestLine :: "HttpRequest \<Rightarrow> string \<Rightarrow> (bool \<times> HttpRequest) option" where
  "processRequestLine r line =
     (let space = find_index ((=) CHR '' '') line in
      if space = length line then Some (False, r)
      else do {
        (known, r) \<leftarrow> setMethod r (take space line);
        if \<not> known then Some (False, r)
        else
          let start = drop (Suc space) line;
              space = find_index ((=) CHR '' '') start in
          if space = length start then Some (False, r)
          else
            let target = take space start;
                question = find_index ((=) CHR ''?'') target;
                r = (if question \<noteq> length target
                     then setQuery (setPath r (take question target)) (drop question target)
                     else setPath r target);
                start = drop (Suc space) start in
            if length start = 8 \<and> take 7 start = ''HTTP/1.'' then
              if start ! 7 = CHR ''1'' then Some (True, setVersion r HTTP11)
              else if start ! 7 = CHR ''0'' then Some (True, setVersion r HTTP10)
              else Some (False, r)
            else Some (False, r) })"

text \<open>\<^verbatim>\<open>std::stoi\<close>: leading white space, an optional sign, decimal digits; anything after the digits is
  ignored. No digits raises \<^verbatim>\<open>std::invalid_argument\<close>, a value outside \<^verbatim>\<open>int\<close>
  \<^verbatim>\<open>std::out_of_range\<close>.\<close>

definition stoi :: "string \<Rightarrow> int outcome" where
  "stoi str =
     (let s = dropWhile isspace str;
          neg = (s \<noteq> [] \<and> hd s = CHR ''-'');
          s = (if s \<noteq> [] \<and> (hd s = CHR ''-'' \<or> hd s = CHR ''+'') then tl s else s);
          digits = takeWhile is_digit s;
          v = (if neg then - int (dec_value digits) else int (dec_value digits))
      in if digits = [] then Throws ''invalid_argument''
         else if - (2 ^ 31) \<le> v \<and> v < 2 ^ 31 then Returns v
         else Throws ''out_of_range'')"

definition size_t :: "int \<Rightarrow> nat" where
  "size_t i = nat (i mod 2 ^ 64)"

definition kCRLF :: string where "kCRLF = [CHR 0x0D, CHR 0x0A]"

text \<open>One iteration of the loop; the result is \<^verbatim>\<open>hasMore\<close>, \<^verbatim>\<open>ok\<close>, the context and the buffer.\<close>

definition stopping :: "'a option \<Rightarrow> 'a outcome" where
  "stopping x = (case x of Some a \<Rightarrow> Returns a | None \<Rightarrow> Stops)"

definition parse_iteration ::
  "Timestamp \<Rightarrow> bool \<Rightarrow> HttpContext \<Rightarrow> buffer \<Rightarrow> (bool \<times> bool \<times> HttpContext \<times> buffer) outcome" where
  "parse_iteration receiveTime ok c buf =
     (case ctx_state c of
        EXPECT_REQUEST_LINE \<Rightarrow> stopping (do {
          found \<leftarrow> findSubString buf kCRLF None;
          (case found of
             None \<Rightarrow> Some (False, ok, c, buf)
           | Some crlf \<Rightarrow> do {
               (ok, r) \<leftarrow> processRequestLine (ctx_request c) (between (Buffer_peek buf) crlf (bufData buf));
               if ok then do {
                 buf \<leftarrow> retrieveUntil buf (crlf + length kCRLF);
                 Some (True, ok, c\<lparr>ctx_request := setReceiveTime r receiveTime,
                                   ctx_state := EXPECT_HEADERS\<rparr>, buf) }
               else Some (False, ok, c\<lparr>ctx_request := r\<rparr>, buf) }) })
      | EXPECT_HEADERS \<Rightarrow> stopping (do {
          found \<leftarrow> findSubString buf kCRLF None;
          (case found of
             None \<Rightarrow> Some (False, ok, c, buf)
           | Some crlf \<Rightarrow>
               let line = between (Buffer_peek buf) crlf (bufData buf);
                   colon = find_index ((=) CHR '':'') line;
                   (hasMore, c) =
                     (if colon \<noteq> length line
                      then (True, c\<lparr>ctx_request := HttpRequest_addHeader (ctx_request c) line colon\<rparr>)
                      else if req_method (ctx_request c) = GET then (False, c\<lparr>ctx_state := GOT_ALL\<rparr>)
                      else if req_method (ctx_request c) = POST then (True, c\<lparr>ctx_state := EXPECT_BODY\<rparr>)
                      else (True, c))
               in do {
                 buf \<leftarrow> retrieveUntil buf (crlf + length kCRLF);
                 Some (hasMore, ok, c, buf) }) })
      | EXPECT_BODY \<Rightarrow>
          (let contentLengthStr = HttpRequest_getHeader (ctx_request c) ''Content-Length'' in
           if contentLengthStr = [] then Returns (False, ok, c, buf)
           else
             (case stoi contentLengthStr of
                Returns contentLength \<Rightarrow>
                  if size_t contentLength \<le> readableBytes buf then stopping (do {
                    let body = between (Buffer_peek buf) (Buffer_peek buf + size_t contentLength) (bufData buf);
                    buf \<leftarrow> retrieve buf (size_t contentLength);
                    Some (False, ok, c\<lparr>ctx_request := setQuery (ctx_request c) body,
                                       ctx_state := GOT_ALL\<rparr>, buf) })
                  else Returns (False, ok, c, buf)
              | Stops \<Rightarrow> Stops
              | Throws e \<Rightarrow> Throws e))
      | GOT_ALL \<Rightarrow> Returns (True, ok, c, buf))"

partial_function (option) parse_loop ::
  "Timestamp \<Rightarrow> bool \<Rightarrow> HttpContext \<Rightarrow> buffer \<Rightarrow> (bool \<times> HttpContext \<times> buffer) outcome option" where
  "parse_loop receiveTime ok c buf =
     (case parse_iteration receiveTime ok c buf of
        Returns it \<Rightarrow>
          (case it of (hasMore, ok', c', buf') \<Rightarrow>
             if hasMore then parse_loop receiveTime ok' c' buf' else Some (Returns (ok', c', buf')))
      | Stops \<Rightarrow> Some Stops
      | Throws e \<Rightarrow> Some (Throws e))"

declare parse_loop.simps [code]

definition HttpContext_parseRequest ::
  "HttpContext \<Rightarrow> buffer \<Rightarrow> Timestamp \<Rightarrow> (bool \<times> HttpContext \<times> buffer) outcome option" where
  "HttpContext_parseRequest c buf receiveTime = parse_loop receiveTime True c buf"

section \<open>HttpResponse\<close>

datatype HttpStatusCode = KUNKNOWN | K200_OK | K301_MOVED_PERMANENTLY | K400_BAD_REQUEST | K404_NOT_FOUND

definition status_value :: "HttpStatusCode \<Rightarrow> int" where
  "status_value s = (case s of KUNKNOWN \<Rightarrow> 0 | K200_OK \<Rightarrow> 200 | K301_MOVED_PERMANENTLY \<Rightarrow> 301
     | K400_BAD_REQUEST \<Rightarrow> 400 | K404_NOT_FOUND \<Rightarrow> 404)"

record HttpResponse =
  resp_headers :: "(string, string) std_map"
  resp_statusCode :: HttpStatusCode
  resp_statusMessage :: string
  resp_closeConnection :: bool
  resp_body :: string

definition HttpResponse_new :: "bool \<Rightarrow> HttpResponse" where
  "HttpResponse_new close = \<lparr>resp_headers = [], resp_statusCode = KUNKNOWN, resp_statusMessage = '''',
     resp_closeConnection = close, resp_body = ''''\<rparr>"

definition setStatusCode :: "HttpResponse \<Rightarrow> HttpStatusCode \<Rightarrow> HttpResponse" where [simp]:
  "setStatusCode r code = r\<lparr>resp_statusCode := code\<rparr>"

definition setStatusMessage :: "HttpResponse \<Rightarrow> string \<Rightarrow> HttpResponse" where [simp]:
  "setStatusMessage r message = r\<lparr>resp_statusMessage := message\<rparr>"

definition setCloseConnection :: "HttpResponse \<Rightarrow> bool \<Rightarrow> HttpResponse" where [simp]:
  "setCloseConnection r on = r\<lparr>resp_closeConnection := on\<rparr>"

definition setBody :: "HttpResponse \<Rightarrow> string \<Rightarrow> HttpResponse" where [simp]:
  "setBody r body = r\<lparr>resp_body := body\<rparr>"

definition HttpResponse_addHeader :: "HttpResponse \<Rightarrow> string \<Rightarrow> string \<Rightarrow> HttpResponse" where
  "HttpResponse_addHeader r key value = r\<lparr>resp_headers := map_put (resp_headers r) key value\<rparr>"

definition HttpResponse_setContentType :: "HttpResponse \<Rightarrow> string \<Rightarrow> HttpResponse" where
  "HttpResponse_setContentType r contentType = HttpResponse_addHeader r ''Content-Type'' contentType"

text \<open>\<^verbatim>\<open>snprintf(buf, 32, ...)\<close> keeps at most 31 characters.\<close>

definition HttpResponse_appendToBuffer :: "HttpResponse \<Rightarrow> buffer \<Rightarrow> buffer option" where
  "HttpResponse_appendToBuffer r output = do {
     let buf = take 31 (''HTTP/1.1 '' @ dec_int (status_value (resp_statusCode r)));
     output \<leftarrow> Buffer_append output buf;
     output \<leftarrow> Buffer_append output (resp_statusMessage r);
     output \<leftarrow> Buffer_append output kCRLF;
     output \<leftarrow>
       (if resp_closeConnection r then Buffer_append output (''Connection: close'' @ kCRLF)
        else do {
          let buf = take 31 (''Content-Length: '' @ dec (length (resp_body r)) @ kCRLF);
          output \<leftarrow> Buffer_append output buf;
          Buffer_append output (''Connection: Keep-Alive'' @ kCRLF) });
     output \<leftarrow> foldo (\<lambda>headValue output. do {
         output \<leftarrow> Buffer_append output (fst headValue);
         output \<leftarrow> Buffer_append output '': '';
         output \<leftarrow> Buffer_append output (snd headValue);
         Buffer_append output kCRLF }) (resp_headers r) output;
     output \<leftarrow> Buffer_append output kCRLF;
     Buffer_append output (resp_body r) }"

section \<open>HttpServer\<close>

text \<open>The calls the handlers make on the connection. The user's \<^verbatim>\<open>HttpCallback\<close> is a function that fills
  the response.\<close>

datatype conn_call = ConnSend string | ConnShutdown

definition defaultHttpCallback :: "HttpRequest \<Rightarrow> HttpResponse \<Rightarrow> HttpResponse" where
  "defaultHttpCallback req resp =
     setCloseConnection (setStatusMessage (setStatusCode resp K404_NOT_FOUND) ''Not Found'') True"

definition HttpServer_onConnection :: "bool \<Rightarrow> HttpContext option \<Rightarrow> HttpContext option" where
  "HttpServer_onConnection isConnected context =
     (if isConnected then Some HttpContext_new else context)"

definition HttpServer_onRequest ::
  "(HttpRequest \<Rightarrow> HttpResponse \<Rightarrow> HttpResponse) \<Rightarrow> HttpRequest \<Rightarrow> conn_call list option" where
  "HttpServer_onRequest httpCallback req = do {
     let connection = HttpRequest_getHeader req ''Connection'';
     let close = (connection = ''close'' \<or> (req_version req = HTTP10 \<and> connection \<noteq> ''Keep-Alive''));
     let response = httpCallback req (HttpResponse_new close);
     buf \<leftarrow> HttpResponse_appendToBuffer response (Buffer_new kInitalSize);
     Some (ConnSend (Buffer_bytes buf) #
           (if resp_closeConnection response then [ConnShutdown] else [])) }"

text \<open>\<^verbatim>\<open>onMessage\<close>: the outer \<^const>\<open>None\<close> is again a call that never returns. The context pointer is
  null when \<^verbatim>\<open>onConnection\<close> has not stored a context.\<close>

definition HttpServer_onMessage ::
  "(HttpRequest \<Rightarrow> HttpResponse \<Rightarrow> HttpResponse) \<Rightarrow> HttpContext option \<Rightarrow> buffer \<Rightarrow> Timestamp
   \<Rightarrow> (conn_call list \<times> HttpContext option \<times> buffer) outcome option" where
  "HttpServer_onMessage httpCallback context buf receiveTime =
     (case context of
        None \<Rightarrow> Some Stops
      | Some c \<Rightarrow> do {
          parsed \<leftarrow> HttpContext_parseRequest c buf receiveTime;
          Some (case parsed of
             Returns (ok, c, buf) \<Rightarrow>
               let calls = (if ok then []
                            else [ConnSend (''HTTP/1.1 400 Bad Request'' @ kCRLF @ kCRLF), ConnShutdown])
               in if gotAll c then
                    (case HttpServer_onRequest httpCallback (ctx_request c) of
                       None \<Rightarrow> Stops
                     | Some calls' \<Rightarrow> Returns (calls @ calls', Some (HttpContext_reset c), buf))
                  else Returns (calls, Some c, buf)
           | Stops \<Rightarrow> Stops
           | Throws e \<Rightarrow> Throws e) })"

section \<open>The parser on byte strings\<close>

text \<open>The specification of the parser: a total function on the unread bytes instead of a buffer with
  indices. It answers the same context, the bytes it leaves unread, and never runs forever; a context
  that is already complete is outside its domain and returned as it is.\<close>

lemma memmem_shorter: "memmem s kCRLF = Some k \<Longrightarrow> length (drop (Suc (Suc k)) s) < length s"
  using memmem_split(2) [of s kCRLF k] by (simp add: kCRLF_def)

function parse_bytes ::
  "Timestamp \<Rightarrow> HttpContext \<Rightarrow> string \<Rightarrow> (bool \<times> HttpContext \<times> string) outcome" where
  "parse_bytes t c s =
     (case ctx_state c of
        EXPECT_REQUEST_LINE \<Rightarrow>
          (case memmem s kCRLF of
             None \<Rightarrow> Returns (True, c, s)
           | Some k \<Rightarrow>
               (case processRequestLine (ctx_request c) (take k s) of
                  None \<Rightarrow> Stops
                | Some (ok, r) \<Rightarrow>
                    if ok then parse_bytes t (c\<lparr>ctx_request := r\<lparr>req_receiveTime := t\<rparr>,
                                                ctx_state := EXPECT_HEADERS\<rparr>) (drop (k + 2) s)
                    else Returns (False, c\<lparr>ctx_request := r\<rparr>, s)))
      | EXPECT_HEADERS \<Rightarrow>
          (case memmem s kCRLF of
             None \<Rightarrow> Returns (True, c, s)
           | Some k \<Rightarrow>
               let line = take k s; colon = find_index ((=) CHR '':'') line; s' = drop (k + 2) s in
               if colon \<noteq> length line
               then parse_bytes t (c\<lparr>ctx_request := HttpRequest_addHeader (ctx_request c) line colon\<rparr>) s'
               else if req_method (ctx_request c) = GET then Returns (True, c\<lparr>ctx_state := GOT_ALL\<rparr>, s')
               else if req_method (ctx_request c) = POST
               then parse_bytes t (c\<lparr>ctx_state := EXPECT_BODY\<rparr>) s'
               else parse_bytes t c s')
      | EXPECT_BODY \<Rightarrow>
          (let str = HttpRequest_getHeader (ctx_request c) ''Content-Length'' in
           if str = [] then Returns (True, c, s)
           else (case stoi str of
                   Returns n \<Rightarrow>
                     if size_t n \<le> length s
                     then Returns (True, c\<lparr>ctx_request := (ctx_request c)\<lparr>req_query := take (size_t n) s\<rparr>,
                                          ctx_state := GOT_ALL\<rparr>, drop (size_t n) s)
                     else Returns (True, c, s)
                 | Stops \<Rightarrow> Stops
                 | Throws e \<Rightarrow> Throws e))
      | GOT_ALL \<Rightarrow> Returns (True, c, s))"
  by pat_completeness auto

termination parse_bytes
  by (relation "measure (\<lambda>(t, c, s). length s)") (simp_all add: memmem_shorter del: length_drop)

declare parse_bytes.simps [simp del]

lemma stopping_simps [simp]: "stopping (Some a) = Returns a" "stopping None = Stops"
  by (simp_all add: stopping_def)

lemma length_kCRLF [simp]: "length kCRLF = 2" "kCRLF \<noteq> []"
  by (simp_all add: kCRLF_def)

text \<open>What a buffer search for the line end finds, and what taking the line does.\<close>

lemma find_line:
  assumes "buf_inv b"
  shows "findSubString b kCRLF None =
    Some (case memmem (contents b) kCRLF of None \<Rightarrow> None | Some k \<Rightarrow> Some (readIndex b + k))"
  using assms by (auto simp: findSubString_peek buf_inv_wf split: option.splits)

lemma take_line:
  assumes "buf_inv b" "memmem (contents b) kCRLF = Some k"
  shows "between (Buffer_peek b) (readIndex b + k) (bufData b) = take k (contents b)"
    and "\<exists>b'. retrieveUntil b (readIndex b + k + 2) = Some b' \<and> buf_inv b'
      \<and> contents b' = drop (k + 2) (contents b)"
proof -
  have k: "k + 2 \<le> length (contents b)" using memmem_split(2) [OF assms(2)] by simp
  with assms(1) show "between (Buffer_peek b) (readIndex b + k) (bufData b) = take k (contents b)"
    by (auto simp: buf_defs intro!: between_take)
  show "\<exists>b'. retrieveUntil b (readIndex b + k + 2) = Some b' \<and> buf_inv b'
      \<and> contents b' = drop (k + 2) (contents b)"
    using bq.pop_ok [OF assms(1) k] assms(1) k
    by (auto simp: retrieveUntil_def Buffer_peek_def beginWrite_def readableBytes_def buf_inv_def)
qed

section \<open>The loop implements the specification\<close>

definition with_contents ::
  "(bool \<times> HttpContext \<times> buffer) outcome \<Rightarrow> (bool \<times> HttpContext \<times> string) outcome \<Rightarrow> bool" where
  "with_contents r a \<longleftrightarrow>
     (case r of
        Returns (ok, c, b) \<Rightarrow> buf_inv b \<and> a = Returns (ok, c, contents b)
      | Stops \<Rightarrow> a = Stops
      | Throws e \<Rightarrow> a = Throws e)"

lemma with_contents_simps [simp]:
  "with_contents (Returns (ok, c, b)) a \<longleftrightarrow> buf_inv b \<and> a = Returns (ok, c, contents b)"
  "with_contents Stops a \<longleftrightarrow> a = Stops"
  "with_contents (Throws e) a \<longleftrightarrow> a = Throws e"
  by (simp_all add: with_contents_def)

lemma request_line_iteration:
  assumes "buf_inv b" "ctx_state c = EXPECT_REQUEST_LINE"
  shows "parse_iteration t ok c b =
    (case memmem (contents b) kCRLF of
       None \<Rightarrow> Returns (False, ok, c, b)
     | Some k \<Rightarrow>
         (case processRequestLine (ctx_request c) (take k (contents b)) of
            None \<Rightarrow> Stops
          | Some (True, r) \<Rightarrow>
              Returns (True, True, c\<lparr>ctx_request := r\<lparr>req_receiveTime := t\<rparr>,
                         ctx_state := EXPECT_HEADERS\<rparr>, the (retrieveUntil b (readIndex b + k + 2)))
          | Some (False, r) \<Rightarrow> Returns (False, False, c\<lparr>ctx_request := r\<rparr>, b)))"
  using assms take_line [OF assms(1)]
  by (auto simp: parse_iteration_def find_line add.assoc split: option.splits prod.splits bool.splits)

lemma headers_iteration:
  assumes "buf_inv b" "ctx_state c = EXPECT_HEADERS" "memmem (contents b) kCRLF = Some k"
    and "retrieveUntil b (readIndex b + k + 2) = Some b'"
    and "line = take k (contents b)" "colon = find_index ((=) CHR '':'') line"
  shows "parse_iteration t ok c b = Returns (
    if colon \<noteq> length line
    then (True, ok, c\<lparr>ctx_request := HttpRequest_addHeader (ctx_request c) line colon\<rparr>, b')
    else if req_method (ctx_request c) = GET then (False, ok, c\<lparr>ctx_state := GOT_ALL\<rparr>, b')
    else if req_method (ctx_request c) = POST then (True, ok, c\<lparr>ctx_state := EXPECT_BODY\<rparr>, b')
    else (True, ok, c, b'))"
  using assms take_line(1) [OF assms(1,3)]
  by (simp add: parse_iteration_def find_line add.assoc Let_def)

lemma body_iteration:
  assumes "buf_inv b" "ctx_state c = EXPECT_BODY"
  shows "\<exists>r. parse_loop t True c b = Some r \<and> with_contents r (parse_bytes t c (contents b))"
proof -
  define str where "str = HttpRequest_getHeader (ctx_request c) ''Content-Length''"
  show ?thesis
  proof (cases "str = []")
    case True
    with assms show ?thesis
      by (simp add: parse_loop.simps [of t] parse_bytes.simps [of t c] parse_iteration_def str_def [symmetric] Let_def)
  next
    case ne: False
    show ?thesis
    proof (cases "stoi str")
      case (Returns n)
      show ?thesis
      proof (cases "size_t n \<le> readableBytes b")
        case True
        then obtain b' where b': "retrieve b (size_t n) = Some b'" "buf_inv b'"
          "contents b' = drop (size_t n) (contents b)"
          using bq.pop_ok [OF assms(1), of "size_t n"] assms(1) by auto
        have "between (Buffer_peek b) (Buffer_peek b + size_t n) (bufData b) = take (size_t n) (contents b)"
          using True assms(1) by (auto simp: buf_defs intro!: between_take)
        with b' True ne Returns assms show ?thesis
          by (simp add: parse_loop.simps [of t] parse_bytes.simps [of t c] parse_iteration_def str_def [symmetric] Let_def)
      next
        case False
        with ne Returns assms show ?thesis
          by (simp add: parse_loop.simps [of t] parse_bytes.simps [of t c] parse_iteration_def str_def [symmetric] Let_def)
      qed
    qed (use ne assms in \<open>simp_all add: parse_loop.simps [of t] parse_bytes.simps [of t c] parse_iteration_def
        str_def [symmetric] Let_def\<close>)
  qed
qed

lemma parse_loop_refines:
  assumes "buf_inv b" "ctx_state c \<noteq> GOT_ALL"
  shows "\<exists>r. parse_loop t True c b = Some r \<and> with_contents r (parse_bytes t c (contents b))"
  using assms
proof (induction t c "contents b" arbitrary: b rule: parse_bytes.induct)
  case (1 t c)
  show ?case
  proof (cases "ctx_state c")
    case rl: EXPECT_REQUEST_LINE
    show ?thesis
    proof (cases "memmem (contents b) kCRLF")
      case None
      with 1 rl show ?thesis
        by (simp add: parse_loop.simps [of t] parse_bytes.simps [of t c] request_line_iteration)
    next
      case (Some k)
      obtain b' where b': "retrieveUntil b (readIndex b + k + 2) = Some b'" "buf_inv b'"
        "contents b' = drop (k + 2) (contents b)"
        using take_line(2) [OF 1(5) Some] by blast
      show ?thesis
      proof (cases "processRequestLine (ctx_request c) (take k (contents b))")
        case None
        with Some 1 rl show ?thesis
          by (simp add: parse_loop.simps [of t] parse_bytes.simps [of t c] request_line_iteration)
      next
        case p: (Some okr)
        obtain ok r where okr: "okr = (ok, r)" by fastforce
        show ?thesis
        proof (cases ok)
          case True
          from 1(1) [OF rl Some p okr [symmetric] True b'(3) [symmetric] b'(2)] Some b' p okr rl 1(5) True
          show ?thesis
            by (simp add: parse_loop.simps [of t _ c] parse_bytes.simps [of t c] request_line_iteration)
        next
          case False
          with Some 1 rl p okr show ?thesis
            by (simp add: parse_loop.simps [of t] parse_bytes.simps [of t c] request_line_iteration)
        qed
      qed
    qed
  next
    case hd: EXPECT_HEADERS
    show ?thesis
    proof (cases "memmem (contents b) kCRLF")
      case None
      with 1 hd show ?thesis
        by (simp add: parse_loop.simps [of t] parse_bytes.simps [of t c] parse_iteration_def find_line)
    next
      case (Some k)
      obtain b' where b': "retrieveUntil b (readIndex b + k + 2) = Some b'" "buf_inv b'"
        "contents b' = drop (k + 2) (contents b)"
        using take_line(2) [OF 1(5) Some] by blast
      note it = headers_iteration [OF 1(5) hd Some b'(1) refl refl]
      note step = parse_loop.simps [of t _ c b] parse_bytes.simps [of t c] it
      show ?thesis
        using 1(2) [OF hd Some refl refl b'(3) _ b'(2)] 1(3) [OF hd Some refl refl b'(3) _ _ _ b'(2)]
          1(4) [OF hd Some refl refl b'(3) _ _ _ b'(2)] b' hd Some
        by (auto simp: step Let_def)
    qed
  next
    case EXPECT_BODY
    with 1 show ?thesis by (intro body_iteration)
  qed (use 1 in simp)
qed

text \<open>Only the buffer matters through its unread bytes.\<close>

lemma parse_refines:
  assumes "buf_inv b" "ctx_state c \<noteq> GOT_ALL"
  obtains r where "HttpContext_parseRequest c b t = Some r" "with_contents r (parse_bytes t c (contents b))"
  using parse_loop_refines [OF assms] by (auto simp: HttpContext_parseRequest_def)

lemma parse_Returns:
  assumes "buf_inv b" "ctx_state c \<noteq> GOT_ALL" "parse_bytes t c (contents b) = Returns (ok, c', s')"
  obtains b' where "HttpContext_parseRequest c b t = Some (Returns (ok, c', b'))" "buf_inv b'" "contents b' = s'"
proof -
  from parse_refines [OF assms(1,2)] obtain r where
    "HttpContext_parseRequest c b t = Some r" "with_contents r (Returns (ok, c', s'))"
    using assms(3) by metis
  then show ?thesis using that by (cases r) (auto simp: with_contents_def)
qed

text \<open>Whatever comes back was not complete at the start (induction over the iterations).\<close>

lemma parse_loop_open: "parse_loop t ok c b = Some y \<Longrightarrow> ctx_state c \<noteq> GOT_ALL"
proof (induction t ok c b y rule: parse_loop.raw_induct [rotated, consumes 1, case_names step])
  case (step loop t ok c b y)
  show ?case
  proof
    assume "ctx_state c = GOT_ALL"
    with step(2) have "loop t ok c b = Some y" by (simp add: parse_iteration_def)
    with step(1) \<open>ctx_state c = GOT_ALL\<close> show False by blast
  qed
qed

section \<open>Chunks\<close>

lemma memmem_append_left: "memmem xs needle = Some k \<Longrightarrow> memmem (xs @ ys) needle = Some k"
proof (induction xs arbitrary: k)
  case Nil
  then show ?case by (cases ys) (auto split: if_splits)
next
  case (Cons x xs)
  have "\<not> prefix needle (x # xs @ ys)" if "memmem xs needle = Some j" "\<not> prefix needle (x # xs)" for j
  proof
    assume p: "prefix needle (x # xs @ ys)"
    have "length needle \<le> length (x # xs)" using memmem_split(2) [OF that(1)] by simp
    with p have "prefix needle (x # xs)" by (metis append_Cons prefix_length_prefix prefixI)
    with that show False by blast
  qed
  moreover have "prefix needle (x # xs @ ys)" if "prefix needle (x # xs)"
    using that by (metis append_Cons prefix_append)
  ultimately show ?case using Cons by (auto split: if_splits)
qed

text \<open>The parser on a string and more: it goes on where it asked for more, and otherwise its answer stands.\<close>

lemma parse_bytes_extend:
  "parse_bytes t c (s @ x) =
     (case parse_bytes t c s of
        Returns (ok, c1, s1) \<Rightarrow> if ok \<and> ctx_state c1 \<noteq> GOT_ALL then parse_bytes t c1 (s1 @ x) else Returns (ok, c1, s1 @ x)
      | Stops \<Rightarrow> Stops
      | Throws e \<Rightarrow> Throws e)"
proof (induction t c s rule: parse_bytes.induct)
  case (1 t c s)
  show ?case
  proof (cases "memmem s kCRLF")
    case None
    then show ?thesis
      by (cases "ctx_state c")
        (auto simp: parse_bytes.simps [of t c s] parse_bytes.simps [of t c "s @ x"] Let_def split: if_splits outcome.splits)
  next
    case (Some k)
    have k: "k + 2 \<le> length s" using memmem_split(2) [OF Some] by simp
    note k' = memmem_append_left [OF Some, of x]
    note unfold = parse_bytes.simps [of t c s] parse_bytes.simps [of t c "s @ x"]
    show ?thesis
    proof (cases "ctx_state c")
      case EXPECT_REQUEST_LINE
      with 1(1) [OF this Some] k k' Some show ?thesis
        by (cases "processRequestLine (ctx_request c) (take k s)") (auto simp: unfold Let_def)
    next
      case EXPECT_HEADERS
      with 1(2,3,4) [OF this Some refl refl refl] k k' Some show ?thesis
        by (auto simp: unfold Let_def)
    next
      case EXPECT_BODY
      then show ?thesis by (auto simp: unfold Let_def split: if_splits outcome.splits)
    next
      case GOT_ALL
      then show ?thesis by (auto simp: unfold)
    qed
  qed
qed

lemma parse_bytes_append:
  assumes "parse_bytes t c s = Returns (True, c1, s1)" "ctx_state c1 \<noteq> GOT_ALL"
  shows "parse_bytes t c (s @ x) = parse_bytes t c1 (s1 @ x)"
  using assms by (simp add: parse_bytes_extend)

section \<open>Requests on the wire\<close>

definition no_CR :: "string \<Rightarrow> bool" where
  "no_CR s \<longleftrightarrow> CHR 0x0D \<notin> set s"

definition version_text :: "Version \<Rightarrow> string" where
  "version_text v = (case v of HTTP10 \<Rightarrow> ''HTTP/1.0'' | HTTP11 \<Rightarrow> ''HTTP/1.1'' | UNKONOWN \<Rightarrow> '''')"

definition request_line :: "HttpRequest \<Rightarrow> string" where
  "request_line r = methodString r @ '' '' @ req_path r @ req_query r @ '' '' @ version_text (req_version r)"

definition header_line :: "string \<times> string \<Rightarrow> string" where
  "header_line e = fst e @ '': '' @ snd e"

definition header_block :: "(string, string) std_map \<Rightarrow> string" where
  "header_block hs = concat (map (\<lambda>e. header_line e @ kCRLF) hs) @ kCRLF"

definition request_bytes :: "HttpRequest \<Rightarrow> string" where
  "request_bytes r = request_line r @ kCRLF @ header_block (req_headers r)"

definition header_ok :: "string \<times> string \<Rightarrow> bool" where
  "header_ok e \<longleftrightarrow> no_CR (fst e) \<and> CHR '':'' \<notin> set (fst e) \<and> no_CR (snd e)
     \<and> (snd e \<noteq> [] \<longrightarrow> \<not> isspace (hd (snd e)) \<and> \<not> isspace (last (snd e)))"

definition request_ok :: "HttpRequest \<Rightarrow> bool" where
  "request_ok r \<longleftrightarrow> req_method r \<noteq> INVALID \<and> req_version r \<noteq> UNKONOWN
     \<and> no_CR (req_path r) \<and> CHR '' '' \<notin> set (req_path r) \<and> CHR ''?'' \<notin> set (req_path r)
     \<and> no_CR (req_query r) \<and> CHR '' '' \<notin> set (req_query r)
     \<and> (req_query r \<noteq> [] \<longrightarrow> hd (req_query r) = CHR ''?'')
     \<and> map_sorted (req_headers r) \<and> (\<forall>e\<in>set (req_headers r). header_ok e)"

lemma find_index_skip: "x \<notin> set xs \<Longrightarrow> find_index ((=) x) (xs @ x # ys) = length xs"
  by (induction xs) auto

lemma find_index_absent: "x \<notin> set xs \<Longrightarrow> find_index ((=) x) xs = length xs"
  by (induction xs) auto

lemma memmem_line: "no_CR l \<Longrightarrow> memmem (l @ kCRLF @ rest) kCRLF = Some (length l)"
proof (rule memmem_append_needle, intro allI impI)
  fix j
  assume l: "no_CR l" and j: "j < length l"
  have "l ! j \<noteq> CHR 0x0D" using l nth_mem [OF j] by (metis no_CR_def)
  moreover have "drop j (l @ kCRLF @ rest) = l ! j # drop (Suc j) (l @ kCRLF @ rest)"
    using j by (subst Cons_nth_drop_Suc [symmetric]) (simp_all add: nth_append)
  ultimately show "\<not> prefix kCRLF (drop j (l @ kCRLF @ rest))" by (simp add: kCRLF_def)
qed

lemma methodString_clean:
  "no_CR (methodString r)" "CHR '' '' \<notin> set (methodString r)"
  by (cases "req_method r"; simp add: methodString_def no_CR_def)+

lemma setMethod_methodString:
  assumes "req_method r \<noteq> INVALID" "req_method r0 = INVALID"
  shows "setMethod r0 (methodString r) = Some (True, r0\<lparr>req_method := req_method r\<rparr>)"
  using assms by (cases "req_method r") (simp_all add: setMethod_def methodString_def)

lemma processRequestLine_ok:
  assumes "request_ok r" "req_method r0 = INVALID"
  shows "processRequestLine r0 (request_line r) = Some (True, r0\<lparr>req_method := req_method r,
    req_path := req_path r, req_query := (if req_query r = [] then req_query r0 else req_query r),
    req_version := req_version r\<rparr>)"
proof -
  have sp: "find_index ((=) CHR '' '') (methodString r @ CHR '' '' # s) = length (methodString r)" for s
    by (rule find_index_skip) (rule methodString_clean)
  have tg: "find_index ((=) CHR '' '') (req_path r @ req_query r @ CHR '' '' # s)
      = length (req_path r @ req_query r)" for s
    using find_index_skip [of "CHR '' ''" "req_path r @ req_query r" s] assms(1)
    by (simp add: request_ok_def)
  have q: "find_index ((=) CHR ''?'') (req_path r @ req_query r) = length (req_path r)"
  proof (cases "req_query r")
    case (Cons a q)
    then have "a = CHR ''?''" using assms(1) by (simp add: request_ok_def)
    with Cons show ?thesis using assms(1) by (simp add: find_index_skip request_ok_def)
  qed (use assms(1) in \<open>simp add: find_index_absent request_ok_def\<close>)
  have v: "req_version r \<noteq> UNKONOWN" using assms(1) by (simp add: request_ok_def)
  have m: "req_method r \<noteq> INVALID" using assms(1) by (simp add: request_ok_def)
  show ?thesis
    using v by (cases "req_version r")
      (simp_all add: processRequestLine_def request_line_def sp tg q Let_def version_text_def
        setMethod_methodString [OF m assms(2)])
qed

lemma strip_back_id: "(s \<noteq> [] \<longrightarrow> \<not> isspace (last s)) \<Longrightarrow> strip_back s = s"
  by (subst strip_back.simps) (auto simp: last_conv_nth)

lemma addHeader_line:
  assumes "header_ok e"
  shows "find_index ((=) CHR '':'') (header_line e) = length (fst e)"
    and "HttpRequest_addHeader r (header_line e) (length (fst e))
      = r\<lparr>req_headers := map_put (req_headers r) (fst e) (snd e)\<rparr>"
    and "no_CR (header_line e)"
proof -
  show "find_index ((=) CHR '':'') (header_line e) = length (fst e)"
    using assms by (simp add: header_line_def header_ok_def find_index_skip)
  have "isspace CHR '' ''" by (simp add: isspace_def)
  moreover have "dropWhile isspace (snd e) = snd e"
    using assms by (cases "snd e") (auto simp: header_ok_def)
  ultimately show "HttpRequest_addHeader r (header_line e) (length (fst e))
      = r\<lparr>req_headers := map_put (req_headers r) (fst e) (snd e)\<rparr>"
    using assms by (simp add: HttpRequest_addHeader_def header_line_def Let_def strip_back_id header_ok_def)
  show "no_CR (header_line e)"
    using assms by (simp add: header_ok_def header_line_def no_CR_def)
qed

text \<open>A block of header lines is entered into the map one by one; the empty line is then handled by the
  method.\<close>

definition after_headers :: "Timestamp \<Rightarrow> HttpContext \<Rightarrow> string \<Rightarrow> (bool \<times> HttpContext \<times> string) outcome" where
  "after_headers t c s =
     (if req_method (ctx_request c) = GET then Returns (True, c\<lparr>ctx_state := GOT_ALL\<rparr>, s)
      else if req_method (ctx_request c) = POST then parse_bytes t (c\<lparr>ctx_state := EXPECT_BODY\<rparr>) s
      else parse_bytes t c s)"

lemma parse_header_block:
  assumes "ctx_state c = EXPECT_HEADERS" "\<forall>e\<in>set hs. header_ok e"
  shows "parse_bytes t c (header_block hs @ rest) = after_headers t (c\<lparr>ctx_request := (ctx_request c)
     \<lparr>req_headers := foldl (\<lambda>a e. map_put a (fst e) (snd e)) (req_headers (ctx_request c)) hs\<rparr>\<rparr>) rest"
  using assms
proof (induction hs arbitrary: c)
  case Nil
  have "memmem (kCRLF @ rest) kCRLF = Some 0"
    using memmem_line [of "[]" rest] by (simp add: no_CR_def)
  with Nil show ?case
    by (auto simp: header_block_def parse_bytes.simps [of t c] Let_def after_headers_def kCRLF_def)
next
  case (Cons e hs)
  have e: "header_ok e" using Cons.prems by simp
  define c' where "c' = c\<lparr>ctx_request := (ctx_request c)\<lparr>req_headers := map_put (req_headers (ctx_request c)) (fst e) (snd e)\<rparr>\<rparr>"
  have "parse_bytes t c (header_line e @ kCRLF @ (header_block hs @ rest)) = parse_bytes t c' (header_block hs @ rest)"
    using Cons.prems(1) memmem_line [OF addHeader_line(3) [OF e], of "header_block hs @ rest"]
    by (simp add: parse_bytes.simps [of t c] Let_def addHeader_line [OF e] c'_def)
      (simp add: header_line_def)
  then show ?case using Cons.IH [of c'] Cons.prems by (simp add: c'_def header_block_def)
qed

lemma parse_request_head:
  assumes "request_ok r" "req_headers r = hs"
  shows "parse_bytes t HttpContext_new (request_bytes r @ rest) =
    after_headers t \<lparr>ctx_state = EXPECT_HEADERS, ctx_request = r\<lparr>req_receiveTime := t\<rparr>\<rparr> rest"
proof -
  have cr: "no_CR (request_line r)"
    using assms methodString_clean [of r]
    by (cases "req_version r") (auto simp: request_ok_def request_line_def no_CR_def version_text_def)
  have hs: "foldl (\<lambda>a e. map_put a (fst e) (snd e)) [] hs = hs"
    using map_put_rebuild [of "[]"] assms by (auto simp: request_ok_def)
  let ?r0 = "HttpRequest_new\<lparr>req_method := req_method r, req_path := req_path r,
    req_query := (if req_query r = [] then [] else req_query r), req_version := req_version r,
    req_receiveTime := t\<rparr>"
  have "parse_bytes t HttpContext_new (request_line r @ kCRLF @ (header_block hs @ rest))
      = parse_bytes t \<lparr>ctx_state = EXPECT_HEADERS, ctx_request = ?r0\<rparr> (header_block hs @ rest)"
    using memmem_line [OF cr] processRequestLine_ok [OF assms(1), of HttpRequest_new]
    by (subst parse_bytes.simps) (simp add: HttpContext_new_def HttpRequest_new_def)
  also have "\<dots> = after_headers t \<lparr>ctx_state = EXPECT_HEADERS, ctx_request = r\<lparr>req_receiveTime := t\<rparr>\<rparr> rest"
    using assms by (subst parse_header_block)
      (auto simp: request_ok_def HttpRequest_new_def hs intro!: arg_cong [of _ _ "\<lambda>c. after_headers t c rest"])
  finally show ?thesis by (simp add: request_bytes_def assms(2))
qed

subsection \<open>Bodies\<close>

lemma dec_hd: "hd (dec n) \<in> set (dec n)"
  by simp

lemma digit_not_space: "is_digit c \<Longrightarrow> \<not> isspace c \<and> c \<noteq> CHR ''-'' \<and> c \<noteq> CHR ''+''"
  by (auto simp: is_digit_def isspace_def)

lemma stoi_dec: "n < 2 ^ 31 \<Longrightarrow> stoi (dec n) = Returns (int n)"
proof -
  assume n: "n < 2 ^ 31"
  have d: "is_digit (hd (dec n))" using dec_is_digit [OF dec_hd] .
  then have "dropWhile isspace (dec n) = dec n"
    using digit_not_space by (cases "dec n") auto
  moreover have tw: "takeWhile is_digit (dec n) = dec n"
    by (rule takeWhile_eq_all_conv [THEN iffD2]) (simp add: dec_is_digit)
  ultimately show ?thesis
    using d digit_not_space [OF d] n by (simp add: stoi_def Let_def tw)
qed

lemma size_t_nat [simp]: "n < 2 ^ 64 \<Longrightarrow> size_t (int n) = n"
  by (simp add: size_t_def)

lemma parse_post_body:
  assumes "ctx_state c = EXPECT_BODY"
    and "HttpRequest_getHeader (ctx_request c) ''Content-Length'' = dec (length body)"
    and "length body < 2 ^ 31"
  shows "parse_bytes t c (body @ rest) = Returns (True, c\<lparr>ctx_request := (ctx_request c)\<lparr>req_query := body\<rparr>,
    ctx_state := GOT_ALL\<rparr>, rest)"
  using assms by (simp add: parse_bytes.simps [of t c] stoi_dec Let_def)

subsection \<open>Requests the parser cannot finish\<close>

lemma parse_bytes_stuck:
  assumes "ctx_state c = EXPECT_HEADERS" "req_method (ctx_request c) \<notin> {GET, POST}"
  shows "\<exists>c1 s1. parse_bytes t c s = Returns (True, c1, s1) \<and> ctx_state c1 = EXPECT_HEADERS"
  using assms
proof (induction t c s rule: parse_bytes.induct)
  case (1 t c s)
  show ?case
  proof (cases "memmem s kCRLF")
    case None
    with 1(5) show ?thesis by (simp add: parse_bytes.simps [of t c s])
  next
    case (Some k)
    with 1(2,4) [OF 1(5) Some refl refl refl] 1(5,6) show ?thesis
      by (auto simp: parse_bytes.simps [of t c s] Let_def HttpRequest_addHeader_def)
  qed
qed

lemma processRequestLine_again:
  assumes "processRequestLine r0 line = Some (ok, r)" "req_method r0 = INVALID" "req_method r \<noteq> INVALID"
  shows "processRequestLine r line = None"
proof -
  have "find_index ((=) CHR '' '') line \<noteq> length line"
    using assms by (auto simp: processRequestLine_def)
  then show ?thesis using assms(3) by (simp add: processRequestLine_def setMethod_def Let_def)
qed

lemma parse_bytes_headers_ok:
  "ctx_state c \<noteq> EXPECT_REQUEST_LINE \<Longrightarrow> parse_bytes t c s \<noteq> Returns (False, c1, s1)"
proof (induction t c s rule: parse_bytes.induct)
  case (1 t c s)
  show ?case
  proof (cases "ctx_state c = EXPECT_HEADERS \<and> memmem s kCRLF \<noteq> None")
    case True
    then obtain k where k: "memmem s kCRLF = Some k" by blast
    from True k 1(2,3,4) [OF conjunct1 [OF True] k refl refl refl] show ?thesis
      by (auto simp: parse_bytes.simps [of t c s] Let_def)
  next
    case False
    with 1(5) show ?thesis
      by (cases "ctx_state c")
        (auto simp: parse_bytes.simps [of t c s] Let_def split: if_splits outcome.splits)
  qed
qed

lemma parse_bytes_bad_line:
  assumes "parse_bytes t c s = Returns (False, c1, s1)" "req_method (ctx_request c) = INVALID"
    "req_method (ctx_request c1) \<noteq> INVALID"
  shows "parse_bytes t' c1 (s1 @ x) = Stops"
proof -
  have st: "ctx_state c = EXPECT_REQUEST_LINE" using parse_bytes_headers_ok [of c] assms(1) by blast
  obtain k where k: "memmem s kCRLF = Some k"
    using assms(1) st by (cases "memmem s kCRLF") (auto simp: parse_bytes.simps [of t c s])
  obtain ok r where p: "processRequestLine (ctx_request c) (take k s) = Some (ok, r)"
    using assms(1) st k by (cases "processRequestLine (ctx_request c) (take k s)")
      (auto simp: parse_bytes.simps [of t c s])
  have "\<not> ok" using assms(1) st k p
    by (auto simp: parse_bytes.simps [of t c s] parse_bytes_headers_ok)
  with assms(1) st k p have c1: "c1 = c\<lparr>ctx_request := r\<rparr>" "s1 = s"
    by (auto simp: parse_bytes.simps [of t c s])
  have "k \<le> length s" using memmem_split(2) [OF k] by simp
  with processRequestLine_again [OF p assms(2)] assms(3) c1 st memmem_append_left [OF k, of x]
  show ?thesis by (subst parse_bytes.simps) simp
qed

section \<open>Responses\<close>

definition response_bytes :: "HttpResponse \<Rightarrow> string" where
  "response_bytes r =
     ''HTTP/1.1 '' @ dec_int (status_value (resp_statusCode r)) @ resp_statusMessage r @ kCRLF
     @ (if resp_closeConnection r then ''Connection: close'' @ kCRLF
        else ''Content-Length: '' @ dec (length (resp_body r)) @ kCRLF @ ''Connection: Keep-Alive'' @ kCRLF)
     @ header_block (resp_headers r) @ resp_body r"

lemma append_bind:
  assumes "buf_inv b"
  obtains b' where "Buffer_append b s = Some b'" "buf_inv b'" "contents b' = contents b @ s"
  using append_spec [OF assms] by blast

lemma append_header_lines:
  assumes "buf_inv b"
  shows "\<exists>b'. foldo (\<lambda>e output. do { output \<leftarrow> Buffer_append output (fst e); output \<leftarrow> Buffer_append output '': '';
      output \<leftarrow> Buffer_append output (snd e); Buffer_append output kCRLF }) hs b = Some b' \<and> buf_inv b'
    \<and> contents b' = contents b @ concat (map (\<lambda>e. header_line e @ kCRLF) hs)"
  using assms
proof (induction hs arbitrary: b)
  case (Cons e hs)
  obtain b1 where b1: "Buffer_append b (fst e) = Some b1" "buf_inv b1" "contents b1 = contents b @ fst e"
    using append_bind [OF Cons.prems] by blast
  obtain b2 where b2: "Buffer_append b1 '': '' = Some b2" "buf_inv b2" "contents b2 = contents b1 @ '': ''"
    using append_bind [OF b1(2)] by blast
  obtain b3 where b3: "Buffer_append b2 (snd e) = Some b3" "buf_inv b3" "contents b3 = contents b2 @ snd e"
    using append_bind [OF b2(2)] by blast
  obtain b4 where b4: "Buffer_append b3 kCRLF = Some b4" "buf_inv b4" "contents b4 = contents b3 @ kCRLF"
    using append_bind [OF b3(2)] by blast
  from Cons.IH [OF b4(2)] b1 b2 b3 b4 show ?case by (auto simp: header_line_def)
qed simp

lemma length_dec_bound: "n < 10 ^ k \<Longrightarrow> 0 < k \<Longrightarrow> length (dec n) \<le> k"
proof (induction k arbitrary: n)
  case (Suc k)
  show ?case
  proof (cases "n < 10")
    case False
    then have "k \<noteq> 0" "n div 10 < 10 ^ k" using Suc.prems by (auto intro: Nat.gr0I)
    with Suc.IH [of "n div 10"] False show ?thesis by (simp add: dec.simps [of n])
  qed (simp add: dec_less_10)
qed simp

lemma appendToBuffer_spec:
  assumes "buf_inv b" "length (resp_body r) < 10 ^ 13"
  shows "\<exists>b'. HttpResponse_appendToBuffer r b = Some b' \<and> buf_inv b' \<and> contents b' = contents b @ response_bytes r"
proof -
  have "length (dec_int (status_value (resp_statusCode r))) \<le> 3"
    by (cases "resp_statusCode r") (simp_all add: status_value_def dec_int_def dec.simps)
  then have t1: "take 31 (''HTTP/1.1 '' @ dec_int (status_value (resp_statusCode r)))
      = ''HTTP/1.1 '' @ dec_int (status_value (resp_statusCode r))" by simp
  have "length (dec (length (resp_body r))) \<le> 13" using assms(2) by (intro length_dec_bound) simp_all
  then have t2: "take 31 (''Content-Length: '' @ dec (length (resp_body r)) @ kCRLF)
      = ''Content-Length: '' @ dec (length (resp_body r)) @ kCRLF" by simp
  obtain b1 where b1: "Buffer_append b (''HTTP/1.1 '' @ dec_int (status_value (resp_statusCode r))) = Some b1"
    "buf_inv b1" "contents b1 = contents b @ ''HTTP/1.1 '' @ dec_int (status_value (resp_statusCode r))"
    using append_bind [OF assms(1)] by blast
  obtain b2 where b2: "Buffer_append b1 (resp_statusMessage r) = Some b2" "buf_inv b2"
    "contents b2 = contents b1 @ resp_statusMessage r"
    using append_bind [OF b1(2)] by blast
  obtain b3 where b3: "Buffer_append b2 kCRLF = Some b3" "buf_inv b3" "contents b3 = contents b2 @ kCRLF"
    using append_bind [OF b2(2)] by blast
  define mid where "mid = (if resp_closeConnection r then [''Connection: close'' @ kCRLF]
        else [''Content-Length: '' @ dec (length (resp_body r)) @ kCRLF, ''Connection: Keep-Alive'' @ kCRLF])"
  obtain b4 where b4: "foldo (\<lambda>s b. Buffer_append b s) mid b3 = Some b4" "buf_inv b4"
    "contents b4 = contents b3 @ concat mid"
    using bq.push_all [OF b3(2)] by blast
  obtain b5 where b5: "foldo (\<lambda>e output. do { output \<leftarrow> Buffer_append output (fst e); output \<leftarrow> Buffer_append output '': '';
      output \<leftarrow> Buffer_append output (snd e); Buffer_append output kCRLF }) (resp_headers r) b4 = Some b5" "buf_inv b5"
    "contents b5 = contents b4 @ concat (map (\<lambda>e. header_line e @ kCRLF) (resp_headers r))"
    using append_header_lines [OF b4(2)] by blast
  obtain b6 where b6: "Buffer_append b5 kCRLF = Some b6" "buf_inv b6" "contents b6 = contents b5 @ kCRLF"
    using append_bind [OF b5(2)] by blast
  obtain b7 where b7: "Buffer_append b6 (resp_body r) = Some b7" "buf_inv b7"
    "contents b7 = contents b6 @ resp_body r"
    using append_bind [OF b6(2)] by blast
  have m: "(if resp_closeConnection r then Buffer_append b3 (''Connection: close'' @ kCRLF)
      else Buffer_append b3 (''Content-Length: '' @ dec (length (resp_body r)) @ kCRLF)
        \<bind> (\<lambda>output. Buffer_append output (''Connection: Keep-Alive'' @ kCRLF))) = Some b4"
    using b4(1) by (cases "resp_closeConnection r")
      (auto simp: mid_def elim!: bind_eq_SomeE)
  have "HttpResponse_appendToBuffer r b = Some b7"
    unfolding HttpResponse_appendToBuffer_def Let_def t1 t2
    by (simp only: b1(1) b2(1) b3(1) m b5(1) b6(1) b7(1) bind.bind_lunit)
  with b7 b6 b5 b4 b3 b2 b1 show ?thesis
    by (simp add: response_bytes_def mid_def header_block_def)
qed

section \<open>Properties\<close>

text \<open>C20. \<^verbatim>\<open>parseRequest\<close> comes back, by a return, an \<^verbatim>\<open>assert\<close> or an exception, exactly when the context
  has not already reached \<^verbatim>\<open>GOT_ALL\<close>; on a completed context it loops forever.\<close>

theorem http_parse_returns_iff:
  assumes "buf_inv b"
  shows "HttpContext_parseRequest c b t = None \<longleftrightarrow> gotAll c"
proof
  assume "HttpContext_parseRequest c b t = None"
  then show "gotAll c" using parse_refines [OF assms, of c t] by (auto simp: gotAll_def)
next
  assume "gotAll c"
  then show "HttpContext_parseRequest c b t = None"
    using parse_loop_open [of t True c b]
    by (cases "parse_loop t True c b") (auto simp: HttpContext_parseRequest_def gotAll_def)
qed

theorem http_parse_returns_iff_witness:
  "HttpContext_parseRequest (HttpContext_new\<lparr>ctx_state := GOT_ALL\<rparr>) (Buffer_new 4) 0 = None
     \<longleftrightarrow> gotAll (HttpContext_new\<lparr>ctx_state := GOT_ALL\<rparr>)"
  by (rule http_parse_returns_iff [OF Buffer_new_inv])

text \<open>C8. Parsing does not depend on how the bytes arrive: when a call has consumed what it could and asked
  for more, the next call on the remaining bytes followed by the new ones gives the same answer, the same
  request and the same unread bytes as one call on everything would have given.\<close>

theorem http_parse_incremental:
  assumes "buf_inv b" "\<not> gotAll c"
    and "HttpContext_parseRequest c b t = Some (Returns (True, c1, b1))" "\<not> gotAll c1"
    and "Buffer_append b more_bytes = Some b_all" "Buffer_append b1 more_bytes = Some b_rest"
    and "HttpContext_parseRequest c b_all t = Some (Returns (ok, c2, b2))"
  shows "\<exists>b3. HttpContext_parseRequest c1 b_rest t = Some (Returns (ok, c2, b3))
    \<and> Buffer_bytes b3 = Buffer_bytes b2"
proof -
  obtain r where r: "HttpContext_parseRequest c b t = Some r" "with_contents r (parse_bytes t c (contents b))"
    using parse_refines [OF assms(1)] assms(2) unfolding gotAll_def by metis
  then have p1: "parse_bytes t c (contents b) = Returns (True, c1, contents b1)" "buf_inv b1"
    using assms(3) by auto
  have all: "buf_inv b_all" "contents b_all = contents b @ more_bytes"
    and rest: "buf_inv b_rest" "contents b_rest = contents b1 @ more_bytes"
    using bq.push_Some assms(1,5,6) p1(2) by blast+
  obtain r where "HttpContext_parseRequest c b_all t = Some r"
    "with_contents r (parse_bytes t c (contents b_all))"
    using parse_refines [OF all(1)] assms(2) unfolding gotAll_def by metis
  then have p2: "parse_bytes t c (contents b_all) = Returns (ok, c2, contents b2)" "buf_inv b2"
    using assms(7) by auto
  have "parse_bytes t c1 (contents b_rest) = Returns (ok, c2, contents b2)"
    using parse_bytes_append [OF p1(1), of more_bytes] assms(4) p2 all rest by (simp add: gotAll_def)
  with assms(4) obtain b3 where
    "HttpContext_parseRequest c1 b_rest t = Some (Returns (ok, c2, b3))" "buf_inv b3" "contents b3 = contents b2"
    using parse_Returns [OF rest(1)] unfolding gotAll_def by metis
  with p2(2) show ?thesis by (auto simp: Buffer_bytes_contents buf_inv_wf)
qed

theorem http_parse_incremental_witness:
  "\<exists>b c1 b1 b_all b_rest c2 b2 b3. Buffer_append (Buffer_new 8) (''GET /x HTTP/1.1'' @ kCRLF @ ''Ho'') = Some b
    \<and> HttpContext_parseRequest HttpContext_new b 7 = Some (Returns (True, c1, b1))
    \<and> Buffer_append b (''st: a'' @ kCRLF @ kCRLF) = Some b_all
    \<and> Buffer_append b1 (''st: a'' @ kCRLF @ kCRLF) = Some b_rest
    \<and> HttpContext_parseRequest HttpContext_new b_all 7 = Some (Returns (True, c2, b2)) \<and> gotAll c2
    \<and> HttpContext_parseRequest c1 b_rest 7 = Some (Returns (True, c2, b3))
    \<and> Buffer_bytes b3 = Buffer_bytes b2"
proof -
  define b where "b = the (Buffer_append (Buffer_new 8) (''GET /x HTTP/1.1'' @ kCRLF @ ''Ho''))"
  have "Buffer_append (Buffer_new 8) (''GET /x HTTP/1.1'' @ kCRLF @ ''Ho'') \<noteq> None" by code_simp
  then have b: "Buffer_append (Buffer_new 8) (''GET /x HTTP/1.1'' @ kCRLF @ ''Ho'') = Some b" "buf_inv b"
    using bq.push_Some [OF Buffer_new_inv] by (auto simp: b_def)
  have "case HttpContext_parseRequest HttpContext_new b 7 of
      Some (Returns (ok, c1, b1)) \<Rightarrow> ok \<and> \<not> gotAll c1 \<and> buf_inv b1 | _ \<Rightarrow> False"
    unfolding b_def by code_simp
  then obtain c1 b1 where p1: "HttpContext_parseRequest HttpContext_new b 7 = Some (Returns (True, c1, b1))"
    "\<not> gotAll c1" "buf_inv b1" by (auto split: option.splits outcome.splits)
  obtain b_all where all: "Buffer_append b (''st: a'' @ kCRLF @ kCRLF) = Some b_all"
    using append_spec [OF b(2)] by blast
  obtain b_rest where rest: "Buffer_append b1 (''st: a'' @ kCRLF @ kCRLF) = Some b_rest"
    using append_spec [OF p1(3)] by blast
  have "case HttpContext_parseRequest HttpContext_new
        (the (Buffer_append (the (Buffer_append (Buffer_new 8) (''GET /x HTTP/1.1'' @ kCRLF @ ''Ho'')))
          (''st: a'' @ kCRLF @ kCRLF))) 7 of
      Some (Returns (ok, c2, b2)) \<Rightarrow> ok \<and> gotAll c2 | _ \<Rightarrow> False"
    by code_simp
  then obtain c2 b2 where p2: "HttpContext_parseRequest HttpContext_new b_all 7 = Some (Returns (True, c2, b2))"
    "gotAll c2"
    using b(1) all by (auto split: option.splits outcome.splits)
  have "\<not> gotAll HttpContext_new" by (simp add: gotAll_def HttpContext_new_def)
  from http_parse_incremental [OF b(2) this p1(1,2) all rest p2(1)] b(1) p1(1) all rest p2
  show ?thesis by blast
qed

text \<open>C21. A well-formed \<^verbatim>\<open>POST\<close> request whose \<^verbatim>\<open>Content-Length\<close> is the length of the body is read back
  field by field, with the body as the query, and the bytes behind it stay in the buffer.\<close>

theorem http_post_roundtrip:
  assumes "request_ok r" "req_method r = POST"
    and "HttpRequest_getHeader r ''Content-Length'' = dec (length body)" "length body < 2 ^ 31"
    and "buf_inv b" "contents b = request_bytes r @ body @ rest"
  shows "\<exists>b'. HttpContext_parseRequest HttpContext_new b t =
      Some (Returns (True, \<lparr>ctx_state = GOT_ALL, ctx_request = r\<lparr>req_receiveTime := t, req_query := body\<rparr>\<rparr>, b'))
    \<and> Buffer_bytes b' = rest"
proof -
  have "parse_bytes t HttpContext_new (contents b) =
      Returns (True, \<lparr>ctx_state = GOT_ALL, ctx_request = r\<lparr>req_receiveTime := t, req_query := body\<rparr>\<rparr>, rest)"
    using assms parse_post_body [of "\<lparr>ctx_state = EXPECT_BODY, ctx_request = r\<lparr>req_receiveTime := t\<rparr>\<rparr>" body t rest]
    by (simp add: parse_request_head after_headers_def HttpRequest_getHeader_def)
  from parse_Returns [OF assms(5) _ this] show ?thesis
    by (force simp: HttpContext_new_def Buffer_bytes_contents buf_inv_wf)
qed

theorem http_post_roundtrip_witness:
  "\<exists>b b'. Buffer_append (Buffer_new 0) (request_bytes \<lparr>req_method = POST, req_version = HTTP11, req_path = ''/f'',
        req_query = '''', req_receiveTime = 0, req_headers = [(''Content-Length'', dec 2)]\<rparr> @ ''hi'' @ ''GET'') = Some b
    \<and> HttpContext_parseRequest HttpContext_new b 5 = Some (Returns (True, \<lparr>ctx_state = GOT_ALL,
        ctx_request = \<lparr>req_method = POST, req_version = HTTP11, req_path = ''/f'',
          req_query = ''hi'', req_receiveTime = 5, req_headers = [(''Content-Length'', dec 2)]\<rparr>\<rparr>, b'))
    \<and> Buffer_bytes b' = ''GET''"
proof -
  let ?r = "\<lparr>req_method = POST, req_version = HTTP11, req_path = ''/f'',
        req_query = '''', req_receiveTime = 0, req_headers = [(''Content-Length'', dec 2)]\<rparr>"
  obtain b where b: "Buffer_append (Buffer_new 0) (request_bytes ?r @ ''hi'' @ ''GET'') = Some b" "buf_inv b"
    "contents b = request_bytes ?r @ ''hi'' @ ''GET''"
    using append_spec [OF Buffer_new_inv, of 0] by force
  have ok: "request_ok ?r" by code_simp
  have len: "HttpRequest_getHeader ?r ''Content-Length'' = dec (length ''hi'')" by code_simp
  from http_post_roundtrip [OF ok _ len _ b(2,3), of 5] b(1) show ?thesis by simp
qed

text \<open>The server answers a well-formed \<^verbatim>\<open>GET\<close> request with exactly one response, the bytes of what the user's callback filled in;
  it shuts the connection down exactly when the response says so, keeps the bytes of later requests, and the context is ready for
  the next request.\<close>

lemma server_answers_get:
  assumes "request_ok r" "req_method r = GET"
    and "buf_inv b" "contents b = request_bytes r @ rest"
    and "resp = cb (r\<lparr>req_receiveTime := t\<rparr>) (HttpResponse_new
      (HttpRequest_getHeader r ''Connection'' = ''close''
       \<or> req_version r = HTTP10 \<and> HttpRequest_getHeader r ''Connection'' \<noteq> ''Keep-Alive''))"
    and "length (resp_body resp) < 10 ^ 13"
  shows "\<exists>b'. HttpServer_onMessage cb (Some HttpContext_new) b t =
      Some (Returns (ConnSend (response_bytes resp) # (if resp_closeConnection resp then [ConnShutdown] else []),
        Some HttpContext_new, b'))
    \<and> Buffer_bytes b' = rest"
proof -
  have "parse_bytes t HttpContext_new (contents b) =
      Returns (True, \<lparr>ctx_state = GOT_ALL, ctx_request = r\<lparr>req_receiveTime := t\<rparr>\<rparr>, rest)"
    using assms by (simp add: parse_request_head after_headers_def)
  from parse_Returns [OF assms(3) _ this] obtain b' where
    p: "HttpContext_parseRequest HttpContext_new b t =
      Some (Returns (True, \<lparr>ctx_state = GOT_ALL, ctx_request = r\<lparr>req_receiveTime := t\<rparr>\<rparr>, b'))"
    "buf_inv b'" "contents b' = rest"
    by (auto simp: HttpContext_new_def)
  obtain out where "HttpResponse_appendToBuffer resp (Buffer_new kInitalSize) = Some out" "buf_inv out"
    "contents out = response_bytes resp"
    using appendToBuffer_spec [OF Buffer_new_inv assms(6)] by auto
  then have "HttpServer_onRequest cb (r\<lparr>req_receiveTime := t\<rparr>) =
      Some (ConnSend (response_bytes resp) # (if resp_closeConnection resp then [ConnShutdown] else []))"
    using assms(5)
    by (simp add: HttpServer_onRequest_def Let_def Buffer_bytes_contents buf_inv_wf HttpRequest_getHeader_def)
  moreover have "HttpContext_reset \<lparr>ctx_state = GOT_ALL, ctx_request = r\<lparr>req_receiveTime := t\<rparr>\<rparr> = HttpContext_new"
    by (simp add: HttpContext_reset_def HttpContext_new_def HttpRequest_swap_def HttpRequest_new_def)
  ultimately show ?thesis
    using p by (simp add: HttpServer_onMessage_def gotAll_def Buffer_bytes_contents buf_inv_wf)
qed

text \<open>C37. A request line with a known method but a malformed rest is answered with 400, and the parser keeps
  the line and the method: the next byte that arrives on the connection before it is closed runs into the
  assertion of \<^verbatim>\<open>setMethod\<close> and stops the whole server.\<close>

theorem http_bad_request_stops_server:
  assumes "buf_inv b" "req_method (ctx_request c) = INVALID" "\<not> gotAll c"
    and "HttpContext_parseRequest c b t = Some (Returns (False, c1, b1))"
    and "req_method (ctx_request c1) \<noteq> INVALID"
    and "Buffer_append b1 more_bytes = Some b2"
  shows "HttpServer_onMessage cb (Some c1) b2 t' = Some Stops"
proof -
  obtain r where r: "HttpContext_parseRequest c b t = Some r" "with_contents r (parse_bytes t c (contents b))"
    using parse_refines [OF assms(1)] assms(3) unfolding gotAll_def by metis
  then have p1: "parse_bytes t c (contents b) = Returns (False, c1, contents b1)" "buf_inv b1"
    using assms(4) by auto
  have b2: "buf_inv b2" "contents b2 = contents b1 @ more_bytes"
    using bq.push_Some [OF p1(2) assms(6)] by auto
  have stops: "parse_bytes t' c1 (contents b2) = Stops"
    using parse_bytes_bad_line [OF p1(1) assms(2,5)] b2 by simp
  then have "ctx_state c1 \<noteq> GOT_ALL" by (auto simp: parse_bytes.simps [of t' c1])
  from parse_refines [OF b2(1) this] stops obtain r where
    "HttpContext_parseRequest c1 b2 t' = Some r" "with_contents r Stops" by metis
  then show ?thesis by (cases r) (auto simp: HttpServer_onMessage_def with_contents_def)
qed

theorem http_bad_request_stops_server_witness:
  "\<exists>b c1 b1 b2. Buffer_append (Buffer_new 8) (''GET /x HTTP/2.0'' @ kCRLF) = Some b
    \<and> HttpContext_parseRequest HttpContext_new b 7 = Some (Returns (False, c1, b1))
    \<and> Buffer_append b1 ''A'' = Some b2
    \<and> HttpServer_onMessage defaultHttpCallback (Some c1) b2 8 = Some Stops"
proof -
  have "Buffer_append (Buffer_new 8) (''GET /x HTTP/2.0'' @ kCRLF) \<noteq> None" by code_simp
  then obtain b where b: "Buffer_append (Buffer_new 8) (''GET /x HTTP/2.0'' @ kCRLF) = Some b" "buf_inv b"
    using bq.push_Some [OF Buffer_new_inv] by auto
  have "case HttpContext_parseRequest HttpContext_new
        (the (Buffer_append (Buffer_new 8) (''GET /x HTTP/2.0'' @ kCRLF))) 7 of
      Some (Returns (ok, c1, b1)) \<Rightarrow> \<not> ok \<and> req_method (ctx_request c1) \<noteq> INVALID \<and> buf_inv b1 | _ \<Rightarrow> False"
    by code_simp
  then obtain c1 b1 where p1: "HttpContext_parseRequest HttpContext_new b 7 = Some (Returns (False, c1, b1))"
    "req_method (ctx_request c1) \<noteq> INVALID" "buf_inv b1"
    using b(1) by (auto split: option.splits outcome.splits)
  obtain b2 where b2: "Buffer_append b1 ''A'' = Some b2" using append_spec [OF p1(3)] by blast
  have new: "req_method (ctx_request HttpContext_new) = INVALID" "\<not> gotAll HttpContext_new"
    by (simp_all add: gotAll_def HttpContext_new_def HttpRequest_new_def)
  from http_bad_request_stops_server [OF b(2) new p1(1,2) b2] b(1) p1(1) b2 show ?thesis by blast
qed

text \<open>\<^verbatim>\<open>HEAD\<close>, \<^verbatim>\<open>PUT\<close> and \<^verbatim>\<open>DELETE\<close> requests are recognised but never completed: whatever follows
  their request line, the parser asks for more, and the server sends nothing.\<close>

lemma http_other_methods_never_complete:
  assumes "buf_inv b" "ctx_state c = EXPECT_HEADERS" "req_method (ctx_request c) \<in> {HEAD, PUT, DELETE}"
  shows "\<exists>c' b'. HttpServer_onMessage cb (Some c) b t = Some (Returns ([], Some c', b'))
    \<and> ctx_state c' = EXPECT_HEADERS"
proof -
  obtain c1 s1 where p: "parse_bytes t c (contents b) = Returns (True, c1, s1)" "ctx_state c1 = EXPECT_HEADERS"
    using parse_bytes_stuck [OF assms(2)] assms(3) by fastforce
  obtain b' where "HttpContext_parseRequest c b t = Some (Returns (True, c1, b'))"
    using parse_Returns [OF assms(1) _ p(1)] assms(2) by force
  with p(2) show ?thesis by (auto simp: HttpServer_onMessage_def gotAll_def)
qed

lemma http_other_methods_never_complete_witness:
  "\<exists>c' b'. HttpServer_onMessage defaultHttpCallback (Some \<lparr>ctx_state = EXPECT_HEADERS,
       ctx_request = HttpRequest_new\<lparr>req_method := HEAD\<rparr>\<rparr>) (Buffer_new 8) 3 = Some (Returns ([], Some c', b'))
    \<and> ctx_state c' = EXPECT_HEADERS"
  by (rule http_other_methods_never_complete) simp_all

end
