(* ===== verification/Timers.thy ===== *)
theory Timers
  imports Timestamps StdMap "HOL-Library.Product_Lexorder" "HOL-Library.Multiset"
begin

text \<open>
  \<^verbatim>\<open>pallette/Timer.h\<close>, \<^verbatim>\<open>Timer.cpp\<close>, \<^verbatim>\<open>TimerId.h\<close>, \<^verbatim>\<open>TimerQueue.h\<close>, \<^verbatim>\<open>TimerQueue.cpp\<close>: the timer
  queue of an event loop, over an explicit heap of timers (a \<^verbatim>\<open>Timer*\<close> is an address). The queue's
  own invariant keeps the asserts of the source from firing; deleting the same timer twice stops the
  program.

  Parameters: \<open>alloc\<close> is \<^verbatim>\<open>operator new\<close> (it may return any address that is not in use), \<open>user\<close> is the
  code of the timer callbacks: what a callback does to the queue is the list of calls it makes, which may
  depend on the whole state. Each call carries the clock reading \<^verbatim>\<open>howMuchTimeFromNow\<close> makes in it.
\<close>

type_synonym addr = nat
type_synonym callback = nat

section \<open>Timer\<close>

record Timer =
  tm_callback :: callback
  tm_expiration :: Timestamp
  tm_interval :: rat
  tm_repeat :: bool
  tm_sequence :: int

definition Timer_new :: "int \<Rightarrow> callback \<Rightarrow> Timestamp \<Rightarrow> rat \<Rightarrow> Timer" where
  "Timer_new sNumCreated cb when interval =
     \<lparr>tm_callback = cb, tm_expiration = when, tm_interval = interval, tm_repeat = (interval > 0),
      tm_sequence = sNumCreated\<rparr>"

definition Timer_restart :: "Timer \<Rightarrow> Timestamp \<Rightarrow> Timer" where
  "Timer_restart t now =
     (if tm_repeat t then t\<lparr>tm_expiration := addTime now (tm_interval t)\<rparr>
      else t\<lparr>tm_expiration := Timestamp_invalid\<rparr>)"

record TimerId =
  id_timer :: addr
  id_sequence :: int

section \<open>The queue\<close>

type_synonym Entry = "Timestamp \<times> addr"
type_synonym heap = "(addr, Timer) std_map"

text \<open>\<open>tq_armed\<close> is the kernel's side of the \<^verbatim>\<open>timerfd\<close>: the moment and the relative \<^verbatim>\<open>timespec\<close> of the
  last \<^verbatim>\<open>timerfd_settime\<close>, \<^const>\<open>None\<close> once it has fired.\<close>

record TimerQueue =
  tq_heap :: heap
  tq_created :: int
  tq_timers :: "Entry list"
  tq_active :: "addr list"
  tq_current :: "addr option"
  tq_calling :: bool
  tq_wait :: "addr list"
  tq_canceling :: "addr list"
  tq_free :: "addr list"
  tq_armed :: "(Timestamp \<times> int \<times> int) option"

definition TimerQueue_new :: TimerQueue where
  "TimerQueue_new = \<lparr>tq_heap = [], tq_created = 0, tq_timers = [], tq_active = [], tq_current = None,
     tq_calling = False, tq_wait = [], tq_canceling = [], tq_free = [], tq_armed = None\<rparr>"

definition howMuchTimeFromNow :: "Timestamp \<Rightarrow> Timestamp \<Rightarrow> int \<times> int" where
  "howMuchTimeFromNow now when =
     (let microseconds = when - now;
          microseconds = (if microseconds < 100 then 100 else microseconds)
      in (microseconds sdiv kMicroSecondsPerSecond, (microseconds smod kMicroSecondsPerSecond) * 1000))"

definition resetTimerfd :: "Timestamp \<Rightarrow> TimerQueue \<Rightarrow> Timestamp \<Rightarrow> TimerQueue" where
  "resetTimerfd clock q expiration = q\<lparr>tq_armed := Some (clock, howMuchTimeFromNow clock expiration)\<rparr>"

definition deref :: "TimerQueue \<Rightarrow> addr \<Rightarrow> Timer option" where
  "deref q a = map_find (tq_heap q) a"

text \<open>\<^verbatim>\<open>std::set::insert\<close> and \<^verbatim>\<open>std::set::erase\<close>.\<close>

definition set_insert :: "Entry \<Rightarrow> Entry list \<Rightarrow> bool \<times> Entry list" where
  "set_insert e xs = (if e \<in> set xs then (False, xs) else (True, insort e xs))"

definition set_erase :: "Entry \<Rightarrow> Entry list \<Rightarrow> nat \<times> Entry list" where
  "set_erase e xs = (length (filter ((=) e) xs), filter ((\<noteq>) e) xs)"

definition TimerQueue_insert :: "TimerQueue \<Rightarrow> addr \<Rightarrow> (bool \<times> TimerQueue) option" where
  "TimerQueue_insert q timer = do {
     t \<leftarrow> deref q timer;
     let when = tm_expiration t;
     let earliestChanged = (tq_timers q = [] \<or> when < fst (hd (tq_timers q)));
     let result = set_insert (when, timer) (tq_timers q);
     assertion (fst result);
     Some (earliestChanged, q\<lparr>tq_timers := snd result, tq_wait := tq_wait q @ [timer]\<rparr>) }"

definition addTimerInLoop :: "Timestamp \<Rightarrow> TimerQueue \<Rightarrow> addr \<Rightarrow> TimerQueue option" where
  "addTimerInLoop clock q timer = do {
     (earliestChanged, q) \<leftarrow> TimerQueue_insert q timer;
     t \<leftarrow> deref q timer;
     Some (if earliestChanged then resetTimerfd clock q (tm_expiration t) else q) }"

definition cancelInLoop :: "TimerQueue \<Rightarrow> TimerId \<Rightarrow> TimerQueue option" where
  "cancelInLoop q timerId =
     (if id_timer timerId \<in> set (tq_wait q) then do {
        let it = id_timer timerId;
        let q = q\<lparr>tq_free := tq_free q @ [it]\<rparr>;
        t \<leftarrow> deref q it;
        let (n, timers) = set_erase (tm_expiration t, it) (tq_timers q);
        assertion (n = 1);
        Some (q\<lparr>tq_timers := timers, tq_wait := remove1 it (tq_wait q)\<rparr>) }
      else if tq_calling q then
        (if id_timer timerId \<in> set (tq_active q)
         then Some (q\<lparr>tq_canceling := tq_canceling q @ [id_timer timerId]\<rparr>)
         else Some q)
      else Some q)"

text \<open>\<^verbatim>\<open>addTimer\<close> allocates in the calling thread; \<^verbatim>\<open>addTimerInLoop\<close> follows in the loop thread, at once
  when the caller is the loop thread.\<close>

definition new_timer :: "(heap \<Rightarrow> addr) \<Rightarrow> TimerQueue \<Rightarrow> callback \<Rightarrow> Timestamp \<Rightarrow> rat \<Rightarrow> TimerId \<times> TimerQueue" where
  "new_timer alloc q cb when interval =
     (let a = alloc (tq_heap q) in
      (\<lparr>id_timer = a, id_sequence = tq_created q\<rparr>,
       q\<lparr>tq_heap := map_put (tq_heap q) a (Timer_new (tq_created q) cb when interval),
         tq_created := tq_created q + 1\<rparr>))"

definition addTimer ::
  "(heap \<Rightarrow> addr) \<Rightarrow> Timestamp \<Rightarrow> TimerQueue \<Rightarrow> callback \<Rightarrow> Timestamp \<Rightarrow> rat \<Rightarrow> (TimerId \<times> TimerQueue) option" where
  "addTimer alloc clock q cb when interval = do {
     let (timerId, q) = new_timer alloc q cb when interval;
     q \<leftarrow> addTimerInLoop clock q (id_timer timerId);
     Some (timerId, q) }"

text \<open>\<^verbatim>\<open>getExpired\<close>: the sentry \<^verbatim>\<open>(now, UINTPTR_MAX)\<close> lies behind every entry of time \<open>now\<close>, since no
  timer lives at that address.\<close>

definition getExpired :: "TimerQueue \<Rightarrow> Timestamp \<Rightarrow> TimerQueue option" where
  "getExpired q now = do {
     let expired = takeWhile (\<lambda>e. fst e \<le> now) (tq_timers q);
     let rest = dropWhile (\<lambda>e. fst e \<le> now) (tq_timers q);
     assertion (rest = [] \<or> now < fst (hd rest));
     q \<leftarrow> foldo (\<lambda>e q. do {
         assertion (snd e \<in> set (tq_wait q));
         Some (q\<lparr>tq_active := tq_active q @ [snd e], tq_wait := remove1 (snd e) (tq_wait q)\<rparr>) })
       expired (q\<lparr>tq_active := []\<rparr>);
     let q = q\<lparr>tq_timers := rest\<rparr>;
     assertion (length (tq_timers q) = length (tq_wait q));
     Some q }"

definition reset_timer :: "Timestamp \<Rightarrow> addr \<Rightarrow> TimerQueue \<Rightarrow> TimerQueue option" where
  "reset_timer now expireTimer q = do {
     t \<leftarrow> deref q expireTimer;
     if tm_repeat t \<and> expireTimer \<notin> set (tq_canceling q) then do {
       let q = q\<lparr>tq_heap := map_put (tq_heap q) expireTimer (Timer_restart t now)\<rparr>;
       (earliestChanged, q) \<leftarrow> TimerQueue_insert q expireTimer;
       Some q }
     else Some (q\<lparr>tq_free := tq_free q @ [expireTimer]\<rparr>) }"

definition TimerQueue_reset :: "Timestamp \<Rightarrow> TimerQueue \<Rightarrow> Timestamp \<Rightarrow> TimerQueue option" where
  "TimerQueue_reset clock q now = do {
     q \<leftarrow> foldo (reset_timer now) (tq_active q) q;
     let nextExpire = (if tq_timers q \<noteq> [] then fst (hd (tq_timers q)) else Timestamp_invalid);
     Some (if Timestamp_valid nextExpire then resetTimerfd clock q nextExpire else q) }"

text \<open>The calls a timer callback may make on the queue it runs in.\<close>

datatype tq_call = CallAddTimer callback Timestamp rat Timestamp | CallCancel TimerId

fun tq_do :: "(heap \<Rightarrow> addr) \<Rightarrow> tq_call \<Rightarrow> TimerQueue \<Rightarrow> TimerQueue option" where
  "tq_do alloc (CallAddTimer cb when interval clock) q = map_option snd (addTimer alloc clock q cb when interval)"
| "tq_do alloc (CallCancel timerId) q = cancelInLoop q timerId"

fun run_timer ::
  "(heap \<Rightarrow> addr) \<Rightarrow> (callback \<Rightarrow> TimerQueue \<Rightarrow> tq_call list) \<Rightarrow> addr
   \<Rightarrow> callback list \<times> TimerQueue \<Rightarrow> (callback list \<times> TimerQueue) option" where
  "run_timer alloc user expiredTimer (trace, q) = do {
     let q = q\<lparr>tq_current := Some expiredTimer\<rparr>;
     t \<leftarrow> deref q expiredTimer;
     q \<leftarrow> foldo (tq_do alloc) (user (tm_callback t) q) q;
     Some (trace @ [tm_callback t], q) }"

text \<open>\<^verbatim>\<open>handleRead\<close> returns, beside the new state, the callbacks it has run.\<close>

definition TimerQueue_handleRead ::
  "(heap \<Rightarrow> addr) \<Rightarrow> (callback \<Rightarrow> TimerQueue \<Rightarrow> tq_call list) \<Rightarrow> Timestamp \<Rightarrow> Timestamp
   \<Rightarrow> TimerQueue \<Rightarrow> (callback list \<times> TimerQueue) option" where
  "TimerQueue_handleRead alloc user now clock q = do {
     let q = q\<lparr>tq_armed := None\<rparr>;
     q \<leftarrow> getExpired q now;
     let q = q\<lparr>tq_calling := True, tq_canceling := []\<rparr>;
     (trace, q) \<leftarrow> foldo (run_timer alloc user) (tq_active q) ([], q);
     let q = q\<lparr>tq_calling := False\<rparr>;
     q \<leftarrow> TimerQueue_reset clock q now;
     Some (trace, q) }"

text \<open>The destructor deletes what the three containers hold; the second \<^verbatim>\<open>delete\<close> of a timer is a
  double free.\<close>

definition delete_timer :: "addr \<Rightarrow> TimerQueue \<Rightarrow> TimerQueue option" where
  "delete_timer a q = do {
     t \<leftarrow> deref q a;
     Some (q\<lparr>tq_heap := snd (map_erase (tq_heap q) a)\<rparr>) }"

definition TimerQueue_destroy :: "TimerQueue \<Rightarrow> TimerQueue option" where
  "TimerQueue_destroy q = do {
     q1 \<leftarrow> foldo delete_timer (map snd (tq_timers q)) q;
     q2 \<leftarrow> foldo delete_timer (tq_canceling q1) q1;
     foldo delete_timer (tq_free q2) q2 }"

section \<open>The invariant\<close>

text \<open>\<^verbatim>\<open>operator new\<close> returns an address that is not in use.\<close>

definition alloc_ok :: "(heap \<Rightarrow> addr) \<Rightarrow> bool" where
  "alloc_ok alloc \<longleftrightarrow> (\<forall>h. map_find h (alloc h) = None)"

text \<open>The waiting list and the ordered set hold the same timers, entries carry the expiration of their
  timer, and every timer the queue owns is owned once: it waits, is on the free list, or is one of
  \<open>ext\<close>, the timers that are being run or were created by a thread whose \<^verbatim>\<open>addTimerInLoop\<close> is still
  queued.\<close>

definition tq_inv :: "addr list \<Rightarrow> TimerQueue \<Rightarrow> bool" where
  "tq_inv ext q \<longleftrightarrow>
     sorted_wrt (<) (tq_timers q) \<and> mset (tq_wait q) = mset (map snd (tq_timers q))
     \<and> distinct (tq_wait q @ tq_free q @ ext)
     \<and> (\<forall>e\<in>set (tq_timers q). \<exists>t. deref q (snd e) = Some t \<and> tm_expiration t = fst e)
     \<and> (\<forall>a\<in>set (tq_wait q @ tq_free q @ ext). deref q a \<noteq> None)
     \<and> (\<forall>a t. deref q a = Some t \<longrightarrow> tm_repeat t \<longrightarrow> tm_interval t > 0)"

lemma tq_inv_new [simp]: "tq_inv [] TimerQueue_new"
  by (simp add: tq_inv_def TimerQueue_new_def deref_def)

lemma strict_sorted_insort:
  fixes e :: "'a::linorder"
  shows "sorted_wrt (<) xs \<Longrightarrow> e \<notin> set xs \<Longrightarrow> sorted_wrt (<) (insort e xs)"
  by (simp add: strict_sorted_iff sorted_insort distinct_insort)

lemma tq_inv_waiting: "tq_inv ext q \<Longrightarrow> set (tq_wait q) = snd ` set (tq_timers q)"
  unfolding tq_inv_def by (metis mset_eq_setD set_map)

lemma tq_inv_distinct: "tq_inv ext q \<Longrightarrow> distinct (map snd (tq_timers q))"
proof -
  assume "tq_inv ext q"
  then have "mset (tq_wait q) = mset (map snd (tq_timers q))" "distinct (tq_wait q)"
    by (simp_all add: tq_inv_def)
  then show ?thesis using mset_eq_imp_distinct_iff by blast
qed

lemma deref_simps [simp]:
  "deref (q\<lparr>tq_timers := x\<rparr>) = deref q" "deref (q\<lparr>tq_wait := y\<rparr>) = deref q"
  "deref (q\<lparr>tq_free := y\<rparr>) = deref q" "deref (q\<lparr>tq_active := y\<rparr>) = deref q"
  "deref (q\<lparr>tq_armed := z\<rparr>) = deref q" "deref (q\<lparr>tq_calling := c\<rparr>) = deref q"
  "deref (q\<lparr>tq_canceling := y\<rparr>) = deref q" "deref (q\<lparr>tq_current := u\<rparr>) = deref q"
  "deref (q\<lparr>tq_created := n\<rparr>) = deref q"
  by (auto simp: deref_def)

lemma deref_put [simp]: "deref (q\<lparr>tq_heap := map_put (tq_heap q) a t\<rparr>) a' = (if a = a' then Some t else deref q a')"
  by (simp add: deref_def)

lemma tq_inv_frame [simp]:
  "tq_inv ext (q\<lparr>tq_active := y\<rparr>) = tq_inv ext q" "tq_inv ext (q\<lparr>tq_armed := z\<rparr>) = tq_inv ext q"
  "tq_inv ext (q\<lparr>tq_calling := c\<rparr>) = tq_inv ext q" "tq_inv ext (q\<lparr>tq_canceling := y\<rparr>) = tq_inv ext q"
  "tq_inv ext (q\<lparr>tq_current := u\<rparr>) = tq_inv ext q"
  by (simp_all add: tq_inv_def)

lemma tq_inv_put:
  assumes "tq_inv (a # ext) q" "tm_repeat t \<longrightarrow> tm_interval t > 0"
  shows "tq_inv (a # ext) (q\<lparr>tq_heap := map_put (tq_heap q) a t\<rparr>)"
proof -
  have "a \<notin> set (tq_wait q)" using assms(1) by (simp add: tq_inv_def)
  then have ne: "snd e \<noteq> a" if "e \<in> set (tq_timers q)" for e
    using tq_inv_waiting [OF assms(1)] that by auto
  have "\<forall>e\<in>set (tq_timers q). \<exists>u. (if a = snd e then Some t else deref q (snd e)) = Some u \<and> tm_expiration u = fst e"
    using assms(1) ne by (metis (no_types, lifting) tq_inv_def)
  moreover have "\<forall>x u. (if a = x then Some t else deref q x) = Some u \<longrightarrow> tm_repeat u \<longrightarrow> tm_interval u > 0"
    using assms by (simp add: tq_inv_def)
  ultimately show ?thesis using assms(1) unfolding tq_inv_def by simp
qed

lemma insert_ok:
  assumes "tq_inv (a # ext) q" "deref q a = Some t"
  defines "q' \<equiv> q\<lparr>tq_timers := insort (tm_expiration t, a) (tq_timers q), tq_wait := tq_wait q @ [a]\<rparr>"
  shows "TimerQueue_insert q a = Some (tq_timers q = [] \<or> tm_expiration t < fst (hd (tq_timers q)), q')"
    and "tq_inv ext q'"
proof -
  have "a \<notin> set (tq_wait q)" using assms(1) by (auto simp: tq_inv_def)
  then have fresh: "(tm_expiration t, a) \<notin> set (tq_timers q)"
    using tq_inv_waiting [OF assms(1)] by force
  then show "TimerQueue_insert q a = Some (tq_timers q = [] \<or> tm_expiration t < fst (hd (tq_timers q)), q')"
    using assms(2) by (simp add: TimerQueue_insert_def set_insert_def q'_def Let_def)
  show "tq_inv ext q'"
    using assms(1,2) fresh
    by (auto simp: tq_inv_def q'_def strict_sorted_insort set_insort_key)
qed

lemma new_timer_ok:
  assumes "alloc_ok alloc" "tq_inv ext q" "new_timer alloc q cb when interval = (timerId, q')"
  shows "tq_inv (id_timer timerId # ext) q'" "deref q' (id_timer timerId) = Some (Timer_new (tq_created q) cb when interval)"
    and "\<And>a. deref q a \<noteq> None \<Longrightarrow> deref q' a = deref q a"
    and "q' = q\<lparr>tq_heap := tq_heap q', tq_created := tq_created q'\<rparr>"
proof -
  have none: "deref q (alloc (tq_heap q)) = None" using assms(1) by (simp add: alloc_ok_def deref_def)
  have q': "q' = q\<lparr>tq_heap := map_put (tq_heap q) (alloc (tq_heap q)) (Timer_new (tq_created q) cb when interval),
      tq_created := tq_created q + 1\<rparr>" and i: "id_timer timerId = alloc (tq_heap q)"
    using assms(3) by (auto simp: new_timer_def Let_def)
  then show "deref q' (id_timer timerId) = Some (Timer_new (tq_created q) cb when interval)"
    and "q' = q\<lparr>tq_heap := tq_heap q', tq_created := tq_created q'\<rparr>"
    by (simp_all add: deref_def)
  have d: "deref q' a = (if a = alloc (tq_heap q) then Some (Timer_new (tq_created q) cb when interval) else deref q a)" for a
    by (simp add: q' deref_def)
  then show "\<And>a. deref q a \<noteq> None \<Longrightarrow> deref q' a = deref q a" using none by auto
  show "tq_inv (id_timer timerId # ext) q'"
  proof -
    have own: "alloc (tq_heap q) \<notin> set (tq_wait q @ tq_free q @ ext)"
      using assms(2) none unfolding tq_inv_def by blast
    have tim: "snd e \<noteq> alloc (tq_heap q)" if "e \<in> set (tq_timers q)" for e
      using assms(2) none that by (fastforce simp: tq_inv_def)
    have lists: "tq_timers q' = tq_timers q" "tq_wait q' = tq_wait q" "tq_free q' = tq_free q"
      by (simp_all add: q')
    have "\<forall>e\<in>set (tq_timers q). \<exists>t. deref q' (snd e) = Some t \<and> tm_expiration t = fst e"
      using assms(2) tim by (simp add: tq_inv_def d)
    moreover have "\<forall>a\<in>set (tq_wait q @ tq_free q @ id_timer timerId # ext). deref q' a \<noteq> None"
      using assms(2) by (auto simp: tq_inv_def d i)
    moreover have "distinct (tq_wait q @ tq_free q @ id_timer timerId # ext)"
      using assms(2) own by (auto simp: tq_inv_def i)
    moreover have "\<forall>a t. deref q' a = Some t \<longrightarrow> tm_repeat t \<longrightarrow> tm_interval t > 0"
      using assms(2) by (auto simp: tq_inv_def d Timer_new_def)
    ultimately show ?thesis using assms(2) unfolding tq_inv_def lists by blast
  qed
qed

lemma set_erase_present:
  "sorted_wrt (<) xs \<Longrightarrow> e \<in> set xs \<Longrightarrow> set_erase e xs = (1, remove1 e xs)"
proof -
  assume "sorted_wrt (<) xs" "e \<in> set xs"
  then have "distinct xs" "e \<in> set xs" by (simp_all add: strict_sorted_iff)
  then show ?thesis
    by (induction xs) (auto simp: set_erase_def filter_empty_conv filter_id_conv)
qed

lemma cancel_ok:
  assumes "tq_inv ext q"
  shows "\<exists>q'. cancelInLoop q i = Some q' \<and> tq_inv ext q' \<and> tq_active q' = tq_active q
    \<and> tq_calling q' = tq_calling q \<and> tq_heap q' = tq_heap q \<and> tq_armed q' = tq_armed q
    \<and> set (tq_timers q') \<subseteq> set (tq_timers q)
    \<and> (set (tq_canceling q) \<subseteq> set (tq_active q) \<longrightarrow> set (tq_canceling q') \<subseteq> set (tq_active q'))"
proof (cases "id_timer i \<in> set (tq_wait q)")
  case True
  let ?a = "id_timer i"
  obtain e where e: "(e, ?a) \<in> set (tq_timers q)" using True tq_inv_waiting [OF assms] by force
  then obtain t where t: "deref q ?a = Some t" "tm_expiration t = e" using assms by (force simp: tq_inv_def)
  have er: "set_erase (e, ?a) (tq_timers q) = (1, remove1 (e, ?a) (tq_timers q))"
    using set_erase_present e assms by (simp add: tq_inv_def)
  define q' where "q' = q\<lparr>tq_free := tq_free q @ [?a], tq_timers := remove1 (e, ?a) (tq_timers q),
    tq_wait := remove1 ?a (tq_wait q)\<rparr>"
  have "cancelInLoop q i = Some q'"
    using True t er by (simp add: cancelInLoop_def q'_def Let_def)
  moreover have "tq_inv ext q'"
  proof -
    have "mset (remove1 ?a (tq_wait q)) = mset (map snd (remove1 (e, ?a) (tq_timers q)))"
      using assms e by (simp add: tq_inv_def image_mset_Diff)
    moreover have "sorted_wrt (<) (remove1 (e, ?a) (tq_timers q))"
      using assms by (simp add: tq_inv_def strict_sorted_iff sorted_remove1)
    moreover have "set (remove1 (e, ?a) (tq_timers q)) \<subseteq> set (tq_timers q)" by (rule set_remove1_subset)
    moreover have "set (remove1 ?a (tq_wait q)) = set (tq_wait q) - {?a}"
      using assms by (simp add: tq_inv_def set_remove1_eq)
    ultimately show ?thesis using assms True unfolding tq_inv_def q'_def by auto
  qed
  ultimately show ?thesis by (auto simp: q'_def dest: subsetD [OF set_remove1_subset])
next
  case False
  then show ?thesis using assms by (auto simp: cancelInLoop_def)
qed

subsection \<open>Handling an expiry\<close>

lemma getExpired_loop:
  assumes "distinct (map snd es)" "snd ` set es \<subseteq> set (tq_wait q)"
  shows "foldo (\<lambda>e q. do { assertion (snd e \<in> set (tq_wait q));
         Some (q\<lparr>tq_active := tq_active q @ [snd e], tq_wait := remove1 (snd e) (tq_wait q)\<rparr>) }) es q
    = Some (q\<lparr>tq_active := tq_active q @ map snd es, tq_wait := foldl (\<lambda>w e. remove1 (snd e) w) (tq_wait q) es\<rparr>)"
  using assms
proof (induction es arbitrary: q)
  case (Cons e es)
  let ?q = "q\<lparr>tq_active := tq_active q @ [snd e], tq_wait := remove1 (snd e) (tq_wait q)\<rparr>"
  have "snd ` set es \<subseteq> set (tq_wait ?q)"
  proof
    fix x
    assume x: "x \<in> snd ` set es"
    have "snd e \<notin> snd ` set es" "snd ` set es \<subseteq> set (tq_wait q)" using Cons.prems by simp_all
    with x have "x \<noteq> snd e" "x \<in> set (tq_wait q)" by blast+
    then show "x \<in> set (tq_wait ?q)" by simp
  qed
  with Cons.IH [of ?q] Cons.prems show ?case by simp
qed simp

lemma mset_foldl_remove1:
  "mset (foldl (\<lambda>w e. remove1 (snd e) w) w es) = mset w - mset (map snd es)"
  by (induction es arbitrary: w) simp_all

lemma getExpired_ok:
  assumes "tq_inv ext q"
  shows "\<exists>q'. getExpired q now = Some q' \<and> tq_inv (tq_active q' @ ext) q'
    \<and> tq_active q' = map snd (takeWhile (\<lambda>e. fst e \<le> now) (tq_timers q))
    \<and> tq_timers q' = dropWhile (\<lambda>e. fst e \<le> now) (tq_timers q)
    \<and> tq_heap q' = tq_heap q \<and> tq_armed q' = tq_armed q \<and> tq_free q' = tq_free q"
proof -
  define ex re where "ex = takeWhile (\<lambda>e. fst e \<le> now) (tq_timers q)"
    and "re = dropWhile (\<lambda>e. fst e \<le> now) (tq_timers q)"
  have split: "ex @ re = tq_timers q" by (simp add: ex_def re_def)
  have dex: "distinct (map snd ex)"
    using tq_inv_distinct [OF assms] by (simp flip: split)
  have sub: "snd ` set ex \<subseteq> set (tq_wait q)"
    using tq_inv_waiting [OF assms] by (simp add: image_Un flip: split)
  define w where "w = foldl (\<lambda>w e. remove1 (snd e) w) (tq_wait q) ex"
  define q' where "q' = q\<lparr>tq_active := map snd ex, tq_wait := w, tq_timers := re\<rparr>"
  have wait: "mset (tq_wait q) = mset (map snd ex) + mset (map snd re)"
    using assms by (simp add: tq_inv_def flip: split)
  then have wre: "mset w = mset (map snd re)"
    by (simp only: w_def mset_foldl_remove1 add_diff_cancel_left')
  have "length re = length w" using arg_cong [OF wre, of size] by simp
  moreover have "re = [] \<or> now < fst (hd re)"
    using hd_dropWhile [of "\<lambda>e. fst e \<le> now" "tq_timers q"] unfolding re_def by (metis not_le)
  ultimately have "getExpired q now = Some q'"
    using getExpired_loop [OF dex, of "q\<lparr>tq_active := []\<rparr>"] sub
    by (simp add: getExpired_def Let_def q'_def w_def flip: ex_def re_def)
  moreover have "tq_inv (tq_active q' @ ext) q'"
  proof -
    have m: "mset (tq_wait q' @ tq_free q' @ tq_active q' @ ext) = mset (tq_wait q @ tq_free q @ ext)"
      using wait wre by (simp add: q'_def)
    have "sorted_wrt (<) (ex @ re)" using assms by (simp add: tq_inv_def split)
    then have "sorted_wrt (<) re" by (simp add: sorted_wrt_append)
    moreover have "distinct (tq_wait q' @ tq_free q' @ tq_active q' @ ext)"
      using mset_eq_imp_distinct_iff [OF m] assms by (simp add: tq_inv_def)
    moreover have "\<forall>a\<in>set (tq_wait q' @ tq_free q' @ tq_active q' @ ext). deref q' a \<noteq> None"
      using mset_eq_setD [OF m] assms by (simp add: tq_inv_def q'_def)
    moreover have "\<forall>e\<in>set re. \<exists>t. deref q' (snd e) = Some t \<and> tm_expiration t = fst e"
      using assms by (simp add: tq_inv_def q'_def ball_Un flip: split)
    moreover have "\<forall>a t. deref q' a = Some t \<longrightarrow> tm_repeat t \<longrightarrow> tm_interval t > 0"
      using assms by (simp add: tq_inv_def q'_def)
    ultimately show ?thesis using wre unfolding tq_inv_def by (simp add: q'_def)
  qed
  ultimately show ?thesis by (auto simp: q'_def ex_def re_def)
qed

subsection \<open>The calls of callbacks\<close>

definition times_ok :: "TimerQueue \<Rightarrow> bool" where
  "times_ok q \<longleftrightarrow> (\<forall>e\<in>set (tq_timers q). fst e > 0)"

fun call_valid :: "tq_call \<Rightarrow> bool" where
  "call_valid (CallAddTimer cb when interval clock) \<longleftrightarrow> when > 0"
| "call_valid (CallCancel i) \<longleftrightarrow> True"

text \<open>The part of the state the loop over the expired timers relies on: the timers being run stay
  allocated and unchanged, and only they are marked as cancelled.\<close>

definition keeps :: "TimerQueue \<Rightarrow> TimerQueue \<Rightarrow> bool" where
  "keeps q q' \<longleftrightarrow> tq_active q' = tq_active q \<and> tq_calling q' = tq_calling q
     \<and> (set (tq_canceling q) \<subseteq> set (tq_active q) \<longrightarrow> set (tq_canceling q') \<subseteq> set (tq_active q'))
     \<and> (\<forall>a. deref q a \<noteq> None \<longrightarrow> deref q' a = deref q a)"

lemma keeps_refl [simp]: "keeps q q"
  by (simp add: keeps_def)

lemma keeps_trans [trans]: "keeps q q1 \<Longrightarrow> keeps q1 q2 \<Longrightarrow> keeps q q2"
  by (fastforce simp: keeps_def)

lemma addTimer_ok:
  assumes "alloc_ok alloc" "tq_inv ext q"
  shows "\<exists>i q'. addTimer alloc clock q cb when interval = Some (i, q') \<and> tq_inv ext q' \<and> keeps q q'
    \<and> set (tq_timers q') = insert (when, id_timer i) (set (tq_timers q)) \<and> deref q (id_timer i) = None
    \<and> tq_armed q' = (if tq_timers q = [] \<or> when < fst (hd (tq_timers q))
         then Some (clock, howMuchTimeFromNow clock when) else tq_armed q)"
proof -
  obtain i q1 where n: "new_timer alloc q cb when interval = (i, q1)" by fastforce
  note new = new_timer_ok [OF assms n]
  define q2 where "q2 = q1\<lparr>tq_timers := insort (when, id_timer i) (tq_timers q1), tq_wait := tq_wait q1 @ [id_timer i]\<rparr>"
  have ins: "TimerQueue_insert q1 (id_timer i) = Some (tq_timers q1 = [] \<or> when < fst (hd (tq_timers q1)), q2)"
    and inv: "tq_inv ext q2"
    using insert_ok [OF new(1,2)] by (simp_all add: Timer_new_def q2_def)
  have same: "tq_timers q1 = tq_timers q" "tq_armed q1 = tq_armed q" "tq_active q1 = tq_active q"
    "tq_calling q1 = tq_calling q" "tq_canceling q1 = tq_canceling q"
    by (subst new(4), simp)+
  have "deref q (id_timer i) = None"
    using n assms(1) by (auto simp: new_timer_def alloc_ok_def deref_def Let_def)
  moreover have "deref q2 (id_timer i) = Some (Timer_new (tq_created q) cb when interval)"
    using new(2) by (simp add: q2_def)
  ultimately show ?thesis
    using ins inv n new(3) same
    by (auto simp: addTimer_def addTimerInLoop_def Timer_new_def keeps_def resetTimerfd_def q2_def set_insort_key)
qed

lemma tq_do_ok:
  assumes "alloc_ok alloc" "tq_inv ext q"
  shows "\<exists>q'. tq_do alloc c q = Some q' \<and> tq_inv ext q' \<and> keeps q q'
    \<and> (times_ok q \<and> call_valid c \<longrightarrow> times_ok q')"
proof (cases c)
  case (CallAddTimer cb w ivl clk)
  then show ?thesis
    using addTimer_ok [OF assms, of clk cb w ivl] by (force simp: times_ok_def)
next
  case (CallCancel i)
  obtain q' where q': "cancelInLoop q i = Some q'" "tq_inv ext q'" "tq_active q' = tq_active q"
    "tq_calling q' = tq_calling q" "tq_heap q' = tq_heap q" "set (tq_timers q') \<subseteq> set (tq_timers q)"
    "set (tq_canceling q) \<subseteq> set (tq_active q) \<longrightarrow> set (tq_canceling q') \<subseteq> set (tq_active q')"
    using cancel_ok [OF assms(2)] by blast
  have "keeps q q'" using q'(3,4,5,7) unfolding keeps_def deref_def by simp
  moreover have "times_ok q \<longrightarrow> times_ok q'" using q'(6) unfolding times_ok_def by blast
  ultimately show ?thesis using q' CallCancel by simp
qed

lemma tq_calls_ok:
  assumes "alloc_ok alloc" "tq_inv ext q"
  shows "\<exists>q'. foldo (tq_do alloc) cs q = Some q' \<and> tq_inv ext q' \<and> keeps q q'
    \<and> (times_ok q \<and> list_all call_valid cs \<longrightarrow> times_ok q')"
  using assms(2)
proof (induction cs arbitrary: q)
  case (Cons c cs)
  obtain q1 where q1: "tq_do alloc c q = Some q1" "tq_inv ext q1" "keeps q q1"
    "times_ok q \<and> call_valid c \<longrightarrow> times_ok q1"
    using tq_do_ok [OF assms(1) Cons.prems] by blast
  obtain q2 where "foldo (tq_do alloc) cs q1 = Some q2" "tq_inv ext q2" "keeps q1 q2"
    "times_ok q1 \<and> list_all call_valid cs \<longrightarrow> times_ok q2"
    using Cons.IH [OF q1(2)] by blast
  with q1 show ?case by (auto intro: keeps_trans)
qed simp

definition callback_of :: "TimerQueue \<Rightarrow> addr \<Rightarrow> callback" where
  "callback_of q a = tm_callback (the (deref q a))"

lemma run_callbacks_ok:
  assumes "alloc_ok alloc" "tq_inv ext q" "\<forall>a\<in>set as. deref q a \<noteq> None"
  shows "\<exists>q'. foldo (run_timer alloc user) as (trace, q) = Some (trace @ map (callback_of q) as, q')
    \<and> tq_inv ext q' \<and> keeps q q'
    \<and> (times_ok q \<and> (\<forall>cb q. list_all call_valid (user cb q)) \<longrightarrow> times_ok q')"
  using assms(2,3)
proof (induction as arbitrary: q trace)
  case (Cons a as)
  obtain t where t: "deref q a = Some t" using Cons.prems by auto
  let ?q = "q\<lparr>tq_current := Some a\<rparr>"
  obtain q1 where q1: "foldo (tq_do alloc) (user (tm_callback t) ?q) ?q = Some q1" "tq_inv ext q1" "keeps ?q q1"
    "times_ok ?q \<and> list_all call_valid (user (tm_callback t) ?q) \<longrightarrow> times_ok q1"
    using tq_calls_ok [OF assms(1), of ext ?q] Cons.prems by auto
  have k: "keeps q q1" using q1(3) by (auto simp: keeps_def)
  then have "\<forall>a\<in>set as. deref q1 a \<noteq> None" "map (callback_of q1) as = map (callback_of q) as"
    using Cons.prems by (auto simp: keeps_def callback_of_def)
  with Cons.IH [OF q1(2), of "trace @ [tm_callback t]"] q1 t k show ?case
    by (auto simp: callback_of_def times_ok_def intro: keeps_trans)
qed simp

subsection \<open>Resetting\<close>

definition rearmed :: "Timestamp \<Rightarrow> TimerQueue \<Rightarrow> TimerQueue \<Rightarrow> addr \<Rightarrow> bool" where
  "rearmed now q q' a \<longleftrightarrow>
     (case deref q a of
        None \<Rightarrow> False
      | Some t \<Rightarrow> if tm_repeat t \<and> a \<notin> set (tq_canceling q)
                  then (addTime now (tm_interval t), a) \<in> set (tq_timers q')
                  else a \<in> set (tq_free q'))"

lemma rearmed_cong:
  "deref q1 a = deref q a \<Longrightarrow> tq_canceling q1 = tq_canceling q \<Longrightarrow> rearmed now q1 q' a = rearmed now q q' a"
  by (auto simp: rearmed_def split: option.splits)

lemma restart_repeat: "tm_repeat t \<Longrightarrow> tm_expiration (Timer_restart t now) = addTime now (tm_interval t)"
  by (simp add: Timer_restart_def)

lemma reset_loop_ok:
  assumes "tq_inv (as @ ext) q"
  shows "\<exists>q'. foldo (reset_timer now) as q = Some q'
    \<and> tq_inv ext q' \<and> tq_canceling q' = tq_canceling q \<and> tq_calling q' = tq_calling q
    \<and> set (tq_timers q) \<subseteq> set (tq_timers q') \<and> set (tq_free q) \<subseteq> set (tq_free q')
    \<and> (\<forall>e\<in>set (tq_timers q') - set (tq_timers q). now \<le> fst e)
    \<and> (\<forall>a\<in>set as. rearmed now q q' a) \<and> (\<forall>a. a \<notin> set as \<longrightarrow> deref q' a = deref q a)"
  using assms
proof (induction as arbitrary: q)
  case (Cons a as)
  obtain t where t: "deref q a = Some t" using Cons.prems by (force simp: tq_inv_def)
  show ?case
  proof (cases "tm_repeat t \<and> a \<notin> set (tq_canceling q)")
    case True
    let ?q = "q\<lparr>tq_heap := map_put (tq_heap q) a (Timer_restart t now)\<rparr>"
    have "tq_inv (a # as @ ext) ?q"
      using Cons.prems t by (intro tq_inv_put) (auto simp: tq_inv_def Timer_restart_def)
    note ins = insert_ok [OF this, of "Timer_restart t now"]
    define q1 where "q1 = ?q\<lparr>tq_timers := insort (addTime now (tm_interval t), a) (tq_timers q),
      tq_wait := tq_wait q @ [a]\<rparr>"
    have q1: "tq_canceling q1 = tq_canceling q" "tq_calling q1 = tq_calling q" "tq_free q1 = tq_free q"
      "tq_timers q1 = insort (addTime now (tm_interval t), a) (tq_timers q)"
      by (simp_all add: q1_def)
    have inv: "tq_inv (as @ ext) q1" using ins(2) True by (simp add: restart_repeat q1_def)
    have "a \<notin> set as" using Cons.prems by (auto simp: tq_inv_def)
    then have d: "\<forall>x\<in>set as. deref q1 x = deref q x" by (auto simp: q1_def)
    from Cons.IH [OF inv] obtain q' where q': "foldo (reset_timer now) as q1 = Some q'" "tq_inv ext q'"
      "tq_canceling q' = tq_canceling q" "tq_calling q' = tq_calling q"
      "set (tq_timers q1) \<subseteq> set (tq_timers q')" "set (tq_free q) \<subseteq> set (tq_free q')"
      "\<forall>e\<in>set (tq_timers q') - set (tq_timers q1). now \<le> fst e"
      "\<forall>a\<in>set as. rearmed now q1 q' a" "\<forall>a. a \<notin> set as \<longrightarrow> deref q' a = deref q1 a"
      unfolding q1 by blast
    have "\<forall>a\<in>set as. rearmed now q q' a"
      using q'(8) d q1(1) by (metis rearmed_cong)
    moreover have "rearmed now q q' a" using t True q'(5) by (simp add: rearmed_def set_insort_key q1)
    moreover have "now \<le> addTime now (tm_interval t)" using Cons.prems t True by (auto simp: tq_inv_def intro: addTime_later)
    then have "\<forall>e\<in>set (tq_timers q') - set (tq_timers q). now \<le> fst e"
      using q'(7) by (auto simp: set_insort_key q1)
    moreover have "reset_timer now a q = Some q1"
      using t True ins(1) by (simp add: reset_timer_def restart_repeat q1_def)
    moreover have "deref q' x = deref q x" if "x \<notin> set (a # as)" for x
      using q'(9) that by (simp add: q1_def)
    ultimately show ?thesis using q' by (simp add: set_insort_key q1)
  next
    case False
    define q1 where "q1 = q\<lparr>tq_free := tq_free q @ [a]\<rparr>"
    have q1: "tq_canceling q1 = tq_canceling q" "tq_calling q1 = tq_calling q" "tq_timers q1 = tq_timers q"
      "tq_free q1 = tq_free q @ [a]" "deref q1 = deref q"
      by (simp_all add: q1_def)
    have inv: "tq_inv (as @ ext) q1" using Cons.prems by (auto simp: tq_inv_def q1_def)
    from Cons.IH [OF inv] obtain q' where q': "foldo (reset_timer now) as q1 = Some q'" "tq_inv ext q'"
      "tq_canceling q' = tq_canceling q" "tq_calling q' = tq_calling q"
      "set (tq_timers q) \<subseteq> set (tq_timers q')" "set (tq_free q @ [a]) \<subseteq> set (tq_free q')"
      "\<forall>e\<in>set (tq_timers q') - set (tq_timers q). now \<le> fst e"
      "\<forall>a\<in>set as. rearmed now q1 q' a" "\<forall>a. a \<notin> set as \<longrightarrow> deref q' a = deref q1 a"
      unfolding q1 by blast
    have "\<forall>a\<in>set as. rearmed now q q' a"
      using q'(8) q1 by (metis rearmed_cong)
    moreover have "rearmed now q q' a" using t False q'(6) by (auto simp: rearmed_def)
    moreover have "reset_timer now a q = Some q1"
      using t False by (auto simp: reset_timer_def q1_def)
    ultimately show ?thesis using q' by (simp add: q1)
  qed
qed simp

lemma reset_ok:
  assumes "tq_inv (tq_active q @ ext) q"
  shows "\<exists>q'. TimerQueue_reset clock q now = Some q' \<and> tq_inv ext q' \<and> tq_canceling q' = tq_canceling q
    \<and> set (tq_timers q) \<subseteq> set (tq_timers q') \<and> (\<forall>e\<in>set (tq_timers q') - set (tq_timers q). now \<le> fst e)
    \<and> (\<forall>a\<in>set (tq_active q). rearmed now q q' a) \<and> (\<forall>a. a \<notin> set (tq_active q) \<longrightarrow> deref q' a = deref q a)
    \<and> (times_ok q' \<and> tq_timers q' \<noteq> [] \<longrightarrow>
         tq_armed q' = Some (clock, howMuchTimeFromNow clock (fst (hd (tq_timers q')))))"
proof -
  obtain q' where q': "foldo (reset_timer now) (tq_active q) q = Some q'" "tq_inv ext q'"
    "tq_canceling q' = tq_canceling q" "set (tq_timers q) \<subseteq> set (tq_timers q')"
    "\<forall>e\<in>set (tq_timers q') - set (tq_timers q). now \<le> fst e" "\<forall>a\<in>set (tq_active q). rearmed now q q' a"
    "\<forall>a. a \<notin> set (tq_active q) \<longrightarrow> deref q' a = deref q a"
    using reset_loop_ok [OF assms] by blast
  define q'' where "q'' = (if Timestamp_valid (if tq_timers q' \<noteq> [] then fst (hd (tq_timers q')) else Timestamp_invalid)
    then resetTimerfd clock q' (if tq_timers q' \<noteq> [] then fst (hd (tq_timers q')) else Timestamp_invalid) else q')"
  have same: "tq_timers q'' = tq_timers q'" "tq_canceling q'' = tq_canceling q'" "tq_free q'' = tq_free q'"
    "tq_inv ext q'' = tq_inv ext q'" "deref q'' = deref q'"
    by (simp_all add: q''_def resetTimerfd_def)
  have "rearmed now q q'' a = rearmed now q q' a" for a
    by (auto simp: rearmed_def same split: option.splits)
  moreover have "times_ok q'' \<and> tq_timers q'' \<noteq> [] \<longrightarrow>
      tq_armed q'' = Some (clock, howMuchTimeFromNow clock (fst (hd (tq_timers q''))))"
    using hd_in_set [of "tq_timers q'"]
    by (auto simp: same times_ok_def q''_def resetTimerfd_def Timestamp_valid_def)
  moreover have "TimerQueue_reset clock q now = Some q''"
    using q'(1) by (simp add: TimerQueue_reset_def q''_def Let_def)
  ultimately show ?thesis using q' by (auto simp: same)
qed

text \<open>The whole of \<^verbatim>\<open>handleRead\<close>.\<close>

lemma handleRead_ok:
  fixes now :: Timestamp
  assumes "alloc_ok alloc" "tq_inv ext q"
  defines "ex \<equiv> map snd (takeWhile (\<lambda>e. fst e \<le> now) (tq_timers q))"
  shows "\<exists>q'. TimerQueue_handleRead alloc user now clock q = Some (map (callback_of q) ex, q') \<and> tq_inv ext q'
    \<and> set (tq_canceling q') \<subseteq> set ex \<and> (\<forall>a\<in>set ext. deref q' a = deref q a)
    \<and> (\<forall>a\<in>set ex. \<exists>t. deref q a = Some t \<and>
         (if tm_repeat t \<and> a \<notin> set (tq_canceling q')
          then (addTime now (tm_interval t), a) \<in> set (tq_timers q') else a \<in> set (tq_free q')))
    \<and> (times_ok q \<and> now > 0 \<and> (\<forall>cb q. list_all call_valid (user cb q)) \<longrightarrow>
         times_ok q' \<and> (tq_timers q' \<noteq> [] \<longrightarrow>
           tq_armed q' = Some (clock, howMuchTimeFromNow clock (fst (hd (tq_timers q'))))))"
proof -
  let ?q = "q\<lparr>tq_armed := None\<rparr>"
  have "tq_inv ext ?q" using assms(2) by simp
  from getExpired_ok [OF this, of now] obtain q1 where q1: "getExpired ?q now = Some q1"
    "tq_inv (tq_active q1 @ ext) q1" "tq_active q1 = ex"
    "tq_timers q1 = dropWhile (\<lambda>e. fst e \<le> now) (tq_timers q)" "tq_heap q1 = tq_heap q"
    by (auto simp: ex_def)
  define q2 where "q2 = q1\<lparr>tq_calling := True, tq_canceling := []\<rparr>"
  have d: "deref q2 = deref q" using q1(5) by (auto simp: q2_def deref_def)
  have inv2: "tq_inv (ex @ ext) q2" using q1(2,3) by (simp add: q2_def)
  then have al: "\<forall>a\<in>set ex. deref q2 a \<noteq> None" by (simp add: tq_inv_def)
  obtain q3 where q3: "foldo (run_timer alloc user) ex ([], q2) = Some (map (callback_of q2) ex, q3)"
    "tq_inv (ex @ ext) q3" "keeps q2 q3"
    "times_ok q2 \<and> (\<forall>cb q. list_all call_valid (user cb q)) \<longrightarrow> times_ok q3"
    using run_callbacks_ok [OF assms(1) inv2 al, of user "[]"] by auto
  define q4 where "q4 = q3\<lparr>tq_calling := False\<rparr>"
  have act: "tq_active q4 = ex" "set (tq_canceling q4) \<subseteq> set ex"
    using q3(3) q1(3) by (auto simp: keeps_def q4_def q2_def)
  have inv4: "tq_inv (tq_active q4 @ ext) q4" using q3(2) act(1) by (simp add: q4_def)
  have t4: "times_ok q \<and> (\<forall>cb q. list_all call_valid (user cb q)) \<longrightarrow> times_ok q4"
    using q3(4) q1(4) set_dropWhileD by (fastforce simp: times_ok_def q2_def q4_def)
  obtain q5 where q5: "TimerQueue_reset clock q4 now = Some q5" "tq_inv ext q5" "tq_canceling q5 = tq_canceling q4"
    "\<forall>e\<in>set (tq_timers q5) - set (tq_timers q4). now \<le> fst e"
    "\<forall>a\<in>set ex. rearmed now q4 q5 a" "\<forall>a. a \<notin> set ex \<longrightarrow> deref q5 a = deref q4 a"
    "times_ok q5 \<and> tq_timers q5 \<noteq> [] \<longrightarrow>
         tq_armed q5 = Some (clock, howMuchTimeFromNow clock (fst (hd (tq_timers q5))))"
    using reset_ok [OF inv4, of clock now] act(1) by metis
  have run: "TimerQueue_handleRead alloc user now clock q = Some (map (callback_of q) ex, q5)"
    using q1(1,3) q3(1) q5(1) d
    by (simp add: TimerQueue_handleRead_def q2_def [symmetric] q4_def [symmetric] callback_of_def)
      (simp add: q2_def)?
  have "\<exists>t. deref q a = Some t \<and> (if tm_repeat t \<and> a \<notin> set (tq_canceling q5)
          then (addTime now (tm_interval t), a) \<in> set (tq_timers q5) else a \<in> set (tq_free q5))"
    if a: "a \<in> set ex" for a
  proof -
    have "deref q4 a = deref q a" using q3(3) al a d by (simp add: keeps_def q4_def)
    with q5(3,5) a show ?thesis by (fastforce simp: rearmed_def split: option.splits)
  qed
  moreover have "deref q5 a = deref q a" if a: "a \<in> set ext" for a
  proof -
    have "a \<notin> set ex" "deref q2 a \<noteq> None" using inv2 a by (auto simp: tq_inv_def)
    then show ?thesis using q5(6) q3(3) d by (simp add: keeps_def q4_def)
  qed
  moreover have "times_ok q4 \<and> now > 0 \<longrightarrow> times_ok q5" using q5(4) by (force simp: times_ok_def)
  ultimately show ?thesis using run q5 act(2) t4 by auto
qed

section \<open>Runs\<close>

text \<open>What can happen to a queue: another thread allocates a timer, the loop later runs its queued
  \<^verbatim>\<open>addTimerInLoop\<close>, the loop thread itself adds or cancels, the \<^verbatim>\<open>timerfd\<close> fires. The first component of
  the state is the queue of allocated timers whose \<^verbatim>\<open>addTimerInLoop\<close> is pending.\<close>

datatype tq_op =
    TNewTimer callback Timestamp rat
  | TAddInLoop Timestamp
  | TAddTimer callback Timestamp rat Timestamp
  | TCancel TimerId
  | THandleRead Timestamp Timestamp

fun tq_step ::
  "(heap \<Rightarrow> addr) \<Rightarrow> (callback \<Rightarrow> TimerQueue \<Rightarrow> tq_call list) \<Rightarrow> tq_op
   \<Rightarrow> addr list \<times> TimerQueue \<Rightarrow> (addr list \<times> TimerQueue) option" where
  "tq_step alloc user (TNewTimer cb w ivl) (pend, q) =
     (let (i, q) = new_timer alloc q cb w ivl in Some (pend @ [id_timer i], q))"
| "tq_step alloc user (TAddInLoop clock) (pend, q) =
     (case pend of [] \<Rightarrow> Some (pend, q) | a # pend \<Rightarrow> map_option (Pair pend) (addTimerInLoop clock q a))"
| "tq_step alloc user (TAddTimer cb w ivl clock) (pend, q) =
     map_option (\<lambda>(i, q). (pend, q)) (addTimer alloc clock q cb w ivl)"
| "tq_step alloc user (TCancel i) (pend, q) = map_option (Pair pend) (cancelInLoop q i)"
| "tq_step alloc user (THandleRead now clock) (pend, q) =
     map_option (\<lambda>(trace, q). (pend, q)) (TimerQueue_handleRead alloc user now clock q)"

fun op_valid :: "tq_op \<Rightarrow> bool" where
  "op_valid (TNewTimer cb w ivl) \<longleftrightarrow> w > 0"
| "op_valid (TAddTimer cb w ivl clock) \<longleftrightarrow> w > 0"
| "op_valid (THandleRead now clock) \<longleftrightarrow> now > 0"
| "op_valid _ \<longleftrightarrow> True"

text \<open>The moment an armed \<^verbatim>\<open>timerfd\<close> fires, in microseconds.\<close>

definition fires_at :: "Timestamp \<times> int \<times> int \<Rightarrow> Timestamp" where
  "fires_at arm = (case arm of (clock, tv_sec, tv_nsec) \<Rightarrow>
     clock + tv_sec * kMicroSecondsPerSecond + tv_nsec div 1000)"

lemma fires_at_howMuch: "fires_at (clock, howMuchTimeFromNow clock w) = max w (clock + 100)"
proof -
  have "m sdiv 1000000 * 1000000 + (m smod 1000000) * 1000 div 1000 = m" if "0 \<le> m" for m :: int
    using that by (simp add: signed_divide_int_def signed_modulo_int_def sgn_if abs_if)
  from this [of "if w - clock < 100 then 100 else w - clock"] show ?thesis
    by (cases "w - clock < 100") (simp_all add: fires_at_def howMuchTimeFromNow_def Let_def kMicroSecondsPerSecond_def max_def)
qed

text \<open>Every waiting timer is covered: the \<^verbatim>\<open>timerfd\<close> is armed for a moment no later than its
  expiration, or 100 microseconds after the arming when that is later.\<close>

definition covered :: "TimerQueue \<Rightarrow> bool" where
  "covered q \<longleftrightarrow> (\<forall>e\<in>set (tq_timers q). \<exists>arm. tq_armed q = Some arm
     \<and> fires_at arm \<le> max (fst e) (fst arm + 100))"

lemma covered_hd:
  assumes "sorted_wrt (<) (tq_timers q)"
    and "tq_timers q \<noteq> [] \<longrightarrow> tq_armed q = Some (clock, howMuchTimeFromNow clock (fst (hd (tq_timers q))))"
  shows "covered q"
  unfolding covered_def
proof
  fix e
  assume e: "e \<in> set (tq_timers q)"
  then obtain x xs where xs: "tq_timers q = x # xs" by (cases "tq_timers q") auto
  then have "fst x \<le> fst e" using assms(1) e by (auto simp: less_prod_def')
  with assms(2) xs show "\<exists>arm. tq_armed q = Some arm \<and> fires_at arm \<le> max (fst e) (fst arm + 100)"
    by (auto simp: fires_at_howMuch)
qed

lemma covered_insert:
  assumes "covered q" "sorted_wrt (<) (tq_timers q)" "set (tq_timers q') \<subseteq> insert (w, a) (set (tq_timers q))"
    and "tq_armed q' = (if tq_timers q = [] \<or> w < fst (hd (tq_timers q))
         then Some (clock, howMuchTimeFromNow clock w) else tq_armed q)"
  shows "covered q'"
  unfolding covered_def
proof
  fix e
  assume e: "e \<in> set (tq_timers q')"
  show "\<exists>arm. tq_armed q' = Some arm \<and> fires_at arm \<le> max (fst e) (fst arm + 100)"
  proof (cases "tq_timers q = [] \<or> w < fst (hd (tq_timers q))")
    case True
    have "w \<le> fst e"
    proof (cases "e = (w, a)")
      case False
      then have "e \<in> set (tq_timers q)" using e assms(3) by blast
      then obtain x xs where xs: "tq_timers q = x # xs" by (cases "tq_timers q") auto
      then have "fst x \<le> fst e" using assms(2) \<open>e \<in> set (tq_timers q)\<close> by (auto simp: less_prod_def')
      with True xs show ?thesis by simp
    qed simp
    with True assms(4) show ?thesis by (simp add: fires_at_howMuch)
  next
    case False
    then have arm: "tq_armed q' = tq_armed q" using assms(4) by auto
    have hd: "hd (tq_timers q) \<in> set (tq_timers q)" "fst (hd (tq_timers q)) \<le> w" using False by auto
    show ?thesis
    proof (cases "e = (w, a)")
      case True
      from assms(1) hd(1) obtain ar where "tq_armed q = Some ar"
        "fires_at ar \<le> max (fst (hd (tq_timers q))) (fst ar + 100)" unfolding covered_def by blast
      with True arm hd(2) show ?thesis by auto
    next
      case False
      then have "e \<in> set (tq_timers q)" using e assms(3) by blast
      with assms(1) arm show ?thesis by (simp add: covered_def)
    qed
  qed
qed

lemma tq_inv_sorted: "tq_inv ext q \<Longrightarrow> sorted_wrt (<) (tq_timers q)"
  by (simp add: tq_inv_def)

text \<open>The state of a run: the invariant, and coverage when every time handed to the queue is a valid
  timestamp.\<close>

fun run_inv :: "addr list \<times> TimerQueue \<Rightarrow> bool" where
  "run_inv (pend, q) \<longleftrightarrow> tq_inv pend q"

fun run_covered :: "addr list \<times> TimerQueue \<Rightarrow> bool" where
  "run_covered (pend, q) \<longleftrightarrow> times_ok q \<and> covered q
     \<and> (\<forall>a\<in>set pend. \<forall>t. deref q a = Some t \<longrightarrow> tm_expiration t > 0)"

lemma addTimerInLoop_ok:
  assumes "tq_inv (a # ext) q" "deref q a = Some t"
  shows "\<exists>q'. addTimerInLoop clock q a = Some q' \<and> tq_inv ext q' \<and> deref q' = deref q
    \<and> set (tq_timers q') = insert (tm_expiration t, a) (set (tq_timers q))
    \<and> tq_armed q' = (if tq_timers q = [] \<or> tm_expiration t < fst (hd (tq_timers q))
         then Some (clock, howMuchTimeFromNow clock (tm_expiration t)) else tq_armed q)"
  using insert_ok [OF assms] assms(2)
  by (auto simp: addTimerInLoop_def resetTimerfd_def set_insort_key)

lemma step_ok:
  assumes "alloc_ok alloc" "run_inv s" "\<forall>cb q. list_all call_valid (user cb q) \<or> \<not> valid"
  shows "\<exists>s'. tq_step alloc user op s = Some s' \<and> run_inv s'
    \<and> (valid \<and> op_valid op \<and> run_covered s \<longrightarrow> run_covered s')"
proof -
  obtain pend q where s: "s = (pend, q)" by (cases s)
  with assms(2) have inv: "tq_inv pend q" by simp
  show ?thesis
  proof (cases op)
    case (TNewTimer cb w ivl)
    obtain i q' where n: "new_timer alloc q cb w ivl = (i, q')" by fastforce
    note new = new_timer_ok [OF assms(1) inv n]
    have "tq_inv (pend @ [id_timer i]) q'" using new(1) by (auto simp: tq_inv_def)
    moreover have "tq_timers q' = tq_timers q" "tq_armed q' = tq_armed q" by (subst new(4), simp)+
    moreover have "\<forall>a\<in>set pend. deref q' a = deref q a" using new(3) inv by (simp add: tq_inv_def)
    ultimately show ?thesis using TNewTimer s n new(2)
      by (auto simp: times_ok_def covered_def Timer_new_def)
  next
    case (TAddInLoop clock)
    show ?thesis
    proof (cases pend)
      case Nil
      with TAddInLoop s inv show ?thesis by simp
    next
      case (Cons a ext)
      obtain t where t: "deref q a = Some t" using inv Cons by (force simp: tq_inv_def)
      obtain q' where q': "addTimerInLoop clock q a = Some q'" "tq_inv ext q'" "deref q' = deref q"
        "set (tq_timers q') = insert (tm_expiration t, a) (set (tq_timers q))"
        "tq_armed q' = (if tq_timers q = [] \<or> tm_expiration t < fst (hd (tq_timers q))
         then Some (clock, howMuchTimeFromNow clock (tm_expiration t)) else tq_armed q)"
        using addTimerInLoop_ok [OF _ t, of ext clock] inv Cons by blast
      have "covered q \<longrightarrow> covered q'"
        using covered_insert [OF _ tq_inv_sorted [OF inv] _ q'(5)] q'(4) by blast
      with q' TAddInLoop s Cons t show ?thesis by (auto simp: times_ok_def)
    qed
  next
    case (TAddTimer cb w ivl clock)
    obtain i q' where q': "addTimer alloc clock q cb w ivl = Some (i, q')" "tq_inv pend q'" "keeps q q'"
      "set (tq_timers q') = insert (w, id_timer i) (set (tq_timers q))"
      "tq_armed q' = (if tq_timers q = [] \<or> w < fst (hd (tq_timers q))
         then Some (clock, howMuchTimeFromNow clock w) else tq_armed q)"
      using addTimer_ok [OF assms(1) inv] by blast
    have "covered q \<longrightarrow> covered q'"
      using covered_insert [OF _ tq_inv_sorted [OF inv] _ q'(5)] q'(4) by blast
    moreover have "\<forall>a\<in>set pend. deref q' a = deref q a" using q'(3) inv by (simp add: tq_inv_def keeps_def)
    ultimately show ?thesis using q' TAddTimer s by (auto simp: times_ok_def)
  next
    case (TCancel i)
    obtain q' where q': "cancelInLoop q i = Some q'" "tq_inv pend q'" "tq_heap q' = tq_heap q"
      "tq_armed q' = tq_armed q" "set (tq_timers q') \<subseteq> set (tq_timers q)"
      using cancel_ok [OF inv] by blast
    then have "times_ok q \<longrightarrow> times_ok q'" "covered q \<longrightarrow> covered q'"
      unfolding times_ok_def covered_def by (blast, metis subsetD)
    with q' TCancel s show ?thesis by (simp add: deref_def)
  next
    case (THandleRead now clock)
    obtain trace q' where q': "TimerQueue_handleRead alloc user now clock q = Some (trace, q')" "tq_inv pend q'"
      "\<forall>a\<in>set pend. deref q' a = deref q a"
      "times_ok q \<and> now > 0 \<and> (\<forall>cb q. list_all call_valid (user cb q)) \<longrightarrow>
         times_ok q' \<and> (tq_timers q' \<noteq> [] \<longrightarrow>
           tq_armed q' = Some (clock, howMuchTimeFromNow clock (fst (hd (tq_timers q')))))"
      using handleRead_ok [OF assms(1) inv, of user now clock] by blast
    have "times_ok q \<and> now > 0 \<and> valid \<longrightarrow> covered q'"
      using q'(4) covered_hd [OF tq_inv_sorted [OF q'(2)]] assms(3) by blast
    with q' THandleRead s assms(3) show ?thesis by auto
  qed
qed

lemma run_ok:
  assumes "alloc_ok alloc"
  shows "\<exists>pend q. foldo (tq_step alloc user) ops ([], TimerQueue_new) = Some (pend, q) \<and> tq_inv pend q"
proof -
  have "\<exists>s. foldo (tq_step alloc user) ops ([], TimerQueue_new) = Some s \<and> run_inv s"
    using step_ok [OF assms, of _ user False]
    by (intro foldo_total [where P = run_inv]) (blast, simp)
  then show ?thesis by auto
qed

text \<open>A concrete allocator, one address above all that are in use.\<close>

definition next_addr :: "heap \<Rightarrow> addr" where
  "next_addr h = Suc (foldr max (map fst h) 0)"

lemma alloc_ok_next: "alloc_ok next_addr"
proof -
  have "(k, v) \<in> set h \<Longrightarrow> k \<le> foldr max (map fst h) 0" for k :: nat and v :: Timer and h
    by (induction h) auto
  then show ?thesis
    unfolding alloc_ok_def next_addr_def map_find_None_iff by (metis Suc_n_not_le_n imageE prod.collapse)
qed

section \<open>Deleting\<close>

lemma delete_unallocated: "a \<in> set as \<Longrightarrow> deref q a = None \<Longrightarrow> foldo delete_timer as q = None"
proof (induction as arbitrary: q)
  case (Cons b as)
  show ?case
  proof (cases "a = b \<or> deref q b = None")
    case True
    then show ?thesis using Cons.prems by (auto simp: delete_timer_def)
  next
    case False
    then have "a \<in> set as" "deref (q\<lparr>tq_heap := snd (map_erase (tq_heap q) b)\<rparr>) a = None"
      using Cons.prems by (auto simp: deref_def)
    then show ?thesis using False Cons.IH by (auto simp: delete_timer_def)
  qed
qed simp

lemma delete_timer_Some:
  "delete_timer a q = Some q' \<longleftrightarrow> deref q a \<noteq> None \<and> q' = q\<lparr>tq_heap := snd (map_erase (tq_heap q) a)\<rparr>"
  by (auto simp: delete_timer_def elim!: bind_eq_SomeE)

lemma delete_keeps_unallocated:
  "foldo delete_timer as q = Some q' \<Longrightarrow> deref q a = None \<or> a \<in> set as \<Longrightarrow> deref q' a = None"
proof (induction as arbitrary: q)
  case (Cons b as)
  then obtain q1 where q1: "delete_timer b q = Some q1" "foldo delete_timer as q1 = Some q'"
    by (auto elim: bind_eq_SomeE)
  have "deref q1 a = None \<or> a \<in> set as"
    using q1(1) Cons.prems(2) by (auto simp: delete_timer_Some deref_def)
  then show ?case using Cons.IH [OF q1(2)] by blast
qed simp

lemma delete_same_lists:
  "foldo delete_timer as q = Some q' \<Longrightarrow> tq_canceling q' = tq_canceling q \<and> tq_free q' = tq_free q"
proof (induction as arbitrary: q)
  case (Cons b as)
  then obtain q1 where q1: "delete_timer b q = Some q1" "foldo delete_timer as q1 = Some q'"
    by (auto elim: bind_eq_SomeE)
  then show ?case using Cons.IH [OF q1(2)] by (simp add: delete_timer_Some)
qed simp

lemma destroy_double_free:
  assumes "a \<in> set (tq_canceling q)" "a \<in> set (tq_free q)"
  shows "TimerQueue_destroy q = None"
proof (rule ccontr)
  assume "TimerQueue_destroy q \<noteq> None"
  then obtain q1 q2 q3 where q: "foldo delete_timer (map snd (tq_timers q)) q = Some q1"
    "foldo delete_timer (tq_canceling q1) q1 = Some q2" "foldo delete_timer (tq_free q2) q2 = Some q3"
    by (auto simp: TimerQueue_destroy_def elim!: bind_eq_SomeE)
  then have "a \<in> set (tq_canceling q1)" "a \<in> set (tq_free q2)"
    using assms by (auto dest!: delete_same_lists)
  then have "deref q2 a = None" using delete_keeps_unallocated [OF q(2)] by blast
  then have "foldo delete_timer (tq_free q2) q2 = None"
    using delete_unallocated \<open>a \<in> set (tq_free q2)\<close> by blast
  with q(3) show False by simp
qed

section \<open>Properties\<close>

text \<open>C10. No use of a timer queue stops the program before it is destroyed: timers created by any thread,
  additions and cancellations from the loop or from inside callbacks, and expiries in any order never
  run into an \<^verbatim>\<open>assert\<close> or a dangling pointer, and leave the ordered set and the waiting list with the
  same timers, each owned once.\<close>

theorem timer_queue_never_stops:
  assumes "alloc_ok alloc"
  shows "\<exists>pend q. foldo (tq_step alloc user) ops ([], TimerQueue_new) = Some (pend, q)
    \<and> sorted_wrt (<) (tq_timers q) \<and> mset (tq_wait q) = mset (map snd (tq_timers q))
    \<and> distinct (tq_wait q @ tq_free q @ pend)"
  using run_ok [OF assms, of user ops] unfolding tq_inv_def by blast

theorem timer_queue_never_stops_witness:
  "\<exists>pend q. foldo (tq_step next_addr (\<lambda>cb q. [CallCancel \<lparr>id_timer = 1, id_sequence = 0\<rparr>]))
      [TAddTimer 7 50 1 10, TNewTimer 8 20 0, THandleRead 60 61, TAddInLoop 62] ([], TimerQueue_new) = Some (pend, q)
    \<and> sorted_wrt (<) (tq_timers q) \<and> mset (tq_wait q) = mset (map snd (tq_timers q))
    \<and> distinct (tq_wait q @ tq_free q @ pend)"
  by (rule timer_queue_never_stops [OF alloc_ok_next])

text \<open>C4. When the \<^verbatim>\<open>timerfd\<close> fires at \<open>now\<close>, exactly the timers with an expiration up to \<open>now\<close> run, each
  once and in the order of their expirations; afterwards those that repeat and were not cancelled wait
  for \<open>now\<close> plus their interval and the others are on the free list.\<close>

theorem timer_expiry_runs_due:
  assumes "alloc_ok alloc" "foldo (tq_step alloc user) ops ([], TimerQueue_new) = Some (pend, q)"
    and "due = map snd (takeWhile (\<lambda>e. fst e \<le> now) (tq_timers q))"
  shows "set due = {a. \<exists>w\<le>now. (w, a) \<in> set (tq_timers q)} \<and> distinct due
    \<and> (\<exists>q'. TimerQueue_handleRead alloc user now clock q = Some (map (callback_of q) due, q')
      \<and> (\<forall>a\<in>set due. \<exists>t. deref q a = Some t \<and>
           (if tm_repeat t \<and> a \<notin> set (tq_canceling q')
            then (addTime now (tm_interval t), a) \<in> set (tq_timers q')
            else a \<in> set (tq_free q') \<and> a \<notin> set (tq_wait q'))))"
proof -
  have inv: "tq_inv pend q" using run_ok [OF assms(1), of user ops] assms(2) by auto
  have tw: "takeWhile (\<lambda>e. fst e \<le> now) (tq_timers q) = filter (\<lambda>e. fst e \<le> now) (tq_timers q)"
    using tq_inv_sorted [OF inv]
  proof (induction "tq_timers q" arbitrary: q)
    case (Cons e es)
    have "takeWhile (\<lambda>e. fst e \<le> now) es = filter (\<lambda>e. fst e \<le> now) es"
      using Cons.hyps(1) [of "q\<lparr>tq_timers := es\<rparr>"] Cons.prems Cons.hyps(2) [symmetric] by simp
    moreover have "filter (\<lambda>e. fst e \<le> now) es = []" if "\<not> fst e \<le> now"
      using that Cons.prems Cons.hyps(2) [symmetric] by (auto simp: filter_empty_conv less_prod_def')
    ultimately show ?case using Cons.hyps(2) [symmetric] by auto
  qed simp
  have "set due = {a. \<exists>w\<le>now. (w, a) \<in> set (tq_timers q)}" by (force simp: assms(3) tw)
  moreover have "distinct due"
    using tq_inv_distinct [OF inv] unfolding assms(3) tw by (rule distinct_map_filter)
  moreover obtain q' where "TimerQueue_handleRead alloc user now clock q = Some (map (callback_of q) due, q')"
    "tq_inv pend q'" "\<forall>a\<in>set due. \<exists>t. deref q a = Some t \<and>
         (if tm_repeat t \<and> a \<notin> set (tq_canceling q')
          then (addTime now (tm_interval t), a) \<in> set (tq_timers q') else a \<in> set (tq_free q'))"
    using handleRead_ok [OF assms(1) inv, of user now clock] assms(3) by blast
  moreover have "a \<in> set (tq_free q') \<Longrightarrow> a \<notin> set (tq_wait q')" for a
    using calculation(4) by (auto simp: tq_inv_def)
  ultimately show ?thesis by (smt (verit))
qed

theorem timer_expiry_runs_due_witness:
  "\<exists>q q'. foldo (tq_step next_addr (\<lambda>cb q. [])) [TAddTimer 7 50 1 10, TAddTimer 8 20 0 11] ([], TimerQueue_new)
      = Some ([], q)
    \<and> TimerQueue_handleRead next_addr (\<lambda>cb q. []) 55 56 q = Some ([8, 7], q')"
proof -
  let ?run = "foldo (tq_step next_addr (\<lambda>cb q. [])) [TAddTimer 7 50 1 10, TAddTimer 8 20 0 11] ([], TimerQueue_new)"
  have "case ?run of Some (pend, q) \<Rightarrow> pend = []
      \<and> map (callback_of q) (map snd (takeWhile (\<lambda>e. fst e \<le> 55) (tq_timers q))) = [8, 7] | None \<Rightarrow> False"
    by code_simp
  then obtain q where q: "?run = Some ([], q)"
    "map (callback_of q) (map snd (takeWhile (\<lambda>e. fst e \<le> 55) (tq_timers q))) = [8, 7]"
    by (auto split: option.splits)
  from timer_expiry_runs_due [OF alloc_ok_next q(1) refl, of 55 56] q show ?thesis by auto
qed

text \<open>C22. No waiting timer is forgotten: as long as every time given to the queue is a valid timestamp, the
  \<^verbatim>\<open>timerfd\<close> is armed whenever a timer waits, for a moment no later than the timer's expiration or 100
  microseconds after the arming.\<close>

theorem timer_always_armed:
  assumes "alloc_ok alloc" "\<forall>cb q. list_all call_valid (user cb q)" "list_all op_valid ops"
    and "foldo (tq_step alloc user) ops ([], TimerQueue_new) = Some (pend, q)"
    and "(w, a) \<in> set (tq_timers q)"
  shows "\<exists>arm. tq_armed q = Some arm \<and> fires_at arm \<le> max w (fst arm + 100)"
proof -
  have "\<exists>s. foldo (tq_step alloc user) ops ([], TimerQueue_new) = Some s \<and> (run_inv s \<and> run_covered s)"
  proof (rule foldo_total)
    show "run_inv ([], TimerQueue_new) \<and> run_covered ([], TimerQueue_new)"
      by (simp add: times_ok_def covered_def) (simp add: TimerQueue_new_def)
    show "\<exists>s'. tq_step alloc user op s = Some s' \<and> run_inv s' \<and> run_covered s'"
      if "op \<in> set ops" "run_inv s \<and> run_covered s" for op s
      using step_ok [OF assms(1), of s user True op] assms(2,3) that by (auto simp: list_all_iff)
  qed
  then have "covered q" using assms(4) by simp
  with assms(5) show ?thesis by (force simp: covered_def)
qed

theorem timer_always_armed_witness:
  "\<exists>pend q. foldo (tq_step next_addr (\<lambda>cb q. [])) [TAddTimer 7 500 1 10, TAddTimer 8 20 0 11] ([], TimerQueue_new)
      = Some (pend, q)
    \<and> (500, 1) \<in> set (tq_timers q) \<and> (\<exists>arm. tq_armed q = Some arm \<and> fires_at arm \<le> max 500 (fst arm + 100))"
proof -
  let ?ops = "[TAddTimer 7 500 1 10, TAddTimer 8 20 0 11]"
  let ?run = "foldo (tq_step next_addr (\<lambda>cb q. [])) ?ops ([], TimerQueue_new)"
  have "case ?run of Some (pend, q) \<Rightarrow> (500, 1) \<in> set (tq_timers q) | None \<Rightarrow> False"
    by code_simp
  then obtain pend q where q: "?run = Some (pend, q)" "(500, 1) \<in> set (tq_timers q)"
    by (auto split: option.splits)
  moreover have "\<forall>cb q. list_all call_valid ((\<lambda>cb q. []) cb q)" "list_all op_valid ?ops" by simp_all
  ultimately show ?thesis using timer_always_armed [OF alloc_ok_next _ _ q] by blast
qed

text \<open>C38. A timer that is cancelled while its expiry round runs ends up on both lists the destructor deletes:
  destroying the queue before the next expiry frees it twice.\<close>

theorem timer_cancel_in_callback_double_free:
  assumes "alloc_ok alloc" "foldo (tq_step alloc user) ops ([], TimerQueue_new) = Some (pend, q)"
    and "TimerQueue_handleRead alloc user now clock q = Some (trace, q')" "tq_canceling q' \<noteq> []"
  shows "TimerQueue_destroy q' = None"
proof -
  have inv: "tq_inv pend q" using run_ok [OF assms(1), of user ops] assms(2) by auto
  let ?ex = "map snd (takeWhile (\<lambda>e. fst e \<le> now) (tq_timers q))"
  have c: "set (tq_canceling q') \<subseteq> set ?ex" and f: "\<forall>a\<in>set ?ex. \<exists>t. deref q a = Some t \<and>
         (if tm_repeat t \<and> a \<notin> set (tq_canceling q')
          then (addTime now (tm_interval t), a) \<in> set (tq_timers q') else a \<in> set (tq_free q'))"
    using handleRead_ok [OF assms(1) inv, of user now clock] assms(3) by (metis option.inject prod.inject)+
  obtain a where a: "a \<in> set (tq_canceling q')" using assms(4) by (cases "tq_canceling q'") auto
  with c f have "a \<in> set (tq_free q')" by (metis subsetD)
  with a show ?thesis by (rule destroy_double_free)
qed

theorem timer_cancel_in_callback_double_free_witness:
  "\<exists>pend q trace q'. foldo (tq_step next_addr (\<lambda>cb q. [CallCancel \<lparr>id_timer = 1, id_sequence = 0\<rparr>]))
      [TAddTimer 7 50 1 10] ([], TimerQueue_new) = Some (pend, q)
    \<and> TimerQueue_handleRead next_addr (\<lambda>cb q. [CallCancel \<lparr>id_timer = 1, id_sequence = 0\<rparr>]) 55 56 q = Some (trace, q')
    \<and> TimerQueue_destroy q' = None"
proof -
  let ?user = "\<lambda>cb q. [CallCancel \<lparr>id_timer = 1, id_sequence = 0\<rparr>]"
  let ?run = "foldo (tq_step next_addr ?user) [TAddTimer 7 50 1 10] ([], TimerQueue_new)"
  have "case ?run of Some (pend, q) \<Rightarrow>
      (case TimerQueue_handleRead next_addr ?user 55 56 q of Some (trace, q') \<Rightarrow> tq_canceling q' \<noteq> [] | None \<Rightarrow> False)
    | None \<Rightarrow> False"
    by code_simp
  then obtain pend q trace q' where "?run = Some (pend, q)"
    "TimerQueue_handleRead next_addr ?user 55 56 q = Some (trace, q')" "tq_canceling q' \<noteq> []"
    by (auto split: option.splits)
  then show ?thesis using timer_cancel_in_callback_double_free [OF alloc_ok_next] by blast
qed

end
