(* ===== verification/Poller.thy ===== *)
theory Poller
  imports Timestamps StdMap
begin

unbundle bit_operations_syntax

text \<open>
  \<^verbatim>\<open>pallette/Channel.h\<close>, \<^verbatim>\<open>Channel.cpp\<close>, \<^verbatim>\<open>EpollPoller.h\<close>, \<^verbatim>\<open>EpollPoller.cpp\<close> and the channel operations of
  \<^verbatim>\<open>EventLoop\<close>: the channels of one event loop, the poller's table of them and the kernel's interest
  list behind \<^verbatim>\<open>epoll_ctl\<close>. A \<^verbatim>\<open>Channel*\<close> is an address in a store of channels. The code here runs in the
  loop's own thread, where \<^verbatim>\<open>assertInLoopThread\<close> and the \<^verbatim>\<open>ownerLoop\<close> asserts hold.

  Parameters: \<open>exec\<close> runs a user callback, identified by a number, on the whole state; the answers of
  \<^verbatim>\<open>epoll_wait\<close> are arguments.
\<close>

type_synonym addr = nat
type_synonym handler = nat
type_synonym event_mask = "32 word"

section \<open>Event masks\<close>

definition EPOLLIN :: event_mask where "EPOLLIN = 1"
definition EPOLLPRI :: event_mask where "EPOLLPRI = 2"
definition EPOLLOUT :: event_mask where "EPOLLOUT = 4"
definition EPOLLERR :: event_mask where "EPOLLERR = 8"
definition EPOLLHUP :: event_mask where "EPOLLHUP = 16"

definition kNoneEvent :: event_mask where "kNoneEvent = 0"
definition kReadEvent :: event_mask where "kReadEvent = EPOLLIN OR EPOLLPRI"
definition kWriteEvent :: event_mask where "kWriteEvent = EPOLLOUT"

lemmas epoll_defs = EPOLLIN_def EPOLLPRI_def EPOLLOUT_def EPOLLERR_def EPOLLHUP_def
  kNoneEvent_def kReadEvent_def kWriteEvent_def

definition kNew :: int where "kNew = -1"
definition kAdded :: int where "kAdded = 1"
definition kDeleted :: int where "kDeleted = 2"

lemmas index_defs = kNew_def kAdded_def kDeleted_def

section \<open>Channel\<close>

text \<open>\<open>ch_tie\<close> is the \<^verbatim>\<open>weak_ptr\<close> with its flag: \<^const>\<open>None\<close> when \<^verbatim>\<open>tied_\<close> is false, otherwise whether the
  tied object still lives.\<close>

record Channel =
  ch_fd :: int
  ch_events :: event_mask
  ch_revents :: event_mask
  ch_index :: int
  ch_tie :: "bool option"
  ch_eventHandling :: bool
  ch_addedToLoop :: bool
  ch_readCallback :: "handler option"
  ch_writeCallback :: "handler option"
  ch_closeCallback :: "handler option"
  ch_errorCallback :: "handler option"

definition Channel_new :: "int \<Rightarrow> Channel" where
  "Channel_new cfd = \<lparr>ch_fd = cfd, ch_events = 0, ch_revents = 0, ch_index = -1, ch_tie = None,
     ch_eventHandling = False, ch_addedToLoop = False, ch_readCallback = None, ch_writeCallback = None,
     ch_closeCallback = None, ch_errorCallback = None\<rparr>"

definition isNoneEvent :: "Channel \<Rightarrow> bool" where
  "isNoneEvent c \<longleftrightarrow> ch_events c = kNoneEvent"

definition isWriting :: "Channel \<Rightarrow> bool" where
  "isWriting c \<longleftrightarrow> ch_events c AND kWriteEvent \<noteq> 0"

definition isReading :: "Channel \<Rightarrow> bool" where
  "isReading c \<longleftrightarrow> ch_events c AND kReadEvent \<noteq> 0"

definition Channel_eventsToString :: "int \<Rightarrow> event_mask \<Rightarrow> string" where
  "Channel_eventsToString fd ev =
     dec_int fd @ '': ''
     @ (if ev AND EPOLLIN \<noteq> 0 then ''EPOLLIN '' else '''')
     @ (if ev AND EPOLLOUT \<noteq> 0 then ''EPOLLOUT '' else '''')
     @ (if ev AND EPOLLPRI \<noteq> 0 then ''EPOLLPRI '' else '''')
     @ (if ev AND EPOLLERR \<noteq> 0 then ''EPOLLERR '' else '''')
     @ (if ev AND EPOLLHUP \<noteq> 0 then ''EPOLLHUP '' else '''')"

definition reventsToString :: "Channel \<Rightarrow> string" where
  "reventsToString c = Channel_eventsToString (ch_fd c) (ch_revents c)"

definition eventsToString :: "Channel \<Rightarrow> string" where
  "eventsToString c = Channel_eventsToString (ch_fd c) (ch_events c)"

section \<open>The loop's channels, the poller and the kernel\<close>

record reactor =
  rc_chans :: "(addr, Channel) std_map"
  rc_channels :: "(int, addr) std_map"
  rc_interest :: "(int, event_mask \<times> addr) std_map"
  rc_listSize :: nat
  rc_active :: "addr list"
  rc_current :: "addr option"
  rc_eventHandling :: bool

definition kInitEventListSize :: nat where "kInitEventListSize = 16"

definition EpollPoller_new :: reactor where
  "EpollPoller_new = \<lparr>rc_chans = [], rc_channels = [], rc_interest = [], rc_listSize = kInitEventListSize,
     rc_active = [], rc_current = None, rc_eventHandling = False\<rparr>"

definition chan :: "reactor \<Rightarrow> addr \<Rightarrow> Channel option" where
  "chan s a = map_find (rc_chans s) a"

definition set_chan :: "addr \<Rightarrow> Channel \<Rightarrow> reactor \<Rightarrow> reactor" where
  "set_chan a c s = s\<lparr>rc_chans := map_put (rc_chans s) a c\<rparr>"

subsection \<open>epoll\<close>

datatype ctl_op = EPOLL_CTL_ADD | EPOLL_CTL_MOD | EPOLL_CTL_DEL

text \<open>\<^verbatim>\<open>epoll_ctl\<close> fails with \<^verbatim>\<open>EEXIST\<close> for an \<^verbatim>\<open>ADD\<close> of a registered descriptor and with \<^verbatim>\<open>ENOENT\<close> for a \<^verbatim>\<open>MOD\<close>
  or \<^verbatim>\<open>DEL\<close> of one that is not.\<close>

definition epoll_ctl ::
  "ctl_op \<Rightarrow> int \<Rightarrow> event_mask \<times> addr \<Rightarrow> (int, event_mask \<times> addr) std_map
   \<Rightarrow> (int, event_mask \<times> addr) std_map option" where
  "epoll_ctl op fd ev interest =
     (case op of
        EPOLL_CTL_ADD \<Rightarrow> if map_find interest fd = None then Some (map_put interest fd ev) else None
      | EPOLL_CTL_MOD \<Rightarrow> if map_find interest fd = None then None else Some (map_put interest fd ev)
      | EPOLL_CTL_DEL \<Rightarrow> if map_find interest fd = None then None else Some (snd (map_erase interest fd)))"

definition operationToString :: "ctl_op \<Rightarrow> string" where
  "operationToString op = (case op of EPOLL_CTL_ADD \<Rightarrow> ''ADD'' | EPOLL_CTL_MOD \<Rightarrow> ''MOD'' | EPOLL_CTL_DEL \<Rightarrow> ''DEL'')"

text \<open>A failing \<^verbatim>\<open>DEL\<close> is logged, a failing \<^verbatim>\<open>ADD\<close> or \<^verbatim>\<open>MOD\<close> is fatal.\<close>

definition EpollPoller_update :: "ctl_op \<Rightarrow> addr \<Rightarrow> reactor \<Rightarrow> reactor option" where
  "EpollPoller_update operation channel s = do {
     c \<leftarrow> chan s channel;
     (case epoll_ctl operation (ch_fd c) (ch_events c, channel) (rc_interest s) of
        Some interest \<Rightarrow> Some (s\<lparr>rc_interest := interest\<rparr>)
      | None \<Rightarrow> if operation = EPOLL_CTL_DEL then Some s else None) }"

definition EpollPoller_updateChannel :: "addr \<Rightarrow> reactor \<Rightarrow> reactor option" where
  "EpollPoller_updateChannel channel s = do {
     c \<leftarrow> chan s channel;
     let index = ch_index c;
     let fd = ch_fd c;
     if index = kNew \<or> index = kDeleted then do {
       s \<leftarrow> (if index = kNew then do {
               assertion (map_find (rc_channels s) fd = None);
               Some (s\<lparr>rc_channels := map_put (rc_channels s) fd channel\<rparr>) }
             else do {
               assertion (map_find (rc_channels s) fd \<noteq> None);
               assertion (map_find (rc_channels s) fd = Some channel);
               Some s });
       let s = set_chan channel (c\<lparr>ch_index := kAdded\<rparr>) s;
       EpollPoller_update EPOLL_CTL_ADD channel s }
     else do {
       assertion (map_find (rc_channels s) fd \<noteq> None);
       assertion (map_find (rc_channels s) fd = Some channel);
       assertion (index = kAdded);
       if isNoneEvent c then do {
         s \<leftarrow> EpollPoller_update EPOLL_CTL_DEL channel s;
         Some (set_chan channel (c\<lparr>ch_index := kDeleted\<rparr>) s) }
       else EpollPoller_update EPOLL_CTL_MOD channel s } }"

definition EpollPoller_removeChannel :: "addr \<Rightarrow> reactor \<Rightarrow> reactor option" where
  "EpollPoller_removeChannel channel s = do {
     c \<leftarrow> chan s channel;
     let fd = ch_fd c;
     assertion (map_find (rc_channels s) fd \<noteq> None);
     assertion (map_find (rc_channels s) fd = Some channel);
     assertion (isNoneEvent c);
     let index = ch_index c;
     assertion (index = kAdded \<or> index = kDeleted);
     let (n, channels) = map_erase (rc_channels s) fd;
     let s = s\<lparr>rc_channels := channels\<rparr>;
     assertion (n = 1);
     s \<leftarrow> (if index = kAdded then EpollPoller_update EPOLL_CTL_DEL channel s else Some s);
     Some (set_chan channel (c\<lparr>ch_index := kNew\<rparr>) s) }"

definition EpollPoller_hasChannel :: "addr \<Rightarrow> reactor \<Rightarrow> bool option" where
  "EpollPoller_hasChannel channel s = do {
     c \<leftarrow> chan s channel;
     Some (map_find (rc_channels s) (ch_fd c) = Some channel) }"

datatype epoll_answer = EpollError nat | EpollEvents "(addr \<times> event_mask) list"

definition fillActiveChannels :: "(addr \<times> event_mask) list \<Rightarrow> reactor \<Rightarrow> reactor option" where
  "fillActiveChannels events s = do {
     assertion (length events \<le> rc_listSize s);
     foldo (\<lambda>ev s. do {
         c \<leftarrow> chan s (fst ev);
         let s = set_chan (fst ev) (c\<lparr>ch_revents := snd ev\<rparr>) s;
         Some (s\<lparr>rc_active := rc_active s @ [fst ev]\<rparr>) }) events s }"

definition EpollPoller_poll :: "epoll_answer \<Rightarrow> reactor \<Rightarrow> reactor option" where
  "EpollPoller_poll answer s =
     (case answer of
        EpollError errno \<Rightarrow> Some s
      | EpollEvents events \<Rightarrow>
          if 0 < length events then do {
            s \<leftarrow> fillActiveChannels events s;
            Some (if length events = rc_listSize s then s\<lparr>rc_listSize := rc_listSize s * 2\<rparr> else s) }
          else Some s)"

section \<open>Channel operations of the loop\<close>

definition EventLoop_updateChannel :: "addr \<Rightarrow> reactor \<Rightarrow> reactor option" where
  "EventLoop_updateChannel channel s = EpollPoller_updateChannel channel s"

definition EventLoop_removeChannel :: "addr \<Rightarrow> reactor \<Rightarrow> reactor option" where
  "EventLoop_removeChannel channel s = do {
     assertion (rc_eventHandling s \<longrightarrow> rc_current s = Some channel \<or> channel \<notin> set (rc_active s));
     EpollPoller_removeChannel channel s }"

definition EventLoop_hasChannel :: "addr \<Rightarrow> reactor \<Rightarrow> bool option" where
  "EventLoop_hasChannel channel s = EpollPoller_hasChannel channel s"

definition Channel_update :: "addr \<Rightarrow> reactor \<Rightarrow> reactor option" where
  "Channel_update channel s = do {
     c \<leftarrow> chan s channel;
     EventLoop_updateChannel channel (set_chan channel (c\<lparr>ch_addedToLoop := True\<rparr>) s) }"

definition with_events :: "(event_mask \<Rightarrow> event_mask) \<Rightarrow> addr \<Rightarrow> reactor \<Rightarrow> reactor option" where
  "with_events f channel s = do {
     c \<leftarrow> chan s channel;
     Channel_update channel (set_chan channel (c\<lparr>ch_events := f (ch_events c)\<rparr>) s) }"

definition enableReading :: "addr \<Rightarrow> reactor \<Rightarrow> reactor option" where
  "enableReading = with_events (\<lambda>events. events OR kReadEvent)"

definition disableReading :: "addr \<Rightarrow> reactor \<Rightarrow> reactor option" where
  "disableReading = with_events (\<lambda>events. events AND NOT kReadEvent)"

definition enableWriting :: "addr \<Rightarrow> reactor \<Rightarrow> reactor option" where
  "enableWriting = with_events (\<lambda>events. events OR kWriteEvent)"

definition disableWriting :: "addr \<Rightarrow> reactor \<Rightarrow> reactor option" where
  "disableWriting = with_events (\<lambda>events. events AND NOT kWriteEvent)"

definition disableAll :: "addr \<Rightarrow> reactor \<Rightarrow> reactor option" where
  "disableAll = with_events (\<lambda>events. kNoneEvent)"

definition Channel_remove :: "addr \<Rightarrow> reactor \<Rightarrow> reactor option" where
  "Channel_remove channel s = do {
     c \<leftarrow> chan s channel;
     assertion (isNoneEvent c);
     EventLoop_removeChannel channel (set_chan channel (c\<lparr>ch_addedToLoop := False\<rparr>) s) }"

definition Channel_destroy :: "addr \<Rightarrow> reactor \<Rightarrow> reactor option" where
  "Channel_destroy channel s = do {
     c \<leftarrow> chan s channel;
     assertion (\<not> ch_eventHandling c);
     assertion (\<not> ch_addedToLoop c);
     has \<leftarrow> EventLoop_hasChannel channel s;
     assertion (\<not> has);
     Some (s\<lparr>rc_chans := snd (map_erase (rc_chans s) channel)\<rparr>) }"

definition Channel_tie :: "addr \<Rightarrow> reactor \<Rightarrow> reactor option" where
  "Channel_tie channel s = do {
     c \<leftarrow> chan s channel;
     Some (set_chan channel (c\<lparr>ch_tie := Some True\<rparr>) s) }"

definition Channel_setReadCallback :: "handler \<Rightarrow> addr \<Rightarrow> reactor \<Rightarrow> reactor option" where
  "Channel_setReadCallback cb channel s = do {
     c \<leftarrow> chan s channel;
     Some (set_chan channel (c\<lparr>ch_readCallback := Some cb\<rparr>) s) }"

definition Channel_setWriteCallback :: "handler \<Rightarrow> addr \<Rightarrow> reactor \<Rightarrow> reactor option" where
  "Channel_setWriteCallback cb channel s = do {
     c \<leftarrow> chan s channel;
     Some (set_chan channel (c\<lparr>ch_writeCallback := Some cb\<rparr>) s) }"

definition Channel_setCloseCallback :: "handler \<Rightarrow> addr \<Rightarrow> reactor \<Rightarrow> reactor option" where
  "Channel_setCloseCallback cb channel s = do {
     c \<leftarrow> chan s channel;
     Some (set_chan channel (c\<lparr>ch_closeCallback := Some cb\<rparr>) s) }"

definition Channel_setErrorCallback :: "handler \<Rightarrow> addr \<Rightarrow> reactor \<Rightarrow> reactor option" where
  "Channel_setErrorCallback cb channel s = do {
     c \<leftarrow> chan s channel;
     Some (set_chan channel (c\<lparr>ch_errorCallback := Some cb\<rparr>) s) }"

subsection \<open>Dispatching an event\<close>

text \<open>Each callback runs on the whole state and may change or even destroy the channel, which is read again
  after it.\<close>

definition call_if ::
  "(handler \<Rightarrow> 's \<Rightarrow> 's option) \<Rightarrow> bool \<Rightarrow> handler option \<Rightarrow> 's \<Rightarrow> 's option" where
  "call_if exec guard cb s = (if guard then (case cb of None \<Rightarrow> Some s | Some h \<Rightarrow> exec h s) else Some s)"

definition handleEventWithGuard ::
  "(handler \<Rightarrow> reactor \<Rightarrow> reactor option) \<Rightarrow> addr \<Rightarrow> reactor \<Rightarrow> reactor option" where
  "handleEventWithGuard exec channel s = do {
     c \<leftarrow> chan s channel;
     let s = set_chan channel (c\<lparr>ch_eventHandling := True\<rparr>) s;
     s \<leftarrow> call_if exec (ch_revents c AND EPOLLHUP \<noteq> 0 \<and> \<not> ch_revents c AND EPOLLIN \<noteq> 0) (ch_closeCallback c) s;
     c \<leftarrow> chan s channel;
     s \<leftarrow> call_if exec (ch_revents c AND EPOLLERR \<noteq> 0) (ch_errorCallback c) s;
     c \<leftarrow> chan s channel;
     s \<leftarrow> call_if exec (ch_revents c AND (EPOLLIN OR EPOLLPRI OR EPOLLHUP) \<noteq> 0) (ch_readCallback c) s;
     c \<leftarrow> chan s channel;
     s \<leftarrow> call_if exec (ch_revents c AND EPOLLOUT \<noteq> 0) (ch_writeCallback c) s;
     c \<leftarrow> chan s channel;
     Some (set_chan channel (c\<lparr>ch_eventHandling := False\<rparr>) s) }"

definition Channel_handleEvent ::
  "(handler \<Rightarrow> reactor \<Rightarrow> reactor option) \<Rightarrow> addr \<Rightarrow> reactor \<Rightarrow> reactor option" where
  "Channel_handleEvent exec channel s = do {
     c \<leftarrow> chan s channel;
     (case ch_tie c of
        Some alive \<Rightarrow> if alive then handleEventWithGuard exec channel s else Some s
      | None \<Rightarrow> handleEventWithGuard exec channel s) }"

text \<open>The part of one iteration of \<^verbatim>\<open>EventLoop::loop\<close> up to the pending functors.\<close>

definition EventLoop_dispatch ::
  "(handler \<Rightarrow> reactor \<Rightarrow> reactor option) \<Rightarrow> epoll_answer \<Rightarrow> reactor \<Rightarrow> reactor option" where
  "EventLoop_dispatch exec answer s = do {
     s \<leftarrow> EpollPoller_poll answer (s\<lparr>rc_active := []\<rparr>);
     let s = s\<lparr>rc_eventHandling := True\<rparr>;
     s \<leftarrow> foldo (\<lambda>channel s. Channel_handleEvent exec channel (s\<lparr>rc_current := Some channel\<rparr>)) (rc_active s) s;
     Some (s\<lparr>rc_current := None, rc_eventHandling := False\<rparr>) }"

section \<open>The invariant of the poller\<close>

text \<open>A channel that is new is unknown to poller and kernel, an added one is known to both with its current
  event mask, a deleted one is known to the poller only; and nothing else is registered.\<close>

definition registered :: "reactor \<Rightarrow> addr \<Rightarrow> Channel \<Rightarrow> bool" where
  "registered s a c \<longleftrightarrow>
     (if ch_index c = kNew then map_find (rc_channels s) (ch_fd c) \<noteq> Some a
      else map_find (rc_channels s) (ch_fd c) = Some a
        \<and> (if ch_index c = kAdded then map_find (rc_interest s) (ch_fd c) = Some (ch_events c, a)
           else ch_index c = kDeleted \<and> map_find (rc_interest s) (ch_fd c) = None))"

definition reactor_inv :: "reactor \<Rightarrow> bool" where
  "reactor_inv s \<longleftrightarrow>
     (\<forall>a c. chan s a = Some c \<longrightarrow> registered s a c)
     \<and> (\<forall>fd a. map_find (rc_channels s) fd = Some a \<longrightarrow>
          (\<exists>c. chan s a = Some c \<and> ch_fd c = fd \<and> ch_index c \<noteq> kNew))
     \<and> (\<forall>fd. map_find (rc_channels s) fd = None \<longrightarrow> map_find (rc_interest s) fd = None)
     \<and> map_sorted (rc_channels s)"

lemma index_distinct [simp]:
  "kNew \<noteq> kAdded" "kAdded \<noteq> kNew" "kNew \<noteq> kDeleted" "kDeleted \<noteq> kNew" "kAdded \<noteq> kDeleted" "kDeleted \<noteq> kAdded"
  by (simp_all add: index_defs)

lemma chan_set_chan [simp]: "chan (set_chan a c s) a' = (if a = a' then Some c else chan s a')"
  by (simp add: chan_def set_chan_def)

lemma set_chan_frame [simp]:
  "rc_channels (set_chan a c s) = rc_channels s" "rc_interest (set_chan a c s) = rc_interest s"
  "rc_active (set_chan a c s) = rc_active s" "rc_current (set_chan a c s) = rc_current s"
  "rc_eventHandling (set_chan a c s) = rc_eventHandling s" "rc_listSize (set_chan a c s) = rc_listSize s"
  by (simp_all add: set_chan_def)

lemma chan_frame [simp]:
  "chan (s\<lparr>rc_channels := x\<rparr>) = chan s" "chan (s\<lparr>rc_interest := y\<rparr>) = chan s"
  "chan (s\<lparr>rc_active := z\<rparr>) = chan s" "chan (s\<lparr>rc_current := u\<rparr>) = chan s"
  "chan (s\<lparr>rc_eventHandling := b\<rparr>) = chan s" "chan (s\<lparr>rc_listSize := n\<rparr>) = chan s"
  by (auto simp: chan_def)

lemma reactor_inv_frame [simp]:
  "reactor_inv (s\<lparr>rc_active := z\<rparr>) = reactor_inv s" "reactor_inv (s\<lparr>rc_current := u\<rparr>) = reactor_inv s"
  "reactor_inv (s\<lparr>rc_eventHandling := b\<rparr>) = reactor_inv s" "reactor_inv (s\<lparr>rc_listSize := n\<rparr>) = reactor_inv s"
  by (simp_all add: reactor_inv_def registered_def)

lemma reactor_inv_new [simp]: "reactor_inv EpollPoller_new"
  by (simp add: reactor_inv_def EpollPoller_new_def chan_def)

lemma reactor_invD:
  assumes "reactor_inv s" "chan s a = Some c"
  shows "ch_index c = kNew \<Longrightarrow> map_find (rc_channels s) (ch_fd c) \<noteq> Some a"
    and "ch_index c = kAdded \<Longrightarrow> map_find (rc_channels s) (ch_fd c) = Some a
      \<and> map_find (rc_interest s) (ch_fd c) = Some (ch_events c, a)"
    and "ch_index c \<noteq> kNew \<Longrightarrow> ch_index c \<noteq> kAdded \<Longrightarrow> ch_index c = kDeleted
      \<and> map_find (rc_channels s) (ch_fd c) = Some a \<and> map_find (rc_interest s) (ch_fd c) = None"
  using assms by (auto simp: reactor_inv_def registered_def split: if_splits)

lemma reactor_inv_table:
  assumes "reactor_inv s" "map_find (rc_channels s) fd = Some a"
  obtains c where "chan s a = Some c" "ch_fd c = fd" "ch_index c \<noteq> kNew"
  using assms unfolding reactor_inv_def by blast

text \<open>What the three outcomes of \<^verbatim>\<open>updateChannel\<close> do to the tables, in one shape: the descriptor of \<open>a\<close>
  gets a new entry in both tables, every other descriptor keeps its own.\<close>

lemma reactor_inv_change:
  assumes "reactor_inv s" "chan s a = Some c" "ch_fd c' = ch_fd c"
    and "map_find (rc_channels s) (ch_fd c) \<in> {None, Some a}"
    and "\<And>a'. chan s' a' = (if a = a' then Some c' else chan s a')"
    and "\<And>fd. map_find (rc_channels s') fd = (if fd = ch_fd c then ca else map_find (rc_channels s) fd)"
    and "\<And>fd. map_find (rc_interest s') fd = (if fd = ch_fd c then it else map_find (rc_interest s) fd)"
    and "map_sorted (rc_channels s')"
    and "(ch_index c' = kNew \<and> ca = None \<and> it = None)
      \<or> (ch_index c' = kAdded \<and> ca = Some a \<and> it = Some (ch_events c', a))
      \<or> (ch_index c' = kDeleted \<and> ca = Some a \<and> it = None)"
  shows "reactor_inv s'"
proof -
  have other: "ch_index c2 = kNew \<or> ch_fd c2 \<noteq> ch_fd c" if "chan s a2 = Some c2" "a2 \<noteq> a" for a2 c2
    using reactor_invD [OF assms(1) that(1)] assms(4) that(2) by fastforce
  have "registered s' a2 c2" if "chan s' a2 = Some c2" for a2 c2
  proof (cases "a2 = a")
    case True
    with that assms(3,5,6,7,9) show ?thesis by (auto simp: registered_def)
  next
    case False
    then have c2: "chan s a2 = Some c2" using that assms(5) by simp
    then have "registered s a2 c2" using assms(1) by (simp add: reactor_inv_def)
    with other [OF c2 False] False assms(6,7,9) show ?thesis by (auto simp: registered_def split: if_splits)
  qed
  moreover have "\<exists>c. chan s' a2 = Some c \<and> ch_fd c = fd \<and> ch_index c \<noteq> kNew"
    if r: "map_find (rc_channels s') fd = Some a2" for fd a2
  proof (cases "fd = ch_fd c")
    case True
    with r assms(6,9) have "a2 = a" "ch_index c' \<noteq> kNew" by auto
    with True assms(3,5) show ?thesis by simp
  next
    case False
    with r assms(6) have "map_find (rc_channels s) fd = Some a2" by simp
    then obtain c2 where "chan s a2 = Some c2" "ch_fd c2 = fd" "ch_index c2 \<noteq> kNew"
      using assms(1) unfolding reactor_inv_def by blast
    with False assms(2,5) show ?thesis by auto
  qed
  moreover have "map_find (rc_interest s') fd = None" if "map_find (rc_channels s') fd = None" for fd
    using that assms(1,6,7,9) by (auto simp: reactor_inv_def split: if_splits)
  ultimately show ?thesis using assms(8) by (simp add: reactor_inv_def)
qed

lemma updateChannel_cases:
  assumes "reactor_inv s" "chan s a = Some c" "ch_fd c' = ch_fd c" "ch_index c' = ch_index c"
  shows "if ch_index c = kNew \<and> map_find (rc_channels s) (ch_fd c) \<noteq> None
    then EpollPoller_updateChannel a (set_chan a c' s) = None
    else \<exists>s' i. EpollPoller_updateChannel a (set_chan a c' s) = Some s' \<and> reactor_inv s'
      \<and> chan s' = (chan s)(a := Some (c'\<lparr>ch_index := i\<rparr>))
      \<and> rc_active s' = rc_active s \<and> rc_current s' = rc_current s \<and> rc_eventHandling s' = rc_eventHandling s
      \<and> (i = kAdded \<or> i = kDeleted) \<and> (ch_events c' \<noteq> kNoneEvent \<longrightarrow> i = kAdded)"
proof -
  note D = reactor_invD [OF assms(1,2)]
  have srt: "map_sorted (rc_channels s)" using assms(1) by (simp add: reactor_inv_def)
  have none: "map_find (rc_channels s) fd = None \<Longrightarrow> map_find (rc_interest s) fd = None" for fd
    using assms(1) by (simp add: reactor_inv_def)
  consider "ch_index c = kNew" "map_find (rc_channels s) (ch_fd c) \<noteq> None"
    | "ch_index c = kNew" "map_find (rc_channels s) (ch_fd c) = None"
    | "ch_index c = kAdded" | "ch_index c = kDeleted"
    using D(3) by blast
  then show ?thesis
  proof cases
    case 1
    then show ?thesis using assms by (auto simp: EpollPoller_updateChannel_def Let_def)
  next
    case 2
    define s' where "s' = (set_chan a (c'\<lparr>ch_index := kAdded\<rparr>) (set_chan a c' s)\<lparr>rc_channels := map_put (rc_channels s) (ch_fd c) a\<rparr>)
        \<lparr>rc_interest := map_put (rc_interest s) (ch_fd c) (ch_events c', a)\<rparr>"
    have "EpollPoller_updateChannel a (set_chan a c' s) = Some s'"
      using 2 assms none
      by (simp add: EpollPoller_updateChannel_def EpollPoller_update_def epoll_ctl_def Let_def s'_def)
        (simp add: set_chan_def)
    moreover have "reactor_inv s'"
      by (rule reactor_inv_change [OF assms(1,2), where c' = "c'\<lparr>ch_index := kAdded\<rparr>" and ca = "Some a"
            and it = "Some (ch_events c', a)"])
        (use 2 assms srt in \<open>auto simp: s'_def map_put_sorted\<close>)
    moreover have "chan s' = (chan s)(a := Some (c'\<lparr>ch_index := kAdded\<rparr>))" by (rule ext) (simp add: s'_def)
    ultimately show ?thesis using 2 by (auto simp: s'_def)
  next
    case 4
    note reg = D(3) [OF _ _]
    define s' where "s' = (set_chan a (c'\<lparr>ch_index := kAdded\<rparr>) (set_chan a c' s))
        \<lparr>rc_interest := map_put (rc_interest s) (ch_fd c) (ch_events c', a)\<rparr>"
    have "EpollPoller_updateChannel a (set_chan a c' s) = Some s'"
      using 4 assms reg
      by (simp add: EpollPoller_updateChannel_def EpollPoller_update_def epoll_ctl_def Let_def s'_def)
    moreover have "reactor_inv s'"
      by (rule reactor_inv_change [OF assms(1,2), where c' = "c'\<lparr>ch_index := kAdded\<rparr>" and ca = "Some a"
            and it = "Some (ch_events c', a)"])
        (use 4 assms srt reg in \<open>auto simp: s'_def\<close>)
    moreover have "chan s' = (chan s)(a := Some (c'\<lparr>ch_index := kAdded\<rparr>))" by (rule ext) (simp add: s'_def)
    ultimately show ?thesis using 4 by (auto simp: s'_def)
  next
    case 3
    note reg = D(2) [OF 3]
    show ?thesis
    proof (cases "ch_events c' = kNoneEvent")
      case True
      define s' where "s' = set_chan a (c'\<lparr>ch_index := kDeleted\<rparr>) ((set_chan a c' s)
        \<lparr>rc_interest := snd (map_erase (rc_interest s) (ch_fd c))\<rparr>)"
      have "EpollPoller_updateChannel a (set_chan a c' s) = Some s'"
        using 3 assms reg True
        by (simp add: EpollPoller_updateChannel_def EpollPoller_update_def epoll_ctl_def Let_def s'_def isNoneEvent_def)
      moreover have "reactor_inv s'"
        by (rule reactor_inv_change [OF assms(1,2), where c' = "c'\<lparr>ch_index := kDeleted\<rparr>" and ca = "Some a"
              and it = None])
          (use 3 assms srt reg in \<open>auto simp: s'_def\<close>)
      moreover have "chan s' = (chan s)(a := Some (c'\<lparr>ch_index := kDeleted\<rparr>))" by (rule ext) (simp add: s'_def)
      ultimately show ?thesis using 3 True by (auto simp: s'_def)
    next
      case False
      define s' where "s' = (set_chan a c' s)
        \<lparr>rc_interest := map_put (rc_interest s) (ch_fd c) (ch_events c', a)\<rparr>"
      have "EpollPoller_updateChannel a (set_chan a c' s) = Some s'"
        using 3 assms reg False
        by (simp add: EpollPoller_updateChannel_def EpollPoller_update_def epoll_ctl_def Let_def s'_def isNoneEvent_def)
      moreover have "reactor_inv s'"
        by (rule reactor_inv_change [OF assms(1,2), where c' = c' and ca = "Some a" and it = "Some (ch_events c', a)"])
          (use 3 assms srt reg in \<open>auto simp: s'_def\<close>)
      moreover have "c'\<lparr>ch_index := kAdded\<rparr> = c'" using 3 assms(4) by simp
      then have "chan s' = (chan s)(a := Some (c'\<lparr>ch_index := kAdded\<rparr>))" by (intro ext) (simp add: s'_def)
      ultimately show ?thesis using 3 by (auto simp: s'_def)
    qed
  qed
qed

lemma with_events_cases:
  assumes "reactor_inv s" "chan s a = Some c"
  shows "if ch_index c = kNew \<and> map_find (rc_channels s) (ch_fd c) \<noteq> None
    then with_events f a s = None
    else \<exists>s' i. with_events f a s = Some s' \<and> reactor_inv s'
      \<and> chan s' = (chan s)(a := Some (c\<lparr>ch_events := f (ch_events c), ch_addedToLoop := True, ch_index := i\<rparr>))
      \<and> rc_active s' = rc_active s \<and> rc_current s' = rc_current s \<and> rc_eventHandling s' = rc_eventHandling s
      \<and> (i = kAdded \<or> i = kDeleted) \<and> (f (ch_events c) \<noteq> kNoneEvent \<longrightarrow> i = kAdded)"
proof -
  let ?c = "c\<lparr>ch_events := f (ch_events c), ch_addedToLoop := True\<rparr>"
  have "with_events f a s = EpollPoller_updateChannel a (set_chan a ?c
      (set_chan a (c\<lparr>ch_events := f (ch_events c)\<rparr>) s))"
    using assms(2) by (simp add: with_events_def Channel_update_def EventLoop_updateChannel_def)
  also have "\<dots> = EpollPoller_updateChannel a (set_chan a ?c s)"
  proof -
    have "map_put (map_put m a x) a y = map_put m a y" for m :: "(addr, Channel) std_map" and x y
      by (induction m) auto
    then show ?thesis by (simp add: set_chan_def)
  qed
  finally show ?thesis using updateChannel_cases [OF assms, of ?c] by (simp split: if_split_asm)
qed

lemma remove_ok:
  assumes "reactor_inv s" "chan s a = Some c"
  shows "if isNoneEvent c \<and> ch_index c \<noteq> kNew
        \<and> (rc_eventHandling s \<longrightarrow> rc_current s = Some a \<or> a \<notin> set (rc_active s))
    then \<exists>s'. Channel_remove a s = Some s' \<and> reactor_inv s'
      \<and> chan s' = (chan s)(a := Some (c\<lparr>ch_addedToLoop := False, ch_index := kNew\<rparr>))
      \<and> rc_active s' = rc_active s \<and> rc_current s' = rc_current s \<and> rc_eventHandling s' = rc_eventHandling s
    else Channel_remove a s = None"
proof -
  note D = reactor_invD [OF assms]
  let ?c = "c\<lparr>ch_addedToLoop := False\<rparr>"
  have srt: "map_sorted (rc_channels s)" using assms(1) by (simp add: reactor_inv_def)
  define ok where "ok \<longleftrightarrow> isNoneEvent c \<and> ch_index c \<noteq> kNew
        \<and> (rc_eventHandling s \<longrightarrow> rc_current s = Some a \<or> a \<notin> set (rc_active s))"
  show ?thesis
  proof (cases ok)
    case False
    have "isNoneEvent ?c = isNoneEvent c" by (simp add: isNoneEvent_def)
    then show ?thesis
      using False assms D(1) unfolding ok_def
      by (auto simp: Channel_remove_def EventLoop_removeChannel_def EpollPoller_removeChannel_def Let_def)
  next
    case True
    then have reg: "map_find (rc_channels s) (ch_fd c) = Some a" "ch_index c = kAdded \<or> ch_index c = kDeleted"
      using D unfolding ok_def by blast+
    obtain m where n: "map_erase (rc_channels s) (ch_fd c) = (1, m)"
      using sm.erase_present [OF srt reg(1)] by (metis prod.collapse)
    have m: "map_find m fd = (if fd = ch_fd c then None else map_find (rc_channels s) fd)" "map_sorted m" for fd
      using map_find_erase [of "rc_channels s" "ch_fd c" fd] map_erase_sorted [OF srt, of "ch_fd c"] n by auto
    define s1 where "s1 = (set_chan a ?c s)\<lparr>rc_channels := m\<rparr>"
    define s' where "s' = set_chan a (?c\<lparr>ch_index := kNew\<rparr>)
      (if ch_index c = kAdded then s1\<lparr>rc_interest := snd (map_erase (rc_interest s) (ch_fd c))\<rparr> else s1)"
    have "Channel_remove a s = Some s'"
      using True assms reg D(2) n unfolding ok_def
      by (subst Channel_remove_def, subst EventLoop_removeChannel_def, subst EpollPoller_removeChannel_def)
        (auto simp: isNoneEvent_def Let_def s1_def s'_def EpollPoller_update_def epoll_ctl_def)
    moreover have "reactor_inv s'"
      by (rule reactor_inv_change [OF assms, where c' = "?c\<lparr>ch_index := kNew\<rparr>" and ca = None and it = None])
        (use reg D(3) m in \<open>auto simp: s'_def s1_def\<close>)
    moreover have "chan s' = (chan s)(a := Some (?c\<lparr>ch_index := kNew\<rparr>))" by (rule ext) (simp add: s'_def s1_def)
    ultimately show ?thesis using True unfolding ok_def by (simp add: s'_def s1_def)
  qed
qed

section \<open>Runs\<close>

datatype chan_op =
    ChNew addr int | ChEnableReading addr | ChDisableReading addr | ChEnableWriting addr
  | ChDisableWriting addr | ChDisableAll addr | ChRemove addr | ChTie addr | ChDestroy addr
  | ChPoll epoll_answer | ChSetRead handler addr | ChSetWrite handler addr | ChSetClose handler addr | ChSetError handler addr

text \<open>A run may only create a channel at a free address, as \<^verbatim>\<open>operator new\<close> does.\<close>

fun chan_step :: "chan_op \<Rightarrow> reactor \<Rightarrow> reactor option" where
  "chan_step (ChNew a fd) s = (if chan s a = None then Some (set_chan a (Channel_new fd) s) else None)"
| "chan_step (ChEnableReading a) s = enableReading a s"
| "chan_step (ChDisableReading a) s = disableReading a s"
| "chan_step (ChEnableWriting a) s = enableWriting a s"
| "chan_step (ChDisableWriting a) s = disableWriting a s"
| "chan_step (ChDisableAll a) s = disableAll a s"
| "chan_step (ChRemove a) s = Channel_remove a s"
| "chan_step (ChTie a) s = Channel_tie a s"
| "chan_step (ChDestroy a) s = Channel_destroy a s"
| "chan_step (ChPoll answer) s = EpollPoller_poll answer (s\<lparr>rc_active := []\<rparr>)"
| "chan_step (ChSetRead cb a) s = Channel_setReadCallback cb a s"
| "chan_step (ChSetWrite cb a) s = Channel_setWriteCallback cb a s"
| "chan_step (ChSetClose cb a) s = Channel_setCloseCallback cb a s"
| "chan_step (ChSetError cb a) s = Channel_setErrorCallback cb a s"

lemmas interest_defs = enableReading_def disableReading_def enableWriting_def disableWriting_def disableAll_def

lemmas setter_defs = Channel_tie_def Channel_setReadCallback_def Channel_setWriteCallback_def
  Channel_setCloseCallback_def Channel_setErrorCallback_def

lemma with_events_inv: "reactor_inv s \<Longrightarrow> with_events f a s = Some s' \<Longrightarrow> reactor_inv s'"
proof -
  assume s: "reactor_inv s" "with_events f a s = Some s'"
  then obtain c where "chan s a = Some c" by (auto simp: with_events_def elim: bind_eq_SomeE)
  with with_events_cases [OF s(1) this, of f] s(2) show ?thesis by (auto split: if_splits)
qed

lemma remove_inv: "reactor_inv s \<Longrightarrow> Channel_remove a s = Some s' \<Longrightarrow> reactor_inv s'"
proof -
  assume s: "reactor_inv s" "Channel_remove a s = Some s'"
  then obtain c where "chan s a = Some c" by (auto simp: Channel_remove_def elim: bind_eq_SomeE)
  with remove_ok [OF s(1) this] s(2) show ?thesis by (auto split: if_splits)
qed

text \<open>Replacing a channel by one with the same descriptor, mask and index.\<close>

lemma set_chan_inv:
  assumes "reactor_inv s" "chan s a = Some c" "ch_fd c' = ch_fd c" "ch_index c' = ch_index c"
    "ch_events c' = ch_events c"
  shows "reactor_inv (set_chan a c' s)"
proof -
  have r: "registered (set_chan a c' s) a2 c2 = registered s a2 c2" for a2 c2
    by (simp add: registered_def)
  have c: "registered s a c'" using assms by (simp add: reactor_inv_def registered_def)
  have "\<exists>c. chan (set_chan a c' s) a2 = Some c \<and> ch_fd c = fd \<and> ch_index c \<noteq> kNew"
    if t: "map_find (rc_channels s) fd = Some a2" for fd a2
    using reactor_inv_table [OF assms(1) t] assms by (metis chan_set_chan option.inject)
  with assms(1) c show ?thesis by (simp add: reactor_inv_def r)
qed

lemma new_inv:
  assumes "reactor_inv s" "chan s a = None"
  shows "reactor_inv (set_chan a (Channel_new fd) s)"
proof -
  have "map_find (rc_channels s) fd \<noteq> Some a"
    using reactor_inv_table [OF assms(1)] assms(2) by (metis option.distinct(1))
  moreover have "registered (set_chan a (Channel_new fd) s) a' c = registered s a' c" for a' c
    by (simp add: registered_def)
  moreover have "\<exists>c. chan (set_chan a (Channel_new fd) s) a' = Some c \<and> ch_fd c = fd' \<and> ch_index c \<noteq> kNew"
    if "map_find (rc_channels s) fd' = Some a'" for fd' a'
  proof -
    from that assms(1) obtain c where "chan s a' = Some c" "ch_fd c = fd'" "ch_index c \<noteq> kNew"
      unfolding reactor_inv_def by blast
    with assms(2) show ?thesis by (cases "a = a'") auto
  qed
  ultimately show ?thesis
    using assms(1) by (simp add: reactor_inv_def) (simp add: registered_def Channel_new_def kNew_def)
qed

lemma destroy_inv:
  assumes "reactor_inv s" "Channel_destroy a s = Some s'"
  shows "reactor_inv s'"
proof -
  from assms(2) obtain c where c: "chan s a = Some c" "map_find (rc_channels s) (ch_fd c) \<noteq> Some a"
    "s' = s\<lparr>rc_chans := snd (map_erase (rc_chans s) a)\<rparr>"
    by (auto simp: Channel_destroy_def EventLoop_hasChannel_def EpollPoller_hasChannel_def elim!: bind_eq_SomeE)
  have new: "ch_index c = kNew" using reactor_invD(2,3) [OF assms(1) c(1)] c(2) by blast
  have ch: "chan s' a' = (if a' = a then None else chan s a')" for a' by (simp add: c(3) chan_def)
  have "\<exists>c. chan s' a' = Some c \<and> ch_fd c = fd \<and> ch_index c \<noteq> kNew"
    if "map_find (rc_channels s) fd = Some a'" for fd a'
  proof -
    from that assms(1) obtain c2 where "chan s a' = Some c2" "ch_fd c2 = fd" "ch_index c2 \<noteq> kNew"
      unfolding reactor_inv_def by blast
    with new c(1) show ?thesis by (cases "a' = a") (auto simp: ch)
  qed
  then show ?thesis
    using assms(1) ch unfolding reactor_inv_def by (simp add: registered_def c(3))
qed

lemma fillActive_ok:
  assumes "reactor_inv s" "\<forall>e\<in>set evs. chan s (fst e) \<noteq> None"
  shows "\<exists>s'. foldo (\<lambda>ev s. do {
         c \<leftarrow> chan s (fst ev);
         let s = set_chan (fst ev) (c\<lparr>ch_revents := snd ev\<rparr>) s;
         Some (s\<lparr>rc_active := rc_active s @ [fst ev]\<rparr>) }) evs s = Some s' \<and> reactor_inv s'
    \<and> rc_active s' = rc_active s @ map fst evs \<and> dom (chan s') = dom (chan s) \<and> rc_listSize s' = rc_listSize s"
  using assms
proof (induction evs arbitrary: s)
  case (Cons e evs)
  obtain c where c: "chan s (fst e) = Some c" using Cons.prems by auto
  let ?s = "(set_chan (fst e) (c\<lparr>ch_revents := snd e\<rparr>) s)\<lparr>rc_active := rc_active s @ [fst e]\<rparr>"
  have "reactor_inv ?s" using set_chan_inv [OF Cons.prems(1) c] by simp
  moreover have d: "dom (chan ?s) = dom (chan s)" using c by (auto split: if_splits)
  moreover have "\<forall>e\<in>set evs. chan ?s (fst e) \<noteq> None" using Cons.prems by auto
  ultimately obtain s' where "foldo (\<lambda>ev s. do {
         c \<leftarrow> chan s (fst ev);
         let s = set_chan (fst ev) (c\<lparr>ch_revents := snd ev\<rparr>) s;
         Some (s\<lparr>rc_active := rc_active s @ [fst ev]\<rparr>) }) evs ?s = Some s'" "reactor_inv s'"
    "rc_active s' = rc_active ?s @ map fst evs" "dom (chan s') = dom (chan ?s)" "rc_listSize s' = rc_listSize ?s"
    using Cons.IH [of ?s] by blast
  with c d show ?case by simp
qed simp

lemma fillActive_alive:
  assumes "fillActiveChannels evs s = Some s'"
  shows "\<forall>e\<in>set evs. chan s (fst e) \<noteq> None"
proof -
  let ?f = "\<lambda>ev s. do {
         c \<leftarrow> chan s (fst ev);
         let s = set_chan (fst ev) (c\<lparr>ch_revents := snd ev\<rparr>) s;
         Some (s\<lparr>rc_active := rc_active s @ [fst ev]\<rparr>) }"
  have "foldo ?f evs s = Some s' \<Longrightarrow> \<forall>e\<in>set evs. chan s (fst e) \<noteq> None"
  proof (induction evs arbitrary: s)
    case (Cons e evs)
    from Cons.prems obtain s1 where s1: "?f e s = Some s1" "foldo ?f evs s1 = Some s'"
      by (auto elim: bind_eq_SomeE)
    then obtain c where c: "chan s (fst e) = Some c"
      "s1 = (set_chan (fst e) (c\<lparr>ch_revents := snd e\<rparr>) s)\<lparr>rc_active := rc_active s @ [fst e]\<rparr>"
      by (auto simp: Let_def elim!: bind_eq_SomeE)
    have "\<forall>x\<in>set evs. chan s1 (fst x) \<noteq> None" using Cons.IH s1(2) by blast
    with c show ?case by (auto split: if_splits)
  qed simp
  then show ?thesis using assms by (auto simp: fillActiveChannels_def)
qed

lemma poll_inv:
  assumes "reactor_inv s" "EpollPoller_poll answer s = Some s'"
  shows "reactor_inv s'"
proof (cases answer)
  case (EpollError e)
  with assms show ?thesis by (simp add: EpollPoller_poll_def)
next
  case (EpollEvents evs)
  show ?thesis
  proof (cases "0 < length evs")
    case True
    with EpollEvents assms(2) obtain s1 where s1: "fillActiveChannels evs s = Some s1"
      "s' = (if length evs = rc_listSize s1 then s1\<lparr>rc_listSize := rc_listSize s1 * 2\<rparr> else s1)"
      by (auto simp: EpollPoller_poll_def elim!: bind_eq_SomeE)
    have "reactor_inv s1"
      using fillActive_ok [OF assms(1) fillActive_alive [OF s1(1)]] s1(1) by (auto simp: fillActiveChannels_def)
    with s1(2) show ?thesis by simp
  next
    case False
    with EpollEvents assms show ?thesis by (simp add: EpollPoller_poll_def)
  qed
qed

lemma chan_step_inv:
  assumes "reactor_inv s" "chan_step op s = Some s'"
  shows "reactor_inv s'"
  using assms
  by (cases op) (auto simp: interest_defs setter_defs elim!: bind_eq_SomeE split: if_splits
    intro: with_events_inv remove_inv new_inv destroy_inv poll_inv [OF reactor_inv_frame(1) [THEN iffD2]] set_chan_inv)

interpretation cm: keeping_machine chan_step reactor_inv
  by unfold_locales (rule chan_step_inv)

lemma chan_run_inv: "foldo chan_step ops EpollPoller_new = Some s \<Longrightarrow> reactor_inv s"
  using cm.run_keeps [OF reactor_inv_new] .

section \<open>Dispatch\<close>

text \<open>The callbacks one event triggers, in order.\<close>

definition event_calls :: "Channel \<Rightarrow> handler list" where
  "event_calls c =
     (if ch_revents c AND EPOLLHUP \<noteq> 0 \<and> ch_revents c AND EPOLLIN = 0 then case_option [] (\<lambda>h. [h]) (ch_closeCallback c) else [])
     @ (if ch_revents c AND EPOLLERR \<noteq> 0 then case_option [] (\<lambda>h. [h]) (ch_errorCallback c) else [])
     @ (if ch_revents c AND (EPOLLIN OR EPOLLPRI OR EPOLLHUP) \<noteq> 0 then case_option [] (\<lambda>h. [h]) (ch_readCallback c) else [])
     @ (if ch_revents c AND EPOLLOUT \<noteq> 0 then case_option [] (\<lambda>h. [h]) (ch_writeCallback c) else [])"

definition same_dispatch :: "Channel \<Rightarrow> Channel \<Rightarrow> bool" where
  "same_dispatch c c' \<longleftrightarrow> ch_revents c' = ch_revents c \<and> ch_readCallback c' = ch_readCallback c
     \<and> ch_writeCallback c' = ch_writeCallback c \<and> ch_closeCallback c' = ch_closeCallback c
     \<and> ch_errorCallback c' = ch_errorCallback c"

text \<open>A callback that leaves the channel in place, with its reported events and callbacks.\<close>

definition leaves_channel :: "(handler \<Rightarrow> reactor \<Rightarrow> reactor option) \<Rightarrow> addr \<Rightarrow> bool" where
  "leaves_channel exec a \<longleftrightarrow> (\<forall>h s s' c. exec h s = Some s' \<longrightarrow> chan s a = Some c \<longrightarrow>
     (\<exists>c'. chan s' a = Some c' \<and> same_dispatch c c'))"

lemma same_dispatch_refl [simp]: "same_dispatch c c" "same_dispatch c (c\<lparr>ch_eventHandling := b\<rparr>)"
  by (simp_all add: same_dispatch_def)

lemma call_if_leaves:
  assumes "leaves_channel exec a" "chan s a = Some c1" "same_dispatch c c1" "call_if exec g h s = Some s'"
  shows "\<exists>c'. chan s' a = Some c' \<and> same_dispatch c c'"
  using assms by (force simp: call_if_def leaves_channel_def same_dispatch_def split: if_splits option.splits)

lemma call_if_foldo:
  "call_if exec g h s = foldo exec (if g then case_option [] (\<lambda>h. [h]) h else []) s"
  by (auto simp: call_if_def split: option.splits)

lemma bind_chan:
  assumes "\<And>s'. m = Some s' \<Longrightarrow> \<exists>c'. chan s' a = Some c' \<and> same_dispatch c c'"
    and "\<And>s' c'. chan s' a = Some c' \<Longrightarrow> same_dispatch c c' \<Longrightarrow> f s' c' = g s'"
  shows "m \<bind> (\<lambda>s'. chan s' a \<bind> f s') = m \<bind> g"
  using assms by (cases m) fastforce+

lemma dispatch_calls:
  assumes "chan s a = Some c" "leaves_channel exec a"
  shows "handleEventWithGuard exec a s =
    foldo exec (event_calls c) (set_chan a (c\<lparr>ch_eventHandling := True\<rparr>) s)
      \<bind> (\<lambda>s'. chan s' a \<bind> (\<lambda>c'. Some (set_chan a (c'\<lparr>ch_eventHandling := False\<rparr>) s')))"
proof -
  let ?s = "set_chan a (c\<lparr>ch_eventHandling := True\<rparr>) s"
  let ?hup = "\<lambda>c s. call_if exec (ch_revents c AND EPOLLHUP \<noteq> 0 \<and> \<not> ch_revents c AND EPOLLIN \<noteq> 0) (ch_closeCallback c) s"
  let ?error = "\<lambda>c s. call_if exec (ch_revents c AND EPOLLERR \<noteq> 0) (ch_errorCallback c) s"
  let ?read = "\<lambda>c s. call_if exec (ch_revents c AND (EPOLLIN OR EPOLLPRI OR EPOLLHUP) \<noteq> 0) (ch_readCallback c) s"
  let ?wrt = "\<lambda>c s. call_if exec (ch_revents c AND EPOLLOUT \<noteq> 0) (ch_writeCallback c) s"
  let ?fin = "\<lambda>s'. chan s' a \<bind> (\<lambda>c'. Some (set_chan a (c'\<lparr>ch_eventHandling := False\<rparr>) s'))"
  note L = call_if_leaves [OF assms(2)]
  have wr: "?read c s' \<bind> (\<lambda>s. chan s a \<bind> (\<lambda>c. ?wrt c s \<bind> ?fin)) = ?read c s' \<bind> (\<lambda>s. ?wrt c s \<bind> ?fin)"
    if "chan s' a = Some c1" "same_dispatch c c1" for s' c1
    by (rule bind_chan [where c = c]) (use L [OF that] in \<open>auto simp: same_dispatch_def\<close>)
  have rd: "?error c s' \<bind> (\<lambda>s. chan s a \<bind> (\<lambda>c. ?read c s \<bind> (\<lambda>s. chan s a \<bind> (\<lambda>c. ?wrt c s \<bind> ?fin))))
      = ?error c s' \<bind> (\<lambda>s. ?read c s \<bind> (\<lambda>s. ?wrt c s \<bind> ?fin))"
    if "chan s' a = Some c1" "same_dispatch c c1" for s' c1
  proof (rule bind_chan [where c = c])
    fix s2 c2
    assume c2: "chan s2 a = Some c2" "same_dispatch c c2"
    then have "?read c2 = ?read c" by (simp add: same_dispatch_def)
    then show "?read c2 s2 \<bind> (\<lambda>s. chan s a \<bind> (\<lambda>c. ?wrt c s \<bind> ?fin)) = ?read c s2 \<bind> (\<lambda>s. ?wrt c s \<bind> ?fin)"
      using wr [OF c2] by simp
  qed (use L [OF that] in blast)
  have er: "?hup c ?s \<bind> (\<lambda>s. chan s a \<bind> (\<lambda>c. ?error c s \<bind> (\<lambda>s. chan s a \<bind> (\<lambda>c. ?read c s
        \<bind> (\<lambda>s. chan s a \<bind> (\<lambda>c. ?wrt c s \<bind> ?fin))))))
      = ?hup c ?s \<bind> (\<lambda>s. ?error c s \<bind> (\<lambda>s. ?read c s \<bind> (\<lambda>s. ?wrt c s \<bind> ?fin)))"
  proof (rule bind_chan [where c = c])
    fix s2 c2
    assume c2: "chan s2 a = Some c2" "same_dispatch c c2"
    then have "?error c2 = ?error c" by (simp add: same_dispatch_def)
    then show "?error c2 s2 \<bind> (\<lambda>s. chan s a \<bind> (\<lambda>c. ?read c s \<bind> (\<lambda>s. chan s a \<bind> (\<lambda>c. ?wrt c s \<bind> ?fin))))
        = ?error c s2 \<bind> (\<lambda>s. ?read c s \<bind> (\<lambda>s. ?wrt c s \<bind> ?fin))"
      using rd [OF c2] by simp
  next
    fix s' assume m: "?hup c ?s = Some s'"
    have "chan ?s a = Some (c\<lparr>ch_eventHandling := True\<rparr>)" by simp
    from L [OF this same_dispatch_refl(2) m] show "\<exists>c'. chan s' a = Some c' \<and> same_dispatch c c'" .
  qed
  have "handleEventWithGuard exec a s = ?hup c ?s \<bind> (\<lambda>s. chan s a \<bind> (\<lambda>c. ?error c s \<bind> (\<lambda>s. chan s a \<bind> (\<lambda>c. ?read c s
        \<bind> (\<lambda>s. chan s a \<bind> (\<lambda>c. ?wrt c s \<bind> ?fin))))))"
    using assms(1) by (simp add: handleEventWithGuard_def)
  also note er
  also have "?hup c ?s \<bind> (\<lambda>s. ?error c s \<bind> (\<lambda>s. ?read c s \<bind> (\<lambda>s. ?wrt c s \<bind> ?fin)))
      = foldo exec (event_calls c) ?s \<bind> ?fin"
    unfolding call_if_foldo event_calls_def by (simp only: foldo_append bind_assoc not_not)
  finally show ?thesis .
qed

section \<open>Properties\<close>

text \<open>C5. The kernel's interest list is exact: after any sequence of channel operations that does not stop the
  process, the entry of a descriptor is the current event mask of the live channel that is marked as
  added, and there is an entry for nothing else, in particular not for a destroyed channel.\<close>

theorem poller_interest_exact:
  assumes "foldo chan_step ops EpollPoller_new = Some s"
  shows "map_find (rc_interest s) fd = Some (ev, a) \<longleftrightarrow>
    (\<exists>c. chan s a = Some c \<and> ch_fd c = fd \<and> ch_index c = kAdded \<and> ch_events c = ev)"
proof
  note inv = chan_run_inv [OF assms]
  assume i: "map_find (rc_interest s) fd = Some (ev, a)"
  then have "map_find (rc_channels s) fd \<noteq> None" using inv by (auto simp: reactor_inv_def)
  then obtain a' where a': "map_find (rc_channels s) fd = Some a'" by blast
  obtain c where c: "chan s a' = Some c" "ch_fd c = fd" "ch_index c \<noteq> kNew"
    using reactor_inv_table [OF inv a'] .
  then have "ch_index c = kAdded" using reactor_invD(3) [OF inv c(1)] i by auto
  then show "\<exists>c. chan s a = Some c \<and> ch_fd c = fd \<and> ch_index c = kAdded \<and> ch_events c = ev"
    using reactor_invD(2) [OF inv c(1)] c i by auto
next
  assume "\<exists>c. chan s a = Some c \<and> ch_fd c = fd \<and> ch_index c = kAdded \<and> ch_events c = ev"
  then show "map_find (rc_interest s) fd = Some (ev, a)"
    using reactor_invD(2) [OF chan_run_inv [OF assms]] by blast
qed

theorem poller_interest_exact_witness:
  "\<exists>s. foldo chan_step [ChNew 1 5, ChEnableReading 1, ChEnableWriting 1, ChDisableReading 1] EpollPoller_new = Some s
    \<and> (map_find (rc_interest s) 5 = Some (4, 1) \<longleftrightarrow>
      (\<exists>c. chan s 1 = Some c \<and> ch_fd c = 5 \<and> ch_index c = kAdded \<and> ch_events c = 4))
    \<and> map_find (rc_interest s) 5 = Some (4, 1)"
proof -
  let ?run = "foldo chan_step [ChNew 1 5, ChEnableReading 1, ChEnableWriting 1, ChDisableReading 1] EpollPoller_new"
  have "case ?run of Some s \<Rightarrow> map_find (rc_interest s) 5 = Some (4, 1) | None \<Rightarrow> False" by code_simp
  then obtain s where s: "?run = Some s" "map_find (rc_interest s) 5 = Some (4, 1)" by (auto split: option.splits)
  then show ?thesis using poller_interest_exact [OF s(1), of 5 4 1] by blast
qed

text \<open>Changing what a live channel listens to stops the process exactly when the channel is new and its
  descriptor is already registered by another channel; otherwise the channel has the new mask and, unless
  the mask is empty, the kernel watches it with that mask.\<close>

lemma poller_update_stops_iff:
  assumes "foldo chan_step ops EpollPoller_new = Some s" "chan s a = Some c"
  shows "(with_events f a s = None \<longleftrightarrow> ch_index c = kNew \<and> map_find (rc_channels s) (ch_fd c) \<noteq> None)
    \<and> (\<forall>s'. with_events f a s = Some s' \<longrightarrow>
         (\<exists>c'. chan s' a = Some c' \<and> ch_events c' = f (ch_events c)
           \<and> (f (ch_events c) \<noteq> kNoneEvent \<longrightarrow>
                map_find (rc_interest s') (ch_fd c) = Some (f (ch_events c), a))))"
proof (cases "ch_index c = kNew \<and> map_find (rc_channels s) (ch_fd c) \<noteq> None")
  case True
  then show ?thesis using with_events_cases [OF chan_run_inv [OF assms(1)] assms(2), of f] by auto
next
  case False
  then obtain s' i where s': "with_events f a s = Some s'" "reactor_inv s'"
    "chan s' = (chan s)(a := Some (c\<lparr>ch_events := f (ch_events c), ch_addedToLoop := True, ch_index := i\<rparr>))"
    "f (ch_events c) \<noteq> kNoneEvent \<longrightarrow> i = kAdded"
    using with_events_cases [OF chan_run_inv [OF assms(1)] assms(2), of f]
    unfolding if_not_P [OF False] by blast
  let ?c = "c\<lparr>ch_events := f (ch_events c), ch_addedToLoop := True, ch_index := i\<rparr>"
  have c': "chan s' a = Some ?c" using s'(3) by simp
  then have "f (ch_events c) \<noteq> kNoneEvent \<longrightarrow> map_find (rc_interest s') (ch_fd c) = Some (f (ch_events c), a)"
    using reactor_invD(2) [OF s'(2) c'] s'(4) by simp
  with False s'(1) c' show ?thesis by auto
qed

lemma poller_update_stops_iff_witness:
  "\<exists>s c. foldo chan_step [ChNew 1 5, ChEnableReading 1, ChNew 2 5] EpollPoller_new = Some s \<and> chan s 2 = Some c
    \<and> ch_index c = kNew \<and> with_events (\<lambda>e. e OR kReadEvent) 2 s = None"
proof -
  let ?run = "foldo chan_step [ChNew 1 5, ChEnableReading 1, ChNew 2 5] EpollPoller_new"
  have "case ?run of Some s \<Rightarrow> (case chan s 2 of Some c \<Rightarrow> ch_index c = kNew
      \<and> map_find (rc_channels s) (ch_fd c) \<noteq> None | None \<Rightarrow> False) | None \<Rightarrow> False" by code_simp
  then obtain s c where s: "?run = Some s" "chan s 2 = Some c" "ch_index c = kNew"
    "map_find (rc_channels s) (ch_fd c) \<noteq> None" by (auto split: option.splits)
  then show ?thesis using poller_update_stops_iff [OF s(1,2), of "\<lambda>e. e OR kReadEvent"] by blast
qed



end
