(* ===== verification/Loop.thy ===== *)
theory Loop
  imports Timers Poller
begin

text \<open>
  \<^verbatim>\<open>pallette/EventLoop.h\<close>, \<^verbatim>\<open>EventLoop.cpp\<close>: the loop thread and the threads that post work to it, as a step
  relation whose steps are the accesses to shared state (the flags, the task list under the mutex, the
  counter of the \<^verbatim>\<open>eventfd\<close>). Any number of other threads may be inside \<^verbatim>\<open>queueInLoop\<close> or \<^verbatim>\<open>quit\<close>:
  \<open>el_owing\<close> counts those that have done their first access and not yet written to the \<^verbatim>\<open>eventfd\<close>.

  Parameter: \<open>acts\<close> gives the calls a functor makes on its own loop when it runs. The dispatch of one
  iteration is modelled in \<open>Poller\<close>; here the event handlers may make any calls.
\<close>

type_synonym task = nat

text \<open>The calls code running in the loop thread can make on the loop.\<close>

datatype loop_act = ActQueue task | ActRun task | ActQuit

text \<open>Where the loop thread is. \<open>Handling\<close> says whether the wakeup channel is still to be handled, \<open>Running\<close>
  has the calls left of the current functor and the functors left of the batch.\<close>

datatype loop_pc =
    NotLooping | Starting | Testing | Polling | Handling bool | BeforeSwap | Running "loop_act list" "task list"

text \<open>The last four fields are history: what was posted and run, whether the loop thread queued work while
  no loop was running, and whether \<^verbatim>\<open>quit\<close> was called on a running loop.\<close>

record event_loop =
  el_looping :: bool
  el_quit :: bool
  el_calling :: bool
  el_iteration :: nat
  el_pending :: "task list"
  el_counter :: nat
  el_owing :: nat
  el_pc :: loop_pc
  el_posted :: "task list"
  el_done :: "task list"
  el_early :: bool
  el_asked :: bool

definition EventLoop_new :: event_loop where
  "EventLoop_new = \<lparr>el_looping = False, el_quit = False, el_calling = False, el_iteration = 0,
     el_pending = [], el_counter = 0, el_owing = 0, el_pc = NotLooping, el_posted = [], el_done = [],
     el_early = False, el_asked = False\<rparr>"

section \<open>Operations\<close>

definition EventLoop_wakeup :: "event_loop \<Rightarrow> event_loop" where
  "EventLoop_wakeup s = s\<lparr>el_counter := el_counter s + 1\<rparr>"

definition EventLoop_handleRead :: "event_loop \<Rightarrow> event_loop" where
  "EventLoop_handleRead s = s\<lparr>el_counter := 0\<rparr>"

text \<open>The two halves of \<^verbatim>\<open>queueInLoop\<close> and \<^verbatim>\<open>quit\<close>: the shared access, and whether a wakeup follows.\<close>

definition push_functor :: "task \<Rightarrow> event_loop \<Rightarrow> event_loop" where
  "push_functor cb s = s\<lparr>el_pending := el_pending s @ [cb], el_posted := el_posted s @ [cb]\<rparr>"

definition EventLoop_queueInLoop :: "task \<Rightarrow> event_loop \<Rightarrow> event_loop" where
  "EventLoop_queueInLoop cb s =
     (let s = push_functor cb s in if el_calling s then EventLoop_wakeup s else s)"

definition set_quit :: "event_loop \<Rightarrow> event_loop" where
  "set_quit s = s\<lparr>el_quit := el_looping s, el_asked := el_looping s\<rparr>"

definition EventLoop_queueSize :: "event_loop \<Rightarrow> nat" where
  "EventLoop_queueSize s = length (el_pending s)"

text \<open>A call made by the loop thread; \<^verbatim>\<open>runInLoop\<close> runs the functor, and so its calls, at once.\<close>

fun loop_do :: "(task \<Rightarrow> loop_act list) \<Rightarrow> loop_act \<Rightarrow> event_loop \<Rightarrow> loop_act list \<times> event_loop" where
  "loop_do acts (ActQueue cb) s = ([], EventLoop_queueInLoop cb s)"
| "loop_do acts (ActRun cb) s = (acts cb, s)"
| "loop_do acts ActQuit s = ([], set_quit s)"

text \<open>The beginning and the end of \<^verbatim>\<open>doPendingFunctors\<close>.\<close>

definition doPendingFunctors_begin :: "event_loop \<Rightarrow> event_loop" where
  "doPendingFunctors_begin s = s\<lparr>el_calling := True, el_pc := BeforeSwap\<rparr>"

definition doPendingFunctors_swap :: "event_loop \<Rightarrow> event_loop" where
  "doPendingFunctors_swap s = s\<lparr>el_pending := [], el_early := False, el_pc := Running [] (el_pending s)\<rparr>"

definition doPendingFunctors_end :: "event_loop \<Rightarrow> event_loop" where
  "doPendingFunctors_end s = s\<lparr>el_calling := False, el_pc := Testing\<rparr>"

section \<open>Steps\<close>

inductive el_step :: "(task \<Rightarrow> loop_act list) \<Rightarrow> event_loop \<Rightarrow> event_loop \<Rightarrow> bool" for acts where
  early_queue: "el_pc s = NotLooping \<Longrightarrow>
     el_step acts s ((EventLoop_queueInLoop cb s)\<lparr>el_early := True\<rparr>)"
| loop_begin: "el_pc s = NotLooping \<Longrightarrow> \<not> el_looping s \<Longrightarrow>
     el_step acts s (s\<lparr>el_looping := True, el_pc := Starting\<rparr>)"
| loop_clear_quit: "el_pc s = Starting \<Longrightarrow> el_step acts s (s\<lparr>el_quit := False, el_pc := Testing\<rparr>)"
| loop_continue: "el_pc s = Testing \<Longrightarrow> \<not> el_quit s \<Longrightarrow> el_step acts s (s\<lparr>el_pc := Polling\<rparr>)"
| loop_exit: "el_pc s = Testing \<Longrightarrow> el_quit s \<Longrightarrow>
     el_step acts s (s\<lparr>el_looping := False, el_pc := NotLooping\<rparr>)"
| poll_returns: "el_pc s = Polling \<Longrightarrow> (woken \<longrightarrow> 0 < el_counter s) \<Longrightarrow>
     el_step acts s (s\<lparr>el_iteration := el_iteration s + 1, el_pc := Handling woken\<rparr>)"
| wakeup_handled: "el_pc s = Handling True \<Longrightarrow>
     el_step acts s ((EventLoop_handleRead s)\<lparr>el_pc := Handling False\<rparr>)"
| handler_act: "el_pc s = Handling w \<Longrightarrow> el_step acts s (snd (loop_do acts act s))"
| events_handled: "el_pc s = Handling False \<Longrightarrow> el_step acts s (doPendingFunctors_begin s)"
| swap_functors: "el_pc s = BeforeSwap \<Longrightarrow>
     el_step acts s (doPendingFunctors_swap s)"
| run_functor: "el_pc s = Running [] (f # fs) \<Longrightarrow>
     el_step acts s (s\<lparr>el_done := el_done s @ [f], el_pc := Running (acts f) fs\<rparr>)"
| functor_act: "el_pc s = Running (act # rest) fs \<Longrightarrow> loop_do acts act s = (called, s') \<Longrightarrow>
     el_step acts s (s'\<lparr>el_pc := Running (called @ rest) fs\<rparr>)"
| functors_done: "el_pc s = Running [] [] \<Longrightarrow> el_step acts s (doPendingFunctors_end s)"
| other_queues: "el_step acts s ((push_functor cb s)\<lparr>el_owing := el_owing s + 1\<rparr>)"
| other_quits: "el_step acts s ((set_quit s)\<lparr>el_owing := el_owing s + 1\<rparr>)"
| other_wakes: "0 < el_owing s \<Longrightarrow> el_step acts s ((EventLoop_wakeup s)\<lparr>el_owing := el_owing s - 1\<rparr>)"

inductive el_reachable :: "(task \<Rightarrow> loop_act list) \<Rightarrow> event_loop \<Rightarrow> bool" for acts where
  el_init: "el_reachable acts EventLoop_new"
| el_next: "el_reachable acts s \<Longrightarrow> el_step acts s s' \<Longrightarrow> el_reachable acts s'"

section \<open>Timers of the loop\<close>

definition EventLoop_runAfter ::
  "(heap \<Rightarrow> Timers.addr) \<Rightarrow> Timestamp \<Rightarrow> Timestamp \<Rightarrow> rat \<Rightarrow> callback \<Rightarrow> TimerQueue \<Rightarrow> (TimerId \<times> TimerQueue) option" where
  "EventLoop_runAfter alloc now clock delay cb q = addTimer alloc clock q cb (addTime now delay) 0"

definition EventLoop_runEvery ::
  "(heap \<Rightarrow> Timers.addr) \<Rightarrow> Timestamp \<Rightarrow> Timestamp \<Rightarrow> rat \<Rightarrow> callback \<Rightarrow> TimerQueue \<Rightarrow> (TimerId \<times> TimerQueue) option" where
  "EventLoop_runEvery alloc now clock interval cb q = addTimer alloc clock q cb (addTime now interval) interval"

definition EventLoop_cancel :: "TimerId \<Rightarrow> TimerQueue \<Rightarrow> TimerQueue option" where
  "EventLoop_cancel timerId q = cancelInLoop q timerId"

section \<open>Invariant\<close>

definition calling_pc :: "loop_pc \<Rightarrow> bool" where
  "calling_pc pc \<longleftrightarrow> (case pc of BeforeSwap \<Rightarrow> True | Running _ _ \<Rightarrow> True | _ \<Rightarrow> False)"

definition batch :: "loop_pc \<Rightarrow> task list" where
  "batch pc = (case pc of Running _ fs \<Rightarrow> fs | _ \<Rightarrow> [])"

text \<open>The phases in which work that is left in the list has a wakeup on its way.\<close>

definition waits_for_wakeup :: "loop_pc \<Rightarrow> bool" where
  "waits_for_wakeup pc \<longleftrightarrow> (case pc of Handling _ \<Rightarrow> False | BeforeSwap \<Rightarrow> False | _ \<Rightarrow> True)"

definition signalled :: "event_loop \<Rightarrow> bool" where
  "signalled s \<longleftrightarrow> 0 < el_counter s \<or> 0 < el_owing s"

definition el_inv :: "event_loop \<Rightarrow> bool" where
  "el_inv s \<longleftrightarrow>
     el_calling s = calling_pc (el_pc s)
     \<and> el_looping s = (el_pc s \<noteq> NotLooping)
     \<and> el_done s @ batch (el_pc s) @ el_pending s = el_posted s
     \<and> (waits_for_wakeup (el_pc s) \<and> el_pending s \<noteq> [] \<and> \<not> el_early s \<longrightarrow> signalled s)
     \<and> (el_pc s = Polling \<and> el_quit s \<longrightarrow> signalled s)"

lemmas el_defs = el_inv_def calling_pc_def batch_def waits_for_wakeup_def signalled_def

lemmas el_op_defs = EventLoop_wakeup_def EventLoop_handleRead_def push_functor_def EventLoop_queueInLoop_def
  set_quit_def doPendingFunctors_begin_def doPendingFunctors_swap_def doPendingFunctors_end_def Let_def

lemma el_inv_queue:
  assumes "el_inv s" "el_pc s = Handling w \<or> el_pc s = Running xs fs"
  shows "el_inv (EventLoop_queueInLoop cb s)"
proof -
  have posted: "el_done s @ batch (el_pc s) @ el_pending s @ [cb] = el_posted s @ [cb]"
    using assms(1) by (simp add: el_inv_def flip: append_assoc)
  show ?thesis
    using assms posted
    by (elim disjE) (simp_all add: el_inv_def el_op_defs calling_pc_def waits_for_wakeup_def signalled_def)
qed

lemma el_inv_set_quit:
  assumes "el_inv s" "el_pc s \<noteq> Polling"
  shows "el_inv (set_quit s)"
  using assms by (simp add: el_inv_def set_quit_def signalled_def)

lemma loop_do_inv:
  assumes "el_inv s" "loop_do acts act s = (called, s')" "el_pc s = Handling w \<or> el_pc s = Running xs fs"
  shows "el_inv s' \<and> el_pc s' = el_pc s"
proof (cases act)
  case (ActQueue cb)
  with assms el_inv_queue show ?thesis by (auto simp: el_op_defs)
next
  case (ActRun cb)
  with assms show ?thesis by simp
next
  case ActQuit
  have "el_pc s \<noteq> Polling" using assms(3) by auto
  with ActQuit assms el_inv_set_quit [OF assms(1)] show ?thesis by (auto simp: set_quit_def)
qed

lemma el_inv_push:
  assumes "el_inv s"
  shows "el_inv ((push_functor cb s)\<lparr>el_owing := el_owing s + 1\<rparr>)"
proof -
  have "el_done s @ batch (el_pc s) @ el_pending s @ [cb] = el_posted s @ [cb]"
    using assms by (simp add: el_inv_def flip: append_assoc)
  with assms show ?thesis by (simp add: el_inv_def push_functor_def signalled_def)
qed

lemma el_step_inv: "el_step acts s s' \<Longrightarrow> el_inv s \<Longrightarrow> el_inv s'"
proof (induction rule: el_step.induct)
  case (early_queue s cb)
  have "el_done s @ batch (el_pc s) @ el_pending s @ [cb] = el_posted s @ [cb]"
    using early_queue by (simp add: el_inv_def flip: append_assoc)
  with early_queue show ?case
    by (simp add: el_inv_def el_op_defs calling_pc_def)
next
  case (handler_act s w act)
  then show ?case using loop_do_inv [of s acts act] by (metis prod.collapse)
next
  case (functor_act s act rest fs called s')
  have "el_inv s'" "el_pc s' = Running (act # rest) fs"
    using loop_do_inv [OF functor_act(3,2), of False "act # rest" fs] functor_act(1) by auto
  then show ?case by (simp add: el_defs)
next
  case (other_queues s cb)
  then show ?case by (rule el_inv_push)
next
  case (other_quits s)
  then show ?case by (simp add: el_inv_def set_quit_def signalled_def)
next
  case (other_wakes s)
  then show ?case by (simp add: el_inv_def EventLoop_wakeup_def signalled_def)
next
  case (poll_returns s woken)
  then show ?case by (simp add: el_defs)
next
  case (wakeup_handled s)
  then show ?case by (simp add: el_defs EventLoop_handleRead_def)
qed (simp_all add: el_defs doPendingFunctors_begin_def doPendingFunctors_swap_def doPendingFunctors_end_def)

lemma el_inv_new: "el_inv EventLoop_new"
  by (simp add: EventLoop_new_def el_defs)

lemma el_reachable_inv: "el_reachable acts s \<Longrightarrow> el_inv s"
  by (induction rule: el_reachable.induct) (simp add: el_inv_new, rule el_step_inv)

section \<open>Reaching the poll\<close>

lemma reach_polling:
  "el_reachable acts (EventLoop_new\<lparr>el_looping := True, el_pc := Polling\<rparr>)"
proof -
  have "el_reachable acts (EventLoop_new\<lparr>el_looping := True, el_pc := Starting\<rparr>)"
    by (rule el_next [OF el_init]) (rule loop_begin; simp add: EventLoop_new_def)
  then have "el_reachable acts (EventLoop_new\<lparr>el_looping := True, el_pc := Testing\<rparr>)"
    by (rule el_next) (use loop_clear_quit [of "EventLoop_new\<lparr>el_looping := True, el_pc := Starting\<rparr>" acts] in
      \<open>simp add: EventLoop_new_def\<close>)
  then show ?thesis
    by (rule el_next) (use loop_continue [of "EventLoop_new\<lparr>el_looping := True, el_pc := Testing\<rparr>" acts] in
      \<open>simp add: EventLoop_new_def\<close>)
qed

section \<open>Properties\<close>



text \<open>C24. Posted functors run exactly once and in the order they were posted, whatever threads post them: at
  every moment the functors already started, the rest of the current batch and the pending list make up
  the posted sequence.\<close>

theorem loop_runs_posted_in_order:
  assumes "el_reachable acts s"
  shows "el_done s @ batch (el_pc s) @ el_pending s = el_posted s"
  using el_reachable_inv [OF assms] by (simp add: el_inv_def)

theorem loop_runs_posted_in_order_witness:
  "el_done ((push_functor 7 (EventLoop_new\<lparr>el_looping := True, el_pc := Polling\<rparr>))\<lparr>el_owing := 1\<rparr>) @
   batch (el_pc ((push_functor 7 (EventLoop_new\<lparr>el_looping := True, el_pc := Polling\<rparr>))\<lparr>el_owing := 1\<rparr>)) @
   el_pending ((push_functor 7 (EventLoop_new\<lparr>el_looping := True, el_pc := Polling\<rparr>))\<lparr>el_owing := 1\<rparr>) = [7]"
proof -
  let ?p = "EventLoop_new\<lparr>el_looping := True, el_pc := Polling\<rparr>"
  let ?s = "(push_functor 7 ?p)\<lparr>el_owing := 1\<rparr>"
  have "el_reachable (\<lambda>f. []) ?s"
    by (rule el_next [OF reach_polling]) (use other_queues [of "\<lambda>f. []" ?p 7] in \<open>simp add: EventLoop_new_def\<close>)
  from loop_runs_posted_in_order [OF this] show ?thesis
    by (simp add: push_functor_def EventLoop_new_def)
qed

text \<open>Work the loop thread queues before it calls \<^verbatim>\<open>loop\<close> does not wake the loop: the loop can sit in
  \<^verbatim>\<open>epoll_wait\<close> with that work pending and nothing to wake it but the ten second timeout.\<close>

lemma loop_early_work_sleeps:
  "\<exists>s. el_reachable acts s \<and> el_pc s = Polling \<and> el_pending s = [cb] \<and> el_counter s = 0 \<and> el_owing s = 0"
proof -
  let ?s0 = "(EventLoop_queueInLoop cb EventLoop_new)\<lparr>el_early := True\<rparr>"
  have r0: "el_reachable acts ?s0"
    by (rule el_next [OF el_init]) (rule early_queue, simp add: EventLoop_new_def)
  let ?s1 = "?s0\<lparr>el_looping := True, el_pc := Starting\<rparr>"
  have r1: "el_reachable acts ?s1"
    by (rule el_next [OF r0]) (rule loop_begin; simp add: EventLoop_new_def el_op_defs)
  let ?s2 = "?s1\<lparr>el_quit := False, el_pc := Testing\<rparr>"
  have r2: "el_reachable acts ?s2" by (rule el_next [OF r1]) (rule loop_clear_quit, simp)
  let ?s3 = "?s2\<lparr>el_pc := Polling\<rparr>"
  have "el_reachable acts ?s3" by (rule el_next [OF r2]) (rule loop_continue; simp)
  then show ?thesis by (intro exI [of _ ?s3]) (simp add: EventLoop_new_def el_op_defs)
qed

text \<open>\<^verbatim>\<open>quit\<close> from another thread can be lost: \<^verbatim>\<open>loop\<close> sets \<^verbatim>\<open>looping_\<close> before it clears \<^verbatim>\<open>quit_\<close>, so a \<^verbatim>\<open>quit\<close>
  that falls between the two is overwritten, and the loop goes on to block with no wakeup pending.\<close>

lemma loop_quit_can_be_lost:
  "\<exists>s. el_reachable acts s \<and> el_asked s \<and> \<not> el_quit s \<and> el_pc s = Polling \<and> el_counter s = 0 \<and> el_owing s = 0"
proof -
  let ?s1 = "EventLoop_new\<lparr>el_looping := True, el_pc := Starting\<rparr>"
  have r1: "el_reachable acts ?s1"
    by (rule el_next [OF el_init]) (rule loop_begin; simp add: EventLoop_new_def)
  let ?s2 = "(set_quit ?s1)\<lparr>el_owing := el_owing ?s1 + 1\<rparr>"
  have r2: "el_reachable acts ?s2" by (rule el_next [OF r1]) (rule other_quits)
  let ?s3 = "?s2\<lparr>el_quit := False, el_pc := Testing\<rparr>"
  have r3: "el_reachable acts ?s3" by (rule el_next [OF r2]) (rule loop_clear_quit, simp add: set_quit_def)
  let ?s4 = "(EventLoop_wakeup ?s3)\<lparr>el_owing := el_owing ?s3 - 1\<rparr>"
  have r4: "el_reachable acts ?s4" by (rule el_next [OF r3]) (rule other_wakes, simp)
  let ?s5 = "?s4\<lparr>el_pc := Polling\<rparr>"
  have r5: "el_reachable acts ?s5" by (rule el_next [OF r4]) (rule loop_continue; simp add: EventLoop_wakeup_def)
  let ?s6 = "?s5\<lparr>el_iteration := el_iteration ?s5 + 1, el_pc := Handling True\<rparr>"
  have r6: "el_reachable acts ?s6" by (rule el_next [OF r5]) (rule poll_returns; simp add: EventLoop_wakeup_def)
  let ?s7 = "(EventLoop_handleRead ?s6)\<lparr>el_pc := Handling False\<rparr>"
  have r7: "el_reachable acts ?s7" by (rule el_next [OF r6]) (rule wakeup_handled, simp)
  let ?s8 = "doPendingFunctors_begin ?s7"
  have r8: "el_reachable acts ?s8" by (rule el_next [OF r7]) (rule events_handled, simp)
  let ?s9 = "doPendingFunctors_swap ?s8"
  have r9: "el_reachable acts ?s9" by (rule el_next [OF r8]) (rule swap_functors, simp add: el_op_defs)
  let ?s10 = "doPendingFunctors_end ?s9"
  have r10: "el_reachable acts ?s10"
    by (rule el_next [OF r9]) (rule functors_done, simp add: EventLoop_new_def el_op_defs)
  let ?s11 = "?s10\<lparr>el_pc := Polling\<rparr>"
  have "el_reachable acts ?s11"
    by (rule el_next [OF r10]) (rule loop_continue; simp add: el_op_defs)
  then show ?thesis by (intro exI [of _ ?s11]) (simp add: EventLoop_new_def el_op_defs)
qed

end
