(* ===== verification/Connection.thy ===== *)
theory Connection
  imports Buffer Poller
begin

text \<open>
  \<^verbatim>\<open>pallette/TcpConnection.h\<close>, \<^verbatim>\<open>TcpConnection.cpp\<close>: the state machine of one connection over its channel, its
  two buffers and the socket. Its handlers run in the loop thread; the calls other threads may make
  (\<^verbatim>\<open>send\<close>, \<^verbatim>\<open>shutdown\<close>, \<^verbatim>\<open>forceClose\<close>, \<^verbatim>\<open>startRead\<close>, \<^verbatim>\<open>stopRead\<close>) test and set \<^verbatim>\<open>state_\<close> there and leave the rest to
  functors queued in the loop. \<open>inLoop\<close> is what \<^verbatim>\<open>isInLoopThread()\<close> answers the caller.

  Parameters and oracles: \<open>user\<close> gives the calls the user's callbacks make on the connection, which may
  depend on its whole state; \<open>tc_answers\<close> is the sequence of answers the kernel will give to \<^verbatim>\<open>write\<close>; what
  \<^verbatim>\<open>read\<close> finds is an argument of the read event. \<open>tc_sent\<close> and \<open>tc_accepted\<close> record the bytes handed to the
  kernel and the bytes \<^verbatim>\<open>sendInLoop\<close> has taken, \<open>tc_log\<close> the callbacks run, \<open>tc_shut\<close> that the write side of the socket
  has been shut.
\<close>

datatype StateE = kDisconnected | kConnecting | kConnected | kDisconnecting

definition EWOULDBLOCK :: nat where "EWOULDBLOCK = 11"
definition EPIPE :: nat where "EPIPE = 32"
definition ECONNRESET :: nat where "ECONNRESET = 104"

datatype write_answer = WriteOk nat | WriteErr nat

text \<open>Functors the connection puts into its loop's queue, those of other threads' calls last. Running the close
  callback makes the server queue \<^verbatim>\<open>connectDestroyed\<close>.\<close>

datatype queued =
    QWriteComplete | QHighWater nat | QForceClose | QConnectDestroyed
  | QSend string | QShutdown | QStartRead | QStopRead

datatype conn_event = ConnectionCb StateE | MessageCb string | WriteCompleteCb | HighWaterCb nat | CloseCb

text \<open>The calls a user may make on a connection; \<open>ApiConsume\<close> retrieves bytes from the input
  buffer.\<close>

datatype conn_api =
    ApiSend string | ApiSendBuffer buffer | ApiShutdown | ApiForceClose | ApiForceCloseWithDelay rat
  | ApiStartRead | ApiStopRead | ApiConsume nat

record TcpConnection =
  tc_state :: StateE
  tc_reading :: bool
  tc_channel :: addr
  tc_reactor :: reactor
  tc_hasWriteComplete :: bool
  tc_hasHighWater :: bool
  tc_highWaterMark :: nat
  tc_input :: buffer
  tc_output :: buffer
  tc_lastReceiveTime :: Timestamp
  tc_bytesReceived :: "64 word"
  tc_bytesSent :: "64 word"
  tc_queued :: "queued list"
  tc_delayed :: "rat list"
  tc_shut :: bool
  tc_answers :: "write_answer list"
  tc_sent :: string
  tc_accepted :: string
  tc_log :: "conn_event list"

definition TcpConnection_new :: "addr \<Rightarrow> int \<Rightarrow> Timestamp \<Rightarrow> reactor \<Rightarrow> TcpConnection" where
  "TcpConnection_new ch sockfd now r =
     \<lparr>tc_state = kConnecting, tc_reading = True, tc_channel = ch,
      tc_reactor = set_chan ch (Channel_new sockfd) r,
      tc_hasWriteComplete = False, tc_hasHighWater = False, tc_highWaterMark = 64 * 1024 * 1024,
      tc_input = Buffer_new kInitalSize, tc_output = Buffer_new kInitalSize, tc_lastReceiveTime = now,
      tc_bytesReceived = 0, tc_bytesSent = 0, tc_queued = [], tc_delayed = [], tc_shut = False,
      tc_answers = [], tc_sent = [], tc_accepted = [], tc_log = []\<rparr>"

definition setState :: "StateE \<Rightarrow> TcpConnection \<Rightarrow> TcpConnection" where
  "setState st s = s\<lparr>tc_state := st\<rparr>"

definition stateToString :: "StateE \<Rightarrow> string" where
  "stateToString st = (case st of kDisconnected \<Rightarrow> ''kDisconnected'' | kConnecting \<Rightarrow> ''kConnecting''
     | kConnected \<Rightarrow> ''kConnected'' | kDisconnecting \<Rightarrow> ''kDisconnecting'')"

definition tc_chan :: "TcpConnection \<Rightarrow> Channel option" where
  "tc_chan s = chan (tc_reactor s) (tc_channel s)"

definition on_channel :: "(addr \<Rightarrow> reactor \<Rightarrow> reactor option) \<Rightarrow> TcpConnection \<Rightarrow> TcpConnection option" where
  "on_channel f s = do { r \<leftarrow> f (tc_channel s) (tc_reactor s); Some (s\<lparr>tc_reactor := r\<rparr>) }"

definition queue_functor :: "queued \<Rightarrow> TcpConnection \<Rightarrow> TcpConnection" where
  "queue_functor f s = s\<lparr>tc_queued := tc_queued s @ [f]\<rparr>"

text \<open>\<^verbatim>\<open>runInLoop\<close>: at once in the loop thread, as a queued functor from another.\<close>

definition conn_runInLoop ::
  "bool \<Rightarrow> queued \<Rightarrow> (TcpConnection \<Rightarrow> TcpConnection option) \<Rightarrow> TcpConnection \<Rightarrow> TcpConnection option" where
  "conn_runInLoop inLoop f g s = (if inLoop then g s else Some (queue_functor f s))"

text \<open>\<^verbatim>\<open>sockets::write\<close>: the result, \<^verbatim>\<open>errno\<close>, and the bytes the kernel took. After \<^verbatim>\<open>shutdown(SHUT_WR)\<close> every write
  fails with \<^verbatim>\<open>EPIPE\<close>.\<close>

definition sockets_write :: "string \<Rightarrow> TcpConnection \<Rightarrow> int \<times> nat \<times> TcpConnection" where
  "sockets_write data s =
     (if tc_shut s then (-1, EPIPE, s)
      else case tc_answers s of
        [] \<Rightarrow> (-1, EWOULDBLOCK, s)
      | WriteErr e # more_answers \<Rightarrow> (-1, e, s\<lparr>tc_answers := more_answers\<rparr>)
      | WriteOk n # more_answers \<Rightarrow>
          let k = min n (length data) in
          (int k, 0, s\<lparr>tc_answers := more_answers, tc_sent := tc_sent s @ take k data\<rparr>))"

section \<open>Sending\<close>

text \<open>\<^verbatim>\<open>sendInLoop\<close> in its two parts: the attempt to write at once, whose result is the number of bytes
  written, \<^verbatim>\<open>faultError\<close> and the state, and the buffering of what remains.\<close>

definition send_direct :: "string \<Rightarrow> Channel \<Rightarrow> TcpConnection \<Rightarrow> nat \<times> bool \<times> TcpConnection" where
  "send_direct data c s =
     (if \<not> isWriting c \<and> readableBytes (tc_output s) = 0 then
        (case sockets_write data s of
           (nwrote, errno, s) \<Rightarrow>
             if nwrote \<ge> 0 then
               let remaining = length data - nat nwrote in
               (nat nwrote, False,
                if remaining = 0 \<and> tc_hasWriteComplete s
                then queue_functor QWriteComplete (s\<lparr>tc_bytesSent := tc_bytesSent s + word_of_nat (nat nwrote)\<rparr>)
                else s)
             else (0, errno \<noteq> EWOULDBLOCK \<and> (errno = EPIPE \<or> errno = ECONNRESET), s))
      else (0, False, s))"

definition note_high_water :: "nat \<Rightarrow> TcpConnection \<Rightarrow> TcpConnection" where
  "note_high_water remaining s =
     (let oldLen = readableBytes (tc_output s) in
      if oldLen + remaining \<ge> tc_highWaterMark s \<and> oldLen < tc_highWaterMark s \<and> tc_hasHighWater s
      then queue_functor (QHighWater (oldLen + remaining)) s else s)"

definition send_rest :: "string \<Rightarrow> nat \<Rightarrow> TcpConnection \<Rightarrow> TcpConnection option" where
  "send_rest data nwrote s =
     (let remaining = length data - nwrote in
      if remaining > 0 then do {
        let s = note_high_water remaining s;
        out \<leftarrow> Buffer_append (tc_output s) (drop nwrote data);
        let s = s\<lparr>tc_output := out, tc_accepted := tc_accepted s @ data\<rparr>;
        c \<leftarrow> tc_chan s;
        if \<not> isWriting c then on_channel enableWriting s else Some s }
      else Some (s\<lparr>tc_accepted := tc_accepted s @ data\<rparr>))"

definition sendInLoop :: "string \<Rightarrow> TcpConnection \<Rightarrow> TcpConnection option" where
  "sendInLoop data s =
     (if tc_state s = kDisconnected then Some s
      else do {
        c \<leftarrow> tc_chan s;
        let (nwrote, faultError, s) = send_direct data c s;
        assertion (nwrote \<le> length data);
        if \<not> faultError then send_rest data nwrote s else Some s })"

definition TcpConnection_send :: "bool \<Rightarrow> string \<Rightarrow> TcpConnection \<Rightarrow> TcpConnection option" where
  "TcpConnection_send inLoop message s =
     (if tc_state s = kConnected then
        (if inLoop then sendInLoop message s
         else conn_runInLoop inLoop (QSend message) (sendInLoop message) s)
      else Some s)"

text \<open>\<^verbatim>\<open>send(Buffer*)\<close> also empties the caller's buffer.\<close>

definition TcpConnection_sendBuffer :: "bool \<Rightarrow> buffer \<Rightarrow> TcpConnection \<Rightarrow> (buffer \<times> TcpConnection) option" where
  "TcpConnection_sendBuffer inLoop buf s =
     (if tc_state s = kConnected then
        (if inLoop then do {
           s \<leftarrow> sendInLoop (Buffer_bytes buf) s;
           Some (retrieveAll buf, s) }
         else do {
           (message, buf) \<leftarrow> retrieveAllAsString buf;
           s \<leftarrow> conn_runInLoop inLoop (QSend message) (sendInLoop message) s;
           Some (buf, s) })
      else Some (buf, s))"

section \<open>Closing\<close>

definition shutdownInLoop :: "TcpConnection \<Rightarrow> TcpConnection option" where
  "shutdownInLoop s = do {
     c \<leftarrow> tc_chan s;
     Some (if \<not> isWriting c then s\<lparr>tc_shut := True\<rparr> else s) }"

text \<open>\<^verbatim>\<open>shutdown\<close> tests the state and then changes it (\<^verbatim>\<open>FIXME: use compare and swap\<close>); the second part is a definition
  of its own, for a caller in another thread between whose two parts the loop thread runs.\<close>

definition shutdown_commit :: "bool \<Rightarrow> TcpConnection \<Rightarrow> TcpConnection option" where
  "shutdown_commit inLoop s = conn_runInLoop inLoop QShutdown shutdownInLoop (setState kDisconnecting s)"

definition TcpConnection_shutdown :: "bool \<Rightarrow> TcpConnection \<Rightarrow> TcpConnection option" where
  "TcpConnection_shutdown inLoop s = (if tc_state s = kConnected then shutdown_commit inLoop s else Some s)"

definition forceClose :: "TcpConnection \<Rightarrow> TcpConnection option" where
  "forceClose s =
     (if tc_state s = kConnected \<or> tc_state s = kDisconnecting
      then Some (queue_functor QForceClose (setState kDisconnecting s)) else Some s)"

definition forceCloseWithDelay :: "rat \<Rightarrow> TcpConnection \<Rightarrow> TcpConnection option" where
  "forceCloseWithDelay seconds s =
     (if tc_state s = kConnected \<or> tc_state s = kDisconnecting
      then Some ((setState kDisconnecting s)\<lparr>tc_delayed := tc_delayed s @ [seconds]\<rparr>) else Some s)"

definition startReadInLoop :: "TcpConnection \<Rightarrow> TcpConnection option" where
  "startReadInLoop s = do {
     c \<leftarrow> tc_chan s;
     if \<not> tc_reading s \<or> \<not> isReading c then do {
       s \<leftarrow> on_channel enableReading s;
       Some (s\<lparr>tc_reading := True\<rparr>) }
     else Some s }"

definition stopReadInLoop :: "TcpConnection \<Rightarrow> TcpConnection option" where
  "stopReadInLoop s = do {
     c \<leftarrow> tc_chan s;
     if tc_reading s \<or> isReading c then do {
       s \<leftarrow> on_channel disableReading s;
       Some (s\<lparr>tc_reading := False\<rparr>) }
     else Some s }"

definition TcpConnection_startRead :: "bool \<Rightarrow> TcpConnection \<Rightarrow> TcpConnection option" where
  "TcpConnection_startRead inLoop s = conn_runInLoop inLoop QStartRead startReadInLoop s"

definition TcpConnection_stopRead :: "bool \<Rightarrow> TcpConnection \<Rightarrow> TcpConnection option" where
  "TcpConnection_stopRead inLoop s = conn_runInLoop inLoop QStopRead stopReadInLoop s"

lemmas in_loop_thread = conn_runInLoop_def TcpConnection_send_def TcpConnection_sendBuffer_def shutdown_commit_def
  TcpConnection_shutdown_def TcpConnection_startRead_def TcpConnection_stopRead_def

section \<open>Callbacks\<close>

text \<open>A call of the user, from the loop thread or another one; callbacks run in the loop thread.\<close>

fun api_call :: "bool \<Rightarrow> conn_api \<Rightarrow> TcpConnection \<Rightarrow> TcpConnection option" where
  "api_call inLoop (ApiSend m) s = TcpConnection_send inLoop m s"
| "api_call inLoop (ApiSendBuffer b) s = map_option snd (TcpConnection_sendBuffer inLoop b s)"
| "api_call inLoop ApiShutdown s = TcpConnection_shutdown inLoop s"
| "api_call inLoop ApiForceClose s = forceClose s"
| "api_call inLoop (ApiForceCloseWithDelay d) s = forceCloseWithDelay d s"
| "api_call inLoop ApiStartRead s = TcpConnection_startRead inLoop s"
| "api_call inLoop ApiStopRead s = TcpConnection_stopRead inLoop s"
| "api_call inLoop (ApiConsume n) s =
     map_option (\<lambda>b. s\<lparr>tc_input := b\<rparr>) (retrieve (tc_input s) (min n (readableBytes (tc_input s))))"

abbreviation api_do :: "conn_api \<Rightarrow> TcpConnection \<Rightarrow> TcpConnection option" where
  "api_do \<equiv> api_call True"

definition call_user ::
  "(conn_event \<Rightarrow> TcpConnection \<Rightarrow> conn_api list) \<Rightarrow> conn_event \<Rightarrow> TcpConnection \<Rightarrow> TcpConnection option" where
  "call_user user ev s =
     (let s = s\<lparr>tc_log := tc_log s @ [ev]\<rparr> in foldo api_do (user ev s) s)"

section \<open>Handlers\<close>

definition connectEstablished ::
  "(conn_event \<Rightarrow> TcpConnection \<Rightarrow> conn_api list) \<Rightarrow> TcpConnection \<Rightarrow> TcpConnection option" where
  "connectEstablished user s = do {
     assertion (tc_state s = kConnecting);
     let s = setState kConnected s;
     s \<leftarrow> on_channel Channel_tie s;
     s \<leftarrow> on_channel enableReading s;
     call_user user (ConnectionCb (tc_state s)) s }"

definition connectDestroyed ::
  "(conn_event \<Rightarrow> TcpConnection \<Rightarrow> conn_api list) \<Rightarrow> TcpConnection \<Rightarrow> TcpConnection option" where
  "connectDestroyed user s = do {
     s \<leftarrow> (if tc_state s = kConnected then do {
             let s = setState kDisconnected s;
             s \<leftarrow> on_channel disableAll s;
             call_user user (ConnectionCb (tc_state s)) s }
           else Some s);
     on_channel Channel_remove s }"

definition TcpConnection_handleClose ::
  "(conn_event \<Rightarrow> TcpConnection \<Rightarrow> conn_api list) \<Rightarrow> TcpConnection \<Rightarrow> TcpConnection option" where
  "TcpConnection_handleClose user s = do {
     assertion (tc_state s = kConnected \<or> tc_state s = kDisconnecting);
     let s = setState kDisconnected s;
     s \<leftarrow> on_channel disableAll s;
     s \<leftarrow> call_user user (ConnectionCb (tc_state s)) s;
     call_user user CloseCb (queue_functor QConnectDestroyed s) }"

definition TcpConnection_handleError :: "TcpConnection \<Rightarrow> TcpConnection option" where
  "TcpConnection_handleError s = Some s"

definition TcpConnection_handleRead ::
  "(conn_event \<Rightarrow> TcpConnection \<Rightarrow> conn_api list) \<Rightarrow> read_result \<Rightarrow> Timestamp \<Rightarrow> TcpConnection \<Rightarrow> TcpConnection option" where
  "TcpConnection_handleRead user answer receiveTime s = do {
     (input, n, savedErrno) \<leftarrow> readFd (tc_input s) answer;
     let s = s\<lparr>tc_input := input\<rparr>;
     if n > 0 then
       call_user user (MessageCb (Buffer_bytes (tc_input s)))
         (s\<lparr>tc_bytesReceived := tc_bytesReceived s + word_of_int n, tc_lastReceiveTime := receiveTime\<rparr>)
     else if n = 0 then TcpConnection_handleClose user s
     else TcpConnection_handleError s }"

definition TcpConnection_handleWrite :: "TcpConnection \<Rightarrow> TcpConnection option" where
  "TcpConnection_handleWrite s = do {
     c \<leftarrow> tc_chan s;
     if isWriting c then
       (case sockets_write (Buffer_bytes (tc_output s)) s of
          (n, errno, s) \<Rightarrow>
            if n > 0 then do {
              out \<leftarrow> retrieve (tc_output s) (nat n);
              let s = s\<lparr>tc_output := out\<rparr>;
              if readableBytes (tc_output s) = 0 then do {
                s \<leftarrow> on_channel disableWriting s;
                let s = (if tc_hasWriteComplete s
                         then queue_functor QWriteComplete (s\<lparr>tc_bytesSent := tc_bytesSent s + word_of_nat (nat n)\<rparr>)
                         else s);
                if tc_state s = kDisconnecting then shutdownInLoop s else Some s }
              else Some s }
            else Some s)
     else Some s }"

definition forceCloseInLoop ::
  "(conn_event \<Rightarrow> TcpConnection \<Rightarrow> conn_api list) \<Rightarrow> TcpConnection \<Rightarrow> TcpConnection option" where
  "forceCloseInLoop user s =
     (if tc_state s = kConnected \<or> tc_state s = kDisconnecting
      then TcpConnection_handleClose user s else Some s)"

definition TcpConnection_destroy :: "TcpConnection \<Rightarrow> TcpConnection option" where
  "TcpConnection_destroy s = do {
     assertion (tc_state s = kDisconnected);
     on_channel Channel_destroy s }"

text \<open>The channel's dispatch (\<open>handleEventWithGuard\<close>) with this connection's handlers.\<close>

definition conn_handleEvent ::
  "(conn_event \<Rightarrow> TcpConnection \<Rightarrow> conn_api list) \<Rightarrow> event_mask \<Rightarrow> read_result \<Rightarrow> Timestamp
   \<Rightarrow> TcpConnection \<Rightarrow> TcpConnection option" where
  "conn_handleEvent user revents answer receiveTime s = do {
     s \<leftarrow> (if revents AND EPOLLHUP \<noteq> 0 \<and> \<not> revents AND EPOLLIN \<noteq> 0 then TcpConnection_handleClose user s else Some s);
     s \<leftarrow> (if revents AND EPOLLERR \<noteq> 0 then TcpConnection_handleError s else Some s);
     s \<leftarrow> (if revents AND (EPOLLIN OR EPOLLPRI OR EPOLLHUP) \<noteq> 0
           then TcpConnection_handleRead user answer receiveTime s else Some s);
     (if revents AND EPOLLOUT \<noteq> 0 then TcpConnection_handleWrite s else Some s) }"

text \<open>The loop runs the next queued functor; a timer set by \<^verbatim>\<open>forceCloseWithDelay\<close> fires.\<close>

definition run_queued ::
  "(conn_event \<Rightarrow> TcpConnection \<Rightarrow> conn_api list) \<Rightarrow> TcpConnection \<Rightarrow> TcpConnection option" where
  "run_queued user s =
     (case tc_queued s of
        [] \<Rightarrow> Some s
      | f # fs \<Rightarrow>
          let s = s\<lparr>tc_queued := fs\<rparr> in
          (case f of
             QWriteComplete \<Rightarrow> call_user user WriteCompleteCb s
           | QHighWater n \<Rightarrow> call_user user (HighWaterCb n) s
           | QForceClose \<Rightarrow> forceCloseInLoop user s
           | QConnectDestroyed \<Rightarrow> connectDestroyed user s
           | QSend message \<Rightarrow> sendInLoop message s
           | QShutdown \<Rightarrow> shutdownInLoop s
           | QStartRead \<Rightarrow> startReadInLoop s
           | QStopRead \<Rightarrow> stopReadInLoop s))"

definition delay_fires :: "TcpConnection \<Rightarrow> TcpConnection option" where
  "delay_fires s =
     (case tc_delayed s of [] \<Rightarrow> Some s | d # ds \<Rightarrow> forceClose (s\<lparr>tc_delayed := ds\<rparr>))"

section \<open>Masks and the channel\<close>

lemma write_mask:
  "(e OR kWriteEvent) AND kWriteEvent \<noteq> (0 :: event_mask)"
  "(e AND NOT kWriteEvent) AND kWriteEvent = (0 :: event_mask)"
  "(e OR kReadEvent) AND kWriteEvent = e AND kWriteEvent"
  "(e AND NOT kReadEvent) AND kWriteEvent = e AND kWriteEvent"
proof -
  have "kReadEvent AND kWriteEvent = 0" "NOT kReadEvent AND kWriteEvent = kWriteEvent" "kWriteEvent \<noteq> 0"
    by (simp_all add: epoll_defs)
  then show "(e OR kWriteEvent) AND kWriteEvent \<noteq> 0" "(e AND NOT kWriteEvent) AND kWriteEvent = 0"
    "(e OR kReadEvent) AND kWriteEvent = e AND kWriteEvent"
    "(e AND NOT kReadEvent) AND kWriteEvent = e AND kWriteEvent"
    by (simp_all add: bit.conj_disj_distrib2 and.assoc)
qed

lemma isWriting_none: "ch_events c = kNoneEvent \<Longrightarrow> \<not> isWriting c"
  by (simp add: isWriting_def kNoneEvent_def)

text \<open>Changing the mask of the connection's registered channel.\<close>

lemma on_channel_events:
  assumes "reactor_inv (tc_reactor s)" "tc_chan s = Some c" "ch_index c \<noteq> kNew"
  obtains r c' where "on_channel (with_events f) s = Some (s\<lparr>tc_reactor := r\<rparr>)" "reactor_inv r"
    "chan r (tc_channel s) = Some c'" "ch_events c' = f (ch_events c)" "ch_index c' \<noteq> kNew"
    "rc_eventHandling r = rc_eventHandling (tc_reactor s)"
proof -
  have "\<not> (ch_index c = kNew \<and> map_find (rc_channels (tc_reactor s)) (ch_fd c) \<noteq> None)" using assms(3) by simp
  with with_events_cases [OF assms(1) assms(2) [unfolded tc_chan_def], of f] obtain r i where
    r: "with_events f (tc_channel s) (tc_reactor s) = Some r" "reactor_inv r"
    "chan r = (chan (tc_reactor s))(tc_channel s \<mapsto> c\<lparr>ch_events := f (ch_events c), ch_addedToLoop := True, ch_index := i\<rparr>)"
    "rc_eventHandling r = rc_eventHandling (tc_reactor s)" "i = kAdded \<or> i = kDeleted"
    by (simp only: if_False) blast
  let ?c = "c\<lparr>ch_events := f (ch_events c), ch_addedToLoop := True, ch_index := i\<rparr>"
  have "on_channel (with_events f) s = Some (s\<lparr>tc_reactor := r\<rparr>)" using r(1) by (simp add: on_channel_def)
  moreover have "chan r (tc_channel s) = Some ?c" using r(3) by simp
  moreover have "ch_index ?c \<noteq> kNew" using r(5) by auto
  ultimately show ?thesis using that [of r ?c] r(2,4) by simp
qed

section \<open>The invariant of a connection\<close>

fun is_connection_cb :: "conn_event \<Rightarrow> bool" where
  "is_connection_cb (ConnectionCb st) = True"
| "is_connection_cb _ = False"

definition connection_calls :: "TcpConnection \<Rightarrow> conn_event list" where
  "connection_calls s = filter is_connection_cb (tc_log s)"

text \<open>What holds in each state: before it is established the channel is new; while it is up the channel is
  registered and watches for writability exactly when there are bytes to write; after it is down nothing
  is watched. The connection callback has run once when it is up and twice when it is down. Bytes handed
  to the kernel followed by the bytes in the output buffer are the bytes accepted from the user.\<close>

definition state_ok :: "TcpConnection \<Rightarrow> Channel \<Rightarrow> bool" where
  "state_ok s c \<longleftrightarrow>
     (case tc_state s of
        kConnecting \<Rightarrow> ch_index c = kNew \<and> ch_events c = kNoneEvent \<and> map_find (rc_channels (tc_reactor s)) (ch_fd c) = None
          \<and> readableBytes (tc_output s) = 0 \<and> connection_calls s = [] \<and> tc_queued s = []
      | kDisconnected \<Rightarrow> ch_events c = kNoneEvent
          \<and> connection_calls s = [ConnectionCb kConnected, ConnectionCb kDisconnected]
          \<and> (count_list (tc_queued s) QConnectDestroyed = 0
             \<or> count_list (tc_queued s) QConnectDestroyed = 1 \<and> ch_index c \<noteq> kNew)
      | _ \<Rightarrow> ch_index c \<noteq> kNew \<and> (isWriting c \<longleftrightarrow> 0 < readableBytes (tc_output s))
          \<and> connection_calls s = [ConnectionCb kConnected] \<and> QConnectDestroyed \<notin> set (tc_queued s))"

definition conn_inv :: "TcpConnection \<Rightarrow> bool" where
  "conn_inv s \<longleftrightarrow>
     reactor_inv (tc_reactor s) \<and> \<not> rc_eventHandling (tc_reactor s)
     \<and> buf_inv (tc_input s) \<and> buf_inv (tc_output s)
     \<and> tc_sent s @ contents (tc_output s) = tc_accepted s
     \<and> (\<exists>c. tc_chan s = Some c \<and> state_ok s c)"

abbreviation up :: "TcpConnection \<Rightarrow> bool" where
  "up s \<equiv> tc_state s = kConnected \<or> tc_state s = kDisconnecting"

lemma conn_invE:
  assumes "conn_inv s"
  obtains c where "tc_chan s = Some c" "state_ok s c" "reactor_inv (tc_reactor s)"
    "\<not> rc_eventHandling (tc_reactor s)" "buf_inv (tc_input s)" "buf_inv (tc_output s)"
    "tc_sent s @ contents (tc_output s) = tc_accepted s"
  using assms by (auto simp: conn_inv_def)

lemma state_ok_up:
  "up s \<Longrightarrow> state_ok s c \<longleftrightarrow> ch_index c \<noteq> kNew \<and> (isWriting c \<longleftrightarrow> 0 < readableBytes (tc_output s))
     \<and> connection_calls s = [ConnectionCb kConnected] \<and> QConnectDestroyed \<notin> set (tc_queued s)"
  by (auto simp: state_ok_def)

lemma chan_update_simps [simp]:
  "tc_chan (s\<lparr>tc_output := o1\<rparr>) = tc_chan s" "tc_chan (s\<lparr>tc_input := i1\<rparr>) = tc_chan s"
  "tc_chan (s\<lparr>tc_queued := q\<rparr>) = tc_chan s" "tc_chan (s\<lparr>tc_state := st\<rparr>) = tc_chan s"
  "tc_chan (s\<lparr>tc_accepted := ac\<rparr>) = tc_chan s" "tc_chan (s\<lparr>tc_sent := se\<rparr>) = tc_chan s"
  "tc_chan (s\<lparr>tc_answers := an\<rparr>) = tc_chan s" "tc_chan (s\<lparr>tc_bytesSent := bs\<rparr>) = tc_chan s"
  "tc_chan (s\<lparr>tc_log := lg\<rparr>) = tc_chan s" "tc_chan (s\<lparr>tc_delayed := de\<rparr>) = tc_chan s"
  "tc_chan (s\<lparr>tc_reading := rd\<rparr>) = tc_chan s" "tc_chan (s\<lparr>tc_shut := sh\<rparr>) = tc_chan s"
  "tc_chan (s\<lparr>tc_bytesReceived := br\<rparr>) = tc_chan s" "tc_chan (s\<lparr>tc_lastReceiveTime := lt\<rparr>) = tc_chan s"
  "tc_chan (s\<lparr>tc_reactor := r\<rparr>) = chan r (tc_channel s)"
  by (auto simp: tc_chan_def)

section \<open>The user's calls\<close>

text \<open>What a call may do to a connection that the loops over calls rely on.\<close>

definition api_keeps :: "TcpConnection \<Rightarrow> TcpConnection \<Rightarrow> bool" where
  "api_keeps s s' \<longleftrightarrow> (tc_state s' = tc_state s \<or> tc_state s = kConnected \<and> tc_state s' = kDisconnecting)
     \<and> tc_log s' = tc_log s \<and> (\<exists>new. tc_queued s' = tc_queued s @ new \<and> QConnectDestroyed \<notin> set new)
     \<and> (\<exists>new. tc_accepted s' = tc_accepted s @ new)
     \<and> tc_channel s' = tc_channel s \<and> (\<not> up s \<longrightarrow> tc_reactor s' = tc_reactor s)"

lemma api_keeps_refl [simp]: "api_keeps s s"
  by (simp add: api_keeps_def)

lemma api_keeps_trans:
  assumes "api_keeps s s1" "api_keeps s1 s2"
  shows "api_keeps s s2"
proof -
  from assms obtain n1 n2 where "tc_queued s1 = tc_queued s @ n1" "QConnectDestroyed \<notin> set n1"
    "tc_queued s2 = tc_queued s1 @ n2" "QConnectDestroyed \<notin> set n2" unfolding api_keeps_def by blast
  then have "tc_queued s2 = tc_queued s @ (n1 @ n2) \<and> QConnectDestroyed \<notin> set (n1 @ n2)" by simp
  moreover have "tc_state s2 = tc_state s \<or> tc_state s = kConnected \<and> tc_state s2 = kDisconnecting"
    "tc_log s2 = tc_log s" "tc_channel s2 = tc_channel s" "\<not> up s \<longrightarrow> tc_reactor s2 = tc_reactor s"
    using assms unfolding api_keeps_def by auto
  moreover from assms obtain a1 a2 where "tc_accepted s1 = tc_accepted s @ a1" "tc_accepted s2 = tc_accepted s1 @ a2"
    unfolding api_keeps_def by blast
  then have "tc_accepted s2 = tc_accepted s @ (a1 @ a2)" by simp
  ultimately show ?thesis unfolding api_keeps_def by blast
qed

text \<open>What the direct write leaves: the bytes taken by the kernel are a prefix of the data, and anything was
  written only when nothing was buffered.\<close>

lemma send_direct_form:
  "\<exists>n f q a b. send_direct data c s = (n, f, s\<lparr>tc_queued := tc_queued s @ q, tc_answers := a,
      tc_sent := tc_sent s @ take n data, tc_bytesSent := b\<rparr>)
    \<and> n \<le> length data \<and> QConnectDestroyed \<notin> set q \<and> (0 < n \<longrightarrow> readableBytes (tc_output s) = 0) \<and> (f \<longrightarrow> n = 0)"
proof (cases "\<not> isWriting c \<and> readableBytes (tc_output s) = 0")
  case False
  then have "send_direct data c s = (0, False, s)" by (auto simp: send_direct_def)
  then show ?thesis
    by (intro exI [of _ 0] exI [of _ False] exI [of _ "[]"] exI [of _ "tc_answers s"] exI [of _ "tc_bytesSent s"]) simp
next
  case True
  consider "tc_shut s" | "\<not> tc_shut s" "tc_answers s = []" | w ws where "\<not> tc_shut s" "tc_answers s = w # ws"
    by (cases "tc_answers s") auto
  then show ?thesis
  proof cases
    case 1
    with True have "send_direct data c s = (0, True, s)" by (simp add: send_direct_def sockets_write_def EPIPE_def EWOULDBLOCK_def)
    then show ?thesis
      by (intro exI [of _ 0] exI [of _ True] exI [of _ "[]"] exI [of _ "tc_answers s"] exI [of _ "tc_bytesSent s"]) simp
  next
    case 2
    with True have "send_direct data c s = (0, False, s)" by (simp add: send_direct_def sockets_write_def)
    then show ?thesis
      by (intro exI [of _ 0] exI [of _ False] exI [of _ "[]"] exI [of _ "tc_answers s"] exI [of _ "tc_bytesSent s"]) simp
  next
    case Cons: 3
    show ?thesis
    proof (cases w)
      case (WriteErr e)
      with True Cons obtain f where "send_direct data c s = (0, f, s\<lparr>tc_answers := ws\<rparr>)"
        by (simp add: send_direct_def sockets_write_def)
      then show ?thesis
        by (intro exI [of _ 0] exI [of _ f] exI [of _ "[]"] exI [of _ ws] exI [of _ "tc_bytesSent s"]) simp
    next
      case (WriteOk k)
      let ?n = "min k (length data)"
      let ?t = "s\<lparr>tc_answers := ws, tc_sent := tc_sent s @ take ?n data\<rparr>"
      have d: "send_direct data c s = (?n, False, if length data - ?n = 0 \<and> tc_hasWriteComplete s
          then queue_functor QWriteComplete (?t\<lparr>tc_bytesSent := tc_bytesSent s + word_of_nat ?n\<rparr>) else ?t)"
        using True Cons WriteOk by (simp add: send_direct_def sockets_write_def Let_def)
      show ?thesis
      proof (cases "length data - ?n = 0 \<and> tc_hasWriteComplete s")
        case c: True
        show ?thesis unfolding d if_P [OF c] queue_functor_def
          by (rule exI [of _ ?n], rule exI [of _ False], rule exI [of _ "[QWriteComplete]"], rule exI [of _ ws],
              rule exI [of _ "tc_bytesSent s + word_of_nat ?n"]) (use True in simp)
      next
        case c: False
        show ?thesis unfolding d if_not_P [OF c]
          by (rule exI [of _ ?n], rule exI [of _ False], rule exI [of _ "[]"], rule exI [of _ ws],
              rule exI [of _ "tc_bytesSent s"]) (use True in simp)
      qed
    qed
  qed
qed

text \<open>Buffering what remains keeps the invariant, with the accepted bytes extended by the data.\<close>

lemma conn_inv_buffered:
  assumes "conn_inv s" "up s" "buf_inv out" "0 < readableBytes out" "QConnectDestroyed \<notin> set q"
    and "tc_sent s @ w @ contents out = tc_accepted s @ data"
    and "reactor_inv r" "\<not> rc_eventHandling r" "chan r (tc_channel s) = Some c'" "ch_index c' \<noteq> kNew" "isWriting c'"
    and t_def: "t = s\<lparr>tc_queued := tc_queued s @ q, tc_answers := a, tc_sent := tc_sent s @ w, tc_bytesSent := b,
      tc_output := out, tc_accepted := tc_accepted s @ data, tc_reactor := r\<rparr>"
  shows "conn_inv t \<and> api_keeps s t \<and> tc_state t = tc_state s \<and> tc_accepted t = tc_accepted s @ data"
proof -
  from assms(1) obtain c where c: "state_ok s c" "buf_inv (tc_input s)" by (rule conn_invE)
  have "state_ok t c'"
    using c(1) assms(2,4,5,10,11) by (simp add: state_ok_up t_def connection_calls_def)
  then have "conn_inv t" unfolding conn_inv_def using c(2) assms(3,6,7,8,9) by (simp add: t_def)
  moreover have "api_keeps s t" using assms(2,5) by (simp add: api_keeps_def t_def)
  ultimately show ?thesis by (simp add: t_def)
qed

lemma note_high_water_form:
  "\<exists>q. note_high_water k s = s\<lparr>tc_queued := tc_queued s @ q\<rparr> \<and> QConnectDestroyed \<notin> set q"
proof (cases "readableBytes (tc_output s) + k \<ge> tc_highWaterMark s \<and> readableBytes (tc_output s) < tc_highWaterMark s
    \<and> tc_hasHighWater s")
  case True
  then show ?thesis
    by (intro exI [of _ "[QHighWater (readableBytes (tc_output s) + k)]"]) (simp add: note_high_water_def queue_functor_def)
next
  case False
  then show ?thesis by (intro exI [of _ "[]"]) (auto simp: note_high_water_def Let_def)
qed

lemma send_rest_ok:
  assumes "conn_inv s" "up s" "n \<le> length data" "0 < n \<longrightarrow> readableBytes (tc_output s) = 0"
    "QConnectDestroyed \<notin> set q"
    and t: "t = s\<lparr>tc_queued := tc_queued s @ q, tc_answers := a, tc_sent := tc_sent s @ take n data, tc_bytesSent := b\<rparr>"
  shows "\<exists>s'. send_rest data n t = Some s' \<and> conn_inv s' \<and> api_keeps s s' \<and> tc_state s' = tc_state s
    \<and> tc_accepted s' = tc_accepted s @ data"
proof -
  from assms(1) obtain c where c: "tc_chan s = Some c" "state_ok s c" "reactor_inv (tc_reactor s)"
    "\<not> rc_eventHandling (tc_reactor s)" "buf_inv (tc_input s)" "buf_inv (tc_output s)"
    "tc_sent s @ contents (tc_output s) = tc_accepted s" by (rule conn_invE)
  have ok: "ch_index c \<noteq> kNew" using c(2) state_ok_up [OF assms(2)] by auto
  have ord: "tc_sent s @ take n data @ contents (tc_output s) @ drop n data = tc_accepted s @ data"
  proof (cases "n = 0")
    case False
    then have "contents (tc_output s) = []"
      using assms(4) length_contents_inv [OF c(6)] by simp
    with c(7) show ?thesis by simp
  qed (use c(7) in simp)
  show ?thesis
  proof (cases "0 < length data - n")
    case False
    let ?t = "t\<lparr>tc_accepted := tc_accepted t @ data\<rparr>"
    have "state_ok ?t c"
      using c(2) assms(2,5) by (simp add: state_ok_up t connection_calls_def)
    moreover have "tc_sent ?t @ contents (tc_output ?t) = tc_accepted ?t"
      using ord False by (simp add: t)
    ultimately have "conn_inv ?t" unfolding conn_inv_def using c by (simp add: t)
    moreover have "api_keeps s ?t" using assms(2,5) by (simp add: api_keeps_def t)
    ultimately show ?thesis using False by (simp add: send_rest_def t)
  next
    case True
    obtain out where out: "Buffer_append (tc_output s) (drop n data) = Some out" "buf_inv out"
      "contents out = contents (tc_output s) @ drop n data" using append_spec [OF c(6)] by blast
    have pos: "0 < readableBytes out"
      using True length_contents_inv [OF out(2)] out(3) by simp
    have ord': "tc_sent s @ take n data @ contents out = tc_accepted s @ data" using ord out(3) by simp
    obtain h where h: "note_high_water (length data - n) t = t\<lparr>tc_queued := tc_queued t @ h\<rparr>"
      "QConnectDestroyed \<notin> set h" using note_high_water_form by blast
    define q' where "q' = q @ h"
    have q': "QConnectDestroyed \<notin> set q'" using assms(5) h(2) by (simp add: q'_def)
    define u where "u = s\<lparr>tc_queued := tc_queued s @ q', tc_answers := a, tc_sent := tc_sent s @ take n data,
      tc_bytesSent := b, tc_output := out, tc_accepted := tc_accepted s @ data\<rparr>"
    have u: "t\<lparr>tc_queued := tc_queued t @ h, tc_output := out, tc_accepted := tc_accepted t @ data\<rparr> = u"
      by (simp add: t u_def q'_def)
    have "tc_output t = tc_output s" "tc_chan u = Some c" "tc_chan t = Some c" using c(1) by (simp_all add: t u_def)
    then have fin: "send_rest data n t = (if \<not> isWriting c then on_channel enableWriting u else Some u)"
      using True out(1) u by (simp add: send_rest_def Let_def h(1))
    note inv = conn_inv_buffered [OF assms(1,2) out(2) pos q' ord', where a = a and b = b]
    show ?thesis
    proof (cases "isWriting c")
      case w: True
      have "u = s\<lparr>tc_queued := tc_queued s @ q', tc_answers := a, tc_sent := tc_sent s @ take n data,
          tc_bytesSent := b, tc_output := out, tc_accepted := tc_accepted s @ data, tc_reactor := tc_reactor s\<rparr>"
        by (simp add: u_def)
      from inv [OF c(3,4) c(1) [unfolded tc_chan_def] ok w this] fin w show ?thesis by simp
    next
      case False
      have "reactor_inv (tc_reactor u)" "tc_chan u = Some c" using c(1,3) by (simp_all add: u_def)
      from on_channel_events [OF this ok, of "\<lambda>e. e OR kWriteEvent"] obtain r c' where
        r: "on_channel enableWriting u = Some (u\<lparr>tc_reactor := r\<rparr>)" "reactor_inv r" "chan r (tc_channel s) = Some c'"
        "ch_events c' = ch_events c OR kWriteEvent" "ch_index c' \<noteq> kNew" "\<not> rc_eventHandling r"
        using c(4) by (auto simp: enableWriting_def u_def)
      have "isWriting c'" using r(4) write_mask(1) by (simp add: isWriting_def)
      from inv [OF r(2,6,3,5) this refl] r(1) fin False show ?thesis by (simp add: u_def)
    qed
  qed
qed

lemma sendInLoop_ok:
  assumes "conn_inv s" "up s"
  shows "\<exists>s'. sendInLoop data s = Some s' \<and> conn_inv s' \<and> api_keeps s s' \<and> tc_state s' = tc_state s
    \<and> (tc_accepted s' = tc_accepted s @ data \<or> tc_accepted s' = tc_accepted s)"
proof -
  from assms(1) obtain c where c: "tc_chan s = Some c" "state_ok s c" by (rule conn_invE)
  obtain n f q a b where d: "send_direct data c s = (n, f, s\<lparr>tc_queued := tc_queued s @ q, tc_answers := a,
      tc_sent := tc_sent s @ take n data, tc_bytesSent := b\<rparr>)" "n \<le> length data" "QConnectDestroyed \<notin> set q"
    "0 < n \<longrightarrow> readableBytes (tc_output s) = 0" "f \<longrightarrow> n = 0"
    using send_direct_form by blast
  let ?t = "s\<lparr>tc_queued := tc_queued s @ q, tc_answers := a, tc_sent := tc_sent s @ take n data, tc_bytesSent := b\<rparr>"
  have run: "sendInLoop data s = (if \<not> f then send_rest data n ?t else Some ?t)"
    using assms(2) c(1) d(1,2) by (auto simp: sendInLoop_def)
  show ?thesis
  proof (cases f)
    case True
    have "state_ok ?t c" using c(2) assms(2) d(3) by (simp add: state_ok_up connection_calls_def)
    then have "conn_inv ?t" using assms(1) c(1) True d(5) by (simp add: conn_inv_def)
    with run True d(3) show ?thesis by (simp add: api_keeps_def)
  next
    case False
    with run send_rest_ok [OF assms d(2,4,3) refl] show ?thesis by auto
  qed
qed

lemma reading_ok:
  assumes "conn_inv s" "up s"
    and "\<And>e. f e AND kWriteEvent = e AND kWriteEvent"
  shows "\<exists>s'. on_channel (with_events f) s = Some s' \<and> conn_inv (s'\<lparr>tc_reading := b\<rparr>)
    \<and> api_keeps s (s'\<lparr>tc_reading := b\<rparr>) \<and> tc_state s' = tc_state s \<and> tc_accepted s' = tc_accepted s"
proof -
  from assms(1) obtain c where c: "tc_chan s = Some c" "state_ok s c" "reactor_inv (tc_reactor s)"
    "\<not> rc_eventHandling (tc_reactor s)" by (rule conn_invE)
  have ok: "ch_index c \<noteq> kNew" using c(2) state_ok_up [OF assms(2)] by auto
  obtain r c' where r: "on_channel (with_events f) s = Some (s\<lparr>tc_reactor := r\<rparr>)" "reactor_inv r"
    "chan r (tc_channel s) = Some c'" "ch_events c' = f (ch_events c)" "ch_index c' \<noteq> kNew"
    "rc_eventHandling r = rc_eventHandling (tc_reactor s)"
    using on_channel_events [OF c(3,1) ok] by metis
  let ?s = "s\<lparr>tc_reactor := r, tc_reading := b\<rparr>"
  have "isWriting c' = isWriting c" using r(4) assms(3) by (simp add: isWriting_def)
  then have "state_ok ?s c'" using c(2) assms(2) r(5) by (simp add: state_ok_up connection_calls_def)
  then have "conn_inv ?s" using assms(1) r c(4) by (simp add: conn_inv_def)
  with r(1) assms(2) show ?thesis by (simp add: api_keeps_def)
qed

text \<open>A call is well placed when it does not change the reading interest of a connection that is not up.\<close>

definition api_allowed :: "TcpConnection \<Rightarrow> conn_api \<Rightarrow> bool" where
  "api_allowed s a \<longleftrightarrow> (a = ApiStartRead \<or> a = ApiStopRead) \<longrightarrow> up s"

lemma conn_inv_setState:
  assumes "conn_inv s" "up s"
  shows "conn_inv (setState kDisconnecting s)"
proof -
  from assms(1) obtain c where c: "tc_chan s = Some c" "state_ok s c" by (rule conn_invE)
  have "state_ok (setState kDisconnecting s) c"
    using c(2) assms(2) by (auto simp: state_ok_up setState_def connection_calls_def)
  then show ?thesis using assms(1) c(1) by (simp add: conn_inv_def setState_def)
qed

lemma conn_inv_frame:
  assumes "conn_inv s"
  shows "conn_inv (s\<lparr>tc_shut := b\<rparr>)" "conn_inv (s\<lparr>tc_delayed := d\<rparr>)" "conn_inv (s\<lparr>tc_reading := rd\<rparr>)"
    "conn_inv (s\<lparr>tc_bytesSent := w\<rparr>)" "conn_inv (s\<lparr>tc_bytesReceived := w\<rparr>)" "conn_inv (s\<lparr>tc_lastReceiveTime := t\<rparr>)"
    "conn_inv (s\<lparr>tc_answers := an\<rparr>)" "buf_inv i \<Longrightarrow> conn_inv (s\<lparr>tc_input := i\<rparr>)"
  using assms by (auto simp: conn_inv_def state_ok_def connection_calls_def split: StateE.splits)

lemma conn_inv_queue:
  assumes "conn_inv s" "tc_state s \<noteq> kConnecting" "f \<noteq> QConnectDestroyed"
  shows "conn_inv (queue_functor f s)"
  using assms by (auto simp: conn_inv_def queue_functor_def state_ok_def connection_calls_def split: StateE.splits)

lemma shutdownInLoop_ok:
  assumes "conn_inv s"
  shows "\<exists>b. shutdownInLoop s = Some (s\<lparr>tc_shut := b\<rparr>)"
proof -
  obtain c where "tc_chan s = Some c" using assms by (rule conn_invE)
  then show ?thesis
    by (cases "isWriting c") (auto simp: shutdownInLoop_def intro: exI [of _ "tc_shut s"] exI [of _ True])
qed

lemma api_ok:
  assumes "conn_inv s" "tc_state s \<noteq> kConnecting" "api_allowed s a"
  shows "\<exists>s'. api_do a s = Some s' \<and> conn_inv s' \<and> api_keeps s s'"
proof (cases a)
  case (ApiSend m)
  then show ?thesis
    using sendInLoop_ok [OF assms(1), of m] assms(1) by (cases "tc_state s = kConnected") (auto simp: in_loop_thread)
next
  case (ApiSendBuffer b)
  then show ?thesis
    using sendInLoop_ok [OF assms(1), of "Buffer_bytes b"] assms(1)
    by (cases "tc_state s = kConnected") (auto simp: in_loop_thread)
next
  case ApiShutdown
  show ?thesis
  proof (cases "tc_state s = kConnected")
    case True
    obtain b where "shutdownInLoop (setState kDisconnecting s) = Some ((setState kDisconnecting s)\<lparr>tc_shut := b\<rparr>)"
      using shutdownInLoop_ok conn_inv_setState [OF assms(1)] True by blast
    with True ApiShutdown conn_inv_frame(1) [OF conn_inv_setState [OF assms(1)]] show ?thesis
      by (auto simp: in_loop_thread api_keeps_def setState_def)
  qed (use ApiShutdown assms in \<open>auto simp: in_loop_thread\<close>)
next
  case ApiForceClose
  show ?thesis
  proof (cases "up s")
    case True
    have "conn_inv (queue_functor QForceClose (setState kDisconnecting s))"
      using conn_inv_setState [OF assms(1) True] by (intro conn_inv_queue) (simp_all add: setState_def)
    with True ApiForceClose show ?thesis
      by (auto simp: forceClose_def api_keeps_def setState_def queue_functor_def)
  qed (use ApiForceClose assms in \<open>auto simp: forceClose_def\<close>)
next
  case (ApiForceCloseWithDelay d)
  show ?thesis
  proof (cases "up s")
    case True
    with ApiForceCloseWithDelay conn_inv_frame(2) [OF conn_inv_setState [OF assms(1) True]] show ?thesis
      by (auto simp: forceCloseWithDelay_def api_keeps_def setState_def)
  qed (use ApiForceCloseWithDelay assms in \<open>auto simp: forceCloseWithDelay_def\<close>)
next
  case ApiStartRead
  have u: "up s" using ApiStartRead assms(3) by (simp add: api_allowed_def)
  obtain c where "tc_chan s = Some c" using assms(1) by (rule conn_invE)
  then show ?thesis
    using reading_ok [OF assms(1) u, of "\<lambda>e. e OR kReadEvent" True] write_mask(3) ApiStartRead assms(1)
    by (auto simp: in_loop_thread startReadInLoop_def enableReading_def)
next
  case ApiStopRead
  have u: "up s" using ApiStopRead assms(3) by (simp add: api_allowed_def)
  obtain c where "tc_chan s = Some c" using assms(1) by (rule conn_invE)
  then show ?thesis
    using reading_ok [OF assms(1) u, of "\<lambda>e. e AND NOT kReadEvent" False] write_mask(4) ApiStopRead assms(1)
    by (auto simp: in_loop_thread stopReadInLoop_def disableReading_def)
next
  case (ApiConsume n)
  have b: "buf_inv (tc_input s)" using assms(1) by (rule conn_invE)
  obtain i where "retrieve (tc_input s) (min n (readableBytes (tc_input s))) = Some i" "buf_inv i"
    using bq.pop_ok [OF b, of "min n (readableBytes (tc_input s))"] b by auto
  with ApiConsume conn_inv_frame(8) [OF assms(1)] show ?thesis by (auto simp: api_keeps_def)
qed

text \<open>A call from another thread changes at most the state and queues at most a functor.\<close>

lemma foreign_call_ok:
  assumes "conn_inv s" "tc_state s \<noteq> kConnecting" "\<forall>n. a \<noteq> ApiConsume n"
    "\<And>b. a = ApiSendBuffer b \<Longrightarrow> buf_wf b"
  shows "\<exists>s'. api_call False a s = Some s' \<and> conn_inv s' \<and> api_keeps s s'"
proof -
  have q: "conn_inv (queue_functor f s)" "api_keeps s (queue_functor f s)" if "f \<noteq> QConnectDestroyed" for f
    using conn_inv_queue [OF assms(1,2) that] that by (auto simp: api_keeps_def queue_functor_def)
  show ?thesis
  proof (cases a)
    case (ApiSendBuffer b)
    have "buf_wf b" using assms(4) ApiSendBuffer .
    then obtain b' where "retrieveAllAsString b = Some (Buffer_bytes b, b')"
      using retrieve_spec [of b "readableBytes b"]
      by (auto simp: retrieveAllAsString_def retrieveAsString_def Buffer_bytes_def Let_def)
    with ApiSendBuffer q [of "QSend (Buffer_bytes b)"] assms(1) show ?thesis by (auto simp: in_loop_thread)
  next
    case ApiShutdown
    show ?thesis
    proof (cases "tc_state s = kConnected")
      case True
      have "conn_inv (queue_functor QShutdown (setState kDisconnecting s))"
        using conn_inv_queue [OF conn_inv_setState [OF assms(1)]] True by (simp add: setState_def)
      with True ApiShutdown show ?thesis by (auto simp: in_loop_thread api_keeps_def setState_def queue_functor_def)
    qed (use ApiShutdown assms in \<open>simp add: in_loop_thread\<close>)
  next
    case ApiForceClose
    then show ?thesis using api_ok [OF assms(1,2), of a] by (simp add: api_allowed_def)
  next
    case (ApiForceCloseWithDelay d)
    then show ?thesis using api_ok [OF assms(1,2), of a] by (simp add: api_allowed_def)
  qed (use q assms(1,3) in \<open>auto simp: in_loop_thread\<close>)
qed

section \<open>Handlers keep the invariant\<close>

text \<open>User code that does not start or stop reading on a connection that is not up.\<close>

definition user_ok :: "(conn_event \<Rightarrow> TcpConnection \<Rightarrow> conn_api list) \<Rightarrow> bool" where
  "user_ok user \<longleftrightarrow> (\<forall>ev s. \<forall>a\<in>set (user ev s). api_allowed s a)"

lemma api_keeps_allowed: "api_keeps s s' \<Longrightarrow> api_allowed s a \<Longrightarrow> api_allowed s' a"
  by (auto simp: api_keeps_def api_allowed_def)

lemma api_keeps_up: "api_keeps s s' \<Longrightarrow> up s' \<longleftrightarrow> up s"
  by (auto simp: api_keeps_def)

lemma api_calls_ok:
  assumes "conn_inv s" "tc_state s \<noteq> kConnecting" "\<forall>a\<in>set as. api_allowed s a"
  shows "\<exists>s'. foldo api_do as s = Some s' \<and> conn_inv s' \<and> api_keeps s s'"
  using assms
proof (induction as arbitrary: s)
  case (Cons a as)
  obtain s1 where s1: "api_do a s = Some s1" "conn_inv s1" "api_keeps s s1"
    using api_ok [OF Cons.prems(1,2)] Cons.prems(3) by auto
  have "tc_state s1 \<noteq> kConnecting" using s1(3) Cons.prems(2) by (auto simp: api_keeps_def)
  moreover have "\<forall>a\<in>set as. api_allowed s1 a" using Cons.prems(3) api_keeps_allowed [OF s1(3)] by simp
  ultimately obtain s2 where "foldo api_do as s1 = Some s2" "conn_inv s2" "api_keeps s1 s2"
    using Cons.IH [OF s1(2)] by blast
  with s1 show ?case by (auto intro: api_keeps_trans)
qed simp

lemma call_user_ok:
  assumes "user_ok user" "conn_inv (s\<lparr>tc_log := tc_log s @ [ev]\<rparr>)" "tc_state s \<noteq> kConnecting"
  shows "\<exists>s'. call_user user ev s = Some s' \<and> conn_inv s' \<and> api_keeps (s\<lparr>tc_log := tc_log s @ [ev]\<rparr>) s'"
  using api_calls_ok [OF assms(2), of "user ev (s\<lparr>tc_log := tc_log s @ [ev]\<rparr>)"] assms(1,3)
  by (simp add: call_user_def user_ok_def Let_def)

lemma call_other_ok:
  assumes "user_ok user" "conn_inv s" "tc_state s \<noteq> kConnecting" "\<not> is_connection_cb ev"
  shows "\<exists>s'. call_user user ev s = Some s' \<and> conn_inv s' \<and> api_keeps (s\<lparr>tc_log := tc_log s @ [ev]\<rparr>) s'"
proof (rule call_user_ok [OF assms(1)])
  have "connection_calls (s\<lparr>tc_log := tc_log s @ [ev]\<rparr>) = connection_calls s"
    using assms(4) by (simp add: connection_calls_def)
  then have "state_ok (s\<lparr>tc_log := tc_log s @ [ev]\<rparr>) c = state_ok s c" for c
    by (cases "tc_state s") (simp_all add: state_ok_def)
  then show "conn_inv (s\<lparr>tc_log := tc_log s @ [ev]\<rparr>)"
    using assms(2) by (simp add: conn_inv_def)
qed (use assms in simp)

text \<open>Going down: the state, the mask and the callback.\<close>

lemma go_down_ok:
  assumes "user_ok user" "conn_inv s" "up s"
  shows "\<exists>s1 s'. on_channel disableAll (setState kDisconnected s) = Some s1 \<and> tc_state s1 = kDisconnected
    \<and> call_user user (ConnectionCb kDisconnected) s1 = Some s' \<and> conn_inv s' \<and> tc_state s' = kDisconnected
    \<and> (\<exists>c. tc_chan s' = Some c \<and> ch_index c \<noteq> kNew) \<and> QConnectDestroyed \<notin> set (tc_queued s')"
proof -
  from assms(2) obtain c where c: "tc_chan s = Some c" "state_ok s c" "reactor_inv (tc_reactor s)"
    "\<not> rc_eventHandling (tc_reactor s)" by (rule conn_invE)
  have ok: "ch_index c \<noteq> kNew" "connection_calls s = [ConnectionCb kConnected]" "QConnectDestroyed \<notin> set (tc_queued s)"
    using c(2) state_ok_up [OF assms(3)] by auto
  let ?s = "setState kDisconnected s"
  have "reactor_inv (tc_reactor ?s)" "tc_chan ?s = Some c" using c by (simp_all add: setState_def)
  from on_channel_events [OF this ok(1), of "\<lambda>e. kNoneEvent"] obtain r c' where
    r: "on_channel disableAll ?s = Some (?s\<lparr>tc_reactor := r\<rparr>)" "reactor_inv r" "chan r (tc_channel s) = Some c'"
    "ch_events c' = kNoneEvent" "ch_index c' \<noteq> kNew" "\<not> rc_eventHandling r"
    using c(4) by (auto simp: disableAll_def setState_def)
  let ?s1 = "?s\<lparr>tc_reactor := r\<rparr>"
  let ?s2 = "?s1\<lparr>tc_log := tc_log ?s1 @ [ConnectionCb kDisconnected]\<rparr>"
  have "state_ok ?s2 c'"
    using ok r(4) by (simp add: state_ok_def setState_def connection_calls_def count_list_0_iff)
  then have "conn_inv ?s2" using assms(2) r by (simp add: conn_inv_def setState_def)
  from call_user_ok [OF assms(1) this] obtain s' where
    s': "call_user user (ConnectionCb kDisconnected) ?s1 = Some s'" "conn_inv s'" "api_keeps ?s2 s'"
    by (auto simp: setState_def)
  have "tc_state s' = kDisconnected" "tc_reactor s' = r" "tc_channel s' = tc_channel s" "QConnectDestroyed \<notin> set (tc_queued s')"
    using s'(3) ok(3) by (auto simp: api_keeps_def setState_def)
  with r s' show ?thesis by (auto simp: setState_def tc_chan_def)
qed

lemma conn_handleClose_ok:
  assumes "user_ok user" "conn_inv s" "up s"
  shows "\<exists>s'. TcpConnection_handleClose user s = Some s' \<and> conn_inv s' \<and> tc_state s' = kDisconnected"
proof -
  obtain s1 s2 c where s: "on_channel disableAll (setState kDisconnected s) = Some s1" "tc_state s1 = kDisconnected"
    "call_user user (ConnectionCb kDisconnected) s1 = Some s2" "conn_inv s2" "tc_state s2 = kDisconnected"
    "tc_chan s2 = Some c" "ch_index c \<noteq> kNew" "QConnectDestroyed \<notin> set (tc_queued s2)"
    using go_down_ok [OF assms] by blast
  let ?s3 = "queue_functor QConnectDestroyed s2"
  have "conn_inv ?s3"
    using s(4,5,6,7,8) by (auto simp: conn_inv_def queue_functor_def state_ok_def connection_calls_def count_list_0_iff)
  from call_other_ok [OF assms(1) this, of CloseCb] obtain s4 where
    s4: "call_user user CloseCb ?s3 = Some s4" "conn_inv s4" "tc_state s4 = kDisconnected"
    using s(5) by (auto simp: queue_functor_def api_keeps_def)
  then show ?thesis using assms(3) s by (simp add: TcpConnection_handleClose_def)
qed

lemma remove_channel_ok:
  assumes "conn_inv s" "tc_state s = kDisconnected" "tc_chan s = Some c" "ch_index c \<noteq> kNew"
    "QConnectDestroyed \<notin> set (tc_queued s)"
  shows "\<exists>s'. on_channel Channel_remove s = Some s' \<and> conn_inv s' \<and> tc_state s' = kDisconnected"
proof -
  from assms(1) have inv: "reactor_inv (tc_reactor s)" "\<not> rc_eventHandling (tc_reactor s)" "state_ok s c"
    using assms(3) by (auto elim: conn_invE)
  have "isNoneEvent c" using inv(3) assms(2) by (simp add: state_ok_def isNoneEvent_def)
  with remove_ok [OF inv(1) assms(3) [unfolded tc_chan_def]] inv(2) assms(4) obtain r where
    r: "Channel_remove (tc_channel s) (tc_reactor s) = Some r" "reactor_inv r" "\<not> rc_eventHandling r"
    "chan r (tc_channel s) = Some (c\<lparr>ch_addedToLoop := False, ch_index := kNew\<rparr>)"
    by (auto simp: fun_upd_def)
  have "state_ok (s\<lparr>tc_reactor := r\<rparr>) (c\<lparr>ch_addedToLoop := False, ch_index := kNew\<rparr>)"
    using inv(3) assms(2,5) by (simp add: state_ok_def connection_calls_def count_list_0_iff)
  then have "conn_inv (s\<lparr>tc_reactor := r\<rparr>)" using assms(1) r by (simp add: conn_inv_def)
  with r(1) assms(2) show ?thesis by (simp add: on_channel_def)
qed

lemma connectDestroyed_ok:
  assumes "user_ok user" "conn_inv s"
    and "tc_state s = kConnected \<or> tc_state s = kDisconnected \<and> QConnectDestroyed \<notin> set (tc_queued s)
      \<and> (\<exists>c. tc_chan s = Some c \<and> ch_index c \<noteq> kNew)"
  shows "\<exists>s'. connectDestroyed user s = Some s' \<and> conn_inv s' \<and> tc_state s' = kDisconnected"
proof (cases "tc_state s = kConnected")
  case True
  then obtain s1 s2 c where s: "on_channel disableAll (setState kDisconnected s) = Some s1" "tc_state s1 = kDisconnected"
    "call_user user (ConnectionCb kDisconnected) s1 = Some s2" "conn_inv s2" "tc_state s2 = kDisconnected"
    "tc_chan s2 = Some c" "ch_index c \<noteq> kNew" "QConnectDestroyed \<notin> set (tc_queued s2)"
    using go_down_ok [OF assms(1,2)] by blast
  with True remove_channel_ok [OF s(4-8)] show ?thesis by (simp add: connectDestroyed_def)
next
  case False
  with assms remove_channel_ok [OF assms(2)] show ?thesis by (auto simp: connectDestroyed_def)
qed

lemma new_connection_ok:
  assumes "reactor_inv r" "\<not> rc_eventHandling r" "chan r ch = None" "map_find (rc_channels r) sockfd = None"
  shows "conn_inv (TcpConnection_new ch sockfd now r)" "tc_state (TcpConnection_new ch sockfd now r) = kConnecting"
proof -
  let ?s = "TcpConnection_new ch sockfd now r"
  have "tc_chan ?s = Some (Channel_new sockfd)" by (simp add: TcpConnection_new_def tc_chan_def)
  moreover have "readableBytes (Buffer_new kInitalSize) = 0" by (simp add: Buffer_new_def readableBytes_def)
  then have "state_ok ?s (Channel_new sockfd)"
    using assms(4) by (simp add: state_ok_def TcpConnection_new_def Channel_new_def connection_calls_def kNew_def kNoneEvent_def)
  ultimately show "conn_inv ?s" using new_inv [OF assms(1,3)] assms(2) unfolding conn_inv_def
    by (simp add: TcpConnection_new_def)
  show "tc_state ?s = kConnecting" by (simp add: TcpConnection_new_def)
qed

lemma connectEstablished_start:
  assumes "conn_inv s" "tc_state s = kConnecting"
  obtains s1 where "connectEstablished user s = call_user user (ConnectionCb kConnected) s1"
    "conn_inv (s1\<lparr>tc_log := tc_log s1 @ [ConnectionCb kConnected]\<rparr>)" "tc_state s1 = kConnected" "tc_shut s1 = tc_shut s"
    "tc_output s1 = tc_output s" "tc_queued s1 = tc_queued s"
proof -
  from assms(1) obtain c where c: "tc_chan s = Some c" "state_ok s c" "reactor_inv (tc_reactor s)"
    "\<not> rc_eventHandling (tc_reactor s)" by (rule conn_invE)
  have ok: "ch_index c = kNew" "ch_events c = kNoneEvent" "map_find (rc_channels (tc_reactor s)) (ch_fd c) = None"
    "readableBytes (tc_output s) = 0" "connection_calls s = []" "tc_queued s = []"
    using c(2) assms(2) by (simp_all add: state_ok_def)
  let ?c = "c\<lparr>ch_tie := Some True\<rparr>" and ?a = "tc_channel s"
  let ?r = "set_chan ?a ?c (tc_reactor s)"
  have inv: "reactor_inv ?r" using set_chan_inv [OF c(3) c(1) [unfolded tc_chan_def]] by simp
  have "\<not> (ch_index ?c = kNew \<and> map_find (rc_channels ?r) (ch_fd ?c) \<noteq> None)" using ok(3) by simp
  with with_events_cases [OF inv, of ?a ?c "\<lambda>e. e OR kReadEvent"] obtain r i where
    r: "with_events (\<lambda>e. e OR kReadEvent) ?a ?r = Some r" "reactor_inv r" "rc_eventHandling r = rc_eventHandling ?r"
      "chan r = (chan ?r)(?a \<mapsto> ?c\<lparr>ch_events := ch_events ?c OR kReadEvent, ch_addedToLoop := True, ch_index := i\<rparr>)"
      "i = kAdded \<or> i = kDeleted"
    by (simp only: if_False chan_set_chan simp_thms if_True) blast
  define c' where "c' = ?c\<lparr>ch_events := ch_events ?c OR kReadEvent, ch_addedToLoop := True, ch_index := i\<rparr>"
  have c': "chan r ?a = Some c'" "ch_index c' \<noteq> kNew" using r(4,5) by (auto simp: c'_def)
  have "ch_events c' AND kWriteEvent = ch_events c AND kWriteEvent" by (simp add: c'_def write_mask(3))
  then have w: "\<not> isWriting c'" using ok(2) by (simp add: isWriting_def kNoneEvent_def)
  define s1 where "s1 = s\<lparr>tc_state := kConnected, tc_reactor := r\<rparr>"
  let ?s2 = "s1\<lparr>tc_log := tc_log s1 @ [ConnectionCb kConnected]\<rparr>"
  have "state_ok ?s2 c'" using ok c' w by (simp add: state_ok_def s1_def connection_calls_def)
  then have "conn_inv ?s2" using assms(1) r c' c(4) by (simp add: conn_inv_def s1_def)
  moreover have "connectEstablished user s = call_user user (ConnectionCb kConnected) s1"
    using assms(2) c(1) r(1)
    by (simp add: connectEstablished_def setState_def on_channel_def Channel_tie_def enableReading_def s1_def tc_chan_def)
  ultimately show ?thesis using that [of s1] by (simp add: s1_def)
qed

lemma connectEstablished_ok:
  assumes "user_ok user" "conn_inv s" "tc_state s = kConnecting"
  shows "\<exists>s'. connectEstablished user s = Some s' \<and> conn_inv s' \<and> up s'"
proof -
  obtain s1 where s1: "connectEstablished user s = call_user user (ConnectionCb kConnected) s1"
    "conn_inv (s1\<lparr>tc_log := tc_log s1 @ [ConnectionCb kConnected]\<rparr>)" "tc_state s1 = kConnected"
    using connectEstablished_start [OF assms(2,3)] by metis
  with call_user_ok [OF assms(1) s1(2)] show ?thesis by (auto simp: api_keeps_def)
qed

lemma conn_handleRead_ok:
  assumes "user_ok user" "conn_inv s" "tc_state s \<noteq> kConnecting" "up s \<or> answer \<noteq> ReadBytes []"
  shows "\<exists>s'. TcpConnection_handleRead user answer t s = Some s' \<and> conn_inv s' \<and> tc_state s' \<noteq> kConnecting"
proof (cases answer)
  case (ReadErr e)
  with conn_inv_frame(8) [OF assms(2)] assms show ?thesis
    by (auto simp: TcpConnection_handleRead_def readFd_def TcpConnection_handleError_def)
next
  case (ReadBytes pending)
  have b: "buf_inv (tc_input s)" using assms(2) by (rule conn_invE)
  obtain b' where b': "readFd (tc_input s) (ReadBytes pending) = Some (b', int (length (take (readv_room (tc_input s)) pending)), 0)"
    "buf_inv b'" "contents b' = contents (tc_input s) @ take (readv_room (tc_input s)) pending"
    using readFd_spec [OF b, of pending] by (auto simp: readv_room_def)
  have i: "conn_inv (s\<lparr>tc_input := b'\<rparr>)" using conn_inv_frame(8) [OF assms(2) b'(2)] .
  show ?thesis
  proof (cases "pending = []")
    case True
    with assms(4) ReadBytes have "up (s\<lparr>tc_input := b'\<rparr>)" by auto
    from conn_handleClose_ok [OF assms(1) i this] show ?thesis
      using ReadBytes True b'(1) by (auto simp: TcpConnection_handleRead_def)
  next
    case False
    have "extraBuf_size \<le> readv_room (tc_input s)" by (simp add: readv_room_def)
    then have "0 < length (take (readv_room (tc_input s)) pending)" using False by (simp add: extraBuf_size_def)
    then have n: "0 < int (length (take (readv_room (tc_input s)) pending))" by linarith
    let ?s = "s\<lparr>tc_input := b', tc_bytesReceived := tc_bytesReceived s + word_of_int (int (length (take (readv_room (tc_input s)) pending))),
      tc_lastReceiveTime := t\<rparr>"
    have "conn_inv ?s" using conn_inv_frame(5,6) i by blast
    from call_other_ok [OF assms(1) this, of "MessageCb (Buffer_bytes b')"] assms(3) obtain s' where
      "call_user user (MessageCb (Buffer_bytes b')) ?s = Some s'" "conn_inv s'"
      "api_keeps (?s\<lparr>tc_log := tc_log ?s @ [MessageCb (Buffer_bytes b')]\<rparr>) s'" by auto
    moreover have "tc_state s' \<noteq> kConnecting" using calculation(3) assms(3) by (auto simp: api_keeps_def)
    ultimately show ?thesis
      using ReadBytes b'(1) n by (simp add: TcpConnection_handleRead_def)
  qed
qed

text \<open>What a successful write of \<open>n\<close> buffered bytes leaves: still watching when bytes remain, otherwise the
  write interest is dropped and a pending shutdown is carried out.\<close>

lemma write_progress:
  assumes "conn_inv s" "up s" "tc_chan s = Some c" "isWriting c" "0 < n" "n \<le> readableBytes (tc_output s)"
    and out: "retrieve (tc_output s) n = Some out" "buf_inv out" "contents out = drop n (contents (tc_output s))"
    and t: "t = s\<lparr>tc_answers := a, tc_sent := tc_sent s @ take n (contents (tc_output s)), tc_output := out\<rparr>"
  shows "readableBytes out \<noteq> 0 \<Longrightarrow> conn_inv t"
    and "readableBytes out = 0 \<Longrightarrow> \<exists>r c'. on_channel disableWriting t = Some (t\<lparr>tc_reactor := r\<rparr>)
      \<and> conn_inv (t\<lparr>tc_reactor := r\<rparr>) \<and> tc_chan (t\<lparr>tc_reactor := r\<rparr>) = Some c' \<and> \<not> isWriting c'"
proof -
  from assms(1,3) have c: "state_ok s c" "reactor_inv (tc_reactor s)" "\<not> rc_eventHandling (tc_reactor s)"
    "buf_inv (tc_input s)" "buf_inv (tc_output s)" "tc_sent s @ contents (tc_output s) = tc_accepted s"
    by (auto elim: conn_invE)
  have ok: "ch_index c \<noteq> kNew" "connection_calls s = [ConnectionCb kConnected]" "QConnectDestroyed \<notin> set (tc_queued s)"
    using c(1) state_ok_up [OF assms(2)] by auto
  have ord: "tc_sent t @ contents (tc_output t) = tc_accepted t" using c(6) out(3) by (simp add: t)
  show "conn_inv t" if "readableBytes out \<noteq> 0"
  proof -
    have "state_ok t c" using ok assms(2,4) that by (simp add: state_ok_up t connection_calls_def)
    then show ?thesis using c out ord assms(3) unfolding conn_inv_def by (simp add: t)
  qed
  show "\<exists>r c'. on_channel disableWriting t = Some (t\<lparr>tc_reactor := r\<rparr>)
      \<and> conn_inv (t\<lparr>tc_reactor := r\<rparr>) \<and> tc_chan (t\<lparr>tc_reactor := r\<rparr>) = Some c' \<and> \<not> isWriting c'"
    if empty: "readableBytes out = 0"
  proof -
    have "reactor_inv (tc_reactor t)" "tc_chan t = Some c" using c assms(3) by (simp_all add: t)
    from on_channel_events [OF this ok(1), of "\<lambda>e. e AND NOT kWriteEvent"] obtain r c' where
      r: "on_channel disableWriting t = Some (t\<lparr>tc_reactor := r\<rparr>)" "reactor_inv r" "chan r (tc_channel t) = Some c'"
      "ch_events c' = ch_events c AND NOT kWriteEvent" "ch_index c' \<noteq> kNew" "\<not> rc_eventHandling r"
      using c(3) by (auto simp: disableWriting_def t)
    have w: "\<not> isWriting c'" using r(4) write_mask(2) by (simp add: isWriting_def)
    then have "state_ok (t\<lparr>tc_reactor := r\<rparr>) c'"
      using ok r(5) empty assms(2) by (simp add: state_ok_up t connection_calls_def)
    then have "conn_inv (t\<lparr>tc_reactor := r\<rparr>)" using c out ord r unfolding conn_inv_def by (simp add: t)
    with r w show ?thesis by (auto simp: t)
  qed
qed

lemma conn_handleWrite_ok:
  assumes "conn_inv s" "tc_state s \<noteq> kConnecting"
  shows "\<exists>s'. TcpConnection_handleWrite s = Some s' \<and> conn_inv s' \<and> tc_state s' = tc_state s"
proof -
  from assms(1) obtain c where c: "tc_chan s = Some c" "state_ok s c" "buf_inv (tc_output s)" by (rule conn_invE)
  show ?thesis
  proof (cases "isWriting c")
    case False
    with c(1) assms show ?thesis by (auto simp: TcpConnection_handleWrite_def)
  next
    case True
    have u: "up s" using c(2) True assms(2) isWriting_none [of c] by (cases "tc_state s") (auto simp: state_ok_def)
    have str: "Buffer_bytes (tc_output s) = contents (tc_output s)" using c(3) by (simp add: Buffer_bytes_contents buf_inv_wf)
    consider "tc_shut s \<or> tc_answers s = []" | w ws where "\<not> tc_shut s" "tc_answers s = w # ws"
      by (cases "tc_answers s") auto
    then show ?thesis
    proof cases
      case 1
      with c(1) True assms show ?thesis by (auto simp: TcpConnection_handleWrite_def sockets_write_def)
    next
      case Cons: 2
      show ?thesis
      proof (cases w)
        case (WriteErr e)
        with Cons c(1) True conn_inv_frame(7) [OF assms(1)] show ?thesis
          by (auto simp: TcpConnection_handleWrite_def sockets_write_def)
      next
        case (WriteOk k)
        define n where "n = min k (readableBytes (tc_output s))"
        define t where "t = s\<lparr>tc_answers := ws, tc_sent := tc_sent s @ take n (contents (tc_output s))\<rparr>"
        have sw: "sockets_write (contents (tc_output s)) s = (int n, 0, t)"
          using Cons WriteOk c(3) by (simp add: sockets_write_def Let_def n_def t_def)
        show ?thesis
        proof (cases "0 < n")
          case False
          then have "t = s\<lparr>tc_answers := ws\<rparr>" by (simp add: t_def)
          then show ?thesis
            using False c(1) True sw str conn_inv_frame(7) [OF assms(1)] by (simp add: TcpConnection_handleWrite_def)
        next
          case pos: True
          have nl: "n \<le> readableBytes (tc_output s)" by (simp add: n_def)
          obtain out where out: "retrieve (tc_output s) n = Some out" "buf_inv out" "contents out = drop n (contents (tc_output s))"
            using bq.pop_ok [OF c(3), of n] nl c(3) by auto
          define t1 where "t1 = t\<lparr>tc_output := out\<rparr>"
          have t1: "t1 = s\<lparr>tc_answers := ws, tc_sent := tc_sent s @ take n (contents (tc_output s)), tc_output := out\<rparr>"
            by (simp add: t1_def t_def)
          note prog = write_progress [OF assms(1) u c(1) True pos nl out t1]
          show ?thesis
          proof (cases "readableBytes out = 0")
            case False
            with prog(1) c(1) True sw str pos out(1) show ?thesis
              by (simp add: TcpConnection_handleWrite_def t_def t1_def)
          next
            case empty: True
            obtain r c' where r: "on_channel disableWriting t1 = Some (t1\<lparr>tc_reactor := r\<rparr>)"
              "conn_inv (t1\<lparr>tc_reactor := r\<rparr>)" using prog(2) empty by blast
            define t2 where "t2 = (if tc_hasWriteComplete (t1\<lparr>tc_reactor := r\<rparr>)
              then queue_functor QWriteComplete (t1\<lparr>tc_reactor := r, tc_bytesSent := tc_bytesSent t1 + word_of_nat n\<rparr>)
              else t1\<lparr>tc_reactor := r\<rparr>)"
            have st: "tc_state t2 = tc_state s" by (simp add: t2_def queue_functor_def t1)
            have "conn_inv t2"
              using r(2) conn_inv_queue [OF conn_inv_frame(4) [OF r(2)]] assms(2) by (simp add: t2_def t1)
            moreover obtain b where "shutdownInLoop t2 = Some (t2\<lparr>tc_shut := b\<rparr>)"
              using shutdownInLoop_ok [OF calculation] by blast
            moreover have "TcpConnection_handleWrite s = (if tc_state t2 = kDisconnecting then shutdownInLoop t2 else Some t2)"
              using c(1) True sw str pos out(1) empty r(1)
              by (simp add: TcpConnection_handleWrite_def t_def t1_def t2_def)
            ultimately show ?thesis using conn_inv_frame(1) st by auto
          qed
        qed
      qed
    qed
  qed
qed

section \<open>Events and runs\<close>

text \<open>A hang-up that is reported without readability: the channel then runs the close handler, and after it the read
  handler too, because its mask for reading contains the hang-up bit.\<close>

definition lone_hup :: "event_mask \<Rightarrow> bool" where
  "lone_hup revents \<longleftrightarrow> revents AND EPOLLHUP \<noteq> 0 \<and> revents AND EPOLLIN = 0"

lemma conn_handleEvent_ok:
  assumes "user_ok user" "conn_inv s" "up s" "\<not> (lone_hup revents \<and> answer = ReadBytes [])"
  shows "\<exists>s'. conn_handleEvent user revents answer t s = Some s' \<and> conn_inv s' \<and> tc_state s' \<noteq> kConnecting"
proof -
  obtain s0 where s0: "(if lone_hup revents then TcpConnection_handleClose user s else Some s) = Some s0"
    "conn_inv s0" "tc_state s0 \<noteq> kConnecting" "up s0 \<or> answer \<noteq> ReadBytes []"
    using conn_handleClose_ok [OF assms(1-3)] assms(2-4) that by (cases "lone_hup revents") auto
  obtain s1 where s1: "(if revents AND (EPOLLIN OR EPOLLPRI OR EPOLLHUP) \<noteq> 0
      then TcpConnection_handleRead user answer t s0 else Some s0) = Some s1" "conn_inv s1" "tc_state s1 \<noteq> kConnecting"
    using conn_handleRead_ok [OF assms(1) s0(2,3,4), of t] s0(2,3) that
    by (cases "revents AND (EPOLLIN OR EPOLLPRI OR EPOLLHUP) \<noteq> 0") auto
  obtain s2 where s2: "(if revents AND EPOLLOUT \<noteq> 0 then TcpConnection_handleWrite s1 else Some s1) = Some s2"
    "conn_inv s2" "tc_state s2 = tc_state s1"
    using conn_handleWrite_ok [OF s1(2,3)] s1(2) by (cases "revents AND EPOLLOUT \<noteq> 0") auto
  have "conn_handleEvent user revents answer t s = Some s2"
    using s0(1) s1(1) s2(1) unfolding conn_handleEvent_def lone_hup_def TcpConnection_handleError_def by auto
  with s2 s1(3) show ?thesis by auto
qed

text \<open>A lone hang-up of a peer whose end of file is waiting stops the process: the read handler's end of file closes the
  connection a second time and fails the state assertion.\<close>

lemma conn_handleEvent_stops:
  assumes "user_ok user" "conn_inv s" "up s" "lone_hup revents"
  shows "conn_handleEvent user revents (ReadBytes []) t s = None"
proof -
  obtain s1 where s1: "TcpConnection_handleClose user s = Some s1" "conn_inv s1" "tc_state s1 = kDisconnected"
    using conn_handleClose_ok [OF assms(1-3)] by blast
  have "buf_inv (tc_input s1)" using s1(2) by (rule conn_invE)
  then obtain b where "readFd (tc_input s1) (ReadBytes []) = Some (b, 0, 0)"
    using readFd_spec [of "tc_input s1" "[]"] by auto
  then have "TcpConnection_handleRead user (ReadBytes []) t s1 = None"
    using s1(3) by (simp add: TcpConnection_handleRead_def TcpConnection_handleClose_def)
  moreover have "revents AND (EPOLLIN OR EPOLLPRI OR EPOLLHUP) \<noteq> 0"
    using assms(4) by (auto simp: lone_hup_def bit.conj_disj_distrib or_eq_0_iff)
  ultimately show ?thesis
    using s1(1) assms(4) by (simp add: conn_handleEvent_def lone_hup_def TcpConnection_handleError_def)
qed

text \<open>Destroying a connection that is shutting down (as the server's destructor does) stops the process: only the
  connected state clears the channel's mask, and the channel may not be removed while it watches for anything.\<close>

lemma destroyed_while_disconnecting_stops:
  assumes "tc_state s = kDisconnecting" "tc_chan s = Some c" "\<not> isNoneEvent c"
  shows "connectDestroyed user s = None"
  using assms by (simp add: connectDestroyed_def on_channel_def Channel_remove_def tc_chan_def)

lemma forceClose_ok:
  assumes "conn_inv s" "tc_state s \<noteq> kConnecting"
  shows "\<exists>s'. forceClose s = Some s' \<and> conn_inv s' \<and> tc_state s' \<noteq> kConnecting"
  using api_ok [OF assms, of ApiForceClose] assms(2) by (auto simp: api_allowed_def api_keeps_def)

lemma conn_inv_pop:
  assumes "conn_inv s" "tc_queued s = f # fs"
  shows "conn_inv (s\<lparr>tc_queued := fs\<rparr>)"
    and "f = QConnectDestroyed \<Longrightarrow> tc_state s = kDisconnected \<and> QConnectDestroyed \<notin> set fs
      \<and> (\<exists>c. tc_chan s = Some c \<and> ch_index c \<noteq> kNew)"
proof -
  from assms(1) obtain c where c: "tc_chan s = Some c" "state_ok s c" by (rule conn_invE)
  have "state_ok (s\<lparr>tc_queued := fs\<rparr>) c"
    using c(2) assms(2) by (cases "tc_state s"; cases "f = QConnectDestroyed") (auto simp: state_ok_def connection_calls_def)
  then show "conn_inv (s\<lparr>tc_queued := fs\<rparr>)" using assms(1) c(1) by (simp add: conn_inv_def)
  show "tc_state s = kDisconnected \<and> QConnectDestroyed \<notin> set fs \<and> (\<exists>c. tc_chan s = Some c \<and> ch_index c \<noteq> kNew)"
    if "f = QConnectDestroyed"
    using c assms(2) that by (cases "tc_state s") (auto simp: state_ok_def count_list_0_iff)
qed

definition queue_allowed :: "TcpConnection \<Rightarrow> bool" where
  "queue_allowed s \<longleftrightarrow> (case tc_queued s of f # fs \<Rightarrow> f = QStartRead \<or> f = QStopRead \<longrightarrow> up s | [] \<Rightarrow> True)"

lemma run_queued_ok:
  assumes "user_ok user" "conn_inv s" "tc_state s \<noteq> kConnecting" "queue_allowed s"
  shows "\<exists>s'. run_queued user s = Some s' \<and> conn_inv s' \<and> tc_state s' \<noteq> kConnecting"
proof (cases "tc_queued s")
  case (Cons f fs)
  define t where "t = s\<lparr>tc_queued := fs\<rparr>"
  have t: "conn_inv t" "tc_state t = tc_state s" "tc_chan t = tc_chan s" "tc_queued t = fs"
    using conn_inv_pop(1) [OF assms(2) Cons] by (simp_all add: t_def)
  have other: "\<exists>s'. call_user user ev t = Some s' \<and> conn_inv s' \<and> tc_state s' \<noteq> kConnecting" if "\<not> is_connection_cb ev" for ev
    using call_other_ok [OF assms(1) t(1) _ that] t(2) assms(3) by (auto simp: api_keeps_def)
  show ?thesis
  proof (cases f)
    case QForceClose
    then show ?thesis using conn_handleClose_ok [OF assms(1) t(1)] t Cons assms(3)
      by (cases "up t") (auto simp: run_queued_def forceCloseInLoop_def t_def [symmetric])
  next
    case QConnectDestroyed
    then show ?thesis using connectDestroyed_ok [OF assms(1) t(1)] conn_inv_pop(2) [OF assms(2) Cons] t Cons
      by (auto simp: run_queued_def t_def [symmetric])
  next
    case (QSend m)
    then show ?thesis using sendInLoop_ok [OF t(1), of m] t Cons assms(3)
      by (cases "tc_state t") (auto simp: run_queued_def sendInLoop_def t_def [symmetric])
  next
    case QShutdown
    then show ?thesis using shutdownInLoop_ok [OF t(1)] conn_inv_frame(1) [OF t(1)] t(2) Cons assms(3)
      by (auto simp: run_queued_def t_def [symmetric])
  next
    case QStartRead
    then have "api_allowed t ApiStartRead" using assms(4) Cons t(2) by (simp add: api_allowed_def queue_allowed_def)
    with api_ok [OF t(1)] t(2) Cons QStartRead assms(3) show ?thesis
      by (fastforce simp: run_queued_def in_loop_thread api_keeps_def t_def [symmetric])
  next
    case QStopRead
    then have "api_allowed t ApiStopRead" using assms(4) Cons t(2) by (simp add: api_allowed_def queue_allowed_def)
    with api_ok [OF t(1)] t(2) Cons QStopRead assms(3) show ?thesis
      by (fastforce simp: run_queued_def in_loop_thread api_keeps_def t_def [symmetric])
  qed (use other Cons in \<open>simp_all add: run_queued_def t_def [symmetric]\<close>)
qed (use assms in \<open>simp add: run_queued_def\<close>)

lemma delay_fires_ok:
  assumes "conn_inv s" "tc_state s \<noteq> kConnecting"
  shows "\<exists>s'. delay_fires s = Some s' \<and> conn_inv s' \<and> tc_state s' \<noteq> kConnecting"
proof (cases "tc_delayed s")
  case (Cons d ds)
  with forceClose_ok [OF conn_inv_frame(2) [OF assms(1), of ds]] assms(2) show ?thesis by (simp add: delay_fires_def)
qed (use assms in \<open>simp add: delay_fires_def\<close>)

text \<open>What may happen to a connection: the owner establishes it, the poller reports events, the loop runs its
  queued functors and timers, the user calls it in the loop thread or from another thread, the server's destructor
  destroys it, and the kernel settles how it will answer the next writes.\<close>

datatype conn_op =
    Establish | Event event_mask read_result Timestamp | RunQueued | DelayFires | Call conn_api | OtherThread conn_api
  | ServerDestroys | KernelWill "write_answer list" | SetWriteComplete bool | SetHighWater bool nat

fun conn_do :: "(conn_event \<Rightarrow> TcpConnection \<Rightarrow> conn_api list) \<Rightarrow> conn_op \<Rightarrow> TcpConnection \<Rightarrow> TcpConnection option" where
  "conn_do user Establish s = connectEstablished user s"
| "conn_do user (Event revents answer t) s = conn_handleEvent user revents answer t s"
| "conn_do user RunQueued s = run_queued user s"
| "conn_do user DelayFires s = delay_fires s"
| "conn_do user (Call a) s = api_do a s"
| "conn_do user (OtherThread a) s = api_call False a s"
| "conn_do user ServerDestroys s = connectDestroyed user s"
| "conn_do user (KernelWill an) s = Some (s\<lparr>tc_answers := an\<rparr>)"
| "conn_do user (SetWriteComplete b) s = Some (s\<lparr>tc_hasWriteComplete := b\<rparr>)"
| "conn_do user (SetHighWater b n) s = Some (s\<lparr>tc_hasHighWater := b, tc_highWaterMark := n\<rparr>)"

text \<open>When these things happen: establishing happens once and first; events are only reported for a channel that
  watches for them, so never after the connection went down; another thread has the connection once it is
  established, leaves the input buffer to the loop thread and calls in one step; the reading interest of a connection
  that is down is left alone, also by functors queued before; and the server's destructor finds the connection up
  and watching for something.\<close>

fun op_allowed :: "conn_op \<Rightarrow> TcpConnection \<Rightarrow> bool" where
  "op_allowed Establish s \<longleftrightarrow> tc_state s = kConnecting"
| "op_allowed (Event revents answer t) s \<longleftrightarrow> up s"
| "op_allowed (Call a) s \<longleftrightarrow> tc_state s \<noteq> kConnecting \<and> api_allowed s a"
| "op_allowed (OtherThread a) s \<longleftrightarrow> tc_state s \<noteq> kConnecting
     \<and> (case a of ApiConsume n \<Rightarrow> False | ApiSendBuffer b \<Rightarrow> buf_wf b | _ \<Rightarrow> True)"
| "op_allowed ServerDestroys s \<longleftrightarrow> tc_state s = kConnected
     \<or> tc_state s = kDisconnecting \<and> (case tc_chan s of None \<Rightarrow> False | Some c \<Rightarrow> \<not> isNoneEvent c)"
| "op_allowed RunQueued s \<longleftrightarrow> tc_state s \<noteq> kConnecting \<and> queue_allowed s"
| "op_allowed DelayFires s \<longleftrightarrow> tc_state s \<noteq> kConnecting"
| "op_allowed _ s \<longleftrightarrow> True"

text \<open>Those that stop the process: a lone hang-up whose read finds the end of file, and the server's destructor on a
  connection that is shutting down.\<close>

fun op_stops :: "conn_op \<Rightarrow> TcpConnection \<Rightarrow> bool" where
  "op_stops (Event revents answer t) s \<longleftrightarrow> lone_hup revents \<and> answer = ReadBytes []"
| "op_stops ServerDestroys s \<longleftrightarrow> tc_state s = kDisconnecting"
| "op_stops _ s \<longleftrightarrow> False"

inductive conn_reachable :: "(conn_event \<Rightarrow> TcpConnection \<Rightarrow> conn_api list) \<Rightarrow> TcpConnection \<Rightarrow> bool"
  for user where
  created: "reactor_inv r \<Longrightarrow> \<not> rc_eventHandling r \<Longrightarrow> chan r ch = None \<Longrightarrow> map_find (rc_channels r) sockfd = None
    \<Longrightarrow> conn_reachable user (TcpConnection_new ch sockfd now r)"
| happens: "conn_reachable user s \<Longrightarrow> op_allowed x s \<Longrightarrow> conn_do user x s = Some s' \<Longrightarrow> conn_reachable user s'"

lemma conn_inv_callbacks:
  assumes "conn_inv s"
  shows "conn_inv (s\<lparr>tc_hasWriteComplete := b\<rparr>)" "conn_inv (s\<lparr>tc_hasHighWater := b, tc_highWaterMark := n\<rparr>)"
  using assms by (auto simp: conn_inv_def state_ok_def connection_calls_def tc_chan_def split: StateE.splits)

lemma conn_do_stops:
  assumes "user_ok user" "conn_inv s" "op_allowed x s" "op_stops x s"
  shows "conn_do user x s = None"
  using assms(3,4) conn_handleEvent_stops [OF assms(1,2)] destroyed_while_disconnecting_stops
  by (cases x) (auto split: option.splits)

lemma conn_do_ok:
  assumes "user_ok user" "conn_inv s" "op_allowed x s" "\<not> op_stops x s"
  shows "\<exists>s'. conn_do user x s = Some s' \<and> conn_inv s'"
proof (cases x)
  case Establish
  then show ?thesis using connectEstablished_ok [OF assms(1,2)] assms(3) by auto
next
  case (Event revents answer t)
  then show ?thesis using conn_handleEvent_ok [OF assms(1,2), of revents answer t] assms(3,4) by auto
next
  case RunQueued
  then show ?thesis using run_queued_ok [OF assms(1,2)] assms(3) by auto
next
  case DelayFires
  then show ?thesis using delay_fires_ok [OF assms(2)] assms(3) by auto
next
  case (Call a)
  then show ?thesis using api_ok [OF assms(2)] assms(3) by fastforce
next
  case (OtherThread a)
  then show ?thesis using foreign_call_ok [OF assms(2), of a] assms(3) by (auto split: conn_api.splits)
next
  case ServerDestroys
  then show ?thesis using connectDestroyed_ok [OF assms(1,2)] assms(3,4) by auto
qed (use conn_inv_frame(7) conn_inv_callbacks assms(2) in simp_all)

lemma conn_reachable_inv:
  assumes "user_ok user" "conn_reachable user s"
  shows "conn_inv s"
  using assms(2)
proof (induction rule: conn_reachable.induct)
  case (created r ch sockfd now)
  then show ?case by (rule new_connection_ok(1))
next
  case (happens s x s')
  then show ?case using conn_do_ok [OF assms(1), of s x] conn_do_stops [OF assms(1), of s x] by (cases "op_stops x s") auto
qed

section \<open>Graceful shutdown\<close>

text \<open>The write side is only shut once nothing is left to write, as long as the connection is up; a functor of
  \<^verbatim>\<open>shutdown\<close> waits only while the connection is no longer connected.\<close>

definition shut_ok :: "TcpConnection \<Rightarrow> bool" where
  "shut_ok s \<longleftrightarrow>
     (tc_state s = kConnecting \<or> tc_state s = kConnected \<longrightarrow> \<not> tc_shut s)
     \<and> (tc_state s = kConnected \<longrightarrow> QShutdown \<notin> set (tc_queued s))
     \<and> (tc_state s = kDisconnecting \<and> tc_shut s \<longrightarrow> readableBytes (tc_output s) = 0)"

lemma shut_ok_down [simp]: "tc_state s = kDisconnected \<Longrightarrow> shut_ok s"
  by (simp add: shut_ok_def)

lemma on_channel_keeps:
  "on_channel f s = Some s' \<Longrightarrow> tc_shut s' = tc_shut s \<and> tc_output s' = tc_output s \<and> tc_state s' = tc_state s
    \<and> tc_queued s' = tc_queued s \<and> tc_sent s' = tc_sent s \<and> tc_accepted s' = tc_accepted s"
  by (auto simp: on_channel_def split: Option.bind_splits)

lemma on_channel_shut: "on_channel f s = Some s' \<Longrightarrow> shut_ok s' = shut_ok s"
  by (drule on_channel_keeps) (simp add: shut_ok_def)

lemma note_high_water_shut:
  "tc_shut (note_high_water k s) = tc_shut s" "tc_state (note_high_water k s) = tc_state s"
  "QShutdown \<in> set (tc_queued (note_high_water k s)) \<longleftrightarrow> QShutdown \<in> set (tc_queued s)"
  by (simp_all add: note_high_water_def queue_functor_def Let_def)

lemma send_direct_shut:
  assumes "send_direct data c s = (n, f, s')"
  shows "tc_shut s' = tc_shut s \<and> tc_state s' = tc_state s \<and> tc_output s' = tc_output s
    \<and> (QShutdown \<in> set (tc_queued s') \<longleftrightarrow> QShutdown \<in> set (tc_queued s))"
  using assms by (auto simp: send_direct_def sockets_write_def queue_functor_def Let_def
      split: if_splits list.splits write_answer.splits)

lemma send_rest_shut:
  assumes "send_rest data n s = Some s'"
  shows "tc_shut s' = tc_shut s \<and> tc_state s' = tc_state s
    \<and> (QShutdown \<in> set (tc_queued s') \<longleftrightarrow> QShutdown \<in> set (tc_queued s))"
  using assms note_high_water_shut [of "length data - n" s]
  by (auto simp: send_rest_def Let_def dest!: on_channel_keeps split: Option.bind_splits if_splits)

lemma sendInLoop_keeps:
  assumes "sendInLoop data s = Some s'"
  shows "tc_shut s' = tc_shut s \<and> tc_state s' = tc_state s
    \<and> (QShutdown \<in> set (tc_queued s') \<longleftrightarrow> QShutdown \<in> set (tc_queued s))"
  using assms
  by (auto simp: sendInLoop_def Let_def dest!: send_direct_shut send_rest_shut
      split: Option.bind_splits if_splits prod.splits)

text \<open>What is sent after the write side was shut fails with \<^verbatim>\<open>EPIPE\<close> and is dropped.\<close>

lemma sendInLoop_after_shut:
  assumes "conn_inv s" "up s" "tc_shut s" "readableBytes (tc_output s) = 0"
  shows "sendInLoop data s = Some s"
proof -
  obtain c where c: "tc_chan s = Some c" "state_ok s c" using assms(1) by (rule conn_invE)
  then have "\<not> isWriting c" using state_ok_up [OF assms(2)] assms(4) by auto
  then have "send_direct data c s = (0, True, s)"
    using assms(3,4) by (simp add: send_direct_def sockets_write_def EPIPE_def EWOULDBLOCK_def)
  with c(1) assms(2) show ?thesis by (auto simp: sendInLoop_def)
qed

lemma sendInLoop_shut:
  assumes "conn_inv s" "tc_state s \<noteq> kConnecting" "shut_ok s" "sendInLoop data s = Some s'"
  shows "shut_ok s'"
proof (cases "tc_state s = kDisconnecting \<and> tc_shut s")
  case True
  then have "sendInLoop data s = Some s" using assms(1,3) by (intro sendInLoop_after_shut) (auto simp: shut_ok_def)
  with assms show ?thesis by simp
next
  case False
  with assms(2,3) sendInLoop_keeps [OF assms(4)] show ?thesis by (auto simp: shut_ok_def split: StateE.splits)
qed

lemma shutdownInLoop_shut:
  assumes "conn_inv s" "tc_state s = kDisconnecting \<or> tc_state s = kDisconnected" "shut_ok s" "shutdownInLoop s = Some s'"
  shows "shut_ok s'"
proof -
  obtain c where c: "tc_chan s = Some c" "state_ok s c" using assms(1) by (rule conn_invE)
  then have "tc_state s = kDisconnecting \<Longrightarrow> \<not> isWriting c \<Longrightarrow> readableBytes (tc_output s) = 0" by (simp add: state_ok_def)
  with c(1) assms show ?thesis by (auto simp: shutdownInLoop_def shut_ok_def split: if_splits)
qed

lemma closing_shut:
  assumes "shut_ok s" "up s"
  shows "shut_ok (setState kDisconnecting s)"
  using assms by (auto simp: shut_ok_def setState_def)

lemma forceClose_shut: "shut_ok s \<Longrightarrow> forceClose s = Some s' \<Longrightarrow> shut_ok s'"
  using closing_shut [of s] by (auto simp: forceClose_def shut_ok_def queue_functor_def setState_def split: if_splits)

lemma forceCloseWithDelay_shut: "shut_ok s \<Longrightarrow> forceCloseWithDelay d s = Some s' \<Longrightarrow> shut_ok s'"
  using closing_shut [of s] by (auto simp: forceCloseWithDelay_def shut_ok_def setState_def split: if_splits)

lemma startRead_shut: "shut_ok s \<Longrightarrow> startReadInLoop s = Some s' \<Longrightarrow> shut_ok s'"
  by (auto simp: startReadInLoop_def shut_ok_def dest!: on_channel_keeps split: Option.bind_splits if_splits)

lemma stopRead_shut: "shut_ok s \<Longrightarrow> stopReadInLoop s = Some s' \<Longrightarrow> shut_ok s'"
  by (auto simp: stopReadInLoop_def shut_ok_def dest!: on_channel_keeps split: Option.bind_splits if_splits)

lemma api_shut:
  assumes "conn_inv s" "tc_state s \<noteq> kConnecting" "shut_ok s" "api_do a s = Some s'"
  shows "shut_ok s'"
proof (cases a)
  case (ApiSend m)
  with assms show ?thesis by (auto simp: in_loop_thread intro: sendInLoop_shut split: if_splits)
next
  case (ApiSendBuffer b)
  with assms show ?thesis
    by (auto simp: in_loop_thread intro: sendInLoop_shut split: if_splits Option.bind_splits)
next
  case ApiShutdown
  show ?thesis
  proof (cases "tc_state s = kConnected")
    case True
    then have "shutdownInLoop (setState kDisconnecting s) = Some s'" using ApiShutdown assms(4) by (simp add: in_loop_thread)
    with True show ?thesis
      by (intro shutdownInLoop_shut [OF conn_inv_setState [OF assms(1)] _ closing_shut [OF assms(3)]]) (auto simp: setState_def)
  qed (use ApiShutdown assms in \<open>simp add: in_loop_thread\<close>)
next
  case ApiStartRead
  with assms show ?thesis by (auto simp: in_loop_thread intro: startRead_shut)
next
  case ApiStopRead
  with assms show ?thesis by (auto simp: in_loop_thread intro: stopRead_shut)
next
  case (ApiConsume n)
  with assms show ?thesis by (auto simp: shut_ok_def)
qed (use assms in \<open>auto intro: forceClose_shut forceCloseWithDelay_shut\<close>)

lemma foreign_call_shut:
  assumes "conn_inv s" "tc_state s \<noteq> kConnecting" "shut_ok s" "api_call False a s = Some s'"
  shows "shut_ok s'"
proof -
  have q: "shut_ok (queue_functor f s)" if "f \<noteq> QShutdown" for f
    using that assms(3) by (simp add: shut_ok_def queue_functor_def split: StateE.splits)
  show ?thesis
  proof (cases a)
    case ApiShutdown
    with assms show ?thesis
      by (auto simp: in_loop_thread setState_def queue_functor_def shut_ok_def split: if_splits)
  next
    case (ApiForceClose)
    with assms show ?thesis by (auto intro: forceClose_shut)
  next
    case (ApiForceCloseWithDelay d)
    with assms show ?thesis by (auto intro: forceCloseWithDelay_shut)
  next
    case (ApiConsume n)
    with assms show ?thesis by (auto simp: shut_ok_def)
  qed (use q assms in \<open>auto simp: in_loop_thread split: if_splits Option.bind_splits\<close>)
qed

lemma api_calls_shut:
  assumes "conn_inv s" "tc_state s \<noteq> kConnecting" "\<forall>a\<in>set as. api_allowed s a" "shut_ok s" "foldo api_do as s = Some s'"
  shows "shut_ok s'"
  using assms
proof (induction as arbitrary: s)
  case (Cons a as)
  obtain s1 where s1: "api_do a s = Some s1" "conn_inv s1" "api_keeps s s1"
    using api_ok [OF Cons.prems(1,2)] Cons.prems(3) by auto
  have "tc_state s1 \<noteq> kConnecting" using s1(3) Cons.prems(2) by (auto simp: api_keeps_def)
  moreover have "\<forall>a\<in>set as. api_allowed s1 a" using Cons.prems(3) api_keeps_allowed [OF s1(3)] by simp
  moreover have "shut_ok s1" using api_shut [OF Cons.prems(1,2,4) s1(1)] .
  ultimately show ?case using Cons.IH [OF s1(2)] Cons.prems(5) s1(1) by simp
qed simp

lemma write_done_shut:
  assumes "(if tc_state s = kDisconnecting then shutdownInLoop s else Some s) = Some s'"
  shows "tc_state s' = tc_state s \<and> tc_queued s' = tc_queued s \<and> tc_output s' = tc_output s
    \<and> (tc_shut s' \<longrightarrow> tc_shut s \<or> tc_state s = kDisconnecting)"
  using assms by (auto simp: shutdownInLoop_def split: if_splits Option.bind_splits)

lemma handleWrite_keeps:
  assumes "TcpConnection_handleWrite s = Some s'"
  shows "tc_state s' = tc_state s \<and> (QShutdown \<in> set (tc_queued s') \<longleftrightarrow> QShutdown \<in> set (tc_queued s))
    \<and> (tc_shut s' \<longrightarrow> tc_shut s \<or> tc_state s = kDisconnecting \<and> readableBytes (tc_output s') = 0)"
proof -
  from assms obtain c where c: "tc_chan s = Some c" by (auto simp: TcpConnection_handleWrite_def split: Option.bind_splits)
  obtain n e t where w: "sockets_write (Buffer_bytes (tc_output s)) s = (n, e, t)"
    "tc_state t = tc_state s" "tc_queued t = tc_queued s" "tc_shut t = tc_shut s"
  proof -
    obtain n e t where w: "sockets_write (Buffer_bytes (tc_output s)) s = (n, e, t)" by (cases "sockets_write (Buffer_bytes (tc_output s)) s")
    then have "tc_state t = tc_state s \<and> tc_queued t = tc_queued s \<and> tc_shut t = tc_shut s"
      by (auto simp: sockets_write_def Let_def split: if_splits list.splits write_answer.splits)
    with w that show ?thesis by blast
  qed
  show ?thesis
  proof (cases "isWriting c \<and> n > 0")
    case False
    then show ?thesis using assms c w by (auto simp: TcpConnection_handleWrite_def split: if_splits)
  next
    case True
    with assms c w obtain out where out: "retrieve (tc_output t) (nat n) = Some out"
      by (auto simp: TcpConnection_handleWrite_def split: Option.bind_splits)
    show ?thesis
    proof (cases "readableBytes out = 0")
      case False
      with True assms c w out show ?thesis by (auto simp: TcpConnection_handleWrite_def)
    next
      case empty: True
      with True assms c w out obtain t1 where t1: "on_channel disableWriting (t\<lparr>tc_output := out\<rparr>) = Some t1"
        by (auto simp: TcpConnection_handleWrite_def split: Option.bind_splits)
      define t2 where "t2 = (if tc_hasWriteComplete t1
        then queue_functor QWriteComplete (t1\<lparr>tc_bytesSent := tc_bytesSent t1 + word_of_nat (nat n)\<rparr>) else t1)"
      have t2: "tc_state t2 = tc_state s" "QShutdown \<in> set (tc_queued t2) \<longleftrightarrow> QShutdown \<in> set (tc_queued s)"
        "tc_shut t2 = tc_shut s" "tc_output t2 = out"
        using on_channel_keeps [OF t1] w by (simp_all add: t2_def queue_functor_def)
      have "(if tc_state t2 = kDisconnecting then shutdownInLoop t2 else Some t2) = Some s'"
        using True assms c w(1) out empty t1
        by (cases "tc_hasWriteComplete t1") (auto simp: TcpConnection_handleWrite_def t2_def Let_def split: if_splits)
      from write_done_shut [OF this] t2 empty show ?thesis by auto
    qed
  qed
qed

lemma handleWrite_shut:
  assumes "conn_inv s" "tc_state s \<noteq> kConnecting" "shut_ok s" "TcpConnection_handleWrite s = Some s'"
  shows "shut_ok s'"
proof -
  obtain c where c: "tc_chan s = Some c" "state_ok s c" using assms(1) by (rule conn_invE)
  show ?thesis
  proof (cases "isWriting c")
    case False
    with c(1) assms(3,4) show ?thesis by (simp add: TcpConnection_handleWrite_def)
  next
    case w: True
    then have "\<not> tc_shut s"
      using c(2) assms(2,3) isWriting_none [of c] by (cases "tc_state s") (auto simp: state_ok_def shut_ok_def)
    with handleWrite_keeps [OF assms(4)] assms(3) show ?thesis by (auto simp: shut_ok_def)
  qed
qed

lemma call_user_shut:
  assumes "user_ok user" "conn_inv (s\<lparr>tc_log := tc_log s @ [ev]\<rparr>)" "tc_state s \<noteq> kConnecting" "shut_ok s"
    "call_user user ev s = Some s'"
  shows "shut_ok s'"
proof (rule api_calls_shut [OF assms(2)])
  show "\<forall>a\<in>set (user ev (s\<lparr>tc_log := tc_log s @ [ev]\<rparr>)). api_allowed (s\<lparr>tc_log := tc_log s @ [ev]\<rparr>) a"
    using assms(1) unfolding user_ok_def by blast
  show "foldo api_do (user ev (s\<lparr>tc_log := tc_log s @ [ev]\<rparr>)) (s\<lparr>tc_log := tc_log s @ [ev]\<rparr>) = Some s'"
    using assms(5) by (simp only: call_user_def Let_def)
qed (use assms(3,4) in \<open>simp_all add: shut_ok_def\<close>)

lemma handleRead_shut:
  assumes "user_ok user" "conn_inv s" "tc_state s \<noteq> kConnecting" "shut_ok s" "up s \<or> answer \<noteq> ReadBytes []"
    "TcpConnection_handleRead user answer t s = Some s'"
  shows "shut_ok s'"
proof -
  from assms(6) obtain b n e where b: "readFd (tc_input s) answer = Some (b, n, e)"
    by (auto simp: TcpConnection_handleRead_def split: Option.bind_splits)
  have "buf_inv (tc_input s)" using assms(2) by (rule conn_invE)
  then have "buf_inv b"
  proof (cases answer)
    case (ReadBytes pending)
    then show ?thesis using readFd_spec [OF \<open>buf_inv (tc_input s)\<close>, of pending] b by auto
  qed (use b \<open>buf_inv (tc_input s)\<close> in \<open>simp add: readFd_def\<close>)
  then have i: "conn_inv (s\<lparr>tc_input := b\<rparr>)" using conn_inv_frame(8) [OF assms(2)] by simp
  define m where "m = MessageCb (Buffer_bytes b)"
  define u where "u = s\<lparr>tc_input := b, tc_bytesReceived := tc_bytesReceived s + word_of_int n, tc_lastReceiveTime := t\<rparr>"
  have u: "conn_inv u" "tc_state u = tc_state s" "shut_ok u"
    using conn_inv_frame(6) [OF conn_inv_frame(5) [OF i]] assms(4) by (simp_all add: u_def shut_ok_def)
  have "conn_inv (u\<lparr>tc_log := tc_log u @ [m]\<rparr>)"
    using u(1) by (auto simp: conn_inv_def state_ok_def connection_calls_def m_def split: StateE.splits)
  from call_user_shut [OF assms(1) this _ u(3)] u(2) assms(3)
  have msg: "call_user user m u = Some s' \<Longrightarrow> shut_ok s'" by simp
  have close: "TcpConnection_handleClose user (s\<lparr>tc_input := b\<rparr>) = Some s' \<Longrightarrow> shut_ok s'"
    using conn_handleClose_ok [OF assms(1) i] by (cases "up s") (auto simp: TcpConnection_handleClose_def)
  have "shut_ok (s\<lparr>tc_input := b\<rparr>)" using assms(4) by (simp add: shut_ok_def)
  with msg close show ?thesis
    using assms(6) b
    by (auto simp: TcpConnection_handleRead_def TcpConnection_handleError_def m_def u_def Let_def split: if_splits)
qed

lemma conn_handleEvent_shut:
  assumes "user_ok user" "conn_inv s" "up s" "\<not> (lone_hup revents \<and> answer = ReadBytes [])" "shut_ok s"
    "conn_handleEvent user revents answer t s = Some s'"
  shows "shut_ok s'"
proof -
  obtain s0 where s0: "(if lone_hup revents then TcpConnection_handleClose user s else Some s) = Some s0"
    "conn_inv s0" "tc_state s0 \<noteq> kConnecting" "up s0 \<or> answer \<noteq> ReadBytes []" "shut_ok s0"
    using conn_handleClose_ok [OF assms(1-3)] assms(2-5) that by (cases "lone_hup revents") auto
  obtain s1 where s1: "(if revents AND (EPOLLIN OR EPOLLPRI OR EPOLLHUP) \<noteq> 0
      then TcpConnection_handleRead user answer t s0 else Some s0) = Some s1"
    "conn_inv s1" "tc_state s1 \<noteq> kConnecting" "shut_ok s1"
  proof (cases "revents AND (EPOLLIN OR EPOLLPRI OR EPOLLHUP) \<noteq> 0")
    case True
    obtain s1 where "TcpConnection_handleRead user answer t s0 = Some s1" "conn_inv s1" "tc_state s1 \<noteq> kConnecting"
      using conn_handleRead_ok [OF assms(1) s0(2,3,4)] by blast
    with handleRead_shut [OF assms(1) s0(2,3,5,4)] True that show ?thesis by simp
  qed (use s0 that in simp)
  have "(if revents AND EPOLLOUT \<noteq> 0 then TcpConnection_handleWrite s1 else Some s1) = Some s'"
    using s0(1) s1(1) assms(6) unfolding conn_handleEvent_def lone_hup_def TcpConnection_handleError_def
    by (auto split: if_splits)
  then show ?thesis using handleWrite_shut [OF s1(2,3,4)] s1(4) by (auto split: if_splits)
qed

lemma run_queued_shut:
  assumes "user_ok user" "conn_inv s" "tc_state s \<noteq> kConnecting" "shut_ok s" "run_queued user s = Some s'"
  shows "shut_ok s'"
proof (cases "tc_queued s")
  case (Cons f fs)
  define t where "t = s\<lparr>tc_queued := fs\<rparr>"
  have t: "conn_inv t" "tc_state t = tc_state s" "shut_ok t" "tc_state t \<noteq> kConnecting"
    using conn_inv_pop(1) [OF assms(2) Cons] assms(3,4) Cons by (simp_all add: t_def shut_ok_def split: StateE.splits)
  have log: "conn_inv (t\<lparr>tc_log := tc_log t @ [ev]\<rparr>)" if "\<not> is_connection_cb ev" for ev
    using t(1) that by (auto simp: conn_inv_def state_ok_def connection_calls_def split: StateE.splits)
  have other: "call_user user ev t = Some s' \<Longrightarrow> shut_ok s'" if "\<not> is_connection_cb ev" for ev
    using call_user_shut [OF assms(1) log [OF that] _ t(3)] t(2) assms(3) by simp
  show ?thesis
  proof (cases f)
    case QForceClose
    then show ?thesis using conn_handleClose_ok [OF assms(1) t(1)] t(2,3) Cons assms(5)
      by (auto simp: run_queued_def forceCloseInLoop_def t_def [symmetric] split: if_splits)
  next
    case QConnectDestroyed
    then show ?thesis using connectDestroyed_ok [OF assms(1) t(1)] conn_inv_pop(2) [OF assms(2) Cons] t Cons assms(5)
      by (auto simp: run_queued_def t_def [symmetric]) (auto simp: t_def)
  next
    case (QSend m)
    then show ?thesis using sendInLoop_shut [OF t(1,4,3)] Cons assms(5) by (simp add: run_queued_def t_def [symmetric])
  next
    case QShutdown
    then have "tc_state t = kDisconnecting \<or> tc_state t = kDisconnected"
      using assms(3,4) Cons t(2) by (cases "tc_state s") (auto simp: shut_ok_def)
    then show ?thesis using shutdownInLoop_shut [OF t(1) _ t(3)] Cons assms(5) QShutdown
      by (simp add: run_queued_def t_def [symmetric])
  next
    case QStartRead
    then show ?thesis using startRead_shut [OF t(3)] Cons assms(5) by (simp add: run_queued_def t_def [symmetric])
  next
    case QStopRead
    then show ?thesis using stopRead_shut [OF t(3)] Cons assms(5) by (simp add: run_queued_def t_def [symmetric])
  qed (use other [of WriteCompleteCb] other [of "HighWaterCb n" for n] Cons assms(5) in
      \<open>auto simp: run_queued_def t_def [symmetric]\<close>)
qed (use assms in \<open>simp add: run_queued_def\<close>)

lemma connectEstablished_shut:
  assumes "user_ok user" "conn_inv s" "shut_ok s" "connectEstablished user s = Some s'"
  shows "shut_ok s'"
proof -
  have st: "tc_state s = kConnecting" using assms(4) by (auto simp: connectEstablished_def split: Option.bind_splits if_splits)
  then have no: "\<not> tc_shut s" "tc_queued s = []" using assms(2,3) by (auto simp: shut_ok_def state_ok_def elim!: conn_invE)
  obtain s1 where s1: "connectEstablished user s = call_user user (ConnectionCb kConnected) s1"
    "conn_inv (s1\<lparr>tc_log := tc_log s1 @ [ConnectionCb kConnected]\<rparr>)" "tc_state s1 = kConnected" "tc_shut s1 = tc_shut s"
    "tc_queued s1 = tc_queued s"
    using connectEstablished_start [OF assms(2) st] by metis
  then show ?thesis using call_user_shut [OF assms(1) s1(2), of s'] no assms(4) by (simp add: shut_ok_def)
qed

lemma conn_do_shut:
  assumes "user_ok user" "conn_inv s" "shut_ok s" "op_allowed x s" "conn_do user x s = Some s'"
  shows "shut_ok s'"
proof (cases x)
  case Establish
  then show ?thesis using connectEstablished_shut [OF assms(1,2,3)] assms(5) by simp
next
  case (Event revents answer t)
  then have "\<not> (lone_hup revents \<and> answer = ReadBytes [])" using conn_do_stops [OF assms(1,2,4)] assms(5) by fastforce
  then show ?thesis using conn_handleEvent_shut [OF assms(1,2)] assms(3,4,5) Event by fastforce
next
  case RunQueued
  then show ?thesis using run_queued_shut [OF assms(1,2)] assms by simp
next
  case DelayFires
  then show ?thesis using assms forceClose_shut [of "s\<lparr>tc_delayed := ds\<rparr>" s' for ds]
    by (auto simp: delay_fires_def shut_ok_def split: list.splits)
next
  case (Call a)
  then show ?thesis using api_shut [OF assms(2)] assms by simp
next
  case (OtherThread a)
  then show ?thesis using foreign_call_shut [OF assms(2)] assms by simp
next
  case ServerDestroys
  then have "tc_state s = kConnected" using conn_do_stops [OF assms(1,2,4)] assms(4,5) by auto
  then show ?thesis using connectDestroyed_ok [OF assms(1,2)] assms(5) ServerDestroys by auto
qed (use assms in \<open>auto simp: shut_ok_def\<close>)

lemma conn_reachable_shut:
  assumes "user_ok user" "conn_reachable user s"
  shows "shut_ok s"
  using assms(2)
proof (induction rule: conn_reachable.induct)
  case (created r ch sockfd now)
  then show ?case by (simp add: TcpConnection_new_def shut_ok_def)
next
  case (happens s x s')
  then show ?case using conn_do_shut [OF assms(1) conn_reachable_inv [OF assms(1)]] by blast
qed

section \<open>Properties\<close>


text \<open>For the witnesses: a connection on an empty poller whose user answers every message with three bytes and then
  shuts it down.\<close>

definition demo_user :: "conn_event \<Rightarrow> TcpConnection \<Rightarrow> conn_api list" where
  "demo_user ev s = (case ev of MessageCb m \<Rightarrow> [ApiConsume (length m), ApiSend ''abc'', ApiShutdown] | _ \<Rightarrow> [])"

definition demo_conn :: TcpConnection where
  "demo_conn = TcpConnection_new 1 7 0 EpollPoller_new"

lemma demo_user_ok: "user_ok demo_user"
  by (auto simp: user_ok_def demo_user_def api_allowed_def split: conn_event.splits)

lemma demo_conn_reachable: "conn_reachable demo_user demo_conn"
  unfolding demo_conn_def
proof (rule conn_reachable.created)
  show "reactor_inv EpollPoller_new" by simp
qed (simp_all add: EpollPoller_new_def chan_def)

lemma demo_established:
  obtains s where "conn_reachable demo_user s" "tc_state s = kConnected" "readableBytes (tc_output s) = 0"
    "tc_queued s = []"
proof -
  have st: "tc_state demo_conn = kConnecting" by (simp add: demo_conn_def TcpConnection_new_def)
  have out: "readableBytes (tc_output demo_conn) = 0"
    by (simp add: demo_conn_def TcpConnection_new_def Buffer_new_def readableBytes_def)
  obtain s1 where s1: "connectEstablished demo_user demo_conn = call_user demo_user (ConnectionCb kConnected) s1"
    "tc_state s1 = kConnected" "tc_output s1 = tc_output demo_conn" "tc_queued s1 = tc_queued demo_conn"
    using connectEstablished_start [OF conn_reachable_inv [OF demo_user_ok demo_conn_reachable] st] by metis
  define s where "s = s1\<lparr>tc_log := tc_log s1 @ [ConnectionCb kConnected]\<rparr>"
  have "call_user demo_user (ConnectionCb kConnected) s1 = Some s"
    by (simp add: call_user_def demo_user_def s_def)
  then have "conn_reachable demo_user s"
    using conn_reachable.happens [OF demo_conn_reachable, of Establish s] st s1(1) by simp
  moreover have "tc_queued demo_conn = []" by (simp add: demo_conn_def TcpConnection_new_def)
  ultimately show ?thesis using that [of s] s1 out by (simp add: s_def)
qed

lemma demo_shut_down:
  obtains s where "conn_reachable demo_user s" "tc_shut s" "up s"
proof -
  obtain s where s: "conn_reachable demo_user s" "tc_state s = kConnected" "readableBytes (tc_output s) = 0"
    by (rule demo_established)
  obtain c where c: "tc_chan s = Some c" "state_ok s c"
    using conn_reachable_inv [OF demo_user_ok s(1)] by (rule conn_invE)
  have "\<not> isWriting c" using c(2) s(2,3) by (simp add: state_ok_def)
  then have "conn_do demo_user (Call ApiShutdown) s = Some ((setState kDisconnecting s)\<lparr>tc_shut := True\<rparr>)"
    using c(1) s(2) by (simp add: in_loop_thread shutdownInLoop_def setState_def)
  moreover have "op_allowed (Call ApiShutdown) s" using s(2) by (simp add: api_allowed_def)
  ultimately have "conn_reachable demo_user ((setState kDisconnecting s)\<lparr>tc_shut := True\<rparr>)"
    using conn_reachable.happens [OF s(1)] by blast
  then show ?thesis using that by (simp add: setState_def)
qed






text \<open>The write handler drains the output buffer in one go: the connection watches no longer for writability, and a
  shutdown that was waiting for this is carried out.\<close>

lemma handleWrite_drains:
  assumes "conn_inv s" "tc_state s = kDisconnecting" "0 < readableBytes (tc_output s)" "\<not> tc_shut s"
    "tc_answers s = WriteOk n # ws" "readableBytes (tc_output s) \<le> n" "\<not> tc_hasWriteComplete s"
  obtains s' where "TcpConnection_handleWrite s = Some s'" "conn_inv s'" "tc_state s' = kDisconnecting" "tc_shut s'"
    "tc_queued s' = tc_queued s" "tc_sent s' = tc_sent s @ contents (tc_output s)" "tc_accepted s' = tc_accepted s"
    "readableBytes (tc_output s') = 0"
proof -
  from assms(1) obtain c where c: "tc_chan s = Some c" "state_ok s c" "buf_inv (tc_output s)" by (rule conn_invE)
  have w: "isWriting c" using c(2) assms(2,3) by (simp add: state_ok_def)
  have str: "Buffer_bytes (tc_output s) = contents (tc_output s)" using c(3) by (simp add: Buffer_bytes_contents buf_inv_wf)
  let ?k = "readableBytes (tc_output s)"
  define t where "t = s\<lparr>tc_answers := ws, tc_sent := tc_sent s @ contents (tc_output s)\<rparr>"
  have sw: "sockets_write (contents (tc_output s)) s = (int ?k, 0, t)"
    using assms(4,5,6) c(3) by (simp add: sockets_write_def Let_def t_def)
  obtain out where out: "retrieve (tc_output s) ?k = Some out" "buf_inv out" "contents out = drop ?k (contents (tc_output s))"
    using bq.pop_ok [OF c(3), of ?k] c(3) by auto
  have empty: "readableBytes out = 0" using length_contents_inv [OF out(2)] out(3) c(3) by simp
  define t1 where "t1 = t\<lparr>tc_output := out\<rparr>"
  have t1: "t1 = s\<lparr>tc_answers := ws, tc_sent := tc_sent s @ take ?k (contents (tc_output s)), tc_output := out\<rparr>"
    using c(3) by (simp add: t1_def t_def)
  obtain r c' where r: "on_channel disableWriting t1 = Some (t1\<lparr>tc_reactor := r\<rparr>)"
    "conn_inv (t1\<lparr>tc_reactor := r\<rparr>)" "tc_chan (t1\<lparr>tc_reactor := r\<rparr>) = Some c'" "\<not> isWriting c'"
    using write_progress(2) [OF assms(1) _ c(1) w assms(3) order_refl out t1 empty] assms(2) by blast
  let ?s = "t1\<lparr>tc_reactor := r, tc_shut := True\<rparr>"
  have "TcpConnection_handleWrite s = Some ?s"
    using c(1) w sw str assms(2,3,7) out(1) empty r
    by (simp add: TcpConnection_handleWrite_def shutdownInLoop_def t_def t1_def)
  with that [of ?s] conn_inv_frame(1) [OF r(2)] assms(2) empty show ?thesis by (simp add: t1_def t_def)
qed

lemma output_event: "conn_handleEvent user EPOLLOUT answer t s = TcpConnection_handleWrite s"
  by (simp add: conn_handleEvent_def epoll_defs)

text \<open>C23. A message can be lost although the thread that sends it shuts the connection down only afterwards. Another thread
  calls \<^verbatim>\<open>send\<close> and then \<^verbatim>\<open>shutdown\<close> on a connection that still has bytes to write: the message waits as a functor while the
  state is already \<^verbatim>\<open>kDisconnecting\<close>; when the kernel takes the waiting bytes first, the write handler shuts the write side,
  and the functor that runs next finds it shut and drops the message.\<close>

theorem foreign_send_lost:
  assumes "user_ok user" "conn_reachable user s" "tc_state s = kConnected" "tc_queued s = []"
    "0 < readableBytes (tc_output s)" "readableBytes (tc_output s) \<le> n" "\<not> tc_hasWriteComplete s"
  shows "\<exists>s'. foldo (conn_do user) [OtherThread (ApiSend m), OtherThread ApiShutdown, KernelWill [WriteOk n],
        Event EPOLLOUT answer t, RunQueued] s = Some s'
    \<and> tc_shut s' \<and> tc_queued s' = [QShutdown] \<and> tc_sent s' = tc_accepted s \<and> contents (tc_output s') = []"
proof -
  have inv: "conn_inv s" "shut_ok s" using conn_reachable_inv [OF assms(1,2)] conn_reachable_shut [OF assms(1,2)] .
  then have shut: "\<not> tc_shut s" using assms(3) by (simp add: shut_ok_def)
  define u where "u = s\<lparr>tc_state := kDisconnecting, tc_queued := [QSend m, QShutdown], tc_answers := [WriteOk n]\<rparr>"
  have calls: "foldo (conn_do user) [OtherThread (ApiSend m), OtherThread ApiShutdown, KernelWill [WriteOk n]] s = Some u"
    using assms(3,4) by (simp add: in_loop_thread queue_functor_def setState_def u_def)
  have "conn_inv u"
    using inv(1) assms(3) by (auto simp: u_def conn_inv_def state_ok_def connection_calls_def)
  moreover have "tc_state u = kDisconnecting" "0 < readableBytes (tc_output u)" "\<not> tc_shut u"
    "tc_answers u = WriteOk n # []" "readableBytes (tc_output u) \<le> n" "\<not> tc_hasWriteComplete u"
    using assms shut by (simp_all add: u_def)
  ultimately obtain v where v: "TcpConnection_handleWrite u = Some v" "conn_inv v" "tc_state v = kDisconnecting" "tc_shut v"
    "tc_queued v = [QSend m, QShutdown]" "tc_sent v = tc_sent s @ contents (tc_output s)" "readableBytes (tc_output v) = 0"
    by (rule handleWrite_drains) (simp add: u_def)
  let ?w = "v\<lparr>tc_queued := [QShutdown]\<rparr>"
  have "sendInLoop m ?w = Some ?w"
    using sendInLoop_after_shut [OF conn_inv_pop(1) [OF v(2,5)]] v by simp
  then have "run_queued user v = Some ?w" using v(5) by (simp add: run_queued_def)
  moreover have "tc_sent v = tc_accepted s" "buf_inv (tc_output v)"
    using inv(1) v(2,6) by (auto elim!: conn_invE)
  moreover have "contents (tc_output v) = []" using v(7) length_contents_inv [OF \<open>buf_inv (tc_output v)\<close>] by simp
  moreover have "foldo (conn_do user) ([OtherThread (ApiSend m), OtherThread ApiShutdown, KernelWill [WriteOk n]]
      @ [Event EPOLLOUT answer t, RunQueued]) s = run_queued user v"
    unfolding foldo_append calls using v(1) by (simp add: output_event split: option.splits)
  ultimately show ?thesis using v(4) by auto
qed

lemma demo_waiting:
  obtains s where "conn_reachable demo_user s" "tc_state s = kConnected" "tc_queued s = []"
    "readableBytes (tc_output s) = 3" "\<not> tc_hasWriteComplete s"
proof -
  obtain s where s: "conn_reachable demo_user s" "tc_state s = kConnected" "readableBytes (tc_output s) = 0"
    "tc_queued s = []"
    by (rule demo_established)
  define t where "t = s\<lparr>tc_answers := [], tc_hasWriteComplete := False, tc_hasHighWater := False, tc_highWaterMark := 0\<rparr>"
  have 1: "conn_reachable demo_user (s\<lparr>tc_answers := []\<rparr>)" using conn_reachable.happens [OF s(1), of "KernelWill []"] by simp
  have 2: "conn_reachable demo_user (s\<lparr>tc_answers := [], tc_hasWriteComplete := False\<rparr>)"
    using conn_reachable.happens [OF 1, of "SetWriteComplete False"] by simp
  have t: "conn_reachable demo_user t"
    using conn_reachable.happens [OF 2, of "SetHighWater False 0"] by (simp add: t_def)
  have inv: "conn_inv t" using conn_reachable_inv [OF demo_user_ok t] .
  have up: "up t" using s(2) by (simp add: t_def)
  obtain c where c: "tc_chan t = Some c" "state_ok t c" "buf_inv (tc_output t)" using inv by (rule conn_invE)
  have "\<not> isWriting c" using c(2) up s(3) by (auto simp: state_ok_up t_def)
  have "\<not> tc_shut t" using conn_reachable_shut [OF demo_user_ok t] s(2) by (simp add: shut_ok_def t_def)
  then have "send_direct ''abc'' c t = (0, False, t)" using s(3) by (simp add: send_direct_def sockets_write_def t_def)
  then have run: "sendInLoop ''abc'' t = send_rest ''abc'' 0 t" using c(1) up by (auto simp: sendInLoop_def)
  obtain u where u: "send_rest ''abc'' 0 t = Some u" "conn_inv u" "tc_state u = tc_state t"
    using send_rest_ok [OF inv up, where n = 0 and data = "''abc''" and q = "[]" and t = t and a = "tc_answers t" and b = "tc_bytesSent t"] by auto
  obtain out where out: "Buffer_append (tc_output t) ''abc'' = Some out" "contents out = contents (tc_output t) @ ''abc''" "buf_inv out"
    using append_spec [OF c(3)] by blast
  have u': "tc_output u = out" "tc_queued u = []" "\<not> tc_hasWriteComplete u"
    using u(1) out(1) s(4) c(1)
    by (auto simp: send_rest_def note_high_water_def on_channel_def t_def Let_def split: if_splits Option.bind_splits)
  have "length (contents (tc_output t)) = 0" using length_contents_inv [OF c(3)] s(3) by (simp add: t_def)
  then have "readableBytes out = 3" using out(2) length_contents_inv [OF out(3)] by simp
  moreover have "op_allowed (Call (ApiSend ''abc'')) t" "conn_do demo_user (Call (ApiSend ''abc'')) t = Some u"
    using s(2) run u(1) by (simp_all add: api_allowed_def in_loop_thread t_def)
  then have "conn_reachable demo_user u" using conn_reachable.happens [OF t] by blast
  ultimately show ?thesis using that [of u] u(3) u' s(2) by (simp add: t_def)
qed

theorem foreign_send_lost_witness:
  "\<exists>s s'. conn_reachable demo_user s \<and> tc_state s = kConnected
    \<and> foldo (conn_do demo_user) [OtherThread (ApiSend ''lost''), OtherThread ApiShutdown, KernelWill [WriteOk 3],
        Event EPOLLOUT (ReadBytes []) 0, RunQueued] s = Some s'
    \<and> tc_shut s' \<and> tc_sent s' = tc_accepted s"
proof -
  obtain s where s: "conn_reachable demo_user s" "tc_state s = kConnected" "tc_queued s = []"
    "readableBytes (tc_output s) = 3" "\<not> tc_hasWriteComplete s" by (rule demo_waiting)
  from foreign_send_lost [OF demo_user_ok s(1-3) _ _ s(5), of 3 "''lost''" "ReadBytes []" 0] s show ?thesis by auto
qed

text \<open>The race of \<^verbatim>\<open>shutdown\<close> called from another thread: between its test of the state and its assignment the loop thread
  can take the connection down. The assignment then brings it back to \<^verbatim>\<open>kDisconnecting\<close>, where nothing takes it down
  again, and the destructor's assertion fails.\<close>

lemma shutdown_race:
  "\<exists>s'. shutdown_commit False s = Some s' \<and> tc_state s' = kDisconnecting \<and> TcpConnection_destroy s' = None"
  by (simp add: shutdown_commit_def conn_runInLoop_def queue_functor_def setState_def TcpConnection_destroy_def)

text \<open>The hang-up of \<open>conn_handleEvent_stops\<close> in a reachable state.\<close>

lemma lone_hangup_closes_twice:
  "\<exists>s. conn_reachable demo_user s \<and> tc_state s = kConnected
    \<and> conn_handleEvent demo_user EPOLLHUP (ReadBytes []) 0 s = None"
proof -
  obtain s where s: "conn_reachable demo_user s" "tc_state s = kConnected" by (rule demo_established)
  moreover have "lone_hup EPOLLHUP" by (simp add: lone_hup_def epoll_defs)
  ultimately show ?thesis using conn_handleEvent_stops [OF demo_user_ok conn_reachable_inv [OF demo_user_ok s(1)]] by blast
qed

end
