(* ===== verification/Base64.thy ===== *)
theory Base64
  imports Prelude
begin

text \<open>
  \<^verbatim>\<open>pallette/Base64.cpp\<close>: encoding, decoding and the two line-broken forms.

  The encoder's position is an \<^verbatim>\<open>unsigned int\<close> that is compared with a \<^verbatim>\<open>size_t\<close>, so it is a 32-bit word here
  and the loop is a \<^theory_text>\<open>partial_function\<close>: \<^const>\<open>None\<close> is the loop that never ends. The decoder reads through
  \<open>string_at\<close>: position \<^verbatim>\<open>size()\<close> of a \<^verbatim>\<open>const std::string\<close> is the terminating zero, anything after it is
  out of bounds.
\<close>

definition base64_chars :: "bool \<Rightarrow> string" where
  "base64_chars url = ''ABCDEFGHIJKLMNOPQRSTUVWXYZ'' @ ''abcdefghijklmnopqrstuvwxyz'' @ ''0123456789''
     @ (if url then ''-_'' else ''+/'')"

datatype decode_error = NotBase64 | OutOfBounds

definition pos_of_char :: "char \<Rightarrow> decode_error + nat" where
  "pos_of_char chr =
     (let c = of_char chr :: nat in
      if of_char CHR ''A'' \<le> c \<and> c \<le> of_char CHR ''Z'' then Inr (c - of_char CHR ''A'')
      else if of_char CHR ''a'' \<le> c \<and> c \<le> of_char CHR ''z''
        then Inr (c - of_char CHR ''a'' + (of_char CHR ''Z'' - of_char CHR ''A'') + 1)
      else if of_char CHR ''0'' \<le> c \<and> c \<le> of_char CHR ''9''
        then Inr (c - of_char CHR ''0'' + (of_char CHR ''Z'' - of_char CHR ''A'')
                  + (of_char CHR ''z'' - of_char CHR ''a'') + 2)
      else if chr = CHR ''+'' \<or> chr = CHR ''-'' then Inr 62
      else if chr = CHR ''/'' \<or> chr = CHR ''_'' then Inr 63
      else Inl NotBase64)"

partial_function (option) linebreaks_loop :: "nat \<Rightarrow> string \<Rightarrow> nat \<Rightarrow> string option" where
  "linebreaks_loop distance str pos =
     (if pos < length str
      then linebreaks_loop distance (take pos str @ [CHR 0x0A] @ drop pos str) (pos + (distance + 1))
      else Some str)"

definition insert_linebreaks :: "string \<Rightarrow> nat \<Rightarrow> string option" where
  "insert_linebreaks str distance = (if length str = 0 then Some [] else linebreaks_loop distance str distance)"

definition byte_at :: "string \<Rightarrow> nat \<Rightarrow> nat" where
  "byte_at s i = of_char (s ! i)"

text \<open>One turn of the encoder's loop: the four characters for the bytes from \<open>pos\<close> on.\<close>

definition encode_group :: "bool \<Rightarrow> string \<Rightarrow> 32 word \<Rightarrow> string" where
  "encode_group url bytes pos =
     (let in_len = length bytes;
          trailing_char = (if url then CHR ''.'' else CHR ''='');
          chars = base64_chars url;
          b0 = byte_at bytes (unat pos);
          b1 = byte_at bytes (unat (pos + 1));
          b2 = byte_at bytes (unat (pos + 2))
      in chars ! drop_bit 2 (b0 AND 0xfc) #
         (if unat (pos + 1) < in_len then
            chars ! (push_bit 4 (b0 AND 0x03) + drop_bit 4 (b1 AND 0xf0)) #
            (if unat (pos + 2) < in_len then
               [chars ! (push_bit 2 (b1 AND 0x0f) + drop_bit 6 (b2 AND 0xc0)), chars ! (b2 AND 0x3f)]
             else [chars ! push_bit 2 (b1 AND 0x0f), trailing_char])
          else [chars ! push_bit 4 (b0 AND 0x03), trailing_char, trailing_char]))"

partial_function (option) encode_loop :: "bool \<Rightarrow> string \<Rightarrow> 32 word \<Rightarrow> string \<Rightarrow> string option" where
  "encode_loop url bytes pos ret =
     (if unat pos < length bytes then encode_loop url bytes (pos + 3) (ret @ encode_group url bytes pos)
      else Some ret)"

definition base64_encode :: "string \<Rightarrow> bool \<Rightarrow> string option" where
  "base64_encode s url = encode_loop url s 0 []"

definition encode_with_line_breaks :: "string \<Rightarrow> nat \<Rightarrow> string option" where
  "encode_with_line_breaks s line_length = do { e \<leftarrow> base64_encode s False; insert_linebreaks e line_length }"

definition base64_encode_pem :: "string \<Rightarrow> string option" where
  "base64_encode_pem s = encode_with_line_breaks s 64"

definition base64_encode_mime :: "string \<Rightarrow> string option" where
  "base64_encode_mime s = encode_with_line_breaks s 76"

definition string_at :: "string \<Rightarrow> nat \<Rightarrow> decode_error + char" where
  "string_at s i = (if i < length s then Inr (s ! i) else if i = length s then Inr (CHR 0x00) else Inl OutOfBounds)"

definition bind_sum :: "'e + 'a \<Rightarrow> ('a \<Rightarrow> 'e + 'b) \<Rightarrow> 'e + 'b" where
  "bind_sum m f = (case m of Inl e \<Rightarrow> Inl e | Inr a \<Rightarrow> f a)"

lemma bind_sum_simps [simp]: "bind_sum (Inl e) f = Inl e" "bind_sum (Inr a) f = f a"
  by (simp_all add: bind_sum_def)

text \<open>One turn of the decoder's loop: the one to three bytes of the group at \<open>pos\<close>.\<close>

definition decode_group :: "string \<Rightarrow> nat \<Rightarrow> decode_error + string" where
  "decode_group s pos =
     bind_sum (string_at s (pos + 1)) (\<lambda>c1.
     bind_sum (pos_of_char c1) (\<lambda>p1.
     bind_sum (string_at s (pos + 0)) (\<lambda>c0.
     bind_sum (pos_of_char c0) (\<lambda>p0.
     let first = char_of (push_bit 2 p0 + drop_bit 4 (p1 AND 0x30)) in
     bind_sum (string_at s (pos + 2)) (\<lambda>c2.
     if c2 \<noteq> CHR ''='' \<and> c2 \<noteq> CHR ''.'' then
       bind_sum (pos_of_char c2) (\<lambda>p2.
       let second = char_of (push_bit 4 (p1 AND 0x0f) + drop_bit 2 (p2 AND 0x3c)) in
       bind_sum (string_at s (pos + 3)) (\<lambda>c3.
       if c3 \<noteq> CHR ''='' \<and> c3 \<noteq> CHR ''.'' then
         bind_sum (pos_of_char c3) (\<lambda>p3.
         Inr [first, second, char_of (push_bit 6 (p2 AND 0x03) + p3)])
       else Inr [first, second]))
     else Inr [first])))))"

function decode_loop :: "string \<Rightarrow> nat \<Rightarrow> string \<Rightarrow> decode_error + string" where
  "decode_loop s pos ret =
     (if pos < length s then bind_sum (decode_group s pos) (\<lambda>g. decode_loop s (pos + 4) (ret @ g)) else Inr ret)"
  by auto
termination by (relation "measure (\<lambda>(s, pos, ret). length s - pos)") auto

declare decode_loop.simps [simp del]

function erase_newlines :: "string \<Rightarrow> nat \<Rightarrow> string" where
  "erase_newlines copy pos =
     (let p = pos + find_index (\<lambda>c. c = CHR 0x0A) (drop pos copy) in
      if p < length copy then erase_newlines (take p copy @ drop (p + 1) copy) p else copy)"
  by auto
termination by (relation "measure (\<lambda>(copy, pos). length copy)") auto

declare erase_newlines.simps [simp del]

definition decode_plain :: "string \<Rightarrow> decode_error + string" where
  "decode_plain s = (if length s = 0 then Inr [] else decode_loop s 0 [])"

definition base64_decode :: "string \<Rightarrow> bool \<Rightarrow> decode_error + string" where
  "base64_decode s remove_linebreaks =
     (if remove_linebreaks then
        if length s = 0 then Inr [] else decode_plain (erase_newlines s 0)
      else decode_plain s)"

section \<open>The encoder\<close>

text \<open>The characters of a byte sequence, three bytes at a time.\<close>

fun sextets :: "bool \<Rightarrow> string \<Rightarrow> string" where
  "sextets url [] = []"
| "sextets url [a] =
     (let x = of_char a; pad = (if url then CHR ''.'' else CHR ''='') in
      [base64_chars url ! (x div 4), base64_chars url ! (x mod 4 * 16), pad, pad])"
| "sextets url [a, b] =
     (let x = of_char a; y = of_char b in
      [base64_chars url ! (x div 4), base64_chars url ! (x mod 4 * 16 + y div 16), base64_chars url ! (y mod 16 * 4),
       if url then CHR ''.'' else CHR ''=''])"
| "sextets url (a # b # c # cs) =
     (let x = of_char a; y = of_char b; z = of_char c in
      [base64_chars url ! (x div 4), base64_chars url ! (x mod 4 * 16 + y div 16),
       base64_chars url ! (y mod 16 * 4 + z div 64), base64_chars url ! (z mod 64)] @ sextets url cs)"

lemma and_low_bits:
  "x AND 0x03 = x mod (4::nat)" "x AND 0x0f = x mod (16::nat)" "x AND 0x3f = x mod (64::nat)"
proof -
  have "(3::nat) = mask 2" "(15::nat) = mask 4" "(63::nat) = mask 6" by (simp_all add: mask_eq_exp_minus_1)
  then show "x AND 0x03 = x mod (4::nat)" "x AND 0x0f = x mod (16::nat)" "x AND 0x3f = x mod (64::nat)"
    by (simp_all only: take_bit_eq_mask [symmetric]) (simp_all add: take_bit_eq_mod)
qed

lemma byte_bits:
  assumes "x < (256::nat)"
  shows "drop_bit 2 (x AND 0xfc) = x div 4" "drop_bit 4 (x AND 0xf0) = x div 16" "drop_bit 6 (x AND 0xc0) = x div 64"
  using assms by (simp_all only: drop_bit_and) (simp_all add: drop_bit_eq_div and_low_bits)

lemma sextet_bits:
  assumes "x < (64::nat)"
  shows "drop_bit 4 (x AND 0x30) = x div 16" "drop_bit 2 (x AND 0x3c) = x div 4"
  using assms by (simp_all only: drop_bit_and) (simp_all add: drop_bit_eq_div and_low_bits)

lemma length_base64_chars [simp]: "length (base64_chars url) = 64"
  by (simp add: base64_chars_def)

lemma alphabet_positions: "map pos_of_char (base64_chars url) = map Inr [0..<64]"
  by (simp add: base64_chars_def pos_of_char_def upt_rec)

lemma alphabet_set: "set (base64_chars url) \<inter> {CHR ''='', CHR ''.'', CHR 0x0A} = {}"
  by (simp add: base64_chars_def)

lemma alphabet:
  assumes "i < 64"
  shows "pos_of_char (base64_chars url ! i) = Inr i"
    "base64_chars url ! i \<notin> {CHR ''='', CHR ''.'', CHR 0x0A}"
proof -
  have "map pos_of_char (base64_chars url) ! i = map Inr [0..<64] ! i" by (simp only: alphabet_positions)
  then show "pos_of_char (base64_chars url ! i) = Inr i" using assms by simp
  have "base64_chars url ! i \<in> set (base64_chars url)" using assms by simp
  with alphabet_set show "base64_chars url ! i \<notin> {CHR ''='', CHR ''.'', CHR 0x0A}" by blast
qed

lemma sextet_ranges:
  "of_char a div 4 < (64::nat)" "of_char a mod 4 * 16 < (64::nat)" "of_char a mod 4 * 16 + of_char b div 16 < (64::nat)"
  "of_char b mod 16 * 4 < (64::nat)" "of_char b mod 16 * 4 + of_char c div 64 < (64::nat)" "of_char c mod 64 < (64::nat)"
proof -
  have "of_char a < (256::nat)" "of_char b < (256::nat)" "of_char c < (256::nat)" by simp_all
  then have "of_char a div 4 < (64::nat)" "of_char b div 16 < (16::nat)" "of_char c div 64 < (4::nat)"
    by (simp_all only: less_mult_imp_div_less)
  moreover have "of_char a mod 4 \<le> (3::nat)" "of_char b mod 16 \<le> (15::nat)" by simp_all
  ultimately show "of_char a div 4 < (64::nat)" "of_char a mod 4 * 16 < (64::nat)"
    "of_char a mod 4 * 16 + of_char b div 16 < (64::nat)"
    "of_char b mod 16 * 4 < (64::nat)" "of_char b mod 16 * 4 + of_char c div 64 < (64::nat)" "of_char c mod 64 < (64::nat)"
    by linarith+
qed

lemma take_drop_3:
  assumes "p < length bytes"
  shows "drop p bytes = bytes ! p # drop (Suc p) bytes"
  using assms by (simp add: Cons_nth_drop_Suc)

lemma encode_group_sextets:
  assumes "unat pos < length bytes" "length bytes < 2 ^ 32" "unat pos mod 3 = 0"
  shows "sextets url (drop (unat pos) bytes) = encode_group url bytes pos @ sextets url (drop (unat pos + 3) bytes)"
    and "unat (pos + 3) = unat pos + 3"
proof -
  have "unat pos \<noteq> 4294967293" "unat pos \<noteq> 4294967294" using assms(3) by auto
  then have bound: "unat pos + 3 < 2 ^ 32" using assms(1,2) by simp
  then have u: "unat (pos + 1) = unat pos + 1" "unat (pos + 2) = unat pos + 2" "unat (pos + 3) = unat pos + 3"
    by (simp_all add: unat_word_ariths)
  show "unat (pos + 3) = unat pos + 3" by (rule u)
  let ?p = "unat pos"
  have byte: "(of_char c :: nat) < 256" for c by simp
  note bits = byte_bits [OF byte] and_low_bits push_bit_eq_mult
  note group = encode_group_def Let_def u bits byte_at_def
  consider "length bytes = ?p + 1" | "length bytes = ?p + 2" | "?p + 2 < length bytes" using assms(1) by linarith
  then show "sextets url (drop ?p bytes) = encode_group url bytes pos @ sextets url (drop (?p + 3) bytes)"
  proof cases
    case 1
    then have "drop ?p bytes = [bytes ! ?p]" using take_drop_3 [OF assms(1)] by simp
    with 1 show ?thesis by (simp add: group del: drop_bit_and)
  next
    case 2
    then have "drop ?p bytes = [bytes ! ?p, bytes ! (?p + 1)]"
      using take_drop_3 [OF assms(1)] take_drop_3 [of "Suc ?p" bytes] by simp
    with 2 show ?thesis by (simp add: group del: drop_bit_and)
  next
    case 3
    then have "drop ?p bytes = bytes ! ?p # bytes ! (?p + 1) # bytes ! (?p + 2) # drop (?p + 3) bytes"
      using take_drop_3 [OF assms(1)] take_drop_3 [of "Suc ?p" bytes] take_drop_3 [of "Suc (Suc ?p)" bytes]
      by (simp add: numeral_3_eq_3 numeral_2_eq_2)
    with 3 show ?thesis by (simp add: group del: drop_bit_and)
  qed
qed

lemma encode_loop_sextets:
  assumes "length bytes < 2 ^ 32" "unat pos mod 3 = 0"
  shows "encode_loop url bytes pos ret = Some (ret @ sextets url (drop (unat pos) bytes))"
  using assms(2)
proof (induction "length bytes - unat pos" arbitrary: pos ret rule: less_induct)
  case less
  show ?case
  proof (cases "unat pos < length bytes")
    case True
    have g: "sextets url (drop (unat pos) bytes) = encode_group url bytes pos @ sextets url (drop (unat pos + 3) bytes)"
      "unat (pos + 3) = unat pos + 3"
      using encode_group_sextets [OF True assms(1) less.prems] by blast+
    have "encode_loop url bytes (pos + 3) (ret @ encode_group url bytes pos)
        = Some ((ret @ encode_group url bytes pos) @ sextets url (drop (unat (pos + 3)) bytes))"
      by (rule less.hyps) (use True less.prems g(2) in presburger)+
    with True g show ?thesis by (subst encode_loop.simps) simp
  qed (subst encode_loop.simps, simp)
qed

lemma base64_encode_sextets: "length s < 2 ^ 32 \<Longrightarrow> base64_encode s url = Some (sextets url s)"
  by (simp add: base64_encode_def encode_loop_sextets)

text \<open>From four gibibytes on the 32-bit position never reaches the length.\<close>

lemma encode_loop_diverges:
  assumes "encode_loop url bytes pos ret = Some r"
  shows "length bytes < 2 ^ 32"
  using assms
proof (rule encode_loop.raw_induct [of "\<lambda>url bytes pos ret r. length bytes < 2 ^ 32", rotated])
  fix f :: "bool \<Rightarrow> string \<Rightarrow> 32 word \<Rightarrow> string \<Rightarrow> string option" and url bytes and pos :: "32 word" and ret r
  assume ih: "\<And>url bytes pos ret r. f url bytes pos ret = Some r \<Longrightarrow> length bytes < 2 ^ 32"
    and step: "(if unat pos < length bytes then f url bytes (pos + 3) (ret @ encode_group url bytes pos) else Some ret) = Some r"
  show "length bytes < 2 ^ 32"
  proof (cases "unat pos < length bytes")
    case False
    moreover have "unat pos < 2 ^ 32" using unsigned_less [of pos] by simp
    ultimately show ?thesis by linarith
  qed (use ih step in auto)
qed

section \<open>The decoder\<close>

lemma string_at_group:
  "string_at (pre @ c0 # c1 # c2 # c3 # rest) (length pre) = Inr c0"
  "string_at (pre @ c0 # c1 # c2 # c3 # rest) (Suc (length pre)) = Inr c1"
  "string_at (pre @ c0 # c1 # c2 # c3 # rest) (Suc (Suc (length pre))) = Inr c2"
  "string_at (pre @ c0 # c1 # c2 # c3 # rest) (length pre + 3) = Inr c3"
  by (simp_all add: string_at_def nth_append numeral_2_eq_2 numeral_3_eq_3)

lemma alphabet_not_pad:
  "i < 64 \<Longrightarrow> base64_chars url ! i \<noteq> CHR ''=''" "i < 64 \<Longrightarrow> base64_chars url ! i \<noteq> CHR ''.''"
  "i < 64 \<Longrightarrow> base64_chars url ! i \<noteq> CHR 0x0A"
  using alphabet(2) by auto

text \<open>Putting the sextets together gives the bytes back.\<close>

lemma regroup:
  assumes "x < (256::nat)" "y < 256" "z < 256"
  shows "x div 4 * 4 + (x mod 4 * 16 + y div 16) div 16 = x"
    "x div 4 * 4 + (x mod 4 * 16) div 16 = x"
    "(x mod 4 * 16 + y div 16) mod 16 * 16 + (y mod 16 * 4 + z div 64) div 4 = y"
    "(x mod 4 * 16 + y div 16) mod 16 * 16 + (y mod 16 * 4) div 4 = y"
    "(y mod 16 * 4 + z div 64) mod 4 * 64 + z mod 64 = z"
proof -
  have d: "y div 16 < 16" "z div 64 < 4" using assms by auto
  have e: "(x mod 4 * 16 + y div 16) div 16 = x mod 4" "(x mod 4 * 16 + y div 16) mod 16 = y div 16"
    "(y mod 16 * 4 + z div 64) div 4 = y mod 16" "(y mod 16 * 4 + z div 64) mod 4 = z div 64"
    using d by simp_all
  show "x div 4 * 4 + (x mod 4 * 16 + y div 16) div 16 = x" by (simp only: e div_mult_mod_eq)
  show "x div 4 * 4 + (x mod 4 * 16) div 16 = x" by simp
  show "(x mod 4 * 16 + y div 16) mod 16 * 16 + (y mod 16 * 4 + z div 64) div 4 = y" by (simp only: e div_mult_mod_eq)
  show "(x mod 4 * 16 + y div 16) mod 16 * 16 + (y mod 16 * 4) div 4 = y" by (simp only: e) simp
  show "(y mod 16 * 4 + z div 64) mod 4 * 64 + z mod 64 = z" by (simp only: e div_mult_mod_eq)
qed

lemma char_of_whole: "n = of_char c \<Longrightarrow> char_of (n::nat) = c"
  by simp

text \<open>What a group decodes to, over the positions of its characters.\<close>

lemma decode_group_positions:
  assumes "i0 < 64" "i1 < 64" "i2 < 64" "i3 < 64"
    and ch: "ch = (!) (base64_chars url)"
  shows "decode_group (pre @ ch i0 # ch i1 # ch i2 # ch i3 # rest) (length pre)
      = Inr [char_of (i0 * 4 + i1 div 16), char_of (i1 mod 16 * 16 + i2 div 4), char_of (i2 mod 4 * 64 + i3)]"
    and "pad = CHR ''='' \<or> pad = CHR ''.'' \<Longrightarrow> decode_group (pre @ ch i0 # ch i1 # ch i2 # pad # rest) (length pre)
      = Inr [char_of (i0 * 4 + i1 div 16), char_of (i1 mod 16 * 16 + i2 div 4)]"
    and "pad = CHR ''='' \<or> pad = CHR ''.'' \<Longrightarrow> decode_group (pre @ ch i0 # ch i1 # pad # pad' # rest) (length pre)
      = Inr [char_of (i0 * 4 + i1 div 16)]"
  using assms(1-4) unfolding ch
  by (auto simp add: decode_group_def string_at_group alphabet(1) alphabet_not_pad Let_def sextet_bits
      and_low_bits push_bit_eq_mult simp del: drop_bit_and)

lemma decode_loop_step:
  assumes "decode_group s pos = Inr g" "pos < length s"
  shows "decode_loop s pos ret = decode_loop s (pos + 4) (ret @ g)"
  using assms by (subst decode_loop.simps) simp

lemma decode_loop_sextets:
  "decode_loop (pre @ sextets url s) (length pre) ret = Inr (ret @ s)"
proof (induction url s arbitrary: pre ret rule: sextets.induct)
  case (1 url)
  then show ?case by (subst decode_loop.simps) simp
next
  case (2 url a)
  let ?s = "pre @ sextets url [a]"
  have "decode_group ?s (length pre) = Inr [a]"
    using decode_group_positions(3) [where url = url and pre = pre, OF sextet_ranges(1) [of a] sextet_ranges(2) [of a] sextet_ranges(1) [of a] sextet_ranges(1) [of a] refl] regroup(2) [of "of_char a"]
    by (simp add: Let_def)
  then have "decode_loop ?s (length pre) ret = decode_loop ?s (length pre + 4) (ret @ [a])"
    by (rule decode_loop_step) (simp add: Let_def)
  also have "\<dots> = Inr (ret @ [a])" by (subst decode_loop.simps) (simp add: Let_def)
  finally show ?case .
next
  case (3 url a b)
  let ?s = "pre @ sextets url [a, b]"
  have "decode_group ?s (length pre) = Inr [a, b]"
    using decode_group_positions(2) [where url = url and pre = pre, OF sextet_ranges(1) [of a] sextet_ranges(3) [of a b] sextet_ranges(4) [of b] sextet_ranges(1) [of a] refl]
      regroup(1,4) [of "of_char a" "of_char b" 0]
    by (simp add: Let_def)
  then have "decode_loop ?s (length pre) ret = decode_loop ?s (length pre + 4) (ret @ [a, b])"
    by (rule decode_loop_step) (simp add: Let_def)
  also have "\<dots> = Inr (ret @ [a, b])" by (subst decode_loop.simps) (simp add: Let_def)
  finally show ?case .
next
  case (4 url a b c cs)
  let ?g = "sextets url [a, b, c]" and ?s = "pre @ sextets url (a # b # c # cs)"
  have s: "?s = (pre @ ?g) @ sextets url cs" by (simp add: Let_def)
  have "decode_group ?s (length pre) = Inr [a, b, c]"
    using decode_group_positions(1) [where url = url and pre = pre, OF sextet_ranges(1) [of a] sextet_ranges(3) [of a b] sextet_ranges(5) [of b c] sextet_ranges(6) [of c] refl]
      regroup(1,3,5) [of "of_char a" "of_char b" "of_char c"]
    by (simp add: Let_def)
  then have "decode_loop ?s (length pre) ret = decode_loop ?s (length pre + 4) (ret @ [a, b, c])"
    by (rule decode_loop_step) (simp add: Let_def)
  also have "\<dots> = decode_loop ((pre @ ?g) @ sextets url cs) (length (pre @ ?g)) (ret @ [a, b, c])"
  proof -
    have "length (pre @ ?g) = length pre + 4" by (simp add: Let_def)
    then show ?thesis by (simp only: s)
  qed
  also have "\<dots> = Inr ((ret @ [a, b, c]) @ cs)" by (rule "4.IH" [OF refl refl refl])
  finally show ?case by simp
qed

section \<open>Line breaks\<close>

abbreviation no_breaks :: "string \<Rightarrow> string" where
  "no_breaks s \<equiv> filter (\<lambda>c. c \<noteq> CHR 0x0A) s"

lemma linebreaks_loop_ok:
  assumes "0 < distance"
  shows "\<exists>r. linebreaks_loop distance str pos = Some r \<and> no_breaks r = no_breaks str"
proof (induction "length str - pos" arbitrary: str pos rule: less_induct)
  case less
  show ?case
  proof (cases "pos < length str")
    case True
    let ?str = "take pos str @ [CHR 0x0A] @ drop pos str"
    have "length ?str - (pos + (distance + 1)) < length str - pos" using True assms by simp
    from less.hyps [OF this] obtain r where
      r: "linebreaks_loop distance ?str (pos + (distance + 1)) = Some r" "no_breaks r = no_breaks ?str" by blast
    have "no_breaks ?str = no_breaks (take pos str @ drop pos str)" by (simp only: filter_append) simp
    then have "no_breaks ?str = no_breaks str" by (simp only: append_take_drop_id)
    with True r show ?thesis by (subst linebreaks_loop.simps) simp
  qed (subst linebreaks_loop.simps, simp)
qed

lemma erase_newlines_filter:
  "pos \<le> length copy \<Longrightarrow> erase_newlines copy pos = take pos copy @ no_breaks (drop pos copy)"
proof (induction copy pos rule: erase_newlines.induct)
  case (1 copy pos)
  let ?nl = "\<lambda>c. c = CHR 0x0A"
  define p where "p = pos + find_index ?nl (drop pos copy)"
  have split: "take p copy = take pos copy @ takeWhile (\<lambda>c. \<not> ?nl c) (drop pos copy)"
    by (simp add: p_def take_add take_find_index)
  have keep: "no_breaks (takeWhile (\<lambda>c. \<not> ?nl c) xs) = takeWhile (\<lambda>c. \<not> ?nl c) xs" for xs
    by (induction xs) auto
  show ?case
  proof (cases "p < length copy")
    case True
    then have lt: "find_index ?nl (drop pos copy) < length (drop pos copy)" by (simp add: p_def)
    have rest: "drop p copy = dropWhile (\<lambda>c. \<not> ?nl c) (drop pos copy)"
      using drop_find_index [of ?nl "drop pos copy"] by (simp add: p_def add.commute)
    have cut: "drop p copy = copy ! p # drop (p + 1) copy" using True by (simp add: Cons_nth_drop_Suc)
    have nl: "copy ! p = CHR 0x0A"
      using cut rest hd_dropWhile [of "\<lambda>c. \<not> ?nl c" "drop pos copy"] by (metis list.distinct(1) list.sel(1))
    let ?copy = "take p copy @ drop (p + 1) copy"
    have "erase_newlines copy pos = erase_newlines ?copy p"
      using True by (subst erase_newlines.simps) (simp add: Let_def p_def)
    also have "\<dots> = take p ?copy @ no_breaks (drop p ?copy)"
      using "1.IH" [OF p_def True [unfolded p_def, folded p_def]] True by simp
    also have "\<dots> = take p copy @ no_breaks (drop p copy)" using True cut nl by simp
    also have "\<dots> = take pos copy @ no_breaks (takeWhile (\<lambda>c. \<not> ?nl c) (drop pos copy) @ dropWhile (\<lambda>c. \<not> ?nl c) (drop pos copy))"
      by (simp only: split rest filter_append append_assoc keep)
    finally show ?thesis by (simp only: takeWhile_dropWhile_id)
  next
    case False
    then have "find_index ?nl (drop pos copy) = length (drop pos copy)"
      using find_index_le [of ?nl "drop pos copy"] "1.prems" by (simp add: p_def)
    then have "no_breaks (drop pos copy) = drop pos copy" by (simp only: find_index_eq_length) (simp add: filter_id_conv)
    with False show ?thesis by (subst erase_newlines.simps) (simp add: Let_def p_def)
  qed
qed

lemma sextets_no_breaks: "no_breaks (sextets url s) = sextets url s"
  by (induction url s rule: sextets.induct) (simp_all add: Let_def alphabet_not_pad sextet_ranges)

lemma length_sextets: "length (sextets url s) = (length s + 2) div 3 * 4"
proof (induction url s rule: sextets.induct)
  case (4 url a b c cs)
  have "(length cs + 2 + 3) div 3 = (length cs + 2) div 3 + 1" by simp
  with 4 show ?case by (simp add: Let_def)
qed (simp_all add: Let_def)

lemma decode_plain_sextets: "decode_plain (sextets url s) = Inr s"
proof (cases "sextets url s = []")
  case True
  then have "s = []" using length_sextets [of url s] by (cases s) auto
  then show ?thesis by (simp add: decode_plain_def)
qed (use decode_loop_sextets [of "[]" url s "[]"] in \<open>simp add: decode_plain_def\<close>)

lemma broken_lines_decode:
  assumes "length s < 2 ^ 32" "0 < k"
  shows "\<exists>e. encode_with_line_breaks s k = Some e \<and> base64_decode e True = Inr s"
proof -
  let ?x = "sextets False s"
  obtain e where e: "insert_linebreaks ?x k = Some e" "no_breaks e = ?x"
    using linebreaks_loop_ok [OF assms(2), of ?x k] sextets_no_breaks [of False s]
    by (cases "?x = []") (auto simp: insert_linebreaks_def)
  have "base64_decode e True = Inr s"
    using erase_newlines_filter [of 0 e] e(2) decode_plain_sextets [of False s]
    by (auto simp: base64_decode_def decode_plain_def split: if_splits)
  with e(1) base64_encode_sextets [OF assms(1)] show ?thesis by (auto simp: encode_with_line_breaks_def)
qed

section \<open>Bounds\<close>

lemma pos_of_nul: "pos_of_char (CHR 0x00) = Inl NotBase64"
  by (simp add: pos_of_char_def)

lemma pos_of_char_bounds: "pos_of_char c \<noteq> Inl OutOfBounds"
  by (auto simp: pos_of_char_def Let_def)

lemma decode_group_bounds:
  assumes "pos < length s"
  shows "decode_group s pos \<noteq> Inl OutOfBounds"
proof -
  have at: "string_at s i = (if i < length s then Inr (s ! i) else Inr (CHR 0x00))" if "i \<le> length s" for i
    using that by (simp add: string_at_def)
  have pos: "\<exists>r. pos_of_char c = Inr r \<or> pos_of_char c = Inl NotBase64" for c
    using pos_of_char_bounds [of c] by (cases "pos_of_char c"; rename_tac e; case_tac e) auto
  consider "length s = pos + 1" | "length s = pos + 2" | "length s = pos + 3" | "pos + 3 < length s"
    using assms by linarith
  then show ?thesis
    using pos [of "s ! Suc pos"] pos [of "s ! pos"] pos [of "s ! Suc (Suc pos)"] pos [of "s ! (pos + 3)"]
    by cases (auto simp: decode_group_def at pos_of_nul Let_def split: if_splits)
qed

lemma decode_loop_bounds: "decode_loop s pos ret \<noteq> Inl OutOfBounds"
proof (induction s pos ret rule: decode_loop.induct)
  case (1 s pos ret)
  show ?case
  proof (cases "pos < length s")
    case True
    show ?thesis
    proof (cases "decode_group s pos")
      case (Inl e)
      with decode_group_bounds [OF True] True show ?thesis by (subst decode_loop.simps) simp
    next
      case (Inr g)
      with "1.IH" [OF True, of g] True show ?thesis by (subst decode_loop.simps) simp
    qed
  qed (subst decode_loop.simps, simp)
qed

section \<open>Properties\<close>

text \<open>C27. Every byte string shorter than four gibibytes is encoded, in either alphabet, to four characters per started
  group of three bytes, and decoding gives it back; the PEM and MIME forms with their line breaks decode to it
  too when line breaks are removed.\<close>

theorem base64_roundtrip:
  assumes "length s < 2 ^ 32"
  shows "\<exists>e pem mime. base64_encode s url = Some e \<and> length e = (length s + 2) div 3 * 4
    \<and> base64_decode e False = Inr s
    \<and> base64_encode_pem s = Some pem \<and> base64_decode pem True = Inr s
    \<and> base64_encode_mime s = Some mime \<and> base64_decode mime True = Inr s"
proof -
  obtain pem mime where "base64_encode_pem s = Some pem" "base64_decode pem True = Inr s"
    "base64_encode_mime s = Some mime" "base64_decode mime True = Inr s"
    using broken_lines_decode [OF assms, of 64] broken_lines_decode [OF assms, of 76]
    by (auto simp: base64_encode_pem_def base64_encode_mime_def)
  moreover have "base64_decode (sextets url s) False = Inr s" by (simp add: base64_decode_def decode_plain_sextets)
  ultimately show ?thesis using base64_encode_sextets [OF assms] length_sextets by blast
qed

theorem base64_roundtrip_witness:
  "\<exists>e pem mime. base64_encode ''Man!'' True = Some e \<and> length e = 8 \<and> base64_decode e False = Inr ''Man!''
    \<and> base64_encode_pem ''Man!'' = Some pem \<and> base64_decode pem True = Inr ''Man!''
    \<and> base64_encode_mime ''Man!'' = Some mime \<and> base64_decode mime True = Inr ''Man!''"
  using base64_roundtrip [of "''Man!''" True] by simp

text \<open>C28. Whatever text it is given, the decoder never reads beyond the terminating zero of its input: it returns the
  bytes or throws, also when the length is no multiple of four.\<close>

theorem base64_decode_in_bounds:
  "base64_decode s remove_linebreaks = Inl NotBase64 \<or> (\<exists>r. base64_decode s remove_linebreaks = Inr r)"
proof -
  have plain: "decode_plain t = Inl NotBase64 \<or> (\<exists>r. decode_plain t = Inr r)" for t
  proof (cases "decode_loop t 0 []")
    case (Inl e)
    then show ?thesis using decode_loop_bounds [of t 0 "[]"] by (cases e) (auto simp: decode_plain_def)
  qed (simp add: decode_plain_def)
  show ?thesis using plain [of s] plain [of "erase_newlines s 0"] by (simp add: base64_decode_def)
qed

text \<open>The encoder returns exactly for inputs shorter than four gibibytes: its 32-bit position wraps around before
  reaching a longer length, and the loop never ends.\<close>

lemma base64_encode_returns_iff:
  "(\<exists>e. base64_encode s url = Some e) \<longleftrightarrow> length s < 2 ^ 32"
  using encode_loop_diverges base64_encode_sextets unfolding base64_encode_def by blast

end
