(* ===== verification/Addresses.thy ===== *)
theory Addresses
  imports Buffer
begin

text \<open>
  \<^verbatim>\<open>pallette/InetAddress.{h,cpp}\<close> and the address functions of \<^verbatim>\<open>SocketsOperations.cpp\<close>. A \<^verbatim>\<open>sockaddr\<close> keeps its
  fields in network byte order; the accessors read the union the way the code's casts do. \<open>ntop6\<close>, \<open>pton4\<close> and
  \<open>pton6\<close> stand for \<^verbatim>\<open>inet_ntop\<close> and \<^verbatim>\<open>inet_pton\<close> of the C library where their text is not a dotted quad.
\<close>

datatype sockaddr =
    SockaddrIn "16 word" "32 word"
  | SockaddrIn6 "16 word" "32 word" "byte list"
  | SockaddrUnspec

fun sin_port :: "sockaddr \<Rightarrow> 16 word" where
  "sin_port (SockaddrIn p a) = p"
| "sin_port (SockaddrIn6 p f a) = p"
| "sin_port SockaddrUnspec = 0"

fun sin_addr :: "sockaddr \<Rightarrow> 32 word" where
  "sin_addr (SockaddrIn p a) = a"
| "sin_addr (SockaddrIn6 p f a) = f"
| "sin_addr SockaddrUnspec = 0"

fun sin6_addr :: "sockaddr \<Rightarrow> byte list" where
  "sin6_addr (SockaddrIn6 p f a) = a"
| "sin6_addr _ = replicate 16 (CHR 0x00)"

definition inet_ntop4 :: "32 word \<Rightarrow> string" where
  "inet_ntop4 a = (let part = (\<lambda>i. dec (of_char (mem_of a ! i))) in
     part 0 @ ''.'' @ part 1 @ ''.'' @ part 2 @ ''.'' @ part 3)"

definition sockets_toIp :: "(byte list \<Rightarrow> string) \<Rightarrow> nat \<Rightarrow> sockaddr \<Rightarrow> string option" where
  "sockets_toIp ntop6 sz addr =
     (case addr of
        SockaddrIn p a \<Rightarrow> do { assertion (sz \<ge> 16); Some (inet_ntop4 a) }
      | SockaddrIn6 p f a \<Rightarrow> do { assertion (sz \<ge> 46); Some (ntop6 a) }
      | SockaddrUnspec \<Rightarrow> Some [])"

definition sockets_toIpPort :: "(byte list \<Rightarrow> string) \<Rightarrow> nat \<Rightarrow> sockaddr \<Rightarrow> string option" where
  "sockets_toIpPort ntop6 sz addr = do {
     buf \<leftarrow> sockets_toIp ntop6 sz addr;
     let end_ix = length buf;
     let port = networkToHost16 (sin_port addr);
     assertion (sz > end_ix);
     Some (buf @ snprintf (sz - end_ix) (CHR '':'' # dec (unat port))) }"

definition fromIpPort4 :: "(string \<Rightarrow> 32 word option) \<Rightarrow> string \<Rightarrow> 16 word \<Rightarrow> sockaddr" where
  "fromIpPort4 pton4 ip port =
     SockaddrIn (hostToNetwork16 port) (case pton4 ip of Some a \<Rightarrow> a | None \<Rightarrow> 0)"

definition fromIpPort6 :: "(string \<Rightarrow> byte list option) \<Rightarrow> string \<Rightarrow> 16 word \<Rightarrow> sockaddr" where
  "fromIpPort6 pton6 ip port =
     SockaddrIn6 (hostToNetwork16 port) 0 (case pton6 ip of Some a \<Rightarrow> a | None \<Rightarrow> replicate 16 (CHR 0x00))"

definition INADDR_ANY :: "32 word" where "INADDR_ANY = 0"
definition INADDR_LOOPBACK :: "32 word" where "INADDR_LOOPBACK = 0x7f000001"

definition InetAddress_new :: "16 word \<Rightarrow> bool \<Rightarrow> bool \<Rightarrow> sockaddr" where
  "InetAddress_new port loopbackOnly ipv6 =
     (if ipv6 then
        SockaddrIn6 (hostToNetwork16 port) 0
          (if loopbackOnly then replicate 15 (CHR 0x00) @ [CHR 0x01] else replicate 16 (CHR 0x00))
      else
        SockaddrIn (hostToNetwork16 port) (hostToNetwork32 (if loopbackOnly then INADDR_LOOPBACK else INADDR_ANY)))"

definition InetAddress_ip ::
  "(string \<Rightarrow> 32 word option) \<Rightarrow> (string \<Rightarrow> byte list option) \<Rightarrow> string \<Rightarrow> 16 word \<Rightarrow> bool \<Rightarrow> sockaddr" where
  "InetAddress_ip pton4 pton6 ip port ipv6 = (if ipv6 then fromIpPort6 pton6 ip port else fromIpPort4 pton4 ip port)"

definition InetAddress_toIp :: "(byte list \<Rightarrow> string) \<Rightarrow> sockaddr \<Rightarrow> string option" where
  "InetAddress_toIp ntop6 addr = sockets_toIp ntop6 64 addr"

definition InetAddress_toIpPort :: "(byte list \<Rightarrow> string) \<Rightarrow> sockaddr \<Rightarrow> string option" where
  "InetAddress_toIpPort ntop6 addr = sockets_toIpPort ntop6 64 addr"

definition toPort :: "sockaddr \<Rightarrow> 16 word" where
  "toPort addr = networkToHost16 (sin_port addr)"

definition ipNetEndian :: "sockaddr \<Rightarrow> 32 word option" where
  "ipNetEndian addr = do { assertion (case addr of SockaddrIn p a \<Rightarrow> True | _ \<Rightarrow> False); Some (sin_addr addr) }"

definition isSelfConnect :: "sockaddr \<Rightarrow> sockaddr \<Rightarrow> bool" where
  "isSelfConnect localaddr peeraddr =
     (case localaddr of
        SockaddrIn p a \<Rightarrow> sin_port localaddr = sin_port peeraddr \<and> sin_addr localaddr = sin_addr peeraddr
      | SockaddrIn6 p f a \<Rightarrow> sin_port localaddr = sin_port peeraddr \<and> sin6_addr localaddr = sin6_addr peeraddr
      | SockaddrUnspec \<Rightarrow> False)"

text \<open>\<^verbatim>\<open>accept4\<close> answers with a descriptor and the peer's address, or with an \<^verbatim>\<open>errno\<close>. Errors a listening socket can
  recover from are passed on, all others are fatal.\<close>

datatype accept_answer = Accepted int sockaddr | AcceptErr nat

definition EMFILE :: nat where "EMFILE = 24"

definition sockets_accept :: "accept_answer \<Rightarrow> (int \<times> nat \<times> sockaddr) option" where
  "sockets_accept answer =
     (case answer of
        Accepted connfd addr \<Rightarrow> Some (connfd, 0, addr)
      | AcceptErr savedErrno \<Rightarrow>
          if savedErrno \<in> {11, 103, 4, 71, 1, 24} \<comment> \<open>\<^verbatim>\<open>EAGAIN, ECONNABORTED, EINTR, EPROTO, EPERM, EMFILE\<close>\<close>
          then Some (-1, savedErrno, SockaddrUnspec) else None)"

text \<open>\<^verbatim>\<open>Socket::accept\<close> fills in the peer's address only on success; before, it is the default \<^verbatim>\<open>InetAddress\<close>.\<close>

definition Socket_accept :: "accept_answer \<Rightarrow> (int \<times> nat \<times> sockaddr) option" where
  "Socket_accept answer = do {
     (connfd, errno, addr) \<leftarrow> sockets_accept answer;
     Some (connfd, errno, if connfd \<ge> 0 then addr else InetAddress_new 0 False False) }"

section \<open>Text of addresses\<close>

lemma network_host_16: "networkToHost16 (hostToNetwork16 p) = p"
  using byte_swap_of_mem_rev [of p] by (simp add: networkToHost16_def hostToNetwork16_def byte_swap_def)

lemma length_dec_byte: "length (dec (of_char (c :: char))) \<le> 3"
proof (rule length_dec)
  have "(of_char c :: nat) < 256" by simp
  then show "(of_char c :: nat) < 10 ^ 3" by (simp del: nat_of_char_less_256)
qed simp

lemma length_inet_ntop4: "length (inet_ntop4 a) \<le> 15"
  using length_dec_byte [of "mem_of a ! 0"] length_dec_byte [of "mem_of a ! 1"]
    length_dec_byte [of "mem_of a ! 2"] length_dec_byte [of "mem_of a ! 3"]
  by (simp add: inet_ntop4_def Let_def)

lemma unat_lt2p16: "unat (p :: 16 word) < 65536"
  using unsigned_less [of p] by simp

lemma length_dec_port: "length (dec (unat (p :: 16 word))) \<le> 5"
proof (rule length_dec)
  show "unat p < 10 ^ 5" using unat_lt2p16 [of p] by simp
qed simp

text \<open>The text of an IPv4 address fits its buffer.\<close>

lemma toIpPort_inet:
  "InetAddress_toIpPort ntop6 (SockaddrIn p a) = Some (inet_ntop4 a @ CHR '':'' # dec (unat (networkToHost16 p)))"
  "length (inet_ntop4 a @ CHR '':'' # dec (unat (networkToHost16 p))) \<le> 21"
proof -
  have l: "length (inet_ntop4 a) \<le> 15" "length (dec (unat (networkToHost16 p))) \<le> 5"
    by (rule length_inet_ntop4 length_dec_port)+
  then show "InetAddress_toIpPort ntop6 (SockaddrIn p a) = Some (inet_ntop4 a @ CHR '':'' # dec (unat (networkToHost16 p)))"
    by (simp add: InetAddress_toIpPort_def sockets_toIpPort_def sockets_toIp_def)
  show "length (inet_ntop4 a @ CHR '':'' # dec (unat (networkToHost16 p))) \<le> 21" using l by simp
qed

lemma toIpPort_length:
  assumes "\<forall>b. length (ntop6 b) \<le> 45" "InetAddress_toIpPort ntop6 addr = Some s"
  shows "length s \<le> 51"
proof (cases addr)
  case (SockaddrIn p a)
  then show ?thesis using assms(2) toIpPort_inet(1) [of ntop6 p a] toIpPort_inet(2) [of a p] by simp
next
  case (SockaddrIn6 p f a)
  then have "length (ntop6 a) \<le> 45" using assms(1) by simp
  then show ?thesis using assms(2) SockaddrIn6 length_dec_port [of "networkToHost16 p"]
    by (auto simp: InetAddress_toIpPort_def sockets_toIpPort_def sockets_toIp_def snprintf_def)
next
  case SockaddrUnspec
  then show ?thesis using assms(2) length_dec_port [of "networkToHost16 0"]
    by (auto simp: InetAddress_toIpPort_def sockets_toIpPort_def sockets_toIp_def snprintf_def)
qed

text \<open>Addresses made from a port: what they print as and that the port is read back.\<close>

lemma toPort_new [simp]: "toPort (InetAddress_new port loopbackOnly ipv6) = port"
  by (simp add: toPort_def InetAddress_new_def network_host_16)

lemma le_bytes_numeral: "le_bytes (numeral k) n = char_of n # le_bytes (pred_numeral k) (n div 256)"
  by (simp only: numeral_eq_Suc le_bytes.simps)

lemma mem_of_hostToNetwork32: "mem_of (hostToNetwork32 x) = rev (mem_of x)"
  by (simp add: hostToNetwork32_def mem_of_byte_swap)

lemma toIpPort_new:
  "InetAddress_toIpPort ntop6 (InetAddress_new port False False) = Some (''0.0.0.0:'' @ dec (unat port))"
  "InetAddress_toIpPort ntop6 (InetAddress_new port True False) = Some (''127.0.0.1:'' @ dec (unat port))"
proof -
  have m: "mem_of (0 :: 32 word) = [CHR 0x00, CHR 0x00, CHR 0x00, CHR 0x00]"
    "mem_of (0x7f000001 :: 32 word) = [CHR 0x01, CHR 0x00, CHR 0x00, CHR 0x7F]"
    by (simp_all add: mem_of_def le_bytes_numeral char_of_def bit_0)
  have d: "dec 0 = ''0''" "dec 127 = ''127''" "dec (Suc 0) = ''1''" by (simp_all add: dec.simps digit_char_def char_of_def bit_0)
  show "InetAddress_toIpPort ntop6 (InetAddress_new port False False) = Some (''0.0.0.0:'' @ dec (unat port))"
    "InetAddress_toIpPort ntop6 (InetAddress_new port True False) = Some (''127.0.0.1:'' @ dec (unat port))"
    unfolding InetAddress_new_def if_False if_True toIpPort_inet
    by (simp_all add: inet_ntop4_def mem_of_hostToNetwork32 INADDR_ANY_def INADDR_LOOPBACK_def m d network_host_16 Let_def)
qed

text \<open>A socket connected to itself is recognised whatever its family.\<close>

lemma isSelfConnect_same: "isSelfConnect a a \<longleftrightarrow> a \<noteq> SockaddrUnspec"
  by (cases a) (simp_all add: isSelfConnect_def)

end
