(* ===== verification/Server.thy ===== *)
theory Server
  imports Addresses Poller
begin

text \<open>
  \<^verbatim>\<open>pallette/EventLoopThreadPool\<close>, \<^verbatim>\<open>Acceptor\<close> and \<^verbatim>\<open>TcpServer\<close>: accepting connections, handing them to the
  loops of the pool in turn and removing them again across threads.

  Loops are numbers; a functor posted to another loop is an entry of \<open>sv_posted\<close>, one posted to the running loop by
  \<^verbatim>\<open>runInLoop\<close> runs at once. The connection objects the server creates are the list \<open>sv_objects\<close>, with the stage of
  their life the server depends on; what a connection does in between is the subject of \<^verbatim>\<open>Connection\<close>.
\<close>

section \<open>The pool of loops\<close>

record EventLoopThreadPool =
  tp_baseLoop :: nat
  tp_name :: string
  tp_started :: bool
  tp_numThreads :: int
  tp_next :: nat
  tp_threads :: "string list"
  tp_loops :: "nat list"
  tp_initialized :: "nat list"

definition EventLoopThreadPool_new :: "nat \<Rightarrow> string \<Rightarrow> EventLoopThreadPool" where
  "EventLoopThreadPool_new baseLoop nameArg =
     \<lparr>tp_baseLoop = baseLoop, tp_name = nameArg, tp_started = False, tp_numThreads = 0, tp_next = 0,
      tp_threads = [], tp_loops = [], tp_initialized = []\<rparr>"

text \<open>\<open>loopOf i\<close> is the loop of the \<open>i\<close>-th thread started; each thread runs the callback on its loop before
  \<^verbatim>\<open>startLoop\<close> returns it (\<^verbatim>\<open>EventLoopThread::threadFunc\<close>).\<close>

definition start_thread :: "(nat \<Rightarrow> nat) \<Rightarrow> bool \<Rightarrow> nat \<Rightarrow> EventLoopThreadPool \<Rightarrow> EventLoopThreadPool" where
  "start_thread loopOf cb i p =
     p\<lparr>tp_threads := tp_threads p @ [snprintf (length (tp_name p) + 32) (tp_name p @ dec i)],
       tp_loops := tp_loops p @ [loopOf i],
       tp_initialized := tp_initialized p @ (if cb then [loopOf i] else [])\<rparr>"

definition pool_start :: "(nat \<Rightarrow> nat) \<Rightarrow> bool \<Rightarrow> EventLoopThreadPool \<Rightarrow> EventLoopThreadPool option" where
  "pool_start loopOf cb p = do {
     assertion (\<not> tp_started p);
     let p = p\<lparr>tp_started := True\<rparr>;
     let p = fold (start_thread loopOf cb) [0..<nat (tp_numThreads p)] p;
     Some (if tp_numThreads p = 0 \<and> cb then p\<lparr>tp_initialized := tp_initialized p @ [tp_baseLoop p]\<rparr> else p) }"

definition getNextLoop :: "EventLoopThreadPool \<Rightarrow> (nat \<times> EventLoopThreadPool) option" where
  "getNextLoop p = do {
     assertion (tp_started p);
     if tp_loops p \<noteq> [] then do {
       assertion (tp_next p < length (tp_loops p));
       let loop = tp_loops p ! tp_next p;
       let n = tp_next p + 1;
       Some (loop, p\<lparr>tp_next := if n \<ge> length (tp_loops p) then 0 else n\<rparr>) }
     else Some (tp_baseLoop p, p) }"

definition getLoopForHash :: "nat \<Rightarrow> EventLoopThreadPool \<Rightarrow> nat" where
  "getLoopForHash hashCode p =
     (if tp_loops p \<noteq> [] then tp_loops p ! (hashCode mod length (tp_loops p)) else tp_baseLoop p)"

definition getAllLoops :: "EventLoopThreadPool \<Rightarrow> nat list option" where
  "getAllLoops p = do {
     assertion (tp_started p);
     Some (if tp_loops p = [] then [tp_baseLoop p] else tp_loops p) }"

section \<open>Accepting\<close>

record Acceptor =
  ac_channel :: addr
  ac_reactor :: reactor
  ac_hasCallback :: bool
  ac_listenning :: bool
  ac_idleFd :: int

text \<open>\<open>idle\<close> is the result of opening \<^verbatim>\<open>/dev/null\<close>.\<close>

definition Acceptor_new :: "addr \<Rightarrow> int \<Rightarrow> int \<Rightarrow> reactor \<Rightarrow> Acceptor option" where
  "Acceptor_new ch sockfd idle r = do {
     assertion (idle \<ge> 0);
     Some \<lparr>ac_channel = ch, ac_reactor = set_chan ch (Channel_new sockfd) r, ac_hasCallback = False,
       ac_listenning = False, ac_idleFd = idle\<rparr> }"

definition Acceptor_destroy :: "Acceptor \<Rightarrow> Acceptor option" where
  "Acceptor_destroy a = do {
     r \<leftarrow> disableAll (ac_channel a) (ac_reactor a);
     r \<leftarrow> Channel_remove (ac_channel a) r;
     Some (a\<lparr>ac_reactor := r\<rparr>) }"

definition Acceptor_listen :: "Acceptor \<Rightarrow> Acceptor option" where
  "Acceptor_listen a = do {
     let a = a\<lparr>ac_listenning := True\<rparr>;
     r \<leftarrow> enableReading (ac_channel a) (ac_reactor a);
     Some (a\<lparr>ac_reactor := r\<rparr>) }"

text \<open>What handling a readable listening socket leads to: the callback, the descriptors closed, and the new idle
  descriptor. When descriptors have run out, the idle one is given up to accept the connection and close it.\<close>

datatype accept_effect = NewConnection int sockaddr | Closed "int list"

definition Acceptor_handleRead ::
  "accept_answer \<Rightarrow> int \<Rightarrow> int \<Rightarrow> Acceptor \<Rightarrow> (accept_effect \<times> Acceptor) option" where
  "Acceptor_handleRead answer second_accept reopened a = do {
     (connfd, errno, peerAddr) \<leftarrow> Socket_accept answer;
     if connfd \<ge> 0 then
       Some (if ac_hasCallback a then (NewConnection connfd peerAddr, a) else (Closed [connfd], a))
     else if errno = EMFILE then
       Some (Closed [ac_idleFd a, second_accept], a\<lparr>ac_idleFd := reopened\<rparr>)
     else Some (Closed [], a) }"

section \<open>The server\<close>

text \<open>The stages of a connection: its establishing is pending, it is up, its close callback has run, it has left the
  server's map, and \<^verbatim>\<open>connectDestroyed\<close> has run.\<close>

datatype stage = Created | Up | Closing | Removed | Destroyed

record server_conn =
  sc_name :: string
  sc_loop :: nat
  sc_fd :: int
  sc_peer :: sockaddr
  sc_stage :: stage

datatype server_functor = ConnectEstablished nat | RemoveConnectionInLoop nat | ConnectDestroyed nat

record TcpServer =
  sv_loop :: nat
  sv_ipPort :: string
  sv_name :: string
  sv_acceptor :: Acceptor
  sv_threadPool :: EventLoopThreadPool
  sv_started :: bool
  sv_nextConnId :: int
  sv_connections :: "(string, nat) std_map"
  sv_objects :: "server_conn list"
  sv_posted :: "(nat \<times> server_functor) list"

definition TcpServer_new :: "nat \<Rightarrow> string \<Rightarrow> string \<Rightarrow> Acceptor \<Rightarrow> TcpServer" where
  "TcpServer_new loop ipPort nameArg acceptor =
     \<lparr>sv_loop = loop, sv_ipPort = ipPort, sv_name = nameArg, sv_acceptor = acceptor\<lparr>ac_hasCallback := True\<rparr>,
      sv_threadPool = EventLoopThreadPool_new loop nameArg, sv_started = False, sv_nextConnId = 1,
      sv_connections = [], sv_objects = [], sv_posted = []\<rparr>"

definition TcpServer_setThreadNum :: "int \<Rightarrow> TcpServer \<Rightarrow> TcpServer" where
  "TcpServer_setThreadNum n s = s\<lparr>sv_threadPool := (sv_threadPool s)\<lparr>tp_numThreads := n\<rparr>\<rparr>"

definition TcpServer_start :: "(nat \<Rightarrow> nat) \<Rightarrow> bool \<Rightarrow> TcpServer \<Rightarrow> TcpServer option" where
  "TcpServer_start loopOf cb s =
     (if \<not> sv_started s then do {
        let s = s\<lparr>sv_started := True\<rparr>;
        p \<leftarrow> pool_start loopOf cb (sv_threadPool s);
        assertion (\<not> ac_listenning (sv_acceptor s));
        a \<leftarrow> Acceptor_listen (sv_acceptor s);
        Some (s\<lparr>sv_threadPool := p, sv_acceptor := a\<rparr>) }
      else Some s)"

definition set_stage :: "nat \<Rightarrow> stage \<Rightarrow> TcpServer \<Rightarrow> TcpServer" where
  "set_stage i st s = s\<lparr>sv_objects := (sv_objects s)[i := (sv_objects s ! i)\<lparr>sc_stage := st\<rparr>]\<rparr>"

definition post :: "nat \<Rightarrow> server_functor \<Rightarrow> TcpServer \<Rightarrow> TcpServer" where
  "post loop f s = s\<lparr>sv_posted := sv_posted s @ [(loop, f)]\<rparr>"

definition conn_name :: "string \<Rightarrow> string \<Rightarrow> int \<Rightarrow> string" where
  "conn_name name ipPort connId = name @ snprintf 64 (''-'' @ ipPort @ ''#'' @ dec_int connId)"

text \<open>Incrementing \<^verbatim>\<open>nextConnId_\<close> at \<^verbatim>\<open>INT_MAX\<close> is undefined.\<close>

definition newConnection :: "int \<Rightarrow> sockaddr \<Rightarrow> TcpServer \<Rightarrow> TcpServer option" where
  "newConnection sockfd peerAddr s = do {
     (ioLoop, p) \<leftarrow> getNextLoop (sv_threadPool s);
     assertion (sv_nextConnId s < 2 ^ 31 - 1);
     let connName = conn_name (sv_name s) (sv_ipPort s) (sv_nextConnId s);
     let conn = length (sv_objects s);
     let s = s\<lparr>sv_threadPool := p, sv_nextConnId := sv_nextConnId s + 1,
       sv_objects := sv_objects s @ [\<lparr>sc_name = connName, sc_loop = ioLoop, sc_fd = sockfd, sc_peer = peerAddr, sc_stage = Created\<rparr>],
       sv_connections := map_put (sv_connections s) connName conn\<rparr>;
     Some (if ioLoop = sv_loop s then set_stage conn Up s else post ioLoop (ConnectEstablished conn) s) }"

definition removeConnectionInLoop :: "nat \<Rightarrow> TcpServer \<Rightarrow> TcpServer option" where
  "removeConnectionInLoop conn s = do {
     let (n, connections) = map_erase (sv_connections s) (sc_name (sv_objects s ! conn));
     assertion (n = 1);
     Some (post (sc_loop (sv_objects s ! conn)) (ConnectDestroyed conn)
       (set_stage conn Removed (s\<lparr>sv_connections := connections\<rparr>))) }"

definition removeConnection :: "nat \<Rightarrow> TcpServer \<Rightarrow> TcpServer option" where
  "removeConnection conn s =
     (if sc_loop (sv_objects s ! conn) = sv_loop s then removeConnectionInLoop conn s
      else Some (post (sv_loop s) (RemoveConnectionInLoop conn) s))"

text \<open>The destructor, in the acceptor's loop: every connection still in the map is destroyed in its loop.\<close>

definition destroy_conn :: "nat \<Rightarrow> TcpServer \<Rightarrow> TcpServer" where
  "destroy_conn conn s =
     (if sc_loop (sv_objects s ! conn) = sv_loop s then set_stage conn Destroyed s
      else post (sc_loop (sv_objects s ! conn)) (ConnectDestroyed conn) s)"

definition TcpServer_destroy :: "TcpServer \<Rightarrow> TcpServer" where
  "TcpServer_destroy s = fold destroy_conn (map snd (sv_connections s)) s"

text \<open>A readable listening socket; and the loops run posted functors, a connection's close callback runs.\<close>

definition server_accepts :: "accept_answer \<Rightarrow> int \<Rightarrow> int \<Rightarrow> TcpServer \<Rightarrow> TcpServer option" where
  "server_accepts answer second_accept reopened s = do {
     (eff, a) \<leftarrow> Acceptor_handleRead answer second_accept reopened (sv_acceptor s);
     let s = s\<lparr>sv_acceptor := a\<rparr>;
     (case eff of NewConnection connfd peerAddr \<Rightarrow> newConnection connfd peerAddr s | Closed fds \<Rightarrow> Some s) }"

definition run_posted :: "nat \<Rightarrow> TcpServer \<Rightarrow> TcpServer option" where
  "run_posted k s =
     (let f = snd (sv_posted s ! k); s = s\<lparr>sv_posted := take k (sv_posted s) @ drop (Suc k) (sv_posted s)\<rparr> in
      case f of
        ConnectEstablished conn \<Rightarrow> Some (set_stage conn Up s)
      | RemoveConnectionInLoop conn \<Rightarrow> removeConnectionInLoop conn s
      | ConnectDestroyed conn \<Rightarrow> Some (set_stage conn Destroyed s))"

definition close_callback :: "nat \<Rightarrow> TcpServer \<Rightarrow> TcpServer option" where
  "close_callback conn s = removeConnection conn (set_stage conn Closing s)"

section \<open>Names\<close>

lemma dec_inject: "dec m = dec n \<Longrightarrow> m = n"
  using dec_value_dec by metis

lemma conn_name_inject:
  assumes "length ip \<le> 51" "0 \<le> a" "a < 2 ^ 31" "0 \<le> b" "b < 2 ^ 31" "conn_name name ip a = conn_name name ip b"
  shows "a = b"
proof -
  have len: "length (dec (nat x)) \<le> 10" if "x < 2 ^ 31" for x by (rule length_dec) (use that in auto)
  have "snprintf 64 (''-'' @ ip @ ''#'' @ dec_int x) = ''-'' @ ip @ ''#'' @ dec (nat x)" if "0 \<le> x" "x < 2 ^ 31" for x
    using len [OF that(2)] that(1) assms(1) by (simp add: dec_int_def)
  with assms have "dec (nat a) = dec (nat b)" by (simp add: conn_name_def)
  then have "nat a = nat b" by (rule dec_inject)
  with assms(2,4) show ?thesis by simp
qed

section \<open>The invariant of a server\<close>

fun conn_of :: "server_functor \<Rightarrow> nat" where
  "conn_of (ConnectEstablished i) = i"
| "conn_of (RemoveConnectionInLoop i) = i"
| "conn_of (ConnectDestroyed i) = i"

abbreviation obj :: "TcpServer \<Rightarrow> nat \<Rightarrow> server_conn" where
  "obj s i \<equiv> sv_objects s ! i"

definition live :: "stage \<Rightarrow> bool" where
  "live st \<longleftrightarrow> st = Created \<or> st = Up \<or> st = Closing"

definition turn_loop :: "EventLoopThreadPool \<Rightarrow> nat \<Rightarrow> nat" where
  "turn_loop p i = (if tp_loops p = [] then tp_baseLoop p else tp_loops p ! (i mod length (tp_loops p)))"

definition obj_ok :: "TcpServer \<Rightarrow> nat \<Rightarrow> bool" where
  "obj_ok s i \<longleftrightarrow> sc_name (obj s i) = conn_name (sv_name s) (sv_ipPort s) (int i + 1)
     \<and> map_find (sv_connections s) (sc_name (obj s i)) = (if live (sc_stage (obj s i)) then Some i else None)
     \<and> sc_loop (obj s i) = turn_loop (sv_threadPool s) i"

fun posted_ok :: "TcpServer \<Rightarrow> nat \<times> server_functor \<Rightarrow> bool" where
  "posted_ok s (l, ConnectEstablished i) \<longleftrightarrow> i < length (sv_objects s) \<and> sc_stage (obj s i) = Created \<and> l = sc_loop (obj s i)"
| "posted_ok s (l, RemoveConnectionInLoop i) \<longleftrightarrow> i < length (sv_objects s) \<and> sc_stage (obj s i) = Closing \<and> l = sv_loop s"
| "posted_ok s (l, ConnectDestroyed i) \<longleftrightarrow> i < length (sv_objects s) \<and> sc_stage (obj s i) = Removed \<and> l = sc_loop (obj s i)"

definition pool_ok :: "TcpServer \<Rightarrow> bool" where
  "pool_ok s \<longleftrightarrow> tp_started (sv_threadPool s)
     \<and> (tp_loops (sv_threadPool s) \<noteq> [] \<longrightarrow> tp_next (sv_threadPool s) = length (sv_objects s) mod length (tp_loops (sv_threadPool s)))"

definition server_inv :: "TcpServer \<Rightarrow> bool" where
  "server_inv s \<longleftrightarrow> length (sv_ipPort s) \<le> 51 \<and> pool_ok s \<and> ac_hasCallback (sv_acceptor s)
     \<and> sv_nextConnId s = int (length (sv_objects s)) + 1 \<and> sv_nextConnId s < 2 ^ 31
     \<and> map_sorted (sv_connections s) \<and> (\<forall>i<length (sv_objects s). obj_ok s i)
     \<and> (\<forall>k i. map_find (sv_connections s) k = Some i \<longrightarrow> i < length (sv_objects s) \<and> k = sc_name (obj s i))
     \<and> distinct (sv_posted s) \<and> (\<forall>e\<in>set (sv_posted s). posted_ok s e)"

lemma server_invD:
  assumes "server_inv s"
  shows "length (sv_ipPort s) \<le> 51" "pool_ok s" "sv_nextConnId s = int (length (sv_objects s)) + 1" "sv_nextConnId s < 2 ^ 31"
    "map_sorted (sv_connections s)" "i < length (sv_objects s) \<Longrightarrow> obj_ok s i"
    "map_find (sv_connections s) k = Some i \<Longrightarrow> i < length (sv_objects s) \<and> k = sc_name (obj s i)"
    "distinct (sv_posted s)" "e \<in> set (sv_posted s) \<Longrightarrow> posted_ok s e" "ac_hasCallback (sv_acceptor s)"
  using assms unfolding server_inv_def by blast+

lemma names_distinct:
  assumes "server_inv s" "i < length (sv_objects s)" "j < length (sv_objects s)" "sc_name (obj s i) = sc_name (obj s j)"
  shows "i = j"
proof -
  have "obj_ok s i" "obj_ok s j" using server_invD(6) [OF assms(1)] assms(2,3) by blast+
  then have "conn_name (sv_name s) (sv_ipPort s) (int i + 1) = conn_name (sv_name s) (sv_ipPort s) (int j + 1)"
    using assms(4) by (simp add: obj_ok_def)
  moreover have "int i + 1 < 2 ^ 31" "int j + 1 < 2 ^ 31" using server_invD(3,4) [OF assms(1)] assms(2,3) by linarith+
  ultimately have "int i + 1 = int j + 1" by (intro conn_name_inject [OF server_invD(1) [OF assms(1)]]) simp_all
  then show ?thesis by simp
qed

lemma set_stage_simps [simp]:
  "length (sv_objects (set_stage i st s)) = length (sv_objects s)" "sv_posted (set_stage i st s) = sv_posted s"
  "sv_connections (set_stage i st s) = sv_connections s" "sv_threadPool (set_stage i st s) = sv_threadPool s"
  "sv_name (set_stage i st s) = sv_name s" "sv_ipPort (set_stage i st s) = sv_ipPort s" "sv_loop (set_stage i st s) = sv_loop s"
  "sv_nextConnId (set_stage i st s) = sv_nextConnId s" "sv_acceptor (set_stage i st s) = sv_acceptor s"
  "i < length (sv_objects s) \<Longrightarrow> obj (set_stage i st s) j = (if j = i then (obj s i)\<lparr>sc_stage := st\<rparr> else obj s j)"
  "sv_posted (post l f s) = sv_posted s @ [(l, f)]" "sv_objects (post l f s) = sv_objects s"
  "sv_connections (post l f s) = sv_connections s" "sv_threadPool (post l f s) = sv_threadPool s"
  "sv_name (post l f s) = sv_name s" "sv_ipPort (post l f s) = sv_ipPort s" "sv_loop (post l f s) = sv_loop s"
  "sv_nextConnId (post l f s) = sv_nextConnId s" "sv_acceptor (post l f s) = sv_acceptor s"
  by (simp_all add: set_stage_def post_def nth_list_update)

definition unposted :: "TcpServer \<Rightarrow> nat \<Rightarrow> bool" where
  "unposted s i \<longleftrightarrow> (\<forall>e\<in>set (sv_posted s). conn_of (snd e) \<noteq> i)"

lemma posted_ok_other:
  assumes "posted_ok s e" "conn_of (snd e) \<noteq> i" "i < length (sv_objects s)"
  shows "posted_ok (set_stage i st s) e"
proof -
  obtain l f where e: "e = (l, f)" by (cases e)
  show ?thesis using assms unfolding e by (cases f) simp_all
qed

text \<open>A step of one connection's life that no pending functor is about.\<close>

lemma server_inv_stage:
  assumes "server_inv s" "i < length (sv_objects s)" "unposted s i" "live st = live (sc_stage (obj s i))"
  shows "server_inv (set_stage i st s)"
proof -
  have "obj_ok (set_stage i st s) j" if "j < length (sv_objects s)" for j
    using server_invD(6) [OF assms(1) that] assms(2,4) by (cases "j = i") (auto simp: obj_ok_def)
  moreover have "posted_ok (set_stage i st s) e" if "e \<in> set (sv_posted s)" for e
    using posted_ok_other [OF server_invD(9) [OF assms(1) that]] assms(2,3) that by (simp add: unposted_def)
  moreover have "k = sc_name (obj (set_stage i st s) j)" "j < length (sv_objects s)" if "map_find (sv_connections s) k = Some j" for k j
    using server_invD(7) [OF assms(1) that] assms(2) by auto
  moreover have "pool_ok (set_stage i st s)" using server_invD(2) [OF assms(1)] by (simp add: pool_ok_def)
  ultimately show ?thesis using server_invD(1,3,4,5,8,10) [OF assms(1)] by (simp add: server_inv_def)
qed

lemma server_inv_post:
  assumes "server_inv s" "posted_ok s (l, f)" "unposted s (conn_of f)"
  shows "server_inv (post l f s)"
proof -
  have p: "posted_ok (post l f s) e = posted_ok s e" for e
    by (cases "(s, e)" rule: posted_ok.cases) simp_all
  have "(l, f) \<notin> set (sv_posted s)" using assms(3) by (auto simp: unposted_def)
  moreover have "obj_ok (post l f s) j = obj_ok s j" for j by (simp add: obj_ok_def)
  moreover have "pool_ok (post l f s) = pool_ok s" by (simp add: pool_ok_def)
  ultimately show ?thesis using server_invD [OF assms(1)] assms(2) by (auto simp: server_inv_def p)
qed

lemma removeConnectionInLoop_ok:
  assumes "server_inv s" "i < length (sv_objects s)" "unposted s i" "sc_stage (obj s i) = Closing"
  shows "\<exists>s'. removeConnectionInLoop i s = Some s' \<and> server_inv s'"
proof -
  let ?name = "sc_name (obj s i)"
  define t where "t = set_stage i Removed (s\<lparr>sv_connections := snd (map_erase (sv_connections s) ?name)\<rparr>)"
  have ok: "obj_ok s i" using server_invD(6) [OF assms(1,2)] .
  then have "map_find (sv_connections s) ?name = Some i" using assms(4) by (auto simp: obj_ok_def live_def)
  then have "fst (map_erase (sv_connections s) ?name) = 1" by (rule sm.erase_present [OF server_invD(5) [OF assms(1)]])
  then have run: "removeConnectionInLoop i s = Some (post (sc_loop (obj s i)) (ConnectDestroyed i) t)"
    by (simp add: removeConnectionInLoop_def t_def case_prod_beta)
  have t: "sv_objects t = (sv_objects s)[i := (obj s i)\<lparr>sc_stage := Removed\<rparr>]" "sv_posted t = sv_posted s"
    "sv_connections t = snd (map_erase (sv_connections s) ?name)" "sv_threadPool t = sv_threadPool s" "sv_name t = sv_name s"
    "sv_ipPort t = sv_ipPort s" "sv_loop t = sv_loop s" "sv_nextConnId t = sv_nextConnId s" "sv_acceptor t = sv_acceptor s"
    by (simp_all add: t_def set_stage_def)
  have len: "length (sv_objects t) = length (sv_objects s)" by (simp add: t(1))
  have o: "obj t j = (if j = i then (obj s i)\<lparr>sc_stage := Removed\<rparr> else obj s j)" for j
    using assms(2) by (simp add: t(1) nth_list_update)
  have "obj_ok t j" if "j < length (sv_objects s)" for j
  proof (cases "j = i")
    case True
    with ok show ?thesis by (simp add: obj_ok_def o t(2-9) live_def)
  next
    case False
    then have "sc_name (obj s j) \<noteq> ?name" using names_distinct [OF assms(1) that assms(2)] by blast
    with False server_invD(6) [OF assms(1) that] show ?thesis by (auto simp: obj_ok_def o t(2-9))
  qed
  moreover have "posted_ok t e" if "e \<in> set (sv_posted s)" for e
  proof -
    obtain l f where e: "e = (l, f)" by (cases e)
    show ?thesis using server_invD(9) [OF assms(1) that] assms(3) that unfolding e
      by (cases f) (auto simp: t(2-9) o unposted_def len)
  qed
  moreover have "k = sc_name (obj t j) \<and> j < length (sv_objects s)" if "map_find (sv_connections t) k = Some j" for k j
    using that server_invD(7) [OF assms(1), of k j] by (auto simp: t(3) o split: if_splits)
  moreover have "pool_ok t" using server_invD(2) [OF assms(1)] by (simp add: pool_ok_def t)
  ultimately have "server_inv t"
    using server_invD(1,3,4,5,8,10) [OF assms(1)] sm.erase_inv by (simp add: server_inv_def t)
  moreover have "posted_ok t (sc_loop (obj s i), ConnectDestroyed i)" using assms(2) by (simp add: o) (simp add: t)
  moreover have "unposted t (conn_of (ConnectDestroyed i))" using assms(3) by (simp add: unposted_def t)
  ultimately show ?thesis using run server_inv_post by blast
qed

lemma getNextLoop_turn:
  assumes "pool_ok s"
  shows "\<exists>p. getNextLoop (sv_threadPool s) = Some (turn_loop (sv_threadPool s) (length (sv_objects s)), p)
    \<and> tp_started p \<and> tp_loops p = tp_loops (sv_threadPool s) \<and> tp_baseLoop p = tp_baseLoop (sv_threadPool s)
    \<and> (tp_loops p \<noteq> [] \<longrightarrow> tp_next p = Suc (length (sv_objects s)) mod length (tp_loops p))"
proof (cases "tp_loops (sv_threadPool s) = []")
  case True
  with assms show ?thesis by (simp add: getNextLoop_def turn_loop_def pool_ok_def)
next
  case False
  let ?p = "sv_threadPool s" and ?n = "length (sv_objects s)"
  let ?k = "length (tp_loops ?p)"
  have next_ok: "tp_next ?p = ?n mod ?k" "tp_next ?p < ?k" using assms False by (simp_all add: pool_ok_def)
  have "Suc ?n mod ?k = (if tp_next ?p + 1 \<ge> ?k then 0 else tp_next ?p + 1)"
    using next_ok by (simp add: mod_Suc)
  then show ?thesis using assms False next_ok by (simp add: getNextLoop_def turn_loop_def pool_ok_def)
qed

lemma newConnection_ok:
  assumes "server_inv s" "sv_nextConnId s < 2 ^ 31 - 1"
  shows "\<exists>s'. newConnection fd peer s = Some s' \<and> server_inv s'"
proof -
  let ?n = "length (sv_objects s)" and ?l = "turn_loop (sv_threadPool s) (length (sv_objects s))"
  let ?name = "conn_name (sv_name s) (sv_ipPort s) (int ?n + 1)"
  obtain p where p: "getNextLoop (sv_threadPool s) = Some (?l, p)" "tp_started p"
    "tp_loops p = tp_loops (sv_threadPool s)" "tp_baseLoop p = tp_baseLoop (sv_threadPool s)"
    "tp_loops p \<noteq> [] \<longrightarrow> tp_next p = Suc ?n mod length (tp_loops p)"
    using getNextLoop_turn [OF server_invD(2) [OF assms(1)]] by blast
  define c where "c = \<lparr>sc_name = ?name, sc_loop = ?l, sc_fd = fd, sc_peer = peer, sc_stage = Created\<rparr>"
  define t where "t = s\<lparr>sv_threadPool := p, sv_nextConnId := sv_nextConnId s + 1, sv_objects := sv_objects s @ [c],
    sv_connections := map_put (sv_connections s) ?name ?n\<rparr>"
  have t: "sv_objects t = sv_objects s @ [c]" "sv_posted t = sv_posted s" "sv_threadPool t = p" "sv_name t = sv_name s"
    "sv_connections t = map_put (sv_connections s) ?name ?n" "sv_ipPort t = sv_ipPort s" "sv_loop t = sv_loop s"
    "sv_nextConnId t = sv_nextConnId s + 1" "sv_acceptor t = sv_acceptor s"
    by (simp_all add: t_def)
  have o: "obj t j = (if j < ?n then obj s j else c)" if "j < Suc ?n" for j
    using that by (auto simp: t(1) nth_append)
  have turn: "turn_loop p j = turn_loop (sv_threadPool s) j" for j by (simp add: turn_loop_def p)
  have id: "sv_nextConnId s = int ?n + 1" using server_invD(3) [OF assms(1)] .
  have fresh: "sc_name (obj s j) \<noteq> ?name" if "j < ?n" for j
  proof
    assume "sc_name (obj s j) = ?name"
    with server_invD(6) [OF assms(1) that]
    have "conn_name (sv_name s) (sv_ipPort s) (int j + 1) = ?name" by (simp add: obj_ok_def)
    moreover have "int j + 1 < 2 ^ 31" "int ?n + 1 < 2 ^ 31" using that server_invD(4) [OF assms(1)] id by linarith+
    ultimately have "int j + 1 = int ?n + 1" by (intro conn_name_inject [OF server_invD(1) [OF assms(1)]]) simp_all
    with that show False by simp
  qed
  have "obj_ok t j" if "j < Suc ?n" for j
  proof (cases "j < ?n")
    case True
    with server_invD(6) [OF assms(1) True] fresh [OF True] o [OF that] show ?thesis
      by (auto simp: obj_ok_def t turn)
  next
    case False
    with that have "j = ?n" by simp
    with o [OF that] show ?thesis by (simp add: obj_ok_def t turn c_def live_def add.commute)
  qed
  moreover have "posted_ok t e" if "e \<in> set (sv_posted s)" for e
  proof -
    obtain l f where e: "e = (l, f)" by (cases e)
    show ?thesis using server_invD(9) [OF assms(1) that] unfolding e by (cases f) (auto simp: t(1,7) nth_append)
  qed
  moreover have "j < Suc ?n \<and> k = sc_name (obj t j)" if "map_find (sv_connections t) k = Some j" for k j
    using that server_invD(7) [OF assms(1), of k j] o [of j] by (auto simp: t(5) c_def split: if_splits)
  moreover have "pool_ok t" using p by (simp add: pool_ok_def t)
  ultimately have inv: "server_inv t"
    using server_invD(1,5,8,10) [OF assms(1)] id assms(2) sm.put_inv by (simp add: server_inv_def t)
  have unp: "unposted t ?n"
  proof -
    have "conn_of (snd e) \<noteq> ?n" if "e \<in> set (sv_posted s)" for e
    proof -
      obtain l f where e: "e = (l, f)" by (cases e)
      show ?thesis using server_invD(9) [OF assms(1) that] unfolding e by (cases f) auto
    qed
    then show ?thesis by (simp add: unposted_def t)
  qed
  have stage: "sc_stage (obj t ?n) = Created" "sc_loop (obj t ?n) = ?l" by (simp_all add: o c_def)
  have "newConnection fd peer s = Some (if ?l = sv_loop t then set_stage ?n Up t else post ?l (ConnectEstablished ?n) t)"
    using p(1) assms(2) id by (simp add: newConnection_def t_def c_def Let_def)
  moreover have "server_inv (set_stage ?n Up t)"
    using server_inv_stage [OF inv _ unp] stage by (simp add: t live_def)
  moreover have "server_inv (post ?l (ConnectEstablished ?n) t)"
    using server_inv_post [OF inv, of ?l "ConnectEstablished ?n"] unp stage by (simp add: t)
  ultimately show ?thesis by simp
qed

lemma server_inv_unpost:
  assumes "server_inv s" "k < length (sv_posted s)"
  defines "t \<equiv> s\<lparr>sv_posted := take k (sv_posted s) @ drop (Suc k) (sv_posted s)\<rparr>"
  shows "server_inv t" "unposted t (conn_of (snd (sv_posted s ! k)))" "posted_ok t (sv_posted s ! k)"
proof -
  let ?e = "sv_posted s ! k"
  have split: "sv_posted s = take k (sv_posted s) @ ?e # drop (Suc k) (sv_posted s)"
    using assms(2) by (simp add: id_take_nth_drop)
  have p: "posted_ok t e = posted_ok s e" for e by (cases "(s, e)" rule: posted_ok.cases) (simp_all add: t_def)
  have sub: "set (sv_posted t) \<subseteq> set (sv_posted s)" by (auto simp: t_def dest: in_set_takeD in_set_dropD)
  have dist: "distinct (take k (sv_posted s) @ ?e # drop (Suc k) (sv_posted s))"
    using server_invD(8) [OF assms(1)] split by metis
  have obj: "obj_ok t j = obj_ok s j" for j by (simp add: obj_ok_def t_def)
  have "pool_ok t = pool_ok s" by (simp add: pool_ok_def t_def)
  then show "server_inv t"
    using server_invD [OF assms(1)] dist sub obj by (auto simp: server_inv_def p) (simp_all add: t_def)
  have pe: "posted_ok s ?e" using server_invD(9) [OF assms(1)] assms(2) by simp
  then show "posted_ok t ?e" by (simp add: p)
  have "e = ?e" if "e \<in> set (sv_posted s)" "conn_of (snd e) = conn_of (snd ?e)" for e
  proof -
    have "posted_ok s e" using server_invD(9) [OF assms(1) that(1)] .
    with pe that(2) show ?thesis
      by (cases e; cases ?e; cases "snd e"; cases "snd ?e") auto
  qed
  moreover have "?e \<notin> set (sv_posted t)" using dist by (simp add: t_def)
  ultimately show "unposted t (conn_of (snd ?e))" unfolding unposted_def using sub by blast
qed

lemma run_posted_ok:
  assumes "server_inv s" "k < length (sv_posted s)"
  shows "\<exists>s'. run_posted k s = Some s' \<and> server_inv s'"
proof -
  define t where "t = s\<lparr>sv_posted := take k (sv_posted s) @ drop (Suc k) (sv_posted s)\<rparr>"
  obtain l f where e: "sv_posted s ! k = (l, f)" by (cases "sv_posted s ! k")
  have t: "server_inv t" "unposted t (conn_of f)" "posted_ok t (l, f)"
    using server_inv_unpost [OF assms] by (simp_all add: t_def e)
  have r: "run_posted k s = (case f of ConnectEstablished conn \<Rightarrow> Some (set_stage conn Up t)
      | RemoveConnectionInLoop conn \<Rightarrow> removeConnectionInLoop conn t | ConnectDestroyed conn \<Rightarrow> Some (set_stage conn Destroyed t))"
    unfolding t_def by (simp add: run_posted_def e Let_def)
  show ?thesis
  proof (cases f)
    case (ConnectEstablished i)
    then show ?thesis using r t server_inv_stage [OF t(1), of i Up] by (simp add: live_def)
  next
    case (RemoveConnectionInLoop i)
    then show ?thesis using r t removeConnectionInLoop_ok [OF t(1), of i] by simp
  next
    case (ConnectDestroyed i)
    then show ?thesis using r t server_inv_stage [OF t(1), of i Destroyed] by (simp add: live_def)
  qed
qed

lemma close_callback_ok:
  assumes "server_inv s" "i < length (sv_objects s)" "sc_stage (obj s i) = Up"
  shows "\<exists>s'. close_callback i s = Some s' \<and> server_inv s'"
proof -
  have u: "unposted s i" unfolding unposted_def
  proof
    fix e assume "e \<in> set (sv_posted s)"
    then have "posted_ok s e" by (rule server_invD(9) [OF assms(1)])
    with assms(3) show "conn_of (snd e) \<noteq> i" by (cases "(s, e)" rule: posted_ok.cases) auto
  qed
  let ?t = "set_stage i Closing s"
  have t: "server_inv ?t" using server_inv_stage [OF assms(1,2) u] assms(3) by (simp add: live_def)
  have u': "unposted ?t i" using u by (simp add: unposted_def)
  have st: "sc_stage (obj ?t i) = Closing" using assms(2) by simp
  have "\<exists>s'. removeConnectionInLoop i ?t = Some s' \<and> server_inv s'"
    using removeConnectionInLoop_ok [OF t _ u' st] assms(2) by simp
  moreover have "server_inv (post (sv_loop ?t) (RemoveConnectionInLoop i) ?t)"
    using server_inv_post [OF t, of "sv_loop ?t" "RemoveConnectionInLoop i"] u' st assms(2) by simp
  ultimately show ?thesis by (simp add: close_callback_def removeConnection_def)
qed

section \<open>Runs\<close>

datatype server_op = Accept accept_answer int int | RunPosted nat | CloseCallback nat

fun server_do :: "server_op \<Rightarrow> TcpServer \<Rightarrow> TcpServer option" where
  "server_do (Accept answer second_accept reopened) s = server_accepts answer second_accept reopened s"
| "server_do (RunPosted k) s = run_posted k s"
| "server_do (CloseCallback i) s = close_callback i s"

text \<open>\<^verbatim>\<open>accept\<close> answers nothing fatal and connection numbers have not run out; only a connection that is up runs its
  close callback.\<close>

fun server_allowed :: "server_op \<Rightarrow> TcpServer \<Rightarrow> bool" where
  "server_allowed (Accept answer second_accept reopened) s \<longleftrightarrow> sockets_accept answer \<noteq> None \<and> sv_nextConnId s < 2 ^ 31 - 1"
| "server_allowed (RunPosted k) s \<longleftrightarrow> k < length (sv_posted s)"
| "server_allowed (CloseCallback i) s \<longleftrightarrow> i < length (sv_objects s) \<and> sc_stage (sv_objects s ! i) = Up"

text \<open>The runs of a server. The text \<^verbatim>\<open>inet_ntop\<close> gives for an IPv6 address has at most 45 characters
  (\<^verbatim>\<open>INET6_ADDRSTRLEN\<close> counts the terminating zero).\<close>

inductive server_reachable :: "TcpServer \<Rightarrow> bool" where
  started: "\<forall>b. length (ntop6 b) \<le> 45 \<Longrightarrow> InetAddress_toIpPort ntop6 listenAddr = Some ipPort
    \<Longrightarrow> TcpServer_start loopOf cb (TcpServer_setThreadNum n (TcpServer_new loop ipPort name acceptor)) = Some s
    \<Longrightarrow> server_reachable s"
| happens: "server_reachable s \<Longrightarrow> server_allowed x s \<Longrightarrow> server_do x s = Some s' \<Longrightarrow> server_reachable s'"

lemma fold_start_thread:
  "tp_started (fold (start_thread loopOf cb) is p) = tp_started p"
  "tp_next (fold (start_thread loopOf cb) is p) = tp_next p"
  "tp_loops (fold (start_thread loopOf cb) is p) = tp_loops p @ map loopOf is"
  "tp_baseLoop (fold (start_thread loopOf cb) is p) = tp_baseLoop p"
  "tp_numThreads (fold (start_thread loopOf cb) is p) = tp_numThreads p"
  by (induction "is" arbitrary: p) (simp_all add: start_thread_def)

lemma pool_start_new:
  assumes "pool_start loopOf cb ((EventLoopThreadPool_new loop name)\<lparr>tp_numThreads := n\<rparr>) = Some p"
  shows "tp_started p" "tp_next p = 0" "tp_loops p = map loopOf [0..<nat n]" "tp_baseLoop p = loop"
  using assms by (auto simp: pool_start_def EventLoopThreadPool_new_def Let_def fold_start_thread)

lemma server_start_inv:
  assumes "length ipPort \<le> 51"
    "TcpServer_start loopOf cb (TcpServer_setThreadNum n (TcpServer_new loop ipPort name acceptor)) = Some s"
  shows "server_inv s"
proof -
  from assms(2) obtain p a where pa:
    "pool_start loopOf cb ((EventLoopThreadPool_new loop name)\<lparr>tp_numThreads := n\<rparr>) = Some p"
    "Acceptor_listen (acceptor\<lparr>ac_hasCallback := True\<rparr>) = Some a"
    "s = (TcpServer_setThreadNum n (TcpServer_new loop ipPort name acceptor))\<lparr>sv_started := True, sv_threadPool := p, sv_acceptor := a\<rparr>"
    by (auto simp: TcpServer_start_def TcpServer_setThreadNum_def TcpServer_new_def split: Option.bind_splits)
  have "ac_hasCallback a" using pa(2) by (auto simp: Acceptor_listen_def Let_def split: Option.bind_splits)
  then show ?thesis using assms(1) pool_start_new [OF pa(1)]
    by (simp add: pa(3) server_inv_def pool_ok_def TcpServer_setThreadNum_def TcpServer_new_def)
qed

lemma server_inv_acceptor:
  assumes "server_inv s" "ac_hasCallback a"
  shows "server_inv (s\<lparr>sv_acceptor := a\<rparr>)"
proof -
  let ?t = "s\<lparr>sv_acceptor := a\<rparr>"
  have "posted_ok ?t e = posted_ok s e" for e by (cases "(s, e)" rule: posted_ok.cases) simp_all
  moreover have "obj_ok ?t j = obj_ok s j" for j by (simp add: obj_ok_def)
  moreover have "pool_ok ?t = pool_ok s" by (simp add: pool_ok_def)
  ultimately show ?thesis using server_invD [OF assms(1)] assms(2) by (simp add: server_inv_def)
qed

lemma server_do_ok:
  assumes "server_inv s" "server_allowed x s"
  shows "\<exists>s'. server_do x s = Some s' \<and> server_inv s'"
proof (cases x)
  case (Accept answer second_accept reopened)
  with assms(2) obtain connfd errno addr where acc: "sockets_accept answer = Some (connfd, errno, addr)" by auto
  have cb: "ac_hasCallback (sv_acceptor s)" using server_invD(10) [OF assms(1)] .
  note same = server_inv_acceptor [OF assms(1)]
  have new: "\<exists>s'. newConnection connfd addr s = Some s' \<and> server_inv s'"
    using newConnection_ok [OF assms(1)] assms(2) Accept by simp
  show ?thesis using acc cb same [of "(sv_acceptor s)\<lparr>ac_idleFd := reopened\<rparr>"] new assms(1)
    by (auto simp: Accept server_accepts_def Acceptor_handleRead_def Socket_accept_def)
next
  case (RunPosted k)
  with run_posted_ok [OF assms(1)] assms(2) show ?thesis by simp
next
  case (CloseCallback i)
  with close_callback_ok [OF assms(1)] assms(2) show ?thesis by simp
qed

lemma server_reachable_inv: "server_reachable s \<Longrightarrow> server_inv s"
proof (induction rule: server_reachable.induct)
  case (started ntop6 listenAddr ipPort loopOf cb n loop name acceptor s)
  from started(1,2) have "length ipPort \<le> 51" by (rule toIpPort_length)
  with started(3) show ?case by (rule server_start_inv [rotated])
next
  case (happens s x s')
  then show ?case using server_do_ok by fastforce
qed

section \<open>Properties\<close>

text \<open>C29. A started server never stops the process while it accepts connections, its loops
  run the functors posted to them in any interleaving and connections close: the removal of a connection always finds
  it in the map. The map holds exactly the connections not yet removed, each under its own name, and the
  connections are dealt out to the pool's loops in turn.\<close>

theorem server_connection_map:
  assumes "server_reachable s" "server_allowed x s"
  shows "\<exists>s'. server_do x s = Some s'
    \<and> (\<forall>i < length (sv_objects s').
          map_find (sv_connections s') (sc_name (sv_objects s' ! i)) = (if live (sc_stage (sv_objects s' ! i)) then Some i else None)
        \<and> sc_loop (sv_objects s' ! i) = turn_loop (sv_threadPool s') i)
    \<and> distinct (map sc_name (sv_objects s'))"
proof -
  obtain s' where s': "server_do x s = Some s'" "server_inv s'"
    using server_do_ok [OF server_reachable_inv [OF assms(1)] assms(2)] by blast
  have "distinct (map sc_name (sv_objects s'))"
    using names_distinct [OF s'(2)] by (auto simp: distinct_conv_nth)
  then show ?thesis using s' server_invD(6) [OF s'(2)] unfolding obj_ok_def by blast
qed

text \<open>For the witness: a server with two threads on port 8080.\<close>

definition demo_acceptor :: Acceptor where
  "demo_acceptor = \<lparr>ac_channel = 1, ac_reactor = set_chan 1 (Channel_new 3) EpollPoller_new, ac_hasCallback = False,
     ac_listenning = False, ac_idleFd = 4\<rparr>"

definition demo_server :: TcpServer where
  "demo_server = TcpServer_setThreadNum 2 (TcpServer_new 0 ''0.0.0.0:8080'' ''demo'' demo_acceptor)"

lemma demo_server_starts: "\<exists>s. TcpServer_start Suc False demo_server = Some s \<and> sv_nextConnId s = 1"
proof -
  let ?r = "set_chan 1 (Channel_new 3) EpollPoller_new" and ?c = "Channel_new 3"
  have "reactor_inv ?r" by (rule new_inv) (simp_all add: chan_def EpollPoller_new_def reactor_inv_new [unfolded EpollPoller_new_def])
  moreover have "\<not> (ch_index ?c = kNew \<and> map_find (rc_channels ?r) (ch_fd ?c) \<noteq> None)" by (simp add: EpollPoller_new_def)
  ultimately obtain r where "enableReading 1 ?r = Some r"
    using with_events_cases [of ?r 1 ?c "\<lambda>e. e OR kReadEvent"] by (auto simp: enableReading_def)
  then show ?thesis
    by (simp add: TcpServer_start_def demo_server_def TcpServer_setThreadNum_def TcpServer_new_def pool_start_def
        EventLoopThreadPool_new_def demo_acceptor_def Acceptor_listen_def Let_def)
qed

theorem server_connection_map_witness:
  "\<exists>s s'. TcpServer_start Suc False demo_server = Some s
    \<and> server_do (Accept (Accepted 7 (InetAddress_new 99 True False)) 0 0) s = Some s'
    \<and> (\<forall>i < length (sv_objects s').
          map_find (sv_connections s') (sc_name (sv_objects s' ! i)) = (if live (sc_stage (sv_objects s' ! i)) then Some i else None)
        \<and> sc_loop (sv_objects s' ! i) = turn_loop (sv_threadPool s') i)
    \<and> distinct (map sc_name (sv_objects s'))"
proof -
  obtain s where s: "TcpServer_start Suc False demo_server = Some s" "sv_nextConnId s = 1" using demo_server_starts by blast
  have "dec 8080 = ''8080''" by (simp add: dec.simps digit_char_def char_of_def bit_0)
  then have "InetAddress_toIpPort (\<lambda>b. []) (InetAddress_new 8080 False False) = Some ''0.0.0.0:8080''"
    by (simp add: toIpPort_new)
  then have "server_reachable s"
    using s(1) unfolding demo_server_def by (rule server_reachable.started [rotated]) simp
  moreover have "server_allowed (Accept (Accepted 7 (InetAddress_new 99 True False)) 0 0) s"
    using s(2) by (simp add: sockets_accept_def)
  ultimately show ?thesis using server_connection_map s(1) by blast
qed

end
