(* ===== verification/Connectors.thy ===== *)
theory Connectors
  imports Poller "HOL-Library.Multiset"
begin

text \<open>
  \<^verbatim>\<open>pallette/Connector.h\<close>, \<^verbatim>\<open>Connector.cpp\<close>: the client side's non-blocking connect with retries, in the loop
  thread, over the channels and the poller of \<^verbatim>\<open>Poller\<close>.

  What the system calls of an attempt answer is an argument: the new descriptor, the address of the channel
  object and the \<^verbatim>\<open>errno\<close> of \<^verbatim>\<open>connect\<close>; for a writable event the pending socket error and whether the
  socket connected to itself. \<open>cn_timers\<close> holds the armed retry timers with their delays, \<open>cn_queued\<close> the
  functors put into the loop; \<open>cn_opened\<close>, \<open>cn_closed\<close> and \<open>cn_delivered\<close> record the descriptors created,
  closed and handed to \<^verbatim>\<open>newConnectionCallback_\<close>, and \<open>cn_delays\<close> the delays armed.
\<close>

datatype States = cnDisconnected | cnConnecting | cnConnected

datatype connector_functor = StopInLoop | ResetChannel

definition kMaxRetryDelayMs :: int where "kMaxRetryDelayMs = 30 * 1000"
definition kInitRetryDelayMs :: int where "kInitRetryDelayMs = 500"

record Connector =
  cn_connect :: bool
  cn_state :: States
  cn_channel :: "addr option"
  cn_retryDelayMs :: int
  cn_retryConnector :: bool
  cn_retryConnectorTimerId :: nat
  cn_reactor :: reactor
  cn_timers :: "(nat \<times> int) list"
  cn_nextTimer :: nat
  cn_queued :: "connector_functor list"
  cn_opened :: "int list"
  cn_closed :: "int list"
  cn_delivered :: "int list"
  cn_delays :: "int list"

record attempt =
  at_sockfd :: int
  at_channel :: addr
  at_errno :: nat

definition Connector_new :: "reactor \<Rightarrow> Connector" where
  "Connector_new r =
     \<lparr>cn_connect = False, cn_state = cnDisconnected, cn_channel = None, cn_retryDelayMs = kInitRetryDelayMs,
      cn_retryConnector = False, cn_retryConnectorTimerId = 0, cn_reactor = r, cn_timers = [], cn_nextTimer = 1,
      cn_queued = [], cn_opened = [], cn_closed = [], cn_delivered = [], cn_delays = []\<rparr>"

definition Connector_destroy :: "Connector \<Rightarrow> unit option" where
  "Connector_destroy s = assertion (cn_channel s = None)"

text \<open>\<^verbatim>\<open>errno\<close> values of Linux.\<close>

definition going_on :: "nat set" where
  "going_on = {0, 115, 4, 106}" \<comment> \<open>\<^verbatim>\<open>0, EINPROGRESS, EINTR, EISCONN\<close>\<close>

definition try_again :: "nat set" where
  "try_again = {11, 98, 99, 111, 101}" \<comment> \<open>\<^verbatim>\<open>EAGAIN, EADDRINUSE, EADDRNOTAVAIL, ECONNREFUSED, ENETUNREACH\<close>\<close>

definition close_socket :: "int \<Rightarrow> Connector \<Rightarrow> Connector" where
  "close_socket sockfd s = s\<lparr>cn_closed := cn_closed s @ [sockfd]\<rparr>"

definition Connector_retry :: "int \<Rightarrow> Connector \<Rightarrow> Connector" where
  "Connector_retry sockfd s =
     (let s = (close_socket sockfd s)\<lparr>cn_state := cnDisconnected\<rparr> in
      if cn_connect s then
        s\<lparr>cn_timers := cn_timers s @ [(cn_nextTimer s, cn_retryDelayMs s)],
          cn_delays := cn_delays s @ [cn_retryDelayMs s],
          cn_retryConnectorTimerId := cn_nextTimer s, cn_nextTimer := cn_nextTimer s + 1,
          cn_retryDelayMs := min (cn_retryDelayMs s * 2) kMaxRetryDelayMs,
          cn_retryConnector := True\<rparr>
      else s)"

definition Connector_connecting :: "int \<Rightarrow> addr \<Rightarrow> Connector \<Rightarrow> Connector option" where
  "Connector_connecting sockfd ch s = do {
     let s = s\<lparr>cn_state := cnConnecting\<rparr>;
     assertion (cn_channel s = None);
     let s = s\<lparr>cn_channel := Some ch, cn_reactor := set_chan ch (Channel_new sockfd) (cn_reactor s)\<rparr>;
     r \<leftarrow> enableWriting ch (cn_reactor s);
     Some (s\<lparr>cn_reactor := r\<rparr>) }"

text \<open>\<^verbatim>\<open>createNonblockingOrDie\<close> ends the process with \<^verbatim>\<open>LOG_SYSFATAL\<close> when there is no descriptor to be had.\<close>

definition Connector_connect :: "attempt \<Rightarrow> Connector \<Rightarrow> Connector option" where
  "Connector_connect att s = do {
     let sockfd = at_sockfd att;
     assertion (\<not> sockfd < 0);
     let s = s\<lparr>cn_opened := cn_opened s @ [sockfd]\<rparr>;
     if at_errno att \<in> going_on then Connector_connecting sockfd (at_channel att) s
     else if at_errno att \<in> try_again then Some (Connector_retry sockfd s)
     else Some (close_socket sockfd s) }"

definition Connector_startInLoop :: "attempt \<Rightarrow> Connector \<Rightarrow> Connector option" where
  "Connector_startInLoop att s = do {
     assertion (cn_state s = cnDisconnected);
     let s = s\<lparr>cn_retryConnector := False\<rparr>;
     if cn_connect s then Connector_connect att s else Some s }"

definition Connector_start :: "attempt \<Rightarrow> Connector \<Rightarrow> Connector option" where
  "Connector_start att s = Connector_startInLoop att (s\<lparr>cn_connect := True\<rparr>)"

definition Connector_restart :: "attempt \<Rightarrow> Connector \<Rightarrow> Connector option" where
  "Connector_restart att s =
     Connector_startInLoop att (s\<lparr>cn_state := cnDisconnected, cn_retryDelayMs := kInitRetryDelayMs, cn_connect := True\<rparr>)"

definition Connector_stop :: "Connector \<Rightarrow> Connector" where
  "Connector_stop s = s\<lparr>cn_connect := False, cn_queued := cn_queued s @ [StopInLoop]\<rparr>"

text \<open>A null \<^verbatim>\<open>channel_\<close> is dereferenced: the process stops.\<close>

definition removeAndResetChannel :: "Connector \<Rightarrow> (int \<times> Connector) option" where
  "removeAndResetChannel s = do {
     a \<leftarrow> cn_channel s;
     r \<leftarrow> disableAll a (cn_reactor s);
     r \<leftarrow> Channel_remove a r;
     c \<leftarrow> chan r a;
     Some (ch_fd c, s\<lparr>cn_reactor := r, cn_queued := cn_queued s @ [ResetChannel]\<rparr>) }"

definition resetChannel :: "Connector \<Rightarrow> Connector option" where
  "resetChannel s =
     (case cn_channel s of
        None \<Rightarrow> Some s
      | Some a \<Rightarrow> do {
          r \<leftarrow> Channel_destroy a (cn_reactor s);
          Some (s\<lparr>cn_channel := None, cn_reactor := r\<rparr>) })"

definition cancel_retry :: "Connector \<Rightarrow> Connector" where
  "cancel_retry s = s\<lparr>cn_timers := filter (\<lambda>(id, d). id \<noteq> cn_retryConnectorTimerId s) (cn_timers s)\<rparr>"

definition Connector_stopInLoop :: "Connector \<Rightarrow> Connector option" where
  "Connector_stopInLoop s = do {
     let s = (if cn_retryConnector s then cancel_retry s else s);
     if cn_state s = cnConnecting then do {
       (sockfd, s) \<leftarrow> removeAndResetChannel (s\<lparr>cn_state := cnDisconnected\<rparr>);
       Some (Connector_retry sockfd s) }
     else Some s }"

definition Connector_handleWrite :: "nat \<Rightarrow> bool \<Rightarrow> Connector \<Rightarrow> Connector option" where
  "Connector_handleWrite err selfConnect s =
     (if cn_state s = cnConnecting then do {
        (sockfd, s) \<leftarrow> removeAndResetChannel s;
        if err \<noteq> 0 then Some (Connector_retry sockfd s)
        else if selfConnect then Some (Connector_retry sockfd s)
        else do {
          let s = s\<lparr>cn_state := cnConnected\<rparr>;
          if cn_connect s then Some (s\<lparr>cn_delivered := cn_delivered s @ [sockfd]\<rparr>)
          else Some (close_socket sockfd s) } }
      else do { assertion (cn_state s = cnDisconnected); Some s })"

definition Connector_handleError :: "Connector \<Rightarrow> Connector option" where
  "Connector_handleError s =
     (if cn_state s = cnConnecting then do {
        (sockfd, s) \<leftarrow> removeAndResetChannel s;
        Some (Connector_retry sockfd s) }
      else Some s)"

text \<open>What happens to a connector: its owner starts, restarts and stops it, a retry timer fires, the loop runs the
  next queued functor, and its channel reports an event.\<close>

datatype connector_op =
    CStart attempt | CRestart attempt | CStop | CTimer attempt | CRun | CWrite nat bool | CError

definition run_functor :: "Connector \<Rightarrow> Connector option" where
  "run_functor s =
     (case cn_queued s of
        [] \<Rightarrow> Some s
      | StopInLoop # fs \<Rightarrow> Connector_stopInLoop (s\<lparr>cn_queued := fs\<rparr>)
      | ResetChannel # fs \<Rightarrow> resetChannel (s\<lparr>cn_queued := fs\<rparr>))"

definition timer_fires :: "attempt \<Rightarrow> Connector \<Rightarrow> Connector option" where
  "timer_fires att s =
     (case cn_timers s of
        [] \<Rightarrow> Some s
      | t # ts \<Rightarrow> Connector_startInLoop att (s\<lparr>cn_timers := ts\<rparr>))"

fun connector_do :: "connector_op \<Rightarrow> Connector \<Rightarrow> Connector option" where
  "connector_do (CStart att) s = Connector_start att s"
| "connector_do (CRestart att) s = Connector_restart att s"
| "connector_do CStop s = Some (Connector_stop s)"
| "connector_do (CTimer att) s = timer_fires att s"
| "connector_do CRun s = run_functor s"
| "connector_do (CWrite err self) s = Connector_handleWrite err self s"
| "connector_do CError s = Connector_handleError s"

text \<open>An attempt's descriptor and channel object are new. The owner starts an idle connector and restarts one whose
  connection has ended. The loop runs the functors an event queued before the next timer fires, except
  after a stop, and reports no event to a connector that is connected.\<close>

definition fresh_try :: "attempt \<Rightarrow> Connector \<Rightarrow> bool" where
  "fresh_try att s \<longleftrightarrow> chan (cn_reactor s) (at_channel att) = None
     \<and> map_find (rc_channels (cn_reactor s)) (at_sockfd att) = None"

fun connector_allowed :: "connector_op \<Rightarrow> Connector \<Rightarrow> bool" where
  "connector_allowed (CStart att) s \<longleftrightarrow>
     fresh_try att s \<and> cn_state s = cnDisconnected \<and> cn_timers s = [] \<and> cn_channel s = None"
| "connector_allowed (CRestart att) s \<longleftrightarrow> fresh_try att s \<and> cn_state s = cnConnected \<and> cn_channel s = None"
| "connector_allowed CStop s \<longleftrightarrow> True"
| "connector_allowed (CTimer att) s \<longleftrightarrow> fresh_try att s \<and> (cn_connect s \<longrightarrow> ResetChannel \<notin> set (cn_queued s))"
| "connector_allowed CRun s \<longleftrightarrow> True"
| "connector_allowed (CWrite err self) s \<longleftrightarrow> cn_state s \<noteq> cnConnected"
| "connector_allowed CError s \<longleftrightarrow> cn_state s \<noteq> cnConnected"

text \<open>The operation makes an attempt and \<^verbatim>\<open>socket\<close> gives it no descriptor.\<close>

fun no_descriptor :: "connector_op \<Rightarrow> Connector \<Rightarrow> bool" where
  "no_descriptor (CStart att) s \<longleftrightarrow> at_sockfd att < 0"
| "no_descriptor (CRestart att) s \<longleftrightarrow> at_sockfd att < 0"
| "no_descriptor (CTimer att) s \<longleftrightarrow> at_sockfd att < 0 \<and> cn_timers s \<noteq> [] \<and> cn_connect s"
| "no_descriptor _ s \<longleftrightarrow> False"

lemma no_descriptor_stops: "no_descriptor x s \<Longrightarrow> connector_do x s = None"
  by (cases "(x, s)" rule: no_descriptor.cases)
    (auto simp: Connector_start_def Connector_restart_def Connector_startInLoop_def Connector_connect_def timer_fires_def
      Let_def split: list.splits)

section \<open>The channel of an attempt\<close>

lemma destroy_new_ok:
  assumes "reactor_inv r" "chan r a = Some c" "ch_index c = kNew" "\<not> ch_addedToLoop c" "\<not> ch_eventHandling c"
  shows "\<exists>r'. Channel_destroy a r = Some r' \<and> reactor_inv r' \<and> rc_eventHandling r' = rc_eventHandling r"
proof -
  have "map_find (rc_channels r) (ch_fd c) \<noteq> Some a" using reactor_invD(1) [OF assms(1,2)] assms(3) by blast
  then have d: "Channel_destroy a r = Some (r\<lparr>rc_chans := snd (map_erase (rc_chans r) a)\<rparr>)"
    using assms(2,4,5) by (simp add: Channel_destroy_def EventLoop_hasChannel_def EpollPoller_hasChannel_def)
  with destroy_inv [OF assms(1) d] show ?thesis by simp
qed

lemma removeAndResetChannel_ok:
  assumes "reactor_inv (cn_reactor s)" "\<not> rc_eventHandling (cn_reactor s)" "cn_channel s = Some a"
    "chan (cn_reactor s) a = Some c" "ch_index c \<noteq> kNew"
  obtains r c' where "removeAndResetChannel s
      = Some (ch_fd c, s\<lparr>cn_reactor := r, cn_queued := cn_queued s @ [ResetChannel]\<rparr>)"
    "reactor_inv r" "\<not> rc_eventHandling r" "chan r a = Some c'" "ch_index c' = kNew" "\<not> ch_addedToLoop c'"
    "ch_eventHandling c' = ch_eventHandling c"
proof -
  have "\<not> (ch_index c = kNew \<and> map_find (rc_channels (cn_reactor s)) (ch_fd c) \<noteq> None)" using assms(5) by simp
  with with_events_cases [OF assms(1,4), of "\<lambda>e. kNoneEvent"] obtain r1 i where
    r1: "disableAll a (cn_reactor s) = Some r1" "reactor_inv r1"
    "chan r1 = (chan (cn_reactor s))(a \<mapsto> c\<lparr>ch_events := kNoneEvent, ch_addedToLoop := True, ch_index := i\<rparr>)"
    "rc_eventHandling r1 = rc_eventHandling (cn_reactor s)" "i = kAdded \<or> i = kDeleted"
    by (simp only: if_False disableAll_def) blast
  let ?c1 = "c\<lparr>ch_events := kNoneEvent, ch_addedToLoop := True, ch_index := i\<rparr>"
  have c1: "chan r1 a = Some ?c1" "isNoneEvent ?c1" "ch_index ?c1 \<noteq> kNew" using r1(3,5) by (auto simp: isNoneEvent_def)
  obtain r where r: "Channel_remove a r1 = Some r" "reactor_inv r" "\<not> rc_eventHandling r"
    "chan r a = Some (?c1\<lparr>ch_addedToLoop := False, ch_index := kNew\<rparr>)"
    using remove_ok [OF r1(2) c1(1)] c1(2,3) r1(4) assms(2) by auto
  let ?c2 = "?c1\<lparr>ch_addedToLoop := False, ch_index := kNew\<rparr>"
  have "removeAndResetChannel s = Some (ch_fd c, s\<lparr>cn_reactor := r, cn_queued := cn_queued s @ [ResetChannel]\<rparr>)"
    using assms(3) r1(1) r(1,4) by (simp add: removeAndResetChannel_def)
  then show ?thesis using that [of r ?c2] r by simp
qed

lemma removeAndResetChannel_state:
  "removeAndResetChannel (s\<lparr>cn_state := x\<rparr>) = map_option (\<lambda>(fd, t). (fd, t\<lparr>cn_state := x\<rparr>)) (removeAndResetChannel s)"
  by (simp add: removeAndResetChannel_def split: Option.bind_splits)

section \<open>The invariant of a connector\<close>

text \<open>While an attempt is in progress its channel is registered and no retry is armed; otherwise the channel object is
  either gone or removed and about to be destroyed by the one queued functor. At most one retry timer is armed. Every
  descriptor created is the attempt's, was handed over or was closed, exactly once.\<close>

definition pending_fd :: "Connector \<Rightarrow> int list" where
  "pending_fd s = (if cn_state s = cnConnecting then
       case cn_channel s of
         None \<Rightarrow> []
       | Some a \<Rightarrow> (case chan (cn_reactor s) a of None \<Rightarrow> [] | Some c \<Rightarrow> [ch_fd c])
     else [])"

definition channel_ok :: "Connector \<Rightarrow> bool" where
  "channel_ok s \<longleftrightarrow>
     (if cn_state s = cnConnecting then
        ResetChannel \<notin> set (cn_queued s) \<and> cn_timers s = []
        \<and> (\<exists>a c. cn_channel s = Some a \<and> chan (cn_reactor s) a = Some c \<and> ch_index c \<noteq> kNew \<and> \<not> ch_eventHandling c)
      else
        (case cn_channel s of
           None \<Rightarrow> ResetChannel \<notin> set (cn_queued s)
         | Some a \<Rightarrow> count_list (cn_queued s) ResetChannel = 1
             \<and> (\<exists>c. chan (cn_reactor s) a = Some c \<and> ch_index c = kNew \<and> \<not> ch_addedToLoop c \<and> \<not> ch_eventHandling c)))"

definition sockets_ok :: "Connector \<Rightarrow> bool" where
  "sockets_ok s \<longleftrightarrow> mset (cn_opened s) = mset (cn_closed s) + mset (cn_delivered s) + mset (pending_fd s)"

definition connector_inv :: "Connector \<Rightarrow> bool" where
  "connector_inv s \<longleftrightarrow> reactor_inv (cn_reactor s) \<and> \<not> rc_eventHandling (cn_reactor s)
     \<and> channel_ok s \<and> sockets_ok s
     \<and> length (cn_timers s) \<le> 1 \<and> (cn_timers s \<noteq> [] \<longrightarrow> cn_state s = cnDisconnected)"

lemma connector_inv_connecting:
  assumes "connector_inv s" "cn_state s = cnConnecting"
  obtains a c where "cn_channel s = Some a" "chan (cn_reactor s) a = Some c" "ch_index c \<noteq> kNew" "\<not> ch_eventHandling c"
    "ResetChannel \<notin> set (cn_queued s)" "cn_timers s = []"
    "mset (cn_opened s) = mset (cn_closed s) + mset (cn_delivered s) + {#ch_fd c#}"
  using assms by (auto simp: connector_inv_def channel_ok_def sockets_ok_def pending_fd_def)

text \<open>An attempt has ended and its descriptor was closed or handed over.\<close>

lemma connector_inv_ended:
  assumes "cn_state s' \<noteq> cnConnecting" "reactor_inv (cn_reactor s')" "\<not> rc_eventHandling (cn_reactor s')"
    "cn_channel s' = Some a" "chan (cn_reactor s') a = Some c" "ch_index c = kNew" "\<not> ch_addedToLoop c" "\<not> ch_eventHandling c"
    "count_list (cn_queued s') ResetChannel = 1"
    "mset (cn_opened s') = mset (cn_closed s') + mset (cn_delivered s')"
    "length (cn_timers s') \<le> 1" "cn_timers s' \<noteq> [] \<longrightarrow> cn_state s' = cnDisconnected"
  shows "connector_inv s'"
  using assms by (simp add: connector_inv_def channel_ok_def sockets_ok_def pending_fd_def)

lemma retry_simps [simp]:
  "cn_state (Connector_retry fd s) = cnDisconnected" "cn_reactor (Connector_retry fd s) = cn_reactor s"
  "cn_channel (Connector_retry fd s) = cn_channel s" "cn_queued (Connector_retry fd s) = cn_queued s"
  "cn_opened (Connector_retry fd s) = cn_opened s" "cn_delivered (Connector_retry fd s) = cn_delivered s"
  "cn_closed (Connector_retry fd s) = cn_closed s @ [fd]" "cn_connect (Connector_retry fd s) = cn_connect s"
  "cn_timers (Connector_retry fd s)
    = (if cn_connect s then cn_timers s @ [(cn_nextTimer s, cn_retryDelayMs s)] else cn_timers s)"
  by (simp_all add: Connector_retry_def close_socket_def Let_def)

text \<open>Taking down the channel of the attempt, then retrying or handing the descriptor over.\<close>

lemma attempt_ends:
  assumes "connector_inv s" "cn_state s = cnConnecting"
  obtains fd t where "removeAndResetChannel s = Some (fd, t)"
    "removeAndResetChannel (s\<lparr>cn_state := cnDisconnected\<rparr>) = Some (fd, t\<lparr>cn_state := cnDisconnected\<rparr>)"
    "connector_inv (Connector_retry fd t)"
    "connector_inv (t\<lparr>cn_state := cnConnected, cn_delivered := cn_delivered t @ [fd]\<rparr>)"
    "connector_inv (close_socket fd (t\<lparr>cn_state := cnConnected\<rparr>))"
    "connector_inv (Connector_retry fd (t\<lparr>cn_state := cnDisconnected\<rparr>))"
proof -
  from assms obtain a c where c: "cn_channel s = Some a" "chan (cn_reactor s) a = Some c" "ch_index c \<noteq> kNew"
    "\<not> ch_eventHandling c" "ResetChannel \<notin> set (cn_queued s)" "cn_timers s = []"
    "mset (cn_opened s) = mset (cn_closed s) + mset (cn_delivered s) + {#ch_fd c#}" by (rule connector_inv_connecting)
  have inv: "reactor_inv (cn_reactor s)" "\<not> rc_eventHandling (cn_reactor s)" using assms(1) by (simp_all add: connector_inv_def)
  obtain r c' where r: "removeAndResetChannel s
      = Some (ch_fd c, s\<lparr>cn_reactor := r, cn_queued := cn_queued s @ [ResetChannel]\<rparr>)"
    "reactor_inv r" "\<not> rc_eventHandling r" "chan r a = Some c'" "ch_index c' = kNew" "\<not> ch_addedToLoop c'"
    "ch_eventHandling c' = ch_eventHandling c"
    by (rule removeAndResetChannel_ok [OF inv c(1,2,3)])
  define t where "t = s\<lparr>cn_reactor := r, cn_queued := cn_queued s @ [ResetChannel]\<rparr>"
  have one: "count_list (cn_queued s @ [ResetChannel]) ResetChannel = 1" using c(5) by (simp add: count_list_0_iff)
  note ended = connector_inv_ended [of _ a c']
  have "removeAndResetChannel (s\<lparr>cn_state := cnDisconnected\<rparr>) = Some (ch_fd c, t\<lparr>cn_state := cnDisconnected\<rparr>)"
    by (simp add: removeAndResetChannel_state r(1) t_def)
  moreover have "connector_inv (Connector_retry (ch_fd c) t)"
    by (rule ended) (use c r one in \<open>simp_all add: t_def\<close>)
  moreover have "connector_inv (t\<lparr>cn_state := cnConnected, cn_delivered := cn_delivered t @ [ch_fd c]\<rparr>)"
    by (rule ended) (use c r one in \<open>simp_all add: t_def\<close>)
  moreover have "connector_inv (close_socket (ch_fd c) (t\<lparr>cn_state := cnConnected\<rparr>))"
    by (rule ended) (use c r one in \<open>simp_all add: t_def close_socket_def\<close>)
  moreover have "connector_inv (Connector_retry (ch_fd c) (t\<lparr>cn_state := cnDisconnected\<rparr>))"
    by (rule ended) (use c r one in \<open>simp_all add: t_def\<close>)
  ultimately show ?thesis using that [of "ch_fd c" t] r(1) by (simp add: t_def)
qed

text \<open>What the invariant looks at; the armed timers may be fewer.\<close>

lemma connector_inv_cong:
  assumes "connector_inv s" "cn_reactor s' = cn_reactor s" "cn_state s' = cn_state s" "cn_channel s' = cn_channel s"
    "cn_opened s' = cn_opened s" "cn_closed s' = cn_closed s" "cn_delivered s' = cn_delivered s"
    "length (cn_timers s') \<le> length (cn_timers s)"
    "count_list (cn_queued s') ResetChannel = count_list (cn_queued s) ResetChannel"
  shows "connector_inv s'"
proof -
  have q: "ResetChannel \<in> set (cn_queued s') \<longleftrightarrow> ResetChannel \<in> set (cn_queued s)"
    using assms(9) by (metis count_list_0_iff)
  have t: "cn_timers s = [] \<longrightarrow> cn_timers s' = []" using assms(8) by auto
  have "channel_ok s \<Longrightarrow> channel_ok s'" unfolding channel_ok_def assms(2,3,4,9) q using t by (auto split: if_splits)
  moreover have "sockets_ok s' = sockets_ok s" unfolding sockets_ok_def pending_fd_def assms(2-7) by (rule refl)
  moreover have "length (cn_timers s) \<le> 1 \<Longrightarrow> length (cn_timers s') \<le> 1" using assms(8) by linarith
  ultimately show ?thesis using assms(1) t unfolding connector_inv_def assms(2,3) by blast
qed

lemma connect_ok:
  assumes "connector_inv s" "cn_state s = cnDisconnected" "cn_timers s = []" "cn_channel s = None" "fresh_try att s"
    "0 \<le> at_sockfd att"
  shows "\<exists>s'. Connector_connect att s = Some s' \<and> connector_inv s'"
proof -
  let ?fd = "at_sockfd att" and ?a = "at_channel att"
  define t where "t = s\<lparr>cn_opened := cn_opened s @ [?fd]\<rparr>"
  from assms(1,2,4) have inv: "reactor_inv (cn_reactor s)" "\<not> rc_eventHandling (cn_reactor s)"
    "ResetChannel \<notin> set (cn_queued s)" "mset (cn_opened s) = mset (cn_closed s) + mset (cn_delivered s)"
    by (simp_all add: connector_inv_def channel_ok_def sockets_ok_def pending_fd_def)
  have retry: "connector_inv (Connector_retry ?fd t)"
    using assms(2-4) inv by (simp add: connector_inv_def channel_ok_def sockets_ok_def pending_fd_def t_def)
  have closed: "connector_inv (close_socket ?fd t)"
    using assms(2-4) inv by (simp add: connector_inv_def channel_ok_def sockets_ok_def pending_fd_def t_def close_socket_def)
  have "\<exists>s'. Connector_connecting ?fd ?a t = Some s' \<and> connector_inv s'"
  proof -
    let ?c = "Channel_new ?fd" and ?r = "set_chan ?a (Channel_new ?fd) (cn_reactor s)"
    have r: "reactor_inv ?r" using new_inv [OF inv(1)] assms(5) by (simp add: fresh_try_def)
    have "\<not> (ch_index ?c = kNew \<and> map_find (rc_channels ?r) (ch_fd ?c) \<noteq> None)"
      using assms(5) by (simp add: fresh_try_def Channel_new_def)
    with with_events_cases [OF r, of ?a ?c "\<lambda>e. e OR kWriteEvent"] obtain r1 i where
      r1: "enableWriting ?a ?r = Some r1" "reactor_inv r1" "rc_eventHandling r1 = rc_eventHandling ?r"
      "chan r1 = (chan ?r)(?a \<mapsto> ?c\<lparr>ch_events := ch_events ?c OR kWriteEvent, ch_addedToLoop := True, ch_index := i\<rparr>)"
      "i = kAdded \<or> i = kDeleted"
      by (simp only: if_False enableWriting_def chan_set_chan simp_thms if_True) blast
    then have c1: "chan r1 ?a = Some (?c\<lparr>ch_events := ch_events ?c OR kWriteEvent, ch_addedToLoop := True, ch_index := i\<rparr>)"
      by simp
    let ?s' = "t\<lparr>cn_state := cnConnecting, cn_channel := Some ?a, cn_reactor := r1\<rparr>"
    have "Connector_connecting ?fd ?a t = Some ?s'"
      using assms(4) r1(1) by (simp add: Connector_connecting_def t_def)
    moreover have "connector_inv ?s'"
    proof -
      have "channel_ok ?s'" using inv(3) c1 r1(5) assms(3) by (auto simp: channel_ok_def t_def Channel_new_def)
      moreover have "sockets_ok ?s'" using inv(4) c1 by (simp add: sockets_ok_def pending_fd_def t_def Channel_new_def)
      ultimately show ?thesis using inv(2) r1(2,3) assms(3) by (simp add: connector_inv_def t_def)
    qed
    ultimately show ?thesis by blast
  qed
  with retry closed assms(6) show ?thesis by (simp add: Connector_connect_def Let_def t_def)
qed

lemma startInLoop_ok:
  assumes "connector_inv s" "cn_state s = cnDisconnected" "cn_timers s = []" "fresh_try att s"
    "cn_connect s \<longrightarrow> cn_channel s = None \<and> 0 \<le> at_sockfd att"
  shows "\<exists>s'. Connector_startInLoop att s = Some s' \<and> connector_inv s'"
proof -
  let ?t = "s\<lparr>cn_retryConnector := False\<rparr>"
  have "connector_inv ?t" by (rule connector_inv_cong [OF assms(1)]) simp_all
  with assms connect_ok [of ?t att] show ?thesis
    by (cases "cn_connect s") (simp_all add: Connector_startInLoop_def fresh_try_def Let_def)
qed

lemma stopInLoop_ok:
  assumes "connector_inv s"
  shows "\<exists>s'. Connector_stopInLoop s = Some s' \<and> connector_inv s'"
proof -
  define t where "t = (if cn_retryConnector s then cancel_retry s else s)"
  have t: "connector_inv t"
    by (rule connector_inv_cong [OF assms]) (simp_all add: t_def cancel_retry_def)
  show ?thesis
  proof (cases "cn_state t = cnConnecting")
    case True
    obtain fd u where "removeAndResetChannel (t\<lparr>cn_state := cnDisconnected\<rparr>) = Some (fd, u\<lparr>cn_state := cnDisconnected\<rparr>)"
      "connector_inv (Connector_retry fd (u\<lparr>cn_state := cnDisconnected\<rparr>))"
      using attempt_ends [OF t True] by metis
    with True show ?thesis by (simp add: Connector_stopInLoop_def t_def [symmetric])
  qed (use t in \<open>simp add: Connector_stopInLoop_def t_def [symmetric]\<close>)
qed

lemma resetChannel_ok:
  assumes "connector_inv s" "cn_queued s = ResetChannel # fs"
  shows "\<exists>s'. resetChannel (s\<lparr>cn_queued := fs\<rparr>) = Some s' \<and> connector_inv s'"
proof -
  have ok: "channel_ok s" "sockets_ok s" using assms(1) by (simp_all add: connector_inv_def)
  have st: "cn_state s \<noteq> cnConnecting" using ok(1) assms(2) by (auto simp: channel_ok_def)
  obtain a c where c: "cn_channel s = Some a" "chan (cn_reactor s) a = Some c" "ch_index c = kNew"
    "\<not> ch_addedToLoop c" "\<not> ch_eventHandling c" "ResetChannel \<notin> set fs"
    using ok(1) st assms(2) by (auto simp: channel_ok_def count_list_0_iff split: option.splits)
  have "reactor_inv (cn_reactor s)" using assms(1) by (simp add: connector_inv_def)
  from destroy_new_ok [OF this c(2-5)] obtain r where
    r: "Channel_destroy a (cn_reactor s) = Some r" "reactor_inv r" "rc_eventHandling r = rc_eventHandling (cn_reactor s)"
    by blast
  let ?s' = "s\<lparr>cn_queued := fs, cn_channel := None, cn_reactor := r\<rparr>"
  have "resetChannel (s\<lparr>cn_queued := fs\<rparr>) = Some ?s'" using c(1) r(1) by (simp add: resetChannel_def)
  moreover have "connector_inv ?s'"
  proof -
    have "channel_ok ?s'" using st c(6) by (simp add: channel_ok_def)
    moreover have "sockets_ok ?s'" using ok(2) st by (simp add: sockets_ok_def pending_fd_def)
    ultimately show ?thesis using assms(1) r unfolding connector_inv_def by simp
  qed
  ultimately show ?thesis by blast
qed

lemma connector_do_ok:
  assumes "connector_inv s" "connector_allowed x s" "\<not> no_descriptor x s"
  shows "\<exists>s'. connector_do x s = Some s' \<and> connector_inv s'"
proof (cases x)
  case (CStart att)
  have "connector_inv (s\<lparr>cn_connect := True\<rparr>)" by (rule connector_inv_cong [OF assms(1)]) simp_all
  with CStart assms(2,3) startInLoop_ok [of "s\<lparr>cn_connect := True\<rparr>" att] show ?thesis
    by (simp add: Connector_start_def fresh_try_def)
next
  case (CRestart att)
  let ?t = "s\<lparr>cn_state := cnDisconnected, cn_retryDelayMs := kInitRetryDelayMs, cn_connect := True\<rparr>"
  have st: "cn_state s = cnConnected" "cn_timers ?t = []" "channel_ok s" "sockets_ok s"
    using assms CRestart by (auto simp: connector_inv_def)
  have "channel_ok ?t" using st(1,3) assms(2) CRestart by (simp add: channel_ok_def)
  moreover have "sockets_ok ?t" using st(1,4) by (simp add: sockets_ok_def pending_fd_def)
  ultimately have "connector_inv ?t" using assms(1) st(2) by (simp add: connector_inv_def)
  with CRestart assms(2,3) st(2) startInLoop_ok [of ?t att] show ?thesis by (simp add: Connector_restart_def fresh_try_def)
next
  case CStop
  have "connector_inv (Connector_stop s)"
    by (rule connector_inv_cong [OF assms(1)]) (simp_all add: Connector_stop_def)
  with CStop show ?thesis by simp
next
  case (CTimer att)
  show ?thesis
  proof (cases "cn_timers s")
    case (Cons t ts)
    let ?t = "s\<lparr>cn_timers := ts\<rparr>"
    have st: "cn_state s = cnDisconnected" "ts = []" using assms(1) Cons by (auto simp: connector_inv_def)
    have "connector_inv ?t" by (rule connector_inv_cong [OF assms(1)]) (use Cons in simp_all)
    moreover have "cn_connect s \<longrightarrow> cn_channel s = None"
    proof -
      have "channel_ok s" using assms(1) by (simp add: connector_inv_def)
      then show ?thesis using assms(2) CTimer st(1) count_list_0_iff [of "cn_queued s" ResetChannel]
        by (auto simp: channel_ok_def split: option.splits)
    qed
    ultimately show ?thesis using startInLoop_ok [of ?t att] st CTimer Cons assms(2,3)
      by (cases "at_sockfd att < 0") (simp_all add: timer_fires_def fresh_try_def)
  qed (use assms CTimer in \<open>simp add: timer_fires_def\<close>)
next
  case CRun
  show ?thesis
  proof (cases "cn_queued s")
    case (Cons f fs)
    show ?thesis
    proof (cases f)
      case StopInLoop
      then have "connector_inv (s\<lparr>cn_queued := fs\<rparr>)"
        by (intro connector_inv_cong [OF assms(1)]) (use Cons in simp_all)
      with StopInLoop Cons CRun stopInLoop_ok show ?thesis by (simp add: run_functor_def)
    next
      case ResetChannel
      with Cons CRun resetChannel_ok [OF assms(1), of fs] show ?thesis by (simp add: run_functor_def)
    qed
  qed (use assms CRun in \<open>simp add: run_functor_def\<close>)
next
  case (CWrite err self)
  show ?thesis
  proof (cases "cn_state s = cnConnecting")
    case True
    obtain fd t where "removeAndResetChannel s = Some (fd, t)" "connector_inv (Connector_retry fd t)"
      "connector_inv (t\<lparr>cn_state := cnConnected, cn_delivered := cn_delivered t @ [fd]\<rparr>)"
      "connector_inv (close_socket fd (t\<lparr>cn_state := cnConnected\<rparr>))"
      using attempt_ends [OF assms(1) True] by metis
    with True CWrite show ?thesis by (simp add: Connector_handleWrite_def Let_def)
  next
    case False
    with CWrite assms show ?thesis by (cases "cn_state s") (simp_all add: Connector_handleWrite_def)
  qed
next
  case CError
  show ?thesis
  proof (cases "cn_state s = cnConnecting")
    case True
    obtain fd t where "removeAndResetChannel s = Some (fd, t)" "connector_inv (Connector_retry fd t)"
      using attempt_ends [OF assms(1) True] by metis
    with True CError show ?thesis by (simp add: Connector_handleError_def)
  qed (use CError assms in \<open>simp add: Connector_handleError_def\<close>)
qed

inductive connector_reachable :: "Connector \<Rightarrow> bool" where
  made: "reactor_inv r \<Longrightarrow> \<not> rc_eventHandling r \<Longrightarrow> connector_reachable (Connector_new r)"
| happens: "connector_reachable s \<Longrightarrow> connector_allowed x s \<Longrightarrow> connector_do x s = Some s' \<Longrightarrow> connector_reachable s'"

lemma connector_reachable_inv: "connector_reachable s \<Longrightarrow> connector_inv s"
proof (induction rule: connector_reachable.induct)
  case (made r)
  then show ?case
    by (simp add: Connector_new_def connector_inv_def channel_ok_def sockets_ok_def pending_fd_def)
next
  case (happens s x s')
  then show ?case using connector_do_ok [of s x] no_descriptor_stops [of x s] by fastforce
qed

section \<open>Properties\<close>


definition demo_attempt :: attempt where
  "demo_attempt = \<lparr>at_sockfd = 5, at_channel = 1, at_errno = 115\<rparr>"


text \<open>Retries back off exponentially: from the initial delay, a run of failing attempts arms its retry timers
  after 0.5 s, 1 s, 2 s and so on, doubling until the delay stays at 30 s.\<close>

lemma retry_backoff:
  assumes "cn_connect s" "cn_state s = cnDisconnected" "cn_timers s = []" "cn_retryDelayMs s = kInitRetryDelayMs"
    and "\<forall>a\<in>set (first # tries). at_errno a \<in> try_again \<and> 0 \<le> at_sockfd a"
  shows "\<exists>s'. (Connector_startInLoop first s \<bind> foldo timer_fires tries) = Some s' \<and> cn_state s' = cnDisconnected
    \<and> cn_delays s' = cn_delays s @ map (\<lambda>k. min (500 * 2 ^ k) 30000) [0..<Suc (length tries)]"
proof -
  let ?d = "\<lambda>k. min (500 * 2 ^ k) 30000 :: int"
  define P where "P k t \<longleftrightarrow> cn_connect t \<and> cn_state t = cnDisconnected \<and> length (cn_timers t) \<le> 1
    \<and> cn_retryDelayMs t = ?d k \<and> cn_delays t = cn_delays s @ map ?d [0..<k]" for k and t :: Connector
  have refused: "\<exists>t'. Connector_startInLoop a t = Some t' \<and> P (Suc k) t' \<and> length (cn_timers t') = 1"
    if "at_errno a \<in> try_again \<and> 0 \<le> at_sockfd a" "P k t" "cn_timers t = []" for a t k
  proof -
    have "try_again \<inter> going_on = {}" by (simp add: try_again_def going_on_def)
    then have "at_errno a \<notin> going_on" using that(1) by blast
    let ?t = "Connector_retry (at_sockfd a) (t\<lparr>cn_retryConnector := False, cn_opened := cn_opened t @ [at_sockfd a]\<rparr>)"
    have "Connector_startInLoop a t = Some ?t"
      using that \<open>at_errno a \<notin> going_on\<close> by (simp add: Connector_startInLoop_def Connector_connect_def P_def Let_def)
    moreover have "min (?d k * 2) kMaxRetryDelayMs = ?d (Suc k)" by (auto simp: kMaxRetryDelayMs_def min_def)
    then have "P (Suc k) ?t"
      using that(2,3) by (simp add: P_def Connector_retry_def Let_def close_socket_def)
    ultimately show ?thesis using that(2,3) by (simp add: P_def)
  qed
  have later: "\<exists>t'. foldo timer_fires as t = Some t' \<and> P (k + length as) t'"
    if "\<forall>a\<in>set as. at_errno a \<in> try_again \<and> 0 \<le> at_sockfd a" "P k t" "length (cn_timers t) = 1" for as t k
    using that
  proof (induction as arbitrary: t k)
    case (Cons a as)
    then obtain x where x: "cn_timers t = [x]" by (auto simp: length_Suc_conv)
    have "P k (t\<lparr>cn_timers := []\<rparr>)" using Cons.prems(2) by (simp add: P_def)
    from refused [OF _ this, of a] Cons.prems(1) obtain t' where
      "Connector_startInLoop a (t\<lparr>cn_timers := []\<rparr>) = Some t'" "P (Suc k) t'" "length (cn_timers t') = 1" by auto
    with Cons.IH [of "Suc k" t'] Cons.prems(1) x show ?case by (simp add: timer_fires_def)
  qed simp
  have "P 0 s" using assms(1-4) by (simp add: P_def kInitRetryDelayMs_def)
  from refused [OF _ this assms(3), of first] assms(5) obtain t where
    t: "Connector_startInLoop first s = Some t" "P (Suc 0) t" "length (cn_timers t) = 1" by auto
  with later [of tries "Suc 0" t] assms(5) show ?thesis by (auto simp: P_def)
qed

lemma retry_backoff_witness:
  "\<exists>s'. (Connector_startInLoop (demo_attempt\<lparr>at_errno := 111\<rparr>) ((Connector_new EpollPoller_new)\<lparr>cn_connect := True\<rparr>)
      \<bind> foldo timer_fires (replicate 7 (demo_attempt\<lparr>at_errno := 111\<rparr>))) = Some s' \<and> cn_state s' = cnDisconnected
    \<and> cn_delays s' = [500, 1000, 2000, 4000, 8000, 16000, 30000, 30000]"
proof -
  let ?s = "(Connector_new EpollPoller_new)\<lparr>cn_connect := True\<rparr>" and ?a = "demo_attempt\<lparr>at_errno := 111\<rparr>"
  have "\<forall>a\<in>set (?a # replicate 7 ?a). at_errno a \<in> try_again \<and> 0 \<le> at_sockfd a"
    by (simp add: try_again_def demo_attempt_def)
  from retry_backoff [of ?s, OF _ _ _ _ this] show ?thesis
    by (simp add: Connector_new_def upt_rec)
qed

text \<open>Starting a connector whose attempt is in progress stops the process, and so does a retry timer that an earlier
  stop left armed.\<close>

lemma start_while_connecting_stops: "cn_state s = cnConnecting \<Longrightarrow> Connector_start att s = None"
  by (simp add: Connector_start_def Connector_startInLoop_def)

lemma stale_retry_stops: "cn_state s \<noteq> cnDisconnected \<Longrightarrow> cn_timers s \<noteq> [] \<Longrightarrow> timer_fires att s = None"
  by (cases "cn_timers s") (simp_all add: timer_fires_def Connector_startInLoop_def)

end
