(* ===== verification/Client.thy ===== *)
theory Client
  imports Connectors Addresses
begin

text \<open>
  \<^verbatim>\<open>pallette/TcpClient.h\<close>, \<^verbatim>\<open>TcpClient.cpp\<close>: one connection at a time over the connector of \<^verbatim>\<open>Connectors\<close>, in the loop
  thread. The connections made are numbered; what the client does to them is recorded in \<open>cl_effects\<close>.
\<close>

datatype conn_effect = Established nat | ShutDown nat | ForceClosed nat | DestroyQueued nat | CloseCallbackReplaced nat

record TcpClient =
  cl_connector :: Connector
  cl_name :: string
  cl_retry :: bool
  cl_connect :: bool
  cl_nextConnId :: int
  cl_connection :: "nat option"
  cl_names :: "string list"
  cl_effects :: "conn_effect list"

definition TcpClient_new :: "string \<Rightarrow> reactor \<Rightarrow> TcpClient" where
  "TcpClient_new nameArg r =
     \<lparr>cl_connector = Connector_new r, cl_name = nameArg, cl_retry = False, cl_connect = False, cl_nextConnId = 1,
      cl_connection = None, cl_names = [], cl_effects = []\<rparr>"

definition effect :: "conn_effect \<Rightarrow> TcpClient \<Rightarrow> TcpClient" where
  "effect e s = s\<lparr>cl_effects := cl_effects s @ [e]\<rparr>"

text \<open>\<open>unique\<close>: whether the client holds the only reference to its connection.\<close>

definition TcpClient_destroy :: "bool \<Rightarrow> TcpClient \<Rightarrow> TcpClient" where
  "TcpClient_destroy unique s =
     (case cl_connection s of
        Some conn \<Rightarrow>
          let s = effect (CloseCallbackReplaced conn) s in
          if unique then effect (ForceClosed conn) s else s
      | None \<Rightarrow> s\<lparr>cl_connector := Connector_stop (cl_connector s)\<rparr>)"

definition TcpClient_connect :: "attempt \<Rightarrow> TcpClient \<Rightarrow> TcpClient option" where
  "TcpClient_connect att s =
     (if \<not> cl_connect s then do {
        let s = s\<lparr>cl_connect := True\<rparr>;
        c \<leftarrow> Connector_start att (cl_connector s);
        Some (s\<lparr>cl_connector := c\<rparr>) }
      else Some s)"

definition TcpClient_disconnect :: "TcpClient \<Rightarrow> TcpClient" where
  "TcpClient_disconnect s =
     (let s = s\<lparr>cl_connect := False\<rparr> in
      case cl_connection s of Some conn \<Rightarrow> effect (ShutDown conn) s | None \<Rightarrow> s)"

definition TcpClient_stop :: "TcpClient \<Rightarrow> TcpClient" where
  "TcpClient_stop s = s\<lparr>cl_connect := False, cl_connector := Connector_stop (cl_connector s)\<rparr>"

definition enableRetry :: "TcpClient \<Rightarrow> TcpClient" where
  "enableRetry s = s\<lparr>cl_retry := True\<rparr>"

definition TcpClient_newConnection :: "(byte list \<Rightarrow> string) \<Rightarrow> sockaddr \<Rightarrow> TcpClient \<Rightarrow> TcpClient option" where
  "TcpClient_newConnection ntop6 peerAddr s = do {
     ipPort \<leftarrow> InetAddress_toIpPort ntop6 peerAddr;
     let buf = snprintf 32 ('':'' @ ipPort @ ''#'' @ dec_int (cl_nextConnId s));
     let conn = length (cl_names s);
     let s = s\<lparr>cl_nextConnId := cl_nextConnId s + 1, cl_names := cl_names s @ [cl_name s @ buf], cl_connection := Some conn\<rparr>;
     Some (effect (Established conn) s) }"

definition TcpClient_removeConnection :: "attempt \<Rightarrow> nat \<Rightarrow> TcpClient \<Rightarrow> TcpClient option" where
  "TcpClient_removeConnection att conn s = do {
     assertion (cl_connection s = Some conn);
     let s = effect (DestroyQueued conn) (s\<lparr>cl_connection := None\<rparr>);
     if cl_retry s \<and> cl_connect s then do {
       c \<leftarrow> Connector_restart att (cl_connector s);
       Some (s\<lparr>cl_connector := c\<rparr>) }
     else Some s }"

text \<open>The connector's events, with \<^verbatim>\<open>newConnection\<close> as its callback; the other events only concern the connector.\<close>

definition client_writable :: "(byte list \<Rightarrow> string) \<Rightarrow> nat \<Rightarrow> bool \<Rightarrow> sockaddr \<Rightarrow> TcpClient \<Rightarrow> TcpClient option" where
  "client_writable ntop6 err self peerAddr s = do {
     c \<leftarrow> Connector_handleWrite err self (cl_connector s);
     let new = length (cn_delivered c) > length (cn_delivered (cl_connector s));
     let s = s\<lparr>cl_connector := c\<rparr>;
     if new then TcpClient_newConnection ntop6 peerAddr s else Some s }"

definition client_connector :: "(Connector \<Rightarrow> Connector option) \<Rightarrow> TcpClient \<Rightarrow> TcpClient option" where
  "client_connector f s = do { c \<leftarrow> f (cl_connector s); Some (s\<lparr>cl_connector := c\<rparr>) }"

section \<open>Runs\<close>

datatype client_op =
    ClConnect attempt | ClDisconnect | ClStop | ClEnableRetry | ClWritable nat bool sockaddr | ClError
  | ClTimer attempt | ClRun | ClClosed attempt

fun client_do :: "(byte list \<Rightarrow> string) \<Rightarrow> client_op \<Rightarrow> TcpClient \<Rightarrow> TcpClient option" where
  "client_do ntop6 (ClConnect att) s = TcpClient_connect att s"
| "client_do ntop6 ClDisconnect s = Some (TcpClient_disconnect s)"
| "client_do ntop6 ClStop s = Some (TcpClient_stop s)"
| "client_do ntop6 ClEnableRetry s = Some (enableRetry s)"
| "client_do ntop6 (ClWritable err self peer) s = client_writable ntop6 err self peer s"
| "client_do ntop6 ClError s = client_connector Connector_handleError s"
| "client_do ntop6 (ClTimer att) s = client_connector (timer_fires att) s"
| "client_do ntop6 ClRun s = client_connector run_functor s"
| "client_do ntop6 (ClClosed att) s =
     (case cl_connection s of Some conn \<Rightarrow> TcpClient_removeConnection att conn s | None \<Rightarrow> Some s)"

text \<open>\<open>connect\<close> is called on an idle connector; the connection closes after the functor that destroys the connector's
  channel has run; \<^verbatim>\<open>socket\<close> gives every attempt a descriptor.\<close>

fun client_allowed :: "client_op \<Rightarrow> TcpClient \<Rightarrow> bool" where
  "client_allowed (ClConnect att) s \<longleftrightarrow>
     (\<not> cl_connect s \<longrightarrow> connector_allowed (CStart att) (cl_connector s) \<and> 0 \<le> at_sockfd att)"
| "client_allowed (ClWritable err self peer) s \<longleftrightarrow> connector_allowed (CWrite err self) (cl_connector s)"
| "client_allowed ClError s \<longleftrightarrow> connector_allowed CError (cl_connector s)"
| "client_allowed (ClTimer att) s \<longleftrightarrow> connector_allowed (CTimer att) (cl_connector s) \<and> 0 \<le> at_sockfd att"
| "client_allowed (ClClosed att) s \<longleftrightarrow>
     fresh_try att (cl_connector s) \<and> 0 \<le> at_sockfd att \<and> ResetChannel \<notin> set (cn_queued (cl_connector s))"
| "client_allowed _ s \<longleftrightarrow> True"

inductive client_reachable :: "(byte list \<Rightarrow> string) \<Rightarrow> TcpClient \<Rightarrow> bool" for ntop6 where
  made: "reactor_inv r \<Longrightarrow> \<not> rc_eventHandling r \<Longrightarrow> client_reachable ntop6 (TcpClient_new name r)"
| happens: "client_reachable ntop6 s \<Longrightarrow> client_allowed x s \<Longrightarrow> client_do ntop6 x s = Some s' \<Longrightarrow> client_reachable ntop6 s'"

section \<open>One connection at a time\<close>

text \<open>A connection exists only while the connector is connected.\<close>

definition client_inv :: "TcpClient \<Rightarrow> bool" where
  "client_inv s \<longleftrightarrow> connector_inv (cl_connector s)
     \<and> (cl_connection s \<noteq> None \<longrightarrow> cn_state (cl_connector s) = cnConnected)"

lemma toIpPort_total:
  assumes "\<forall>b. length (ntop6 b) \<le> 45"
  shows "\<exists>s. InetAddress_toIpPort ntop6 addr = Some s"
proof (cases addr)
  case (SockaddrIn6 p f a)
  have "length (ntop6 a) < 64" using assms [rule_format, of a] by simp
  with SockaddrIn6 show ?thesis by (simp add: InetAddress_toIpPort_def sockets_toIpPort_def sockets_toIp_def)
qed (simp_all add: toIpPort_inet InetAddress_toIpPort_def [of _ SockaddrUnspec] sockets_toIpPort_def sockets_toIp_def)

lemma handleWrite_delivers:
  assumes "Connector_handleWrite err self c = Some c'"
  shows "length (cn_delivered c) < length (cn_delivered c') \<Longrightarrow> cn_state c' = cnConnected"
    and "cn_state c = cnConnected \<Longrightarrow> c' = c"
  using assms by (auto simp: Connector_handleWrite_def removeAndResetChannel_def Let_def close_socket_def
      split: if_splits Option.bind_splits)

lemma connected_stays:
  assumes "cn_state c = cnConnected"
  shows "Connector_handleError c = Some c" "cn_timers c = [] \<Longrightarrow> timer_fires att c = Some c"
    "run_functor c = Some c' \<Longrightarrow> cn_state c' = cnConnected"
  using assms by (auto simp: Connector_handleError_def timer_fires_def run_functor_def Connector_stopInLoop_def
      resetChannel_def cancel_retry_def Let_def split: list.splits connector_functor.splits option.splits Option.bind_splits if_splits)

lemma client_connector_ok:
  assumes "client_inv s" "connector_allowed x (cl_connector s)" "f = connector_do x" "\<not> no_descriptor x (cl_connector s)"
    and "\<And>c'. cn_state (cl_connector s) = cnConnected \<Longrightarrow> f (cl_connector s) = Some c' \<Longrightarrow> cn_state c' = cnConnected"
  shows "\<exists>s'. client_connector f s = Some s' \<and> client_inv s'"
proof -
  obtain c where c: "f (cl_connector s) = Some c" "connector_inv c"
    using connector_do_ok [of "cl_connector s" x] assms(1-4) by (auto simp: client_inv_def)
  then show ?thesis using assms(1,5) by (simp add: client_connector_def client_inv_def)
qed

lemma connected_no_timers: "connector_inv c \<Longrightarrow> cn_state c = cnConnected \<Longrightarrow> cn_timers c = []"
  by (auto simp: connector_inv_def)

lemma stop_connector: "connector_inv c \<Longrightarrow> connector_inv (Connector_stop c)"
  using connector_do_ok [of c CStop] by simp

lemma client_newConnection_ok:
  assumes "\<forall>b. length (ntop6 b) \<le> 45" "connector_inv (cl_connector s)" "cn_state (cl_connector s) = cnConnected"
  shows "\<exists>s'. TcpClient_newConnection ntop6 peer s = Some s' \<and> client_inv s'"
proof -
  obtain ip where "InetAddress_toIpPort ntop6 peer = Some ip" using toIpPort_total [OF assms(1)] by blast
  with assms show ?thesis by (simp add: TcpClient_newConnection_def Let_def client_inv_def effect_def)
qed

lemma client_removeConnection_ok:
  assumes "client_inv s" "cl_connection s = Some conn" "client_allowed (ClClosed att) s"
  shows "\<exists>s'. TcpClient_removeConnection att conn s = Some s' \<and> client_inv s'"
proof -
  let ?c = "cl_connector s"
  have c: "connector_inv ?c" "cn_state ?c = cnConnected" using assms(1,2) by (simp_all add: client_inv_def)
  have "channel_ok ?c" using c(1) by (simp add: connector_inv_def)
  then have "cn_channel ?c = None"
    using c(2) assms(3) count_list_0_iff [of "cn_queued ?c" ResetChannel] by (auto simp: channel_ok_def split: option.splits)
  then have "connector_allowed (CRestart att) ?c" using c(2) assms(3) by simp
  moreover have "\<not> no_descriptor (CRestart att) ?c" using assms(3) by simp
  ultimately obtain c' where "Connector_restart att ?c = Some c'" "connector_inv c'"
    using connector_do_ok [OF c(1)] by fastforce
  with assms(2) c show ?thesis by (simp add: TcpClient_removeConnection_def client_inv_def effect_def Let_def)
qed

text \<open>A client used this way never stops, and its close callback is always about its current connection.\<close>

lemma client_do_ok:
  assumes "\<forall>b. length (ntop6 b) \<le> 45" "client_inv s" "client_allowed x s"
  shows "\<exists>s'. client_do ntop6 x s = Some s' \<and> client_inv s'"
proof -
  have c: "connector_inv (cl_connector s)" using assms(2) by (simp add: client_inv_def)
  show ?thesis
  proof (cases x)
    case (ClConnect att)
    show ?thesis
    proof (cases "cl_connect s")
      case False
      then have a: "connector_allowed (CStart att) (cl_connector s)" "\<not> no_descriptor (CStart att) (cl_connector s)"
        using assms(3) ClConnect by simp_all
      from connector_do_ok [OF c a] obtain c' where "Connector_start att (cl_connector s) = Some c'" "connector_inv c'" by auto
      moreover have "cl_connection s = None" using a assms(2) by (auto simp: client_inv_def)
      ultimately show ?thesis using False ClConnect by (simp add: TcpClient_connect_def client_inv_def)
    qed (use ClConnect assms(2) in \<open>simp add: TcpClient_connect_def\<close>)
  next
    case (ClWritable err self peer)
    obtain c' where c': "Connector_handleWrite err self (cl_connector s) = Some c'" "connector_inv c'"
      using connector_do_ok [OF c, of "CWrite err self"] assms(3) ClWritable by auto
    note d = handleWrite_delivers [OF c'(1)]
    show ?thesis
    proof (cases "length (cn_delivered (cl_connector s)) < length (cn_delivered c')")
      case True
      then show ?thesis using d(1) c' client_newConnection_ok [OF assms(1), of "s\<lparr>cl_connector := c'\<rparr>" peer] ClWritable
        by (simp add: client_writable_def)
    next
      case False
      then show ?thesis using d(2) c' assms(2) ClWritable by (auto simp: client_writable_def client_inv_def)
    qed
  next
    case ClError
    then show ?thesis using client_connector_ok [OF assms(2), of CError Connector_handleError] assms(3) connected_stays(1)
      by fastforce
  next
    case (ClTimer att)
    have "\<exists>s'. client_connector (timer_fires att) s = Some s' \<and> client_inv s'"
    proof (rule client_connector_ok [OF assms(2), of "CTimer att"])
      fix c' assume "cn_state (cl_connector s) = cnConnected" "timer_fires att (cl_connector s) = Some c'"
      with connected_stays(2) connected_no_timers [OF c] show "cn_state c' = cnConnected" by simp
    qed (use assms(3) ClTimer in auto)
    with ClTimer show ?thesis by simp
  next
    case ClRun
    have "\<exists>s'. client_connector run_functor s = Some s' \<and> client_inv s'"
      by (rule client_connector_ok [OF assms(2), of CRun]) (auto intro: connected_stays(3))
    with ClRun show ?thesis by simp
  next
    case (ClClosed att)
    then show ?thesis using client_removeConnection_ok [OF assms(2)] assms by (cases "cl_connection s") auto
  next
    case ClStop
    then show ?thesis using assms(2) stop_connector [OF c] by (simp add: TcpClient_stop_def client_inv_def Connector_stop_def)
  qed (use assms(2) in \<open>auto simp: TcpClient_disconnect_def enableRetry_def effect_def client_inv_def Let_def split: option.splits\<close>)
qed

lemma client_reachable_inv:
  assumes "\<forall>b. length (ntop6 b) \<le> 45" "client_reachable ntop6 s"
  shows "client_inv s"
  using assms(2)
proof (induction rule: client_reachable.induct)
  case (made r name)
  from connector_reachable_inv [OF connector_reachable.made [OF made]] show ?case
    by (simp add: client_inv_def TcpClient_new_def)
next
  case (happens s x s')
  then show ?case using client_do_ok [OF assms(1)] by fastforce
qed

section \<open>Properties\<close>


definition demo_client_ops :: "client_op list" where
  "demo_client_ops = [ClConnect demo_attempt, ClWritable 0 False (SockaddrIn 0 0), ClRun]"

definition demo_retry :: attempt where
  "demo_retry = \<lparr>at_sockfd = 6, at_channel = 2, at_errno = 111\<rparr>"

definition client_run :: "client_op list \<Rightarrow> TcpClient \<Rightarrow> TcpClient option" where
  "client_run ops s = foldo (\<lambda>x s. if client_allowed x s then client_do (\<lambda>b. []) x s else None) ops s"

lemma demo_client:
  "case client_run demo_client_ops (TcpClient_new ''c'' EpollPoller_new) of
     None \<Rightarrow> False
   | Some s \<Rightarrow> cl_connection s = Some 0 \<and> cl_connect s \<and> \<not> cl_retry s \<and> client_allowed (ClClosed demo_retry) s"
  by (simp add: client_run_def demo_client_ops_def demo_attempt_def demo_retry_def TcpClient_new_def Connector_new_def EpollPoller_new_def
      TcpClient_connect_def Connector_start_def Connector_startInLoop_def Connector_connect_def Connector_connecting_def
      going_on_def client_connector_def client_writable_def Connector_handleWrite_def removeAndResetChannel_def
      TcpClient_newConnection_def effect_def toIpPort_inet run_functor_def resetChannel_def fresh_try_def
      enableWriting_def disableAll_def with_events_def Channel_update_def EventLoop_updateChannel_def
      EpollPoller_updateChannel_def EpollPoller_update_def epoll_ctl_def Channel_remove_def EventLoop_removeChannel_def
      EpollPoller_removeChannel_def Channel_destroy_def EventLoop_hasChannel_def EpollPoller_hasChannel_def
      chan_def set_chan_def Channel_new_def isNoneEvent_def kNoneEvent_def kWriteEvent_def epoll_defs index_defs map_erase_def Let_def)

lemma client_run_reachable:
  assumes "client_run ops s = Some s'" "client_reachable (\<lambda>b. []) s"
  shows "client_reachable (\<lambda>b. []) s'"
  using assms
  by (induction ops arbitrary: s)
    (auto simp: client_run_def split: if_splits Option.bind_splits intro: client_reachable.happens)


end
