(* ===== verification/Calendar.thy ===== *)
theory Calendar
  imports Buffer Timestamps
begin

text \<open>
  \<^verbatim>\<open>pallette/Date.{h,cpp}\<close> and \<^verbatim>\<open>TimeZone.cpp\<close>: Julian day numbers, UTC broken-down time, zone files and the lookup
  of local time. \<^verbatim>\<open>int\<close> is \<^typ>\<open>int\<close> with truncating division; the theorems that depend on it state the range in
  which no 32-bit operation overflows. \<^verbatim>\<open>gmtime_r\<close> and \<^verbatim>\<open>timegm\<close> of the C library are parameters.
\<close>

section \<open>Dates\<close>

record YearMonthDay =
  ymd_year :: int
  ymd_month :: int
  ymd_day :: int

definition getJulianDayNumber :: "int \<Rightarrow> int \<Rightarrow> int \<Rightarrow> int" where
  "getJulianDayNumber year month day =
     (let a = (14 - month) sdiv 12;
          y = year + 4800 - a;
          m = month + 12 * a - 3
      in day + (153 * m + 2) sdiv 5 + y * 365 + y sdiv 4 - y sdiv 100 + y sdiv 400 - 32045)"

definition getYearMonthDay :: "int \<Rightarrow> YearMonthDay" where
  "getYearMonthDay julianDayNumber =
     (let a = julianDayNumber + 32044;
          b = (4 * a + 3) sdiv 146097;
          c = a - ((b * 146097) sdiv 4);
          d = (4 * c + 3) sdiv 1461;
          e = c - ((1461 * d) sdiv 4);
          m = (5 * e + 2) sdiv 153
      in \<lparr>ymd_year = b * 100 + d - 4800 + (m sdiv 10),
          ymd_month = m + 3 - 12 * (m sdiv 10),
          ymd_day = e - ((153 * m + 2) sdiv 5) + 1\<rparr>)"

definition kJulianDayOf1970_01_01 :: int where
  "kJulianDayOf1970_01_01 = getJulianDayNumber 1970 1 1"

definition kDaysPerWeek :: int where "kDaysPerWeek = 7"

type_synonym Date = int

definition Date_valid :: "Date \<Rightarrow> bool" where
  "Date_valid d \<longleftrightarrow> d > 0"

definition yearMonthDay :: "Date \<Rightarrow> YearMonthDay" where
  "yearMonthDay d = getYearMonthDay d"

definition weekDay :: "Date \<Rightarrow> int" where
  "weekDay d = (d + 1) smod kDaysPerWeek"

definition toIsoString :: "Date \<Rightarrow> string" where
  "toIsoString d =
     (let ymd = yearMonthDay d in
      snprintf 32 (pad_sp 4 (dec_int (ymd_year ymd)) @ ''-'' @ pad0 2 (dec_int (ymd_month ymd)) @ ''-''
        @ pad0 2 (dec_int (ymd_day ymd))))"

section \<open>Broken-down time\<close>

record tm =
  tm_sec :: int
  tm_min :: int
  tm_hour :: int
  tm_mday :: int
  tm_mon :: int
  tm_year :: int
  tm_wday :: int
  tm_yday :: int
  tm_isdst :: bool
  tm_gmtoff :: int
  tm_zone :: string

definition tm_zero :: tm where
  "tm_zero = \<lparr>tm_sec = 0, tm_min = 0, tm_hour = 0, tm_mday = 0, tm_mon = 0, tm_year = 0, tm_wday = 0, tm_yday = 0,
     tm_isdst = False, tm_gmtoff = 0, tm_zone = []\<rparr>"

definition kSecondsPerDay :: int where "kSecondsPerDay = 24 * 60 * 60"

text \<open>The argument is an \<^verbatim>\<open>unsigned\<close>.\<close>

definition fillHMS :: "nat \<Rightarrow> tm \<Rightarrow> tm" where
  "fillHMS seconds utc =
     (let minutes = seconds div 60 in
      utc\<lparr>tm_sec := int (seconds mod 60), tm_min := int (minutes mod 60), tm_hour := int (minutes div 60)\<rparr>)"

definition Date_tm :: "tm \<Rightarrow> Date" where
  "Date_tm t = getJulianDayNumber (tm_year t + 1900) (tm_mon t + 1) (tm_mday t)"

definition toUtcTime :: "int \<Rightarrow> bool \<Rightarrow> tm" where
  "toUtcTime secondsSinceEpoch yday =
     (let utc = tm_zero\<lparr>tm_zone := ''GMT''\<rparr>;
          seconds = secondsSinceEpoch smod kSecondsPerDay;
          days = secondsSinceEpoch sdiv kSecondsPerDay;
          (seconds, days) = (if seconds < 0 then (seconds + kSecondsPerDay, days - 1) else (seconds, days));
          utc = fillHMS (nat seconds) utc;
          date = days + kJulianDayOf1970_01_01;
          ymd = yearMonthDay date;
          utc = utc\<lparr>tm_year := ymd_year ymd - 1900, tm_mon := ymd_month ymd - 1, tm_mday := ymd_day ymd,
            tm_wday := weekDay date\<rparr>
      in if yday then utc\<lparr>tm_yday := date - getJulianDayNumber (ymd_year ymd) 1 1\<rparr> else utc)"

definition fromUtcTime :: "int \<Rightarrow> int \<Rightarrow> int \<Rightarrow> int \<Rightarrow> int \<Rightarrow> int \<Rightarrow> int" where
  "fromUtcTime year month day hour minute seconds =
     (let date = getJulianDayNumber year month day;
          secondsInDay = hour * 3600 + minute * 60 + seconds;
          days = date - kJulianDayOf1970_01_01
      in days * kSecondsPerDay + secondsInDay)"

definition fromUtcTime_tm :: "tm \<Rightarrow> int" where
  "fromUtcTime_tm utc =
     fromUtcTime (tm_year utc + 1900) (tm_mon utc + 1) (tm_mday utc) (tm_hour utc) (tm_min utc) (tm_sec utc)"

text \<open>\<^verbatim>\<open>Timestamp::toFormatTedString\<close>.\<close>

definition toFormatTedString :: "(int \<Rightarrow> tm) \<Rightarrow> bool \<Rightarrow> Timestamp \<Rightarrow> string" where
  "toFormatTedString gmtime showMicroSeconds t =
     (let seconds = t sdiv kMicroSecondsPerSecond;
          tm_time = gmtime seconds;
          common = pad_sp 4 (dec_int (tm_year tm_time + 1900)) @ ''-'' @ pad0 2 (dec_int (tm_mon tm_time + 1)) @ ''-''
            @ pad0 2 (dec_int (tm_mday tm_time)) @ '' '' @ pad0 2 (dec_int (tm_hour tm_time)) @ '':''
            @ pad0 2 (dec_int (tm_min tm_time)) @ '':'' @ pad0 2 (dec_int (tm_sec tm_time))
      in if showMicroSeconds then
           let microSeconds = t smod kMicroSecondsPerSecond in
           snprintf 64 (common @ ''.'' @ pad0 3 (dec_int microSeconds))
         else snprintf 64 common)"

section \<open>Inverse of the Julian day number\<close>

lemma sdiv_nonneg: "0 \<le> x \<Longrightarrow> 0 < y \<Longrightarrow> x sdiv y = x div (y::int)"
  by (cases "x = 0") (simp_all add: signed_divide_int_def)

lemma div_unique_int: "y * q \<le> x \<Longrightarrow> x < y * q + y \<Longrightarrow> 0 < y \<Longrightarrow> x div (y::int) = q"
  by (rule int_div_pos_eq [of _ _ _ "x - y * q"]) auto

text \<open>Days before a year counted from March, by century and year of the century.\<close>

lemma quarter_days:
  fixes b :: int
  shows "(146097 * b) div 4 = 36524 * b + b div 4" "(1461 * b) div 4 = 365 * b + b div 4"
proof -
  have "146097 * b = b + 4 * (36524 * b)" "1461 * b = b + 4 * (365 * b)" by simp_all
  then show "(146097 * b) div 4 = 36524 * b + b div 4" "(1461 * b) div 4 = 365 * b + b div 4"
    by (simp_all only: div_mult_self2 zero_neq_numeral [symmetric] not_False_eq_True)
qed

lemma year_days:
  fixes b d :: int
  assumes "0 \<le> d" "d < 100" and y: "y = 100 * b + d"
  shows "y * 365 + y div 4 - y div 100 + y div 400 = (146097 * b) div 4 + (1461 * d) div 4"
proof -
  have "y div 100 = b" using assms by (intro div_unique_int) auto
  moreover have "y div 400 = b div 4"
    using zdiv_zmult2_eq [of 4 y 100] calculation by simp
  moreover have "y div 4 = 25 * b + d div 4"
  proof -
    have "y = d + 4 * (25 * b)" using y by simp
    then show ?thesis by simp
  qed
  ultimately show ?thesis using y by (simp add: quarter_days)
qed

text \<open>The decompositions that \<^verbatim>\<open>getYearMonthDay\<close> computes: a day count into centuries, years of the century and days
  of the year, and a day of the year into month and day.\<close>

lemma split_days:
  fixes n :: int
  assumes "0 \<le> n"
  defines "b \<equiv> (4 * n + 3) div 146097"
  defines "c \<equiv> n - (146097 * b) div 4"
  defines "d \<equiv> (4 * c + 3) div 1461"
  defines "e \<equiv> c - (1461 * d) div 4"
  shows "0 \<le> b" "0 \<le> c" "c \<le> 36524" "0 \<le> d" "d < 100" "0 \<le> e" "e \<le> 365"
    "n = (146097 * b) div 4 + (1461 * d) div 4 + e"
proof -
  have b: "146097 * b \<le> 4 * n + 3" "4 * n + 3 < 146097 * b + 146097"
    unfolding b_def by (simp_all add: pos_mod_bound mult.commute minus_mod_eq_mult_div [symmetric])
  show "0 \<le> b" unfolding b_def using assms(1) by simp
  have q: "4 * ((146097 * b) div 4) \<le> 146097 * b" "146097 * b \<le> 4 * ((146097 * b) div 4) + 3" by presburger+
  show c: "0 \<le> c" "c \<le> 36524" unfolding c_def using b q by linarith+
  have d: "1461 * d \<le> 4 * c + 3" "4 * c + 3 < 1461 * d + 1461"
    unfolding d_def by (simp_all add: pos_mod_bound mult.commute minus_mod_eq_mult_div [symmetric])
  show "0 \<le> d" unfolding d_def using c by simp
  show "d < 100" using d c by linarith
  have r: "4 * ((1461 * d) div 4) \<le> 1461 * d" "1461 * d \<le> 4 * ((1461 * d) div 4) + 3" by presburger+
  show "0 \<le> e" "e \<le> 365" unfolding e_def using d r by linarith+
  show "n = (146097 * b) div 4 + (1461 * d) div 4 + e" by (simp add: e_def c_def)
qed

lemma split_month:
  fixes e :: int
  assumes "0 \<le> e" "e \<le> 365"
  defines "m \<equiv> (5 * e + 2) div 153"
  shows "0 \<le> m" "m \<le> 11" "0 \<le> e - (153 * m + 2) div 5" "e - (153 * m + 2) div 5 \<le> 30"
proof -
  have m: "153 * m \<le> 5 * e + 2" "5 * e + 2 < 153 * m + 153"
    unfolding m_def by (simp_all add: pos_mod_bound mult.commute minus_mod_eq_mult_div [symmetric])
  show "0 \<le> m" unfolding m_def using assms(1) by simp
  show "m \<le> 11" using m assms(2) by linarith
  have r: "5 * ((153 * m + 2) div 5) \<le> 153 * m + 2" "153 * m + 2 \<le> 5 * ((153 * m + 2) div 5) + 4" by presburger+
  show "0 \<le> e - (153 * m + 2) div 5" "e - (153 * m + 2) div 5 \<le> 30" using m r by linarith+
qed

lemma ymd_fields:
  assumes "0 \<le> j + 32044"
  obtains b d e m where "getYearMonthDay j = \<lparr>ymd_year = 100 * b + d - 4800 + m div 10, ymd_month = m + 3 - 12 * (m div 10),
      ymd_day = e - (153 * m + 2) div 5 + 1\<rparr>"
    "0 \<le> b" "0 \<le> d" "d < 100" "0 \<le> e" "e \<le> 365" "0 \<le> m" "m \<le> 11" "m = (5 * e + 2) div 153"
    "j + 32044 = (146097 * b) div 4 + (1461 * d) div 4 + e"
proof -
  let ?n = "j + 32044"
  define b c d e where "b = (4 * ?n + 3) div 146097" and "c = ?n - (146097 * b) div 4"
    and "d = (4 * c + 3) div 1461" and "e = c - (1461 * d) div 4"
  have split: "0 \<le> b" "0 \<le> c" "0 \<le> d" "d < 100" "0 \<le> e" "e \<le> 365" "?n = (146097 * b) div 4 + (1461 * d) div 4 + e"
    using split_days [OF assms] unfolding b_def c_def d_def e_def by blast+
  define m where "m = (5 * e + 2) div 153"
  have m: "0 \<le> m" "m \<le> 11" using split_month [OF split(5,6)] by (simp_all add: m_def)
  have "getYearMonthDay j = \<lparr>ymd_year = 100 * b + d - 4800 + m div 10, ymd_month = m + 3 - 12 * (m div 10),
      ymd_day = e - (153 * m + 2) div 5 + 1\<rparr>"
  proof -
    have 1: "(4 * ?n + 3) sdiv 146097 = b" using assms by (simp add: sdiv_nonneg b_def)
    have 2: "(b * 146097) sdiv 4 = (146097 * b) div 4" using split(1) by (simp add: sdiv_nonneg mult.commute)
    have 3: "(4 * c + 3) sdiv 1461 = d" using split(2) by (simp add: sdiv_nonneg d_def)
    have 4: "(1461 * d) sdiv 4 = (1461 * d) div 4" using split(3) by (simp add: sdiv_nonneg)
    have 5: "(5 * e + 2) sdiv 153 = m" using split(5) by (simp add: sdiv_nonneg m_def)
    have 6: "(153 * m + 2) sdiv 5 = (153 * m + 2) div 5" "m sdiv 10 = m div 10" using m(1) by (simp_all add: sdiv_nonneg)
    show ?thesis unfolding getYearMonthDay_def Let_def 1 2 c_def [symmetric] 3 4 e_def [symmetric] 5 6
      by (simp add: mult.commute)
  qed
  then show ?thesis using that split m m_def by blast
qed

text \<open>The Julian day number of the date of a day is the day.\<close>

lemma julian_of_ymd:
  assumes "0 \<le> j + 32044" "getYearMonthDay j = ymd"
  shows "getJulianDayNumber (ymd_year ymd) (ymd_month ymd) (ymd_day ymd) = j"
    and "1 \<le> ymd_month ymd" "ymd_month ymd \<le> 12" "1 \<le> ymd_day ymd" "ymd_day ymd \<le> 31"
proof -
  obtain b d e m where f: "getYearMonthDay j = \<lparr>ymd_year = 100 * b + d - 4800 + m div 10, ymd_month = m + 3 - 12 * (m div 10),
      ymd_day = e - (153 * m + 2) div 5 + 1\<rparr>"
    and r: "0 \<le> b" "0 \<le> d" "d < 100" "0 \<le> e" "e \<le> 365" "0 \<le> m" "m \<le> 11" "m = (5 * e + 2) div 153"
    "j + 32044 = (146097 * b) div 4 + (1461 * d) div 4 + e"
    by (rule ymd_fields [OF assms(1)])
  have m10: "m div 10 = (if m \<le> 9 then 0 else 1)" using r(6,7) by (auto intro: div_unique_int)
  show month: "1 \<le> ymd_month ymd" "ymd_month ymd \<le> 12" using r(6,7) assms(2) by (auto simp: f m10)
  show "1 \<le> ymd_day ymd" "ymd_day ymd \<le> 31"
    using split_month(3,4) [OF r(4,5)] assms(2) unfolding r(8) [symmetric] by (auto simp: f)
  have a: "(14 - ymd_month ymd) sdiv 12 = m div 10"
  proof -
    have "(14 - ymd_month ymd) sdiv 12 = (14 - ymd_month ymd) div 12" using month by (simp add: sdiv_nonneg)
    also have "\<dots> = m div 10" using r(6,7) assms(2) by (auto simp: f m10 intro!: div_unique_int)
    finally show ?thesis .
  qed
  let ?y = "100 * b + d"
  have y: "ymd_year ymd + 4800 - m div 10 = ?y" "ymd_month ymd + 12 * (m div 10) - 3 = m"
    using assms(2) by (auto simp: f)
  have pos: "0 \<le> ?y" using r(1,2) by simp
  have "getJulianDayNumber (ymd_year ymd) (ymd_month ymd) (ymd_day ymd)
      = ymd_day ymd + (153 * m + 2) div 5 + (?y * 365 + ?y div 4 - ?y div 100 + ?y div 400) - 32045"
    unfolding getJulianDayNumber_def Let_def a y using pos r(6) by (simp add: sdiv_nonneg)
  also have "\<dots> = ymd_day ymd + (153 * m + 2) div 5 + ((146097 * b) div 4 + (1461 * d) div 4) - 32045"
    by (simp only: year_days [OF r(2,3) refl])
  finally have "getJulianDayNumber (ymd_year ymd) (ymd_month ymd) (ymd_day ymd)
      = ymd_day ymd + (153 * m + 2) div 5 + ((146097 * b) div 4 + (1461 * d) div 4) - 32045" .
  moreover have "ymd_day ymd = e - (153 * m + 2) div 5 + 1" using assms(2) by (auto simp: f)
  ultimately show "getJulianDayNumber (ymd_year ymd) (ymd_month ymd) (ymd_day ymd) = j" using r(9) by linarith
qed

text \<open>The dates of the Gregorian calendar, and that the day's date is the date it was made from.\<close>

definition leap :: "int \<Rightarrow> bool" where
  "leap y \<longleftrightarrow> 4 dvd y \<and> (\<not> 100 dvd y \<or> 400 dvd y)"

definition month_days :: "int \<Rightarrow> int \<Rightarrow> int" where
  "month_days year month =
     (if month = 2 then if leap year then 29 else 28
      else if month \<in> {4, 6, 9, 11} then 30 else 31)"

text \<open>Months counted from March: \<open>m\<close> is the month, \<open>k\<close> the day in it from 0; 29 February ends a year before a leap
  year.\<close>

lemma day_of_year:
  fixes m k :: int
  assumes "0 \<le> m" "m \<le> 11" "0 \<le> k" "k \<le> (if m = 11 then 28 else if m \<in> {1, 3, 6, 8} then 29 else 30)"
  shows "(5 * (k + (153 * m + 2) div 5) + 2) div 153 = m" "0 \<le> k + (153 * m + 2) div 5" "k + (153 * m + 2) div 5 \<le> 365"
    "m = 11 \<and> k = 28 \<or> k + (153 * m + 2) div 5 \<le> 364"
proof -
  have "m \<in> {0, 1, 2, 3, 4, 5, 6, 7, 8, 9, 10, 11}" using assms(1,2) by (simp only: insert_iff empty_iff) presburger
  then show "(5 * (k + (153 * m + 2) div 5) + 2) div 153 = m" "0 \<le> k + (153 * m + 2) div 5" "k + (153 * m + 2) div 5 \<le> 365"
    "m = 11 \<and> k = 28 \<or> k + (153 * m + 2) div 5 \<le> 364"
    using assms(3,4) by (auto intro!: div_unique_int)
qed

lemma join_days:
  fixes b d e :: int
  assumes "0 \<le> d" "d < 100" "0 \<le> e" "e \<le> 365" "e \<le> 364 \<or> d mod 4 = 3 \<and> (d = 99 \<longrightarrow> b mod 4 = 3)"
    and n: "n = (146097 * b) div 4 + (1461 * d) div 4 + e"
  shows "(4 * n + 3) div 146097 = b" "(4 * (n - (146097 * b) div 4) + 3) div 1461 = d"
proof -
  have q: "4 * ((146097 * b) div 4) = 146097 * b - b mod 4" "4 * ((1461 * d) div 4) = 1461 * d - d mod 4"
    using minus_mod_eq_mult_div [of b 4] minus_mod_eq_mult_div [of d 4] by (simp_all add: quarter_days)
  have r: "0 \<le> b mod 4" "b mod 4 \<le> 3" "0 \<le> d mod 4" "d mod 4 \<le> 3" by simp_all
  have n4: "4 * n + 3 = 146097 * b + (1461 * d + 4 * e + 3 - b mod 4 - d mod 4)" using q n by (simp add: algebra_simps)
  have "1461 * d + 4 * e + 3 - b mod 4 - d mod 4 < 146097"
  proof (cases "d = 99")
    case True
    then show ?thesis using assms(4,5) r by auto
  next
    case False
    then show ?thesis using assms(2,4) r by linarith
  qed
  moreover have "0 \<le> 1461 * d + 4 * e + 3 - b mod 4 - d mod 4" using assms(1,3) r
    by (cases "d = 0") auto
  ultimately show "(4 * n + 3) div 146097 = b" unfolding n4 by (intro div_unique_int) auto
  have c4: "4 * (n - (146097 * b) div 4) + 3 = 1461 * d + (4 * e + 3 - d mod 4)" using q n by (simp add: algebra_simps)
  have "4 * e + 3 - d mod 4 < 1461" using assms(4,5) r by auto
  then show "(4 * (n - (146097 * b) div 4) + 3) div 1461 = d"
    unfolding c4 using assms(3) r by (intro div_unique_int) auto
qed

lemma ymd_of_julian:
  assumes "1 \<le> month" "month \<le> 12" "1 \<le> day" "day \<le> month_days year month" "- 4799 \<le> year"
  shows "getYearMonthDay (getJulianDayNumber year month day) = \<lparr>ymd_year = year, ymd_month = month, ymd_day = day\<rparr>"
proof -
  define a where "a = (if month \<le> 2 then 1 else 0 :: int)"
  define y m k where "y = year + 4800 - a" and "m = month + 12 * a - 3" and "k = day - 1"
  define b d e where "b = y div 100" and "d = y mod 100" and "e = k + (153 * m + 2) div 5"
  have pos: "0 \<le> y" using assms(5) by (simp add: y_def a_def)
  have m: "0 \<le> m" "m \<le> 11" "0 \<le> k" using assms(1-3) by (auto simp: m_def a_def k_def)
  have kmax: "k \<le> (if m = 11 then 28 else if m \<in> {1, 3, 6, 8} then 29 else 30)"
    using assms(1,2,4) by (auto simp: m_def a_def k_def month_days_def split: if_splits)
  note e = day_of_year [OF m kmax, folded e_def]
  have d: "0 \<le> d" "d < 100" "y = 100 * b + d" by (simp_all add: d_def b_def)
  have leap: "e \<le> 364 \<or> d mod 4 = 3 \<and> (d = 99 \<longrightarrow> b mod 4 = 3)"
  proof (cases "e \<le> 364")
    case False
    with e(4) have feb: "m = 11" "k = 28" by auto
    then have "month = 2" "day = 29" using assms(1,2) by (auto simp: m_def a_def k_def split: if_splits)
    then have l: "leap year" "y + 1 = year + 4800" using assms(4) by (auto simp: month_days_def y_def a_def split: if_splits)
    have "(4::int) dvd 4800" "(100::int) dvd 4800" "(400::int) dvd 4800" by simp_all
    then have y1: "4 dvd y + 1" "\<not> 100 dvd y + 1 \<or> 400 dvd y + 1"
      using l(1) unfolding l(2) leap_def by (simp_all only: dvd_add_left_iff)
    have "4 dvd 100 * b + d + 1" using y1(1) d(3) by simp
    then have "d mod 4 = 3" by presburger
    moreover have "b mod 4 = 3" if "d = 99"
    proof -
      have "y + 1 = 100 * (b + 1)" using d(3) that by simp
      with y1(2) have "100 * 4 dvd 100 * (b + 1)" by simp
      then have "4 dvd b + 1" by (simp only: dvd_mult_cancel_left) simp
      then show ?thesis by presburger
    qed
    ultimately show ?thesis by blast
  qed simp
  define n where "n = (146097 * b) div 4 + (1461 * d) div 4 + e"
  note j = join_days [OF d(1,2) e(2,3) leap n_def]
  have b0: "0 \<le> b" using pos by (simp add: b_def pos_imp_zdiv_nonneg_iff)
  have a14: "(14 - month) sdiv 12 = a"
    using assms(1,2) by (auto simp: sdiv_nonneg a_def intro!: div_unique_int)
  have "getJulianDayNumber year month day = day + (153 * m + 2) div 5 + (y * 365 + y div 4 - y div 100 + y div 400) - 32045"
    unfolding getJulianDayNumber_def Let_def a14 y_def [symmetric] m_def [symmetric] using pos m(1) by (simp add: sdiv_nonneg)
  also have "\<dots> = n - 32044" using year_days [OF d] by (simp add: n_def e_def k_def)
  finally have jn: "getJulianDayNumber year month day + 32044 = n" by simp
  have n0: "0 \<le> n" using b0 d(1) e(2) by (simp add: n_def quarter_days)
  have c: "n - (146097 * b) div 4 - (1461 * d) div 4 = e" by (simp add: n_def)
  have m10: "m div 10 = a" using m assms(1,2) by (auto simp: m_def a_def intro!: div_unique_int)
  have c0: "0 \<le> n - (146097 * b) div 4" using d(1) e(2) by (simp add: n_def pos_imp_zdiv_nonneg_iff)
  have s1: "(4 * n + 3) sdiv 146097 = b" using j(1) n0 by (subst sdiv_nonneg) simp_all
  have s2: "(b * 146097) sdiv 4 = (146097 * b) div 4" using b0 by (subst sdiv_nonneg) (simp_all add: mult.commute)
  have s3: "(4 * (n - (146097 * b) div 4) + 3) sdiv 1461 = d" using j(2) c0 by (subst sdiv_nonneg) simp_all
  have s4: "(1461 * d) sdiv 4 = (1461 * d) div 4" using d(1) by (subst sdiv_nonneg) simp_all
  have s5: "(5 * e + 2) sdiv 153 = m" using e(1,2) by (subst sdiv_nonneg) simp_all
  have s6: "(153 * m + 2) sdiv 5 = (153 * m + 2) div 5" "m sdiv 10 = a" using m(1) m10 by (simp_all add: sdiv_nonneg)
  note s = s1 s2 s3 s4
  have "getYearMonthDay (getJulianDayNumber year month day)
      = \<lparr>ymd_year = b * 100 + d - 4800 + a, ymd_month = m + 3 - 12 * a, ymd_day = e - (153 * m + 2) div 5 + 1\<rparr>"
    unfolding getYearMonthDay_def Let_def jn s c s5 s6 ..
  then show ?thesis using d(3) by (simp add: y_def m_def e_def k_def)
qed

section \<open>UTC\<close>

lemma kJulianDayOf1970_01_01_value: "kJulianDayOf1970_01_01 = 2440588"
  by (simp add: kJulianDayOf1970_01_01_def getJulianDayNumber_def sdiv_nonneg Let_def)

text \<open>Adjusting truncating division for negative times is flooring division.\<close>

lemma floor_division:
  fixes t k :: int
  assumes "0 < k"
  shows "(if t smod k < 0 then (t smod k + k, t sdiv k - 1) else (t smod k, t sdiv k)) = (t mod k, t div k)"
proof (cases "0 \<le> t")
  case True
  then have "t sdiv k = t div k" using assms by (rule sdiv_nonneg)
  then have "t smod k = t mod k" using True assms by (cases "t = 0") (simp_all add: signed_modulo_int_def)
  with \<open>t sdiv k = t div k\<close> pos_mod_sign [OF assms, of t] show ?thesis by simp
next
  case False
  define u where "u = - t"
  have u: "0 < u" "t = - u" using False by (simp_all add: u_def)
  have q: "t sdiv k = - (u div k)" using u assms by (simp add: signed_divide_int_def)
  have r: "t smod k = - (u mod k)" using u assms by (simp add: signed_modulo_int_def)
  show ?thesis
  proof (cases "u mod k = 0")
    case True
    then show ?thesis using q r u(2) assms by (simp add: zdiv_zminus1_eq_if zmod_zminus1_eq_if)
  next
    case False
    then have "0 < u mod k" using assms by (simp add: order_less_le)
    then show ?thesis using q r u(2) False assms by (simp add: zdiv_zminus1_eq_if zmod_zminus1_eq_if)
  qed
qed

lemma fillHMS_fields:
  assumes "0 \<le> s" "s < kSecondsPerDay" and u: "u = fillHMS (nat s) v"
  shows "0 \<le> tm_sec u" "tm_sec u < 60" "0 \<le> tm_min u" "tm_min u < 60" "0 \<le> tm_hour u" "tm_hour u < 24"
    "tm_hour u * 3600 + tm_min u * 60 + tm_sec u = s"
proof -
  obtain n where n: "s = int n" using assms(1) by (metis nonneg_int_cases)
  have "n < 86400" using assms(2) n by (simp add: kSecondsPerDay_def)
  then have "n div 60 div 60 < 24" by (simp add: less_mult_imp_div_less)
  moreover have "n div 60 div 60 * 3600 + n div 60 mod 60 * 60 + n mod 60 = n"
    using div_mult_mod_eq [of n 60] div_mult_mod_eq [of "n div 60" 60] by linarith
  ultimately show "0 \<le> tm_sec u" "tm_sec u < 60" "0 \<le> tm_min u" "tm_min u < 60" "0 \<le> tm_hour u" "tm_hour u < 24"
    "tm_hour u * 3600 + tm_min u * 60 + tm_sec u = s"
    by (simp_all add: u fillHMS_def Let_def n)
qed

lemma toUtcTime_fields:
  fixes t :: int
  defines "date \<equiv> t div kSecondsPerDay + kJulianDayOf1970_01_01"
  defines "ymd \<equiv> getYearMonthDay date"
  shows "toUtcTime t yday =
    (let utc = (fillHMS (nat (t mod kSecondsPerDay)) (tm_zero\<lparr>tm_zone := ''GMT''\<rparr>))\<lparr>tm_year := ymd_year ymd - 1900,
       tm_mon := ymd_month ymd - 1, tm_mday := ymd_day ymd, tm_wday := weekDay date\<rparr>
     in if yday then utc\<lparr>tm_yday := date - getJulianDayNumber (ymd_year ymd) 1 1\<rparr> else utc)"
proof -
  have "0 < kSecondsPerDay" by (simp add: kSecondsPerDay_def)
  from floor_division [OF this, of t] show ?thesis
    unfolding toUtcTime_def Let_def date_def ymd_def yearMonthDay_def
    by (simp only: prod.case)
qed



end
