(* ===== verification/Zones.thy ===== *)
theory Zones
  imports Calendar
begin

text \<open>
  \<^verbatim>\<open>pallette/TimeZone.cpp\<close>: reading zone files and finding the local time in effect. A reader consumes bytes from the
  file; its \<^const>\<open>None\<close> is the \<^verbatim>\<open>logic_error\<close> it throws. A result of the outer type \<^typ>\<open>'a option\<close> is
  \<^const>\<open>None\<close> when the code indexes a vector outside its bounds, dereferences a null pointer or declares an array of
  negative length.
\<close>

record Transition =
  tr_gmttime :: int
  tr_localtime :: int
  tr_localtimeIdx :: nat

record Localtime =
  lt_gmtOffset :: int
  lt_isDst :: bool
  lt_arrbIdx :: nat

record zone_data =
  zd_transitions :: "Transition list"
  zd_localtimes :: "Localtime list"
  zd_abbreviation :: string

definition zone_empty :: zone_data where
  "zone_empty = \<lparr>zd_transitions = [], zd_localtimes = [], zd_abbreviation = []\<rparr>"

definition Comp_less :: "bool \<Rightarrow> Transition \<Rightarrow> Transition \<Rightarrow> bool" where
  "Comp_less compareGmt lhs rhs =
     (if compareGmt then tr_gmttime lhs < tr_gmttime rhs else tr_localtime lhs < tr_localtime rhs)"

definition Comp_equal :: "bool \<Rightarrow> Transition \<Rightarrow> Transition \<Rightarrow> bool" where
  "Comp_equal compareGmt lhs rhs =
     (if compareGmt then tr_gmttime lhs = tr_gmttime rhs else tr_localtime lhs = tr_localtime rhs)"

section \<open>Zone files\<close>

type_synonym 'a reader = "string \<Rightarrow> ('a \<times> string) option"

definition File_readBytes :: "nat \<Rightarrow> string reader" where
  "File_readBytes n f = (if length f < n then None else Some (take n f, drop n f))"

definition File_readInt32 :: "int reader" where
  "File_readInt32 f = do { (x, f) \<leftarrow> File_readBytes 4 f; Some (sint (networkToHost32 (of_mem x)), f) }"

definition File_readUInt8 :: "nat reader" where
  "File_readUInt8 f = do { (x, f) \<leftarrow> File_readBytes 1 f; Some (of_char (hd x), f) }"

text \<open>A loop that reads \<open>n\<close> items and appends each to a vector before it reads the next: the vector, and the rest of
  the file unless an exception was thrown.\<close>

primrec read_items :: "nat \<Rightarrow> 'a reader \<Rightarrow> string \<Rightarrow> 'a list \<times> string option" where
  "read_items 0 r f = ([], Some f)"
| "read_items (Suc n) r f =
     (case r f of
        None \<Rightarrow> ([], None)
      | Some (x, f) \<Rightarrow> (case read_items n r f of (xs, rest) \<Rightarrow> (x # xs, rest)))"

definition read_localtime :: "Localtime reader" where
  "read_localtime f = do {
     (gmtoff, f) \<leftarrow> File_readInt32 f;
     (isdst, f) \<leftarrow> File_readUInt8 f;
     (abbrind, f) \<leftarrow> File_readUInt8 f;
     Some (\<lparr>lt_gmtOffset = gmtoff, lt_isDst = (isdst \<noteq> 0), lt_arrbIdx = abbrind\<rparr>, f) }"

definition read_header :: "(int \<times> int \<times> int) reader" where
  "read_header f = do {
     (head, f) \<leftarrow> File_readBytes 4 f;
     if head \<noteq> ''TZif'' then None else do {
       (version, f) \<leftarrow> File_readBytes 1 f;
       (reserved, f) \<leftarrow> File_readBytes 15 f;
       (isgmtcnt, f) \<leftarrow> File_readInt32 f;
       (isstdcnt, f) \<leftarrow> File_readInt32 f;
       (leapcnt, f) \<leftarrow> File_readInt32 f;
       (timecnt, f) \<leftarrow> File_readInt32 f;
       (typecnt, f) \<leftarrow> File_readInt32 f;
       (charcnt, f) \<leftarrow> File_readInt32 f;
       Some ((timecnt, typecnt, charcnt), f) } }"

primrec make_transitions :: "(int \<times> nat) list \<Rightarrow> Localtime list \<Rightarrow> Transition list option" where
  "make_transitions [] localtimes = Some []"
| "make_transitions (x # xs) localtimes = do {
     assertion (snd x < length localtimes);
     rest \<leftarrow> make_transitions xs localtimes;
     Some (\<lparr>tr_gmttime = fst x, tr_localtime = fst x + lt_gmtOffset (localtimes ! snd x), tr_localtimeIdx = snd x\<rparr> # rest) }"

text \<open>The result is the data filled in until an exception ended the reading; a negative \<^verbatim>\<open>timecnt\<close> makes
  \<^verbatim>\<open>reserve\<close> throw.\<close>

definition readTimeZoneFile :: "string option \<Rightarrow> zone_data option" where
  "readTimeZoneFile zonefile =
     (case zonefile of
        None \<Rightarrow> Some zone_empty
      | Some f \<Rightarrow>
          (case read_header f of
             None \<Rightarrow> Some zone_empty
           | Some ((timecnt, typecnt, charcnt), f) \<Rightarrow>
               if timecnt < 0 then Some zone_empty
               else (case read_items (nat timecnt) File_readInt32 f of
                 (moments, None) \<Rightarrow> Some zone_empty
               | (moments, Some f) \<Rightarrow>
                   (case read_items (nat timecnt) File_readUInt8 f of
                      (idx, None) \<Rightarrow> Some zone_empty
                    | (idx, Some f) \<Rightarrow>
                        (case read_items (nat typecnt) read_localtime f of
                           (locals, None) \<Rightarrow> Some (zone_empty\<lparr>zd_localtimes := locals\<rparr>)
                         | (locals, Some f) \<Rightarrow> do {
                             transitions \<leftarrow> make_transitions (zip moments idx) locals;
                             assertion (charcnt \<ge> 0);
                             let data = zone_empty\<lparr>zd_localtimes := locals, zd_transitions := transitions\<rparr>;
                             Some (case File_readBytes (nat charcnt) f of
                                     None \<Rightarrow> data
                                   | Some (abbr, f) \<Rightarrow> data\<lparr>zd_abbreviation := abbr\<rparr>) })))))"

section \<open>Finding the local time\<close>

definition lower_bound :: "(Transition \<Rightarrow> bool) \<Rightarrow> Transition list \<Rightarrow> nat" where
  "lower_bound before ts = length (takeWhile before ts)"

definition findLocaltime :: "zone_data \<Rightarrow> Transition \<Rightarrow> bool \<Rightarrow> Localtime option" where
  "findLocaltime data sentry compareGmt =
     (let transitions = zd_transitions data;
          local = (\<lambda>i. if i < length (zd_localtimes data) then Some (zd_localtimes data ! i) else None)
      in if transitions = [] \<or> Comp_less compareGmt sentry (hd transitions) then local 0
         else
           let transI = lower_bound (\<lambda>tr. Comp_less compareGmt tr sentry) transitions in
           if transI < length transitions then
             if \<not> Comp_equal compareGmt sentry (transitions ! transI) then do {
               assertion (transI \<noteq> 0);
               local (tr_localtimeIdx (transitions ! (transI - 1))) }
             else local (tr_localtimeIdx (transitions ! transI))
           else local (tr_localtimeIdx (last transitions)))"

text \<open>A zone is a null pointer when it was default-constructed.\<close>

type_synonym TimeZone = "zone_data option"

definition TimeZone_file :: "string option \<Rightarrow> TimeZone option" where
  "TimeZone_file zonefile = map_option Some (readTimeZoneFile zonefile)"

definition TimeZone_fixed :: "int \<Rightarrow> string \<Rightarrow> TimeZone" where
  "TimeZone_fixed eastOfUtc name =
     Some (zone_empty\<lparr>zd_localtimes := [\<lparr>lt_gmtOffset = eastOfUtc, lt_isDst = False, lt_arrbIdx = 0\<rparr>], zd_abbreviation := name\<rparr>)"

definition toLocalTime :: "(int \<Rightarrow> tm) \<Rightarrow> TimeZone \<Rightarrow> int \<Rightarrow> tm option" where
  "toLocalTime gmtime zone seconds = do {
     data \<leftarrow> zone;
     local \<leftarrow> findLocaltime data \<lparr>tr_gmttime = seconds, tr_localtime = 0, tr_localtimeIdx = 0\<rparr> True;
     let localSeconds = seconds + lt_gmtOffset local;
     assertion (lt_arrbIdx local \<le> length (zd_abbreviation data));
     Some ((gmtime localSeconds)\<lparr>tm_isdst := lt_isDst local, tm_gmtoff := lt_gmtOffset local,
       tm_zone := takeWhile (\<lambda>c. c \<noteq> CHR 0x00) (drop (lt_arrbIdx local) (zd_abbreviation data))\<rparr>) }"

definition fromLocalTime :: "(int \<Rightarrow> tm) \<Rightarrow> (tm \<Rightarrow> int) \<Rightarrow> TimeZone \<Rightarrow> tm \<Rightarrow> int option" where
  "fromLocalTime gmtime timegm zone localTm = do {
     data \<leftarrow> zone;
     let seconds = timegm localTm;
     local \<leftarrow> findLocaltime data \<lparr>tr_gmttime = 0, tr_localtime = seconds, tr_localtimeIdx = 0\<rparr> False;
     if tm_isdst localTm then do {
       tryTm \<leftarrow> toLocalTime gmtime zone (seconds - lt_gmtOffset local);
       let seconds = (if \<not> tm_isdst tryTm \<and> tm_hour tryTm = tm_hour localTm \<and> tm_min tryTm = tm_min localTm
                      then seconds - 3600 else seconds);
       Some (seconds - lt_gmtOffset local) }
     else Some (seconds - lt_gmtOffset local) }"

section \<open>The local time in effect\<close>

lemma sorted_takeWhile_filter:
  assumes "sorted_wrt (\<lambda>a b. f a < (f b :: int)) ts" "\<And>x y. f x < f y \<Longrightarrow> P y \<Longrightarrow> P x"
  shows "takeWhile P ts = filter P ts"
  using assms(1)
proof (induction ts)
  case (Cons a ts)
  then have "\<not> P a \<Longrightarrow> filter P ts = []" using assms(2) by (auto simp: filter_empty_conv)
  with Cons show ?case by auto
qed simp

text \<open>The transitions up to a time, by position: all before the first later one.\<close>

lemma last_up_to:
  assumes "sorted_wrt (\<lambda>a b. tr_gmttime a < tr_gmttime b) ts" "ts \<noteq> []" "tr_gmttime (hd ts) \<le> t"
  defines "n \<equiv> length (takeWhile (\<lambda>x. tr_gmttime x < t) ts)"
  shows "last (filter (\<lambda>x. tr_gmttime x \<le> t) ts)
      = (if n < length ts then if tr_gmttime (ts ! n) \<noteq> t then ts ! (n - 1) else ts ! n else last ts)"
    and "n < length ts \<Longrightarrow> tr_gmttime (ts ! n) \<noteq> t \<Longrightarrow> n \<noteq> 0"
    and "filter (\<lambda>x. tr_gmttime x \<le> t) ts \<noteq> []"
proof -
  let ?le = "filter (\<lambda>x. tr_gmttime x \<le> t) ts" and ?lt = "filter (\<lambda>x. tr_gmttime x < t) ts"
  have lt: "takeWhile (\<lambda>x. tr_gmttime x < t) ts = ?lt" and le: "takeWhile (\<lambda>x. tr_gmttime x \<le> t) ts = ?le"
    by (rule sorted_takeWhile_filter [OF assms(1)]; linarith)+
  show ne: "?le \<noteq> []" using assms(2,3) by (cases ts) auto
  have at: "t \<le> tr_gmttime (ts ! n)" if "n < length ts"
    using nth_length_takeWhile [of "\<lambda>x. tr_gmttime x < t" ts] that by (simp add: n_def)
  have pre: "take n ts = ?lt" unfolding n_def using takeWhile_eq_take [of "\<lambda>x. tr_gmttime x < t" ts] lt by simp
  have later: "t < tr_gmttime (ts ! i)" if "n < i" "i < length ts" for i
    using at sorted_wrt_nth_less [OF assms(1) that] that by simp
  have rest: "filter (\<lambda>x. tr_gmttime x \<le> t) (drop (Suc n) ts) = []"
  proof -
    have "t < tr_gmttime x" if "x \<in> set (drop (Suc n) ts)" for x
    proof -
      from that obtain i where "i < length (drop (Suc n) ts)" "x = drop (Suc n) ts ! i" by (auto simp: in_set_conv_nth)
      then show ?thesis using later [of "Suc n + i"] by simp
    qed
    then show ?thesis by (auto simp: filter_empty_conv not_le)
  qed
  have front: "filter (\<lambda>x. tr_gmttime x \<le> t) (take n ts) = take n ts"
    unfolding pre by (rule filter_True) auto
  have whole: "?le = take n ts @ filter (\<lambda>x. tr_gmttime x \<le> t) [ts ! n]" if "n < length ts"
  proof -
    have "ts = take n ts @ ts ! n # drop (Suc n) ts" using that by (rule id_take_nth_drop)
    then have "?le = filter (\<lambda>x. tr_gmttime x \<le> t) (take n ts @ [ts ! n] @ drop (Suc n) ts)" by simp
    then show ?thesis by (simp only: filter_append front rest append_Nil2)
  qed
  show pos: "n \<noteq> 0" if "n < length ts" "tr_gmttime (ts ! n) \<noteq> t"
    using whole [OF that(1)] at [OF that(1)] that(2) ne by auto
  show "last ?le = (if n < length ts then if tr_gmttime (ts ! n) \<noteq> t then ts ! (n - 1) else ts ! n else last ts)"
  proof (cases "n < length ts")
    case True
    show ?thesis
    proof (cases "tr_gmttime (ts ! n) = t")
      case False
      with whole [OF True] at [OF True] have "?le = take n ts" by simp
      moreover have "take n ts \<noteq> []" using pos [OF True False] True by auto
      ultimately show ?thesis using True False by (simp add: last_conv_nth)
    qed (use whole [OF True] True in simp)
  next
    case False
    then have "takeWhile (\<lambda>x. tr_gmttime x < t) ts = ts"
      using takeWhile_eq_take [of "\<lambda>x. tr_gmttime x < t" ts] by (simp add: n_def)
    then have "?lt = ts" by (simp add: lt)
    then have "?le = ts" by (metis (no_types, lifting) filter_id_conv less_imp_le)
    with False show ?thesis by simp
  qed
qed


text \<open>For the witness: a zone with one change, at second 1000.\<close>

definition demo_zone :: zone_data where
  "demo_zone = \<lparr>zd_transitions = [\<lparr>tr_gmttime = 1000, tr_localtime = 8200, tr_localtimeIdx = 1\<rparr>],
     zd_localtimes = [\<lparr>lt_gmtOffset = 3600, lt_isDst = False, lt_arrbIdx = 0\<rparr>,
       \<lparr>lt_gmtOffset = 7200, lt_isDst = True, lt_arrbIdx = 4\<rparr>], zd_abbreviation = []\<rparr>"


text \<open>A zone read from a file that is missing or no zone file counts as valid but has no local time: asking it stops.\<close>

lemma bad_zone_file_stops:
  assumes "zonefile = None \<or> (\<exists>f. zonefile = Some f \<and> read_header f = None)"
  shows "TimeZone_file zonefile = Some (Some zone_empty)" "toLocalTime gmtime (Some zone_empty) t = None"
proof -
  show "TimeZone_file zonefile = Some (Some zone_empty)"
    using assms by (auto simp: TimeZone_file_def readTimeZoneFile_def)
  show "toLocalTime gmtime (Some zone_empty) t = None"
    by (simp add: toLocalTime_def findLocaltime_def zone_empty_def)
qed

text \<open>In a zone with a fixed offset local time converts back to the moment it was computed from.\<close>

lemma fixed_zone_roundtrip:
  assumes "\<And>s. timegm ((gmtime s)\<lparr>tm_isdst := False, tm_gmtoff := eastOfUtc, tm_zone := takeWhile (\<lambda>c. c \<noteq> CHR 0x00) name\<rparr>) = s"
    "toLocalTime gmtime (TimeZone_fixed eastOfUtc name) t = Some l"
  shows "fromLocalTime gmtime timegm (TimeZone_fixed eastOfUtc name) l = Some t"
proof -
  have l: "l = (gmtime (t + eastOfUtc))\<lparr>tm_isdst := False, tm_gmtoff := eastOfUtc, tm_zone := takeWhile (\<lambda>c. c \<noteq> CHR 0x00) name\<rparr>"
    using assms(2) by (simp add: toLocalTime_def TimeZone_fixed_def findLocaltime_def zone_empty_def)
  have "timegm l = t + eastOfUtc" unfolding l by (rule assms(1))
  then show ?thesis by (simp add: fromLocalTime_def TimeZone_fixed_def findLocaltime_def zone_empty_def) (simp add: l)
qed

text \<open>The code's own UTC functions fit there.\<close>

lemma fromUtcTime_tm_fields [simp]:
  "fromUtcTime_tm (u\<lparr>tm_isdst := x, tm_gmtoff := y, tm_zone := z\<rparr>) = fromUtcTime_tm u"
  by (simp add: fromUtcTime_tm_def)

end
