(* ===== verification/Logs.thy ===== *)
theory Logs
  imports Zones
begin

text \<open>
  The front end of logging: the fixed-size buffer and the number conversions of \<^verbatim>\<open>LogStream.h\<close> and \<^verbatim>\<open>LogStream.cpp\<close>,
  \<^verbatim>\<open>utils::stringFormat\<close> and \<^verbatim>\<open>utils::regexSplit\<close> of \<^verbatim>\<open>Strings.cpp\<close>, and the log records of \<^verbatim>\<open>Logging.cpp\<close> with
  the per-thread cache of the formatted second.

  A character array keeps all its bytes, also those not yet written; the bytes a constructor leaves uninitialised are an
  argument. An access outside an array stops. The printed form of a \<^verbatim>\<open>double\<close>, the text of an error number,
  \<^verbatim>\<open>gmtime_r\<close>, the clock and the thread number are arguments.
\<close>

section \<open>The log buffer\<close>

record LogBuffer =
  lb_data :: string
  lb_cur :: nat

definition kSmallBuffer :: nat where
  "kSmallBuffer = 4000"

definition kLargeBuffer :: nat where
  "kLargeBuffer = 4000 * 1000"

definition LogBuffer_new :: "string \<Rightarrow> LogBuffer" where
  "LogBuffer_new garbage = \<lparr>lb_data = garbage, lb_cur = 0\<rparr>"

definition LogBuffer_avail :: "LogBuffer \<Rightarrow> nat" where
  "LogBuffer_avail b = length (lb_data b) - lb_cur b"

text \<open>\<^verbatim>\<open>append(buf, len)\<close> is given an address with at least \<open>min len avail\<close> readable bytes.\<close>

definition LogBuffer_append :: "string \<Rightarrow> nat \<Rightarrow> LogBuffer \<Rightarrow> LogBuffer" where
  "LogBuffer_append buf len b =
     (if LogBuffer_avail b > len
      then b\<lparr>lb_data := write_at (lb_cur b) (take len buf) (lb_data b), lb_cur := lb_cur b + len\<rparr>
      else b\<lparr>lb_data := write_at (lb_cur b) (take (LogBuffer_avail b) buf) (lb_data b), lb_cur := length (lb_data b)\<rparr>)"

definition LogBuffer_add :: "nat \<Rightarrow> LogBuffer \<Rightarrow> LogBuffer" where
  "LogBuffer_add len b = b\<lparr>lb_cur := lb_cur b + len\<rparr>"

definition LogBuffer_reset :: "LogBuffer \<Rightarrow> LogBuffer" where
  "LogBuffer_reset b = b\<lparr>lb_cur := 0\<rparr>"

definition LogBuffer_bzeros :: "LogBuffer \<Rightarrow> LogBuffer" where
  "LogBuffer_bzeros b = b\<lparr>lb_data := replicate (length (lb_data b)) (CHR 0x00)\<rparr>"

definition LogBuffer_toString :: "LogBuffer \<Rightarrow> string" where
  "LogBuffer_toString b = take (lb_cur b) (lb_data b)"

section \<open>Numbers\<close>

text \<open>\<^verbatim>\<open>strlen\<close>: the bytes of an array from a position up to the first zero.\<close>

definition c_string_at :: "nat \<Rightarrow> string \<Rightarrow> string" where
  "c_string_at p buf = takeWhile (\<lambda>c. c \<noteq> CHR 0x00) (drop p buf)"

text \<open>\<^verbatim>\<open>-value\<close> in a signed type of \<open>w\<close> bits: the least value is its own negation in two's complement.\<close>

definition negate_in :: "nat \<Rightarrow> int \<Rightarrow> int" where
  "negate_in w v = (if v = - (2 ^ (w - 1)) then v else - v)"

definition digits :: string where
  "digits = ''0123456789''"

definition hex_digits :: string where
  "hex_digits = ''0123456789ABCDEF''"

function convert_loop :: "string \<Rightarrow> nat \<Rightarrow> int \<Rightarrow> (string \<times> nat) option" where
  "convert_loop buf ptr v =
     (if ptr = 0 \<or> v smod 10 < 0 then None
      else let buf' = buf[ptr - 1 := digits ! nat (v smod 10)]; v' = v sdiv 10
           in if v' \<noteq> 0 then convert_loop buf' (ptr - 1) v' else Some (buf', ptr - 1))"
  by pat_completeness auto
termination by (relation "measure (\<lambda>(_, ptr, _). ptr)") auto

definition convert :: "nat \<Rightarrow> string \<Rightarrow> int \<Rightarrow> (string \<times> nat) option" where
  "convert w buf v = do {
     let signFlag = v < 0;
     (buf, ptr) \<leftarrow> convert_loop buf 31 (if signFlag then negate_in w v else v);
     if signFlag then do {
       assertion (0 < ptr);
       Some (buf[ptr - 1 := CHR ''-''], ptr - 1) }
     else Some (buf, ptr) }"

function convertHex_loop :: "string \<Rightarrow> nat \<Rightarrow> nat \<Rightarrow> (string \<times> nat) option" where
  "convertHex_loop buf ptr v =
     (if ptr = 0 then None
      else let buf' = buf[ptr - 1 := hex_digits ! (v mod 16)]; v' = v div 16
           in if v' \<noteq> 0 then convertHex_loop buf' (ptr - 1) v' else Some (buf', ptr - 1))"
  by pat_completeness auto
termination by (relation "measure (\<lambda>(_, ptr, _). ptr)") auto

definition convertHex :: "string \<Rightarrow> 64 word \<Rightarrow> (string \<times> nat) option" where
  "convertHex buf v = convertHex_loop buf 31 (unat v)"

declare convert_loop.simps [simp del] convertHex_loop.simps [simp del]

section \<open>The stream\<close>

definition kMaxNumberSize :: nat where
  "kMaxNumberSize = 32"

record LogStream =
  ls_buffer :: LogBuffer

definition LogStream_append :: "string \<Rightarrow> nat \<Rightarrow> LogStream \<Rightarrow> LogStream" where
  "LogStream_append d len s = s\<lparr>ls_buffer := LogBuffer_append d len (ls_buffer s)\<rparr>"

definition resetBuffer :: "LogStream \<Rightarrow> LogStream" where
  "resetBuffer s = s\<lparr>ls_buffer := LogBuffer_reset (ls_buffer s)\<rparr>"

text \<open>\<^verbatim>\<open>foramtInteger<T>\<close>, with the width of \<open>T\<close>; every overload for an integer type calls it.\<close>

definition foramtInteger :: "nat \<Rightarrow> int \<Rightarrow> LogStream \<Rightarrow> LogStream option" where
  "foramtInteger w v s =
     (if LogBuffer_avail (ls_buffer s) > kMaxNumberSize then do {
        (buf, ptr) \<leftarrow> convert w (replicate kMaxNumberSize (CHR 0x00)) v;
        Some (LogStream_append (c_string_at ptr buf) (length (c_string_at ptr buf)) s) }
      else Some s)"

definition put_bool :: "bool \<Rightarrow> LogStream \<Rightarrow> LogStream" where
  "put_bool v = LogStream_append (if v then ''1'' else ''0'') 1"

definition put_short :: "int \<Rightarrow> LogStream \<Rightarrow> LogStream option" where
  "put_short v = foramtInteger 16 v"

definition put_unsigned_short :: "int \<Rightarrow> LogStream \<Rightarrow> LogStream option" where
  "put_unsigned_short v = foramtInteger 16 v"

definition put_int :: "int \<Rightarrow> LogStream \<Rightarrow> LogStream option" where
  "put_int v = foramtInteger 32 v"

definition put_unsigned_int :: "int \<Rightarrow> LogStream \<Rightarrow> LogStream option" where
  "put_unsigned_int v = foramtInteger 32 v"

definition put_long :: "int \<Rightarrow> LogStream \<Rightarrow> LogStream option" where
  "put_long v = foramtInteger 64 v"

definition put_unsigned_long :: "int \<Rightarrow> LogStream \<Rightarrow> LogStream option" where
  "put_unsigned_long v = foramtInteger 64 v"

definition put_long_long :: "int \<Rightarrow> LogStream \<Rightarrow> LogStream option" where
  "put_long_long v = foramtInteger 64 v"

definition put_unsigned_long_long :: "int \<Rightarrow> LogStream \<Rightarrow> LogStream option" where
  "put_unsigned_long_long v = foramtInteger 64 v"

text \<open>\<open>fmt v\<close> is the text of \<^verbatim>\<open>%.15g\<close>; \<^verbatim>\<open>snprintf\<close> returns the length of the whole text, and \<^verbatim>\<open>append\<close> then reads
  that many bytes of the 32 in \<^verbatim>\<open>buf\<close>.\<close>

definition put_double :: "('d \<Rightarrow> string) \<Rightarrow> 'd \<Rightarrow> LogStream \<Rightarrow> LogStream option" where
  "put_double fmt v s =
     (if LogBuffer_avail (ls_buffer s) \<ge> kMaxNumberSize then do {
        let buf = write_at 0 (snprintf 32 (fmt v)) (replicate 32 (CHR 0x00));
        let len = length (fmt v);
        assertion (len \<le> 32);
        Some (LogStream_append buf len s) }
      else Some s)"

definition put_float :: "('f \<Rightarrow> 'd) \<Rightarrow> ('d \<Rightarrow> string) \<Rightarrow> 'f \<Rightarrow> LogStream \<Rightarrow> LogStream option" where
  "put_float to_double fmt v = put_double fmt (to_double v)"

definition put_char :: "char \<Rightarrow> LogStream \<Rightarrow> LogStream" where
  "put_char v = LogStream_append [v] 1"

text \<open>A \<^verbatim>\<open>const char*\<close>: null, or the bytes before the terminating zero.\<close>

definition put_c_string :: "string option \<Rightarrow> LogStream \<Rightarrow> LogStream" where
  "put_c_string str s = (case str of Some t \<Rightarrow> LogStream_append t (length t) s | None \<Rightarrow> LogStream_append ''(NULL)'' 6 s)"

definition put_unsigned_c_string :: "string option \<Rightarrow> LogStream \<Rightarrow> LogStream" where
  "put_unsigned_c_string str = put_c_string str"

definition put_pointer :: "64 word \<Rightarrow> LogStream \<Rightarrow> LogStream option" where
  "put_pointer p s =
     (if LogBuffer_avail (ls_buffer s) > kMaxNumberSize then do {
        let s = LogStream_append ''0x'' 2 s;
        (buf, ptr) \<leftarrow> convertHex (replicate kMaxNumberSize (CHR 0x00)) p;
        Some (LogStream_append (c_string_at ptr buf) (length (c_string_at ptr buf)) s) }
      else Some s)"

text \<open>\<^verbatim>\<open>static_cast<int>\<close> of a length that \<^verbatim>\<open>append\<close> takes as a \<^verbatim>\<open>size_t\<close> again.\<close>

definition int_as_size :: "nat \<Rightarrow> nat" where
  "int_as_size n = (let i = n mod 2 ^ 32 in if i < 2 ^ 31 then i else i + (2 ^ 64 - 2 ^ 32))"

definition put_string :: "string \<Rightarrow> LogStream \<Rightarrow> LogStream" where
  "put_string v = LogStream_append v (int_as_size (length v))"

definition put_LogBuffer :: "LogBuffer \<Rightarrow> LogStream \<Rightarrow> LogStream" where
  "put_LogBuffer v = put_string (LogBuffer_toString v)"

section \<open>Formatted strings\<close>

text \<open>\<^verbatim>\<open>utils::stringFormat\<close>: \<open>t\<close> is the whole text the format and its arguments stand for, so \<^verbatim>\<open>vsnprintf\<close> with room
  for \<open>stringSize\<close> bytes returns its length; the text is shorter than \<open>2 ^ 31\<close>.\<close>

definition vsnprintf :: "nat \<Rightarrow> string \<Rightarrow> nat \<times> string" where
  "vsnprintf stringSize t = (length t, take (stringSize - 1) t)"

function stringFormat_loop :: "nat \<Rightarrow> string \<Rightarrow> string" where
  "stringFormat_loop stringSize t =
     (let (n, formatText) = vsnprintf stringSize t
      in if n < stringSize then take n formatText else stringFormat_loop (n + 1) t)"
  by pat_completeness auto
termination by (relation "measure (\<lambda>(stringSize, t). length t + 1 - stringSize)") (auto simp: vsnprintf_def)

declare stringFormat_loop.simps [simp del]

definition stringFormat :: "string \<Rightarrow> string" where
  "stringFormat t = stringFormat_loop 100 t"

text \<open>\<^verbatim>\<open>utils::regexSplit\<close>, over the tokens between the matches of the expression.\<close>

definition regexSplit :: "(string \<Rightarrow> string \<Rightarrow> string list) \<Rightarrow> string \<Rightarrow> string \<Rightarrow> string list" where
  "regexSplit tokens s delim =
     (let splitResult = tokens s delim;
          splitResult = (if splitResult = [s] then [] else splitResult)
      in case splitResult of [] \<Rightarrow> [] | t # ts \<Rightarrow> if t = [] then ts else splitResult)"

section \<open>Log records\<close>

datatype ENUM_LOGLEVEL = TRACE | DEBUG | INFO | WARN | ERROR | FATAL | NUM_LOG_LEVELS

primrec level_index :: "ENUM_LOGLEVEL \<Rightarrow> nat" where
  "level_index TRACE = 0"
| "level_index DEBUG = 1"
| "level_index INFO = 2"
| "level_index WARN = 3"
| "level_index ERROR = 4"
| "level_index FATAL = 5"
| "level_index NUM_LOG_LEVELS = 6"

lemma level_index_inject: "level_index a = level_index b \<longleftrightarrow> a = b"
  by (cases a; cases b) simp_all

instantiation ENUM_LOGLEVEL :: linorder
begin

definition less_eq_ENUM_LOGLEVEL :: "ENUM_LOGLEVEL \<Rightarrow> ENUM_LOGLEVEL \<Rightarrow> bool" where
  "a \<le> b \<longleftrightarrow> level_index a \<le> level_index b"

definition less_ENUM_LOGLEVEL :: "ENUM_LOGLEVEL \<Rightarrow> ENUM_LOGLEVEL \<Rightarrow> bool" where
  "a < b \<longleftrightarrow> level_index a < level_index b"

instance
  by standard (auto simp: less_eq_ENUM_LOGLEVEL_def less_ENUM_LOGLEVEL_def level_index_inject)

end

definition LogLevelName :: "string list" where
  "LogLevelName = [''TRACE'', ''DEBUG'', ''INFO'', ''WARN'', ''ERROR'', ''FATAL'']"

definition InitLogLevel :: "(string \<Rightarrow> string option) \<Rightarrow> ENUM_LOGLEVEL" where
  "InitLogLevel getenv =
     (if getenv ''BASE_LOG_TRACE'' \<noteq> None then TRACE
      else if getenv ''BASE_LOG_DEBUG'' \<noteq> None then DEBUG else INFO)"

text \<open>The globals of \<^verbatim>\<open>Logging.cpp\<close>; the output and flush functions act on the world \<open>'w\<close> they write to.\<close>

record 'w log_globals =
  gLogLevel :: ENUM_LOGLEVEL
  gOutput :: "string \<Rightarrow> nat \<Rightarrow> 'w \<Rightarrow> 'w option"
  gFlush :: "'w \<Rightarrow> 'w"
  gLogTimeZone :: TimeZone

definition DefaultOutput :: "(string \<Rightarrow> 'w \<Rightarrow> nat \<times> 'w) \<Rightarrow> string \<Rightarrow> nat \<Rightarrow> 'w \<Rightarrow> 'w option" where
  "DefaultOutput fwrite msg len w = (let (n, w') = fwrite (take len msg) w in do {
     assertion (n = len);
     Some w' })"

definition setLogLevel :: "ENUM_LOGLEVEL \<Rightarrow> 'w log_globals \<Rightarrow> 'w log_globals" where
  "setLogLevel level g = g\<lparr>gLogLevel := level\<rparr>"

definition setOutput :: "(string \<Rightarrow> nat \<Rightarrow> 'w \<Rightarrow> 'w option) \<Rightarrow> 'w log_globals \<Rightarrow> 'w log_globals" where
  "setOutput out g = g\<lparr>gOutput := out\<rparr>"

definition setFlush :: "('w \<Rightarrow> 'w) \<Rightarrow> 'w log_globals \<Rightarrow> 'w log_globals" where
  "setFlush flush g = g\<lparr>gFlush := flush\<rparr>"

definition setTimeZone :: "TimeZone \<Rightarrow> 'w log_globals \<Rightarrow> 'w log_globals" where
  "setTimeZone tz g = g\<lparr>gLogTimeZone := tz\<rparr>"

text \<open>The thread-local cache: the last second formatted and its text.\<close>

record log_thread =
  tLastSecond :: int
  tTime :: string

definition log_thread_init :: log_thread where
  "log_thread_init = \<lparr>tLastSecond = 0, tTime = []\<rparr>"

definition second_text :: "tm \<Rightarrow> string" where
  "second_text tm_time = pad_sp 4 (dec_int (tm_year tm_time + 1900)) @ pad0 2 (dec_int (tm_mon tm_time + 1))
     @ pad0 2 (dec_int (tm_mday tm_time)) @ '' '' @ pad0 2 (dec_int (tm_hour tm_time)) @ '':''
     @ pad0 2 (dec_int (tm_min tm_time)) @ '':'' @ pad0 2 (dec_int (tm_sec tm_time))"

definition formatTime :: "(int \<Rightarrow> tm) \<Rightarrow> 'w log_globals \<Rightarrow> Timestamp \<Rightarrow> log_thread \<Rightarrow> (string \<times> log_thread) option" where
  "formatTime gmtime g time th = do {
     let seconds = time sdiv kMicroSecondsPerSecond;
     let microseconds = time smod kMicroSecondsPerSecond;
     th \<leftarrow> (if seconds \<noteq> tLastSecond th then do {
          tm_time \<leftarrow> (if gLogTimeZone g \<noteq> None then toLocalTime gmtime (gLogTimeZone g) seconds else Some (gmtime seconds));
          assertion (length (second_text tm_time) = 17);
          Some \<lparr>tLastSecond = seconds, tTime = snprintf 32 (second_text tm_time)\<rparr> }
        else Some th);
     Some (if gLogTimeZone g \<noteq> None then stringFormat (tTime th @ ''.'' @ pad0 6 (dec_int microseconds))
           else stringFormat (tTime th @ ''.'' @ pad0 6 (dec_int microseconds) @ ''Z''), th) }"

record Logger =
  lgr_time :: Timestamp
  lgr_level :: ENUM_LOGLEVEL
  lgr_line :: int
  lgr_func :: "string option"
  lgr_basename :: string
  lgr_stream :: LogStream

text \<open>\<^verbatim>\<open>strrchr(file, '/')\<close>: the file name after the last slash.\<close>

definition base_name :: "string \<Rightarrow> string" where
  "base_name file = rev (takeWhile (\<lambda>c. c \<noteq> CHR ''/'') (rev file))"

record log_site =
  site_file :: string
  site_line :: int
  site_func :: "string option"

record log_moment =
  lm_now :: Timestamp
  lm_errno :: int
  lm_tid :: int
  lm_stack :: string

definition Logger_new ::
  "(int \<Rightarrow> tm) \<Rightarrow> (int \<Rightarrow> string) \<Rightarrow> 'w log_globals \<Rightarrow> log_site \<Rightarrow> ENUM_LOGLEVEL \<Rightarrow> bool \<Rightarrow> log_moment \<Rightarrow> log_thread
     \<Rightarrow> (Logger \<times> log_thread) option" where
  "Logger_new gmtime strerror_rl g site level systemError m th = do {
     let basename = base_name (site_file site);
     (ftime, th) \<leftarrow> formatTime gmtime g (lm_now m) th;
     let s = put_string ftime \<lparr>ls_buffer = LogBuffer_new (lm_stack m)\<rparr>;
     let s = put_c_string (Some '' ['') s;
     assertion (level_index level < length LogLevelName);
     let s = put_c_string (Some (LogLevelName ! level_index level)) s;
     let s = put_c_string (Some '']'') s;
     let s = put_c_string (Some '' ['') s;
     s \<leftarrow> put_int (lm_tid m) s;
     let s = put_c_string (Some ''] '') s;
     let s = put_string basename s;
     let s = put_c_string (Some '' '') s;
     let s = put_c_string (site_func site) s;
     let s = put_c_string (Some '' '') s;
     s \<leftarrow> put_int (site_line site) s;
     let s = put_c_string (Some '': {'') s;
     s \<leftarrow> (if systemError \<and> lm_errno m \<noteq> 0 then do {
         let s = put_c_string (Some '' (errno='') s;
         s \<leftarrow> put_int (lm_errno m) s;
         let s = put_c_string (Some ''  '') s;
         let s = put_c_string (Some (strerror_rl (lm_errno m))) s;
         Some (put_c_string (Some '') '') s) }
       else Some s);
     Some (\<lparr>lgr_time = lm_now m, lgr_level = level, lgr_line = site_line site, lgr_func = site_func site,
       lgr_basename = basename, lgr_stream = s\<rparr>, th) }"

text \<open>The destructor hands the record to the output function; after a fatal record the process aborts.\<close>

datatype 'w log_end = Continues 'w | Aborts 'w

definition Logger_delete :: "'w log_globals \<Rightarrow> Logger \<Rightarrow> 'w \<Rightarrow> 'w log_end option" where
  "Logger_delete g l w = do {
     let s = put_c_string (Some ''}\<newline>'') (lgr_stream l);
     w \<leftarrow> gOutput g (lb_data (ls_buffer s)) (lb_cur (ls_buffer s)) w;
     Some (if lgr_level l = FATAL then Aborts (gFlush g w) else Continues w) }"

text \<open>What a statement streams into a record.\<close>

datatype 'd log_item = L_Bool bool | L_Short int | L_UShort int | L_Int int | L_UInt int | L_Long int | L_ULong int | L_LongLong int
  | L_ULongLong int | L_Double 'd | L_Char char | L_CString "string option" | L_Pointer "64 word" | L_String string | L_Buf LogBuffer

primrec put_item :: "('d \<Rightarrow> string) \<Rightarrow> 'd log_item \<Rightarrow> LogStream \<Rightarrow> LogStream option" where
  "put_item fmt (L_Bool v) s = Some (put_bool v s)"
| "put_item fmt (L_Short v) s = put_short v s"
| "put_item fmt (L_UShort v) s = put_unsigned_short v s"
| "put_item fmt (L_Int v) s = put_int v s"
| "put_item fmt (L_UInt v) s = put_unsigned_int v s"
| "put_item fmt (L_Long v) s = put_long v s"
| "put_item fmt (L_ULong v) s = put_unsigned_long v s"
| "put_item fmt (L_LongLong v) s = put_long_long v s"
| "put_item fmt (L_ULongLong v) s = put_unsigned_long_long v s"
| "put_item fmt (L_Double v) s = put_double fmt v s"
| "put_item fmt (L_Char v) s = Some (put_char v s)"
| "put_item fmt (L_CString v) s = Some (put_c_string v s)"
| "put_item fmt (L_Pointer v) s = put_pointer v s"
| "put_item fmt (L_String v) s = Some (put_string v s)"
| "put_item fmt (L_Buf v) s = Some (put_LogBuffer v s)"

text \<open>The macros \<^verbatim>\<open>LOG_TRACE\<close> to \<^verbatim>\<open>LOG_SYSFATAL\<close>: nothing happens below the level, else a temporary is made, streamed into
  and destroyed at the end of the statement.\<close>

definition LOG_statement ::
  "(int \<Rightarrow> tm) \<Rightarrow> (int \<Rightarrow> string) \<Rightarrow> ('d \<Rightarrow> string) \<Rightarrow> 'w log_globals \<Rightarrow> log_site \<Rightarrow> ENUM_LOGLEVEL \<Rightarrow> bool \<Rightarrow> log_moment
     \<Rightarrow> 'd log_item list \<Rightarrow> log_thread \<Rightarrow> 'w \<Rightarrow> ('w log_end \<times> log_thread) option" where
  "LOG_statement gmtime strerror_rl fmt g site level systemError m items th w =
     (if gLogLevel g \<le> level then do {
        (l, th) \<leftarrow> Logger_new gmtime strerror_rl g site level systemError m th;
        s \<leftarrow> foldo (put_item fmt) items (lgr_stream l);
        e \<leftarrow> Logger_delete g (l\<lparr>lgr_stream := s\<rparr>) w;
        Some (e, th) }
      else Some (Continues w, th))"

section \<open>The buffer's contents\<close>

definition lb_ok :: "LogBuffer \<Rightarrow> bool" where
  "lb_ok b \<longleftrightarrow> lb_cur b \<le> length (lb_data b)"

lemma append_LogBuffer:
  assumes "lb_ok b" "min len (LogBuffer_avail b) \<le> length buf"
  shows "lb_ok (LogBuffer_append buf len b)"
    "length (lb_data (LogBuffer_append buf len b)) = length (lb_data b)"
    "LogBuffer_toString (LogBuffer_append buf len b) = take (length (lb_data b)) (LogBuffer_toString b @ take len buf)"
proof -
  consider (fits) "LogBuffer_avail b > len" "len \<le> length buf"
    | (full) "LogBuffer_avail b \<le> len" "LogBuffer_avail b \<le> length buf"
    using assms(2) by (meson linorder_not_less min_le_iff_disj order.trans less_imp_le min.cobounded2 min.absorb1 min_absorb2)
  then show "lb_ok (LogBuffer_append buf len b)"
    "length (lb_data (LogBuffer_append buf len b)) = length (lb_data b)"
    "LogBuffer_toString (LogBuffer_append buf len b) = take (length (lb_data b)) (LogBuffer_toString b @ take len buf)"
    using assms(1)
    by (cases; simp add: lb_ok_def LogBuffer_append_def LogBuffer_avail_def LogBuffer_toString_def write_at_def)+
qed

lemma LogBuffer_new_ok [simp]: "lb_ok (LogBuffer_new d)" "LogBuffer_toString (LogBuffer_new d) = []"
  by (simp_all add: lb_ok_def LogBuffer_new_def LogBuffer_toString_def)

section \<open>Converted numbers\<close>

lemma drop_update_at: "p < length xs \<Longrightarrow> drop p (xs[p := c]) = c # drop (Suc p) xs"
  by (simp add: Cons_nth_drop_Suc [symmetric])

lemma write_at_update_last:
  "p < length buf \<Longrightarrow> length t \<le> p \<Longrightarrow> write_at (p - length t) t (buf[p := c]) = write_at (p - length t) (t @ [c]) buf"
  by (simp add: write_at_def drop_update_at)

lemma write_at_update_first:
  "p < length buf \<Longrightarrow> (write_at (Suc p) t buf)[p := c] = write_at p (c # t) buf"
  by (simp add: write_at_def list_update_append take_Suc_conv_app_nth)

lemma digits_nth:
  assumes "d < 10"
  shows "digits ! d = digit_char d"
proof -
  have "digits = map digit_char [0..<10]"
    by code_simp
  then have "digits ! d = map digit_char [0..<10] ! d" by (rule arg_cong)
  also have "\<dots> = digit_char (0 + d)" by (rule nth_map_upt) (use assms in simp)
  finally show ?thesis by simp
qed

lemma convert_loop_dec:
  assumes "0 \<le> v" "ptr \<le> length buf" "length (dec (nat v)) \<le> ptr"
  shows "convert_loop buf ptr v = Some (write_at (ptr - length (dec (nat v))) (dec (nat v)) buf, ptr - length (dec (nat v)))"
  using assms
proof (induction buf ptr v rule: convert_loop.induct)
  case (1 buf ptr v)
  have p: "ptr \<noteq> 0" using "1.prems"(3) by (cases "ptr = 0") auto
  have sd: "v smod 10 = v mod 10" "v sdiv 10 = v div 10"
    using "1.prems"(1) by (simp_all add: signed_modulo_int_def signed_divide_int_def sgn_if)
  let ?d = "digits ! nat (v mod 10)"
  have d: "?d = digit_char (nat v mod 10)" using "1.prems"(1) by (simp add: digits_nth nat_mod_distrib)
  show ?case
  proof (cases "v < 10")
    case True
    then show ?thesis using "1.prems" p d
      by (subst convert_loop.simps) (simp add: sd dec_less_10 write_at_def upd_conv_take_nth_drop Let_def)
  next
    case False
    let ?t = "dec (nat (v div 10))"
    have dec: "dec (nat v) = ?t @ [?d]" using False "1.prems"(1) d by (subst dec.simps) (simp add: nat_div_distrib)
    have "v smod 10 < 0 \<longleftrightarrow> False" by (simp add: sd)
    then have "convert_loop (buf[ptr - 1 := ?d]) (ptr - 1) (v div 10)
        = Some (write_at (ptr - 1 - length ?t) ?t (buf[ptr - 1 := ?d]), ptr - 1 - length ?t)"
      using "1.IH" [OF _ refl refl] False "1.prems" p dec by (simp add: sd)
    moreover have "write_at (ptr - 1 - length ?t) ?t (buf[ptr - 1 := ?d]) = write_at (ptr - 1 - length ?t) (?t @ [?d]) buf"
      using p "1.prems" dec by (intro write_at_update_last) auto
    moreover have "v div 10 \<noteq> 0" using False by presburger
    ultimately show ?thesis using p by (subst convert_loop.simps) (simp add: sd dec Let_def)
  qed
qed

text \<open>What \<^verbatim>\<open>convert\<close> leaves in a zeroed array is the decimal text, for every value of the type but the least one of a
  signed type, whose negation does not exist.\<close>

lemma c_string_at_write:
  assumes "p + length t < n" "CHR 0x00 \<notin> set t"
  shows "c_string_at p (write_at p t (replicate n (CHR 0x00))) = t"
proof -
  have "drop p (write_at p t (replicate n (CHR 0x00))) = t @ CHR 0x00 # replicate (n - (p + length t) - 1) (CHR 0x00)"
    using assms(1) by (simp add: drop_write_at flip: replicate_Suc)
  then show ?thesis using assms(2) by (simp add: c_string_at_def takeWhile_append2 takeWhile_tail)
    (metis append.right_neutral takeWhile.simps(2) takeWhile_append2)
qed

lemma dec_no_zero: "CHR 0x00 \<notin> set (dec n)"
  using dec_is_digit [of "CHR 0x00" n] by (auto simp: is_digit_def)

lemma length_dec_64: "v < 2 ^ 64 \<Longrightarrow> length (dec v) \<le> 20"
  by (rule length_dec) simp_all

lemma convert_dec:
  assumes "- (2 ^ 64) < v" "v < 2 ^ 64" "v \<noteq> - (2 ^ (w - 1))"
  shows "\<exists>buf ptr. convert w (replicate 32 (CHR 0x00)) v = Some (buf, ptr) \<and> c_string_at ptr buf = dec_int v"
proof -
  let ?z = "replicate 32 (CHR 0x00)" and ?t = "dec (nat \<bar>v\<bar>)"
  have len: "length ?t \<le> 20" using assms by (intro length_dec_64) auto
  have loop: "convert_loop ?z 31 \<bar>v\<bar> = Some (write_at (31 - length ?t) ?t ?z, 31 - length ?t)"
    using len by (intro convert_loop_dec) auto
  show ?thesis
  proof (cases "v < 0")
    case False
    then show ?thesis using loop len c_string_at_write [of "31 - length ?t" ?t 32]
      by (simp add: convert_def dec_int_def dec_no_zero)
  next
    case True
    obtain p where p: "31 - length ?t = Suc p" using len by (cases "31 - length ?t") simp_all
    have "(write_at (Suc p) ?t ?z)[p := CHR ''-''] = write_at p (CHR ''-'' # ?t) ?z"
      using p by (intro write_at_update_first) simp
    moreover have "c_string_at p (write_at p (CHR ''-'' # ?t) ?z) = CHR ''-'' # ?t"
      using p len by (intro c_string_at_write) (auto simp: dec_no_zero)
    moreover have "convert_loop ?z 31 (negate_in w v) = Some (write_at (Suc p) ?t ?z, Suc p)"
      using loop True assms(3) unfolding p by (simp add: negate_in_def)
    ultimately show ?thesis using True by (simp add: convert_def dec_int_def)
  qed
qed

lemma convert_least:
  assumes "w = 16 \<or> w = 32 \<or> w = 64"
  shows "convert w buf (- (2 ^ (w - 1))) = None"
  using assms by (auto simp: convert_def negate_in_def convert_loop.simps signed_modulo_int_def)

text \<open>Hexadecimal text.\<close>

fun hex_text :: "nat \<Rightarrow> string" where
  "hex_text n = (if n < 16 then [hex_digits ! n] else hex_text (n div 16) @ [hex_digits ! (n mod 16)])"

declare hex_text.simps [simp del]

lemma length_hex_text: "n < 16 ^ k \<Longrightarrow> 0 < k \<Longrightarrow> length (hex_text n) \<le> k"
proof (induction n arbitrary: k rule: hex_text.induct)
  case (1 n)
  show ?case
  proof (cases "n < 16")
    case False
    then obtain j where j: "k = Suc j" "0 < j" using "1.prems" by (cases k; cases "k - 1") auto
    then have "n div 16 < 16 ^ j" using "1.prems" by (simp add: less_mult_imp_div_less mult.commute)
    with "1.IH" [OF False] j False show ?thesis by (simp add: hex_text.simps [of n])
  qed (use 1 in \<open>simp add: hex_text.simps [of n]\<close>)
qed

lemma hex_text_no_zero: "CHR 0x00 \<notin> set (hex_text n)"
proof (induction n rule: hex_text.induct)
  case (1 n)
  have "CHR 0x00 \<notin> set hex_digits" "length hex_digits = 16" by (simp_all add: hex_digits_def)
  then have "hex_digits ! (n mod 16) \<noteq> CHR 0x00" by (metis nth_mem mod_less_divisor zero_less_numeral)
  with 1 show ?case by (subst hex_text.simps) (auto split: if_splits)
qed

lemma convertHex_loop_hex:
  assumes "ptr \<le> length buf" "length (hex_text v) \<le> ptr"
  shows "convertHex_loop buf ptr v = Some (write_at (ptr - length (hex_text v)) (hex_text v) buf, ptr - length (hex_text v))"
  using assms
proof (induction buf ptr v rule: convertHex_loop.induct)
  case (1 buf ptr v)
  have p: "ptr \<noteq> 0" using "1.prems"(2) by (cases "ptr = 0") (auto simp: hex_text.simps [of v] split: if_splits)
  let ?d = "hex_digits ! (v mod 16)"
  show ?case
  proof (cases "v < 16")
    case True
    then show ?thesis using "1.prems" p
      by (subst convertHex_loop.simps) (simp add: hex_text.simps [of v] write_at_def upd_conv_take_nth_drop)
  next
    case False
    let ?t = "hex_text (v div 16)"
    have hex: "hex_text v = ?t @ [?d]" using False by (subst hex_text.simps) simp
    have "convertHex_loop (buf[ptr - 1 := ?d]) (ptr - 1) (v div 16)
        = Some (write_at (ptr - 1 - length ?t) ?t (buf[ptr - 1 := ?d]), ptr - 1 - length ?t)"
      using "1.IH" [OF _ refl refl] False "1.prems" p hex by simp
    moreover have "write_at (ptr - 1 - length ?t) ?t (buf[ptr - 1 := ?d]) = write_at (ptr - 1 - length ?t) (?t @ [?d]) buf"
      using p "1.prems" hex by (intro write_at_update_last) auto
    moreover have "v div 16 \<noteq> 0" using False by (simp add: div_eq_0_iff)
    ultimately show ?thesis using p by (subst convertHex_loop.simps) (simp add: hex Let_def)
  qed
qed

lemma convertHex_hex:
  "\<exists>buf ptr. convertHex (replicate 32 (CHR 0x00)) v = Some (buf, ptr) \<and> c_string_at ptr buf = hex_text (unat v)"
proof -
  have "unat v < 16 ^ 16" using unsigned_less [of v, where ?'a = nat] by simp
  then have "length (hex_text (unat v)) \<le> 16" by (rule length_hex_text) simp
  then show ?thesis using convertHex_loop_hex [of 31 "replicate 32 (CHR 0x00)" "unat v"]
    by (simp add: convertHex_def c_string_at_write hex_text_no_zero)
qed

section \<open>The stream's text\<close>

definition stream_ok :: "LogStream \<Rightarrow> bool" where
  "stream_ok s \<longleftrightarrow> lb_ok (ls_buffer s) \<and> length (lb_data (ls_buffer s)) = kSmallBuffer"

abbreviation stream_text :: "LogStream \<Rightarrow> string" where
  "stream_text s \<equiv> LogBuffer_toString (ls_buffer s)"

primrec item_text :: "('d \<Rightarrow> string) \<Rightarrow> 'd log_item \<Rightarrow> string" where
  "item_text fmt (L_Bool v) = (if v then ''1'' else ''0'')"
| "item_text fmt (L_Short v) = dec_int v"
| "item_text fmt (L_UShort v) = dec_int v"
| "item_text fmt (L_Int v) = dec_int v"
| "item_text fmt (L_UInt v) = dec_int v"
| "item_text fmt (L_Long v) = dec_int v"
| "item_text fmt (L_ULong v) = dec_int v"
| "item_text fmt (L_LongLong v) = dec_int v"
| "item_text fmt (L_ULongLong v) = dec_int v"
| "item_text fmt (L_Double v) = fmt v"
| "item_text fmt (L_Char v) = [v]"
| "item_text fmt (L_CString v) = (case v of Some t \<Rightarrow> t | None \<Rightarrow> ''(NULL)'')"
| "item_text fmt (L_Pointer v) = ''0x'' @ hex_text (unat v)"
| "item_text fmt (L_String v) = v"
| "item_text fmt (L_Buf v) = LogBuffer_toString v"

text \<open>The values of each type, less the least value of each signed type; strings below 2 GiB; a double's text of at most 31
  characters.\<close>

definition signed_ok :: "nat \<Rightarrow> int \<Rightarrow> bool" where
  "signed_ok w v \<longleftrightarrow> - (2 ^ (w - 1)) < v \<and> v < 2 ^ (w - 1)"

definition unsigned_ok :: "nat \<Rightarrow> int \<Rightarrow> bool" where
  "unsigned_ok w v \<longleftrightarrow> 0 \<le> v \<and> v < 2 ^ w"

primrec item_ok :: "('d \<Rightarrow> string) \<Rightarrow> 'd log_item \<Rightarrow> bool" where
  "item_ok fmt (L_Bool v) = True"
| "item_ok fmt (L_Short v) = signed_ok 16 v"
| "item_ok fmt (L_UShort v) = unsigned_ok 16 v"
| "item_ok fmt (L_Int v) = signed_ok 32 v"
| "item_ok fmt (L_UInt v) = unsigned_ok 32 v"
| "item_ok fmt (L_Long v) = signed_ok 64 v"
| "item_ok fmt (L_ULong v) = unsigned_ok 64 v"
| "item_ok fmt (L_LongLong v) = signed_ok 64 v"
| "item_ok fmt (L_ULongLong v) = unsigned_ok 64 v"
| "item_ok fmt (L_Double v) = (length (fmt v) < 32)"
| "item_ok fmt (L_Char v) = True"
| "item_ok fmt (L_CString v) = True"
| "item_ok fmt (L_Pointer v) = True"
| "item_ok fmt (L_String v) = (length v < 2 ^ 31)"
| "item_ok fmt (L_Buf v) = (length (LogBuffer_toString v) < 2 ^ 31)"

lemma avail_eq: "lb_ok b \<Longrightarrow> LogBuffer_avail b = length (lb_data b) - length (LogBuffer_toString b)"
  by (simp add: lb_ok_def LogBuffer_avail_def LogBuffer_toString_def)

lemma append_stream:
  assumes "stream_ok s" "len \<le> length t"
  shows "stream_ok (LogStream_append t len s)" "stream_text (LogStream_append t len s) = take kSmallBuffer (stream_text s @ take len t)"
  using assms append_LogBuffer [of "ls_buffer s" len t] by (auto simp: stream_ok_def LogStream_append_def)

text \<open>The text an item adds: a number is dropped when fewer than 33 bytes are left (a double: fewer than 32), everything else
  is cut at the end of the buffer.\<close>

definition dropped :: "'d log_item \<Rightarrow> LogStream \<Rightarrow> bool" where
  "dropped x s \<longleftrightarrow> (case x of
     L_Double _ \<Rightarrow> LogBuffer_avail (ls_buffer s) < kMaxNumberSize
   | L_Bool _ \<Rightarrow> False | L_Char _ \<Rightarrow> False | L_CString _ \<Rightarrow> False | L_String _ \<Rightarrow> False | L_Buf _ \<Rightarrow> False
   | _ \<Rightarrow> LogBuffer_avail (ls_buffer s) \<le> kMaxNumberSize)"

definition puts :: "LogStream \<Rightarrow> string \<Rightarrow> LogStream option \<Rightarrow> bool" where
  "puts s t r \<longleftrightarrow> (\<exists>s'. r = Some s' \<and> stream_ok s' \<and> stream_text s' = take kSmallBuffer (stream_text s @ t))"

lemma stream_text_short: "stream_ok s \<Longrightarrow> length (stream_text s) \<le> kSmallBuffer"
  by (simp add: stream_ok_def lb_ok_def LogBuffer_toString_def)

lemma puts_nothing: "stream_ok s \<Longrightarrow> puts s [] (Some s)"
  using stream_text_short by (simp add: puts_def)

lemma puts_append: "stream_ok s \<Longrightarrow> puts s t (Some (LogStream_append t (length t) s))"
  by (simp add: puts_def append_stream)

lemma puts_foramtInteger:
  assumes "stream_ok s" "- (2 ^ 64) < v" "v < 2 ^ 64" "v \<noteq> - (2 ^ (w - 1))"
  shows "puts s (if LogBuffer_avail (ls_buffer s) \<le> kMaxNumberSize then [] else dec_int v) (foramtInteger w v s)"
  using convert_dec [OF assms(2-4)] puts_append [OF assms(1)] puts_nothing [OF assms(1)]
  by (auto simp: foramtInteger_def kMaxNumberSize_def)

lemma puts_signed:
  assumes "stream_ok s" "signed_ok w v" "w \<le> 64"
  shows "puts s (if LogBuffer_avail (ls_buffer s) \<le> kMaxNumberSize then [] else dec_int v) (foramtInteger w v s)"
proof -
  have "(2::int) ^ (w - 1) \<le> 2 ^ 64" using assms(3) by (intro power_increasing) auto
  with assms(2) show ?thesis by (intro puts_foramtInteger assms(1)) (auto simp: signed_ok_def)
qed

lemma puts_unsigned:
  assumes "stream_ok s" "unsigned_ok w v" "w \<le> 64"
  shows "puts s (if LogBuffer_avail (ls_buffer s) \<le> kMaxNumberSize then [] else dec_int v) (foramtInteger w v s)"
proof -
  have "(2::int) ^ w \<le> 2 ^ 64" using assms(3) by (intro power_increasing) auto
  moreover have "(0::int) < 2 ^ (w - 1)" by simp
  ultimately show ?thesis
    using assms(2) by (intro puts_foramtInteger assms(1)) (auto simp: unsigned_ok_def simp del: zero_less_power)
qed

lemma puts_pointer:
  assumes "stream_ok s"
  shows "puts s (if LogBuffer_avail (ls_buffer s) \<le> kMaxNumberSize then [] else ''0x'' @ hex_text (unat v)) (put_pointer v s)"
proof (cases "LogBuffer_avail (ls_buffer s) \<le> kMaxNumberSize")
  case True
  then show ?thesis using puts_nothing [OF assms] by (simp add: put_pointer_def)
next
  case False
  from convertHex_hex obtain buf ptr where
    h: "convertHex (replicate 32 (CHR 0x00)) v = Some (buf, ptr)" "c_string_at ptr buf = hex_text (unat v)" by blast
  note a = append_stream [OF assms, of 2 "''0x''"]
  have "puts (LogStream_append ''0x'' 2 s) (hex_text (unat v)) (put_pointer v s)"
    using puts_append [OF a(1)] h False by (simp add: put_pointer_def kMaxNumberSize_def)
  moreover have "stream_text (LogStream_append ''0x'' 2 s) = stream_text s @ ''0x''"
    using a(2) False assms by (simp add: avail_eq stream_ok_def kMaxNumberSize_def)
  ultimately show ?thesis using False by (simp add: puts_def)
qed

lemma puts_double:
  assumes "stream_ok s" "length (fmt v) < 32"
  shows "puts s (if LogBuffer_avail (ls_buffer s) < kMaxNumberSize then [] else fmt v) (put_double fmt v s)"
  using assms append_stream [OF assms(1), of "length (fmt v)" "write_at 0 (fmt v) (replicate 32 (CHR 0x00))"] puts_nothing [OF assms(1)]
  by (simp add: put_double_def puts_def write_at_def)

lemma puts_string: "stream_ok s \<Longrightarrow> length v < 2 ^ 31 \<Longrightarrow> puts s v (Some (put_string v s))"
  using puts_append by (simp add: put_string_def int_as_size_def)

lemma puts_c_string: "stream_ok s \<Longrightarrow> puts s (case v of Some t \<Rightarrow> t | None \<Rightarrow> ''(NULL)'') (Some (put_c_string v s))"
  using puts_append [of s] puts_append [of s "''(NULL)''"] by (simp add: put_c_string_def eval_nat_numeral split: option.split)

lemma puts_bool: "stream_ok s \<Longrightarrow> puts s (if v then ''1'' else ''0'') (Some (put_bool v s))"
  using puts_append [of s "''1''"] puts_append [of s "''0''"] by (simp add: put_bool_def)

lemma puts_item:
  assumes "stream_ok s" "item_ok fmt x"
  shows "puts s (if dropped x s then [] else item_text fmt x) (put_item fmt x s)"
  using assms puts_append [OF assms(1), of "[c]" for c]
  by (cases x)
     (simp_all add: dropped_def puts_bool put_char_def puts_string puts_c_string puts_pointer [unfolded append.simps]
       puts_double put_LogBuffer_def
       put_short_def put_unsigned_short_def put_int_def put_unsigned_int_def put_long_def put_unsigned_long_def
       put_long_long_def put_unsigned_long_long_def puts_signed puts_unsigned split del: if_split
       cong: if_cong)

lemma dropped_only_late: "stream_ok s \<Longrightarrow> length (stream_text s) + 32 < kSmallBuffer \<Longrightarrow> \<not> dropped x s"
  by (cases x) (simp_all add: dropped_def stream_ok_def avail_eq kMaxNumberSize_def)

lemma puts_items:
  assumes "stream_ok s" "\<And>x. x \<in> set xs \<Longrightarrow> item_ok fmt x"
  shows "\<exists>s'. foldo (put_item fmt) xs s = Some s' \<and> stream_ok s'
    \<and> (length (stream_text s @ concat (map (item_text fmt) xs)) + 32 < kSmallBuffer
        \<longrightarrow> stream_text s' = stream_text s @ concat (map (item_text fmt) xs))"
  using assms
proof (induction xs arbitrary: s)
  case (Cons x xs)
  from puts_item [OF Cons.prems(1), of fmt x] Cons.prems(2) obtain s1 where
    s1: "put_item fmt x s = Some s1" "stream_ok s1"
      "stream_text s1 = take kSmallBuffer (stream_text s @ (if dropped x s then [] else item_text fmt x))"
    by (auto simp: puts_def)
  from Cons.IH [OF s1(2)] Cons.prems(2) obtain s' where
    s': "foldo (put_item fmt) xs s1 = Some s'" "stream_ok s'"
      "length (stream_text s1 @ concat (map (item_text fmt) xs)) + 32 < kSmallBuffer
        \<longrightarrow> stream_text s' = stream_text s1 @ concat (map (item_text fmt) xs)" by auto
  moreover have "stream_text s1 = stream_text s @ item_text fmt x"
    if "length (stream_text s @ concat (map (item_text fmt) (x # xs))) + 32 < kSmallBuffer"
    using s1(3) that dropped_only_late [OF Cons.prems(1), of x] by simp
  ultimately show ?case using s1(1) by auto
qed simp

section \<open>The text of a record\<close>

definition second_string :: "(int \<Rightarrow> tm) \<Rightarrow> 'w log_globals \<Rightarrow> int \<Rightarrow> string option" where
  "second_string gmtime g seconds = do {
     tm_time \<leftarrow> (if gLogTimeZone g \<noteq> None then toLocalTime gmtime (gLogTimeZone g) seconds else Some (gmtime seconds));
     assertion (length (second_text tm_time) = 17);
     Some (second_text tm_time) }"

text \<open>The cache holds the text of its second; before the first use it is empty and stands for second 0.\<close>

definition cache_ok :: "(int \<Rightarrow> tm) \<Rightarrow> 'w log_globals \<Rightarrow> log_thread \<Rightarrow> bool" where
  "cache_ok gmtime g th \<longleftrightarrow> tLastSecond th = 0 \<or> second_string gmtime g (tLastSecond th) = Some (tTime th)"

lemma cache_ok_init: "cache_ok gmtime g log_thread_init"
  by (simp add: cache_ok_def log_thread_init_def)

definition time_string :: "'w log_globals \<Rightarrow> string \<Rightarrow> Timestamp \<Rightarrow> string" where
  "time_string g t time = t @ ''.'' @ pad0 6 (dec_int (time smod kMicroSecondsPerSecond)) @ (if gLogTimeZone g = None then ''Z'' else [])"

lemma stringFormat_all [simp]: "stringFormat t = t"
  by (simp add: stringFormat_def stringFormat_loop.simps [of 100] stringFormat_loop.simps [of "Suc (length t)"] vsnprintf_def)

lemma second_string_length: "second_string gmtime g seconds = Some t \<Longrightarrow> length t = 17"
  by (auto simp: second_string_def elim!: bind_eq_SomeE split: if_splits)

lemma formatTime_cached:
  assumes "cache_ok gmtime g th" "second_string gmtime g (time sdiv kMicroSecondsPerSecond) = Some t"
    "time sdiv kMicroSecondsPerSecond \<noteq> 0"
  shows "\<exists>th'. formatTime gmtime g time th = Some (time_string g t time, th') \<and> cache_ok gmtime g th'"
proof (cases "time sdiv kMicroSecondsPerSecond = tLastSecond th")
  case True
  with assms show ?thesis by (auto simp: formatTime_def cache_ok_def time_string_def Let_def)
next
  case False
  from assms(2) obtain tm where tm:
    "(if gLogTimeZone g \<noteq> None then toLocalTime gmtime (gLogTimeZone g) (time sdiv kMicroSecondsPerSecond)
      else Some (gmtime (time sdiv kMicroSecondsPerSecond))) = Some tm" "t = second_text tm" "length t = 17"
    by (auto simp: second_string_def elim!: bind_eq_SomeE split: if_splits)
  with False assms(2) show ?thesis
    by (auto simp: formatTime_def cache_ok_def time_string_def Let_def simp del: not_None_eq)
qed

lemma micro_text_length: "length (pad0 6 (dec_int (time smod kMicroSecondsPerSecond))) \<le> 8"
proof -
  have "\<bar>time smod kMicroSecondsPerSecond\<bar> < 10 ^ 6"
    using abs_mod_less [of kMicroSecondsPerSecond "\<bar>time\<bar>"]
    by (auto simp: signed_modulo_int_def signed_divide_int_def kMicroSecondsPerSecond_def sgn_if abs_if)
  then have "length (dec (nat \<bar>time smod kMicroSecondsPerSecond\<bar>)) \<le> 6" by (intro length_dec) auto
  then show ?thesis by (auto simp: pad0_def dec_int_def abs_if split: if_splits)
qed

text \<open>A record as one list of items: the head the constructor writes, what the statement streams, and the closing brace.\<close>

definition head_items :: "(int \<Rightarrow> string) \<Rightarrow> log_site \<Rightarrow> ENUM_LOGLEVEL \<Rightarrow> bool \<Rightarrow> log_moment \<Rightarrow> string \<Rightarrow> 'd log_item list" where
  "head_items strerror_rl site level systemError m ftime =
     [L_String ftime, L_CString (Some '' [''), L_CString (Some (LogLevelName ! level_index level)), L_CString (Some '']''),
      L_CString (Some '' [''), L_Int (lm_tid m), L_CString (Some ''] ''), L_String (base_name (site_file site)),
      L_CString (Some '' ''), L_CString (site_func site), L_CString (Some '' ''), L_Int (site_line site), L_CString (Some '': {'')]
     @ (if systemError \<and> lm_errno m \<noteq> 0
        then [L_CString (Some '' (errno=''), L_Int (lm_errno m), L_CString (Some ''  ''),
          L_CString (Some (strerror_rl (lm_errno m))), L_CString (Some '') '')] else [])"

lemma Logger_new_items:
  assumes "formatTime gmtime g (lm_now m) th = Some (ftime, th')" "level \<noteq> NUM_LOG_LEVELS"
    "foldo (put_item fmt) (head_items strerror_rl site level systemError m ftime) \<lparr>ls_buffer = LogBuffer_new (lm_stack m)\<rparr> = Some s"
  shows "Logger_new gmtime strerror_rl g site level systemError m th
    = Some (\<lparr>lgr_time = lm_now m, lgr_level = level, lgr_line = site_line site, lgr_func = site_func site,
       lgr_basename = base_name (site_file site), lgr_stream = s\<rparr>, th')"
proof -
  have "level_index level < length LogLevelName" using assms(2) by (cases level) (simp_all add: LogLevelName_def)
  with assms(1,3) show ?thesis
    by (auto simp: Logger_new_def head_items_def Let_def elim!: bind_eq_SomeE split: if_splits)
qed

definition record_text ::
  "(int \<Rightarrow> string) \<Rightarrow> ('d \<Rightarrow> string) \<Rightarrow> log_site \<Rightarrow> ENUM_LOGLEVEL \<Rightarrow> bool \<Rightarrow> log_moment \<Rightarrow> string \<Rightarrow> 'd log_item list \<Rightarrow> string" where
  "record_text strerror_rl fmt site level systemError m ftime items =
     ftime @ '' ['' @ LogLevelName ! level_index level @ '']'' @ '' ['' @ dec_int (lm_tid m) @ ''] '' @ base_name (site_file site)
     @ '' '' @ (case site_func site of Some f \<Rightarrow> f | None \<Rightarrow> ''(NULL)'') @ '' '' @ dec_int (site_line site) @ '': {''
     @ (if systemError \<and> lm_errno m \<noteq> 0
        then '' (errno='' @ dec_int (lm_errno m) @ ''  '' @ strerror_rl (lm_errno m) @ '') '' else [])
     @ concat (map (item_text fmt) items) @ ''}\<newline>''"

lemma record_text_items:
  "record_text strerror_rl fmt site level systemError m ftime items
    = concat (map (item_text fmt) (head_items strerror_rl site level systemError m ftime @ items @ [L_CString (Some ''}\<newline>'')]))"
  by (auto simp: record_text_def head_items_def)


text \<open>For the witness: a fixed broken-down time and an output function that collects the records.\<close>

definition demo_tm :: tm where
  "demo_tm = \<lparr>tm_sec = 5, tm_min = 4, tm_hour = 3, tm_mday = 2, tm_mon = 0, tm_year = 120, tm_wday = 4, tm_yday = 1,
     tm_isdst = False, tm_gmtoff = 0, tm_zone = []\<rparr>"

definition collect_globals :: "string list log_globals" where
  "collect_globals = \<lparr>gLogLevel = INFO, gOutput = (\<lambda>dat len w. Some (w @ [take len dat])), gFlush = id, gLogTimeZone = None\<rparr>"

definition demo_site :: log_site where
  "demo_site = \<lparr>site_file = ''src/a.cpp'', site_line = 7, site_func = Some ''f''\<rparr>"

definition demo_moment :: log_moment where
  "demo_moment = \<lparr>lm_now = 5000007, lm_errno = 0, lm_tid = 42, lm_stack = replicate kSmallBuffer (CHR 0x00)\<rparr>"

lemma dec_two: "10 \<le> n \<Longrightarrow> n < 100 \<Longrightarrow> dec n = [digit_char (n div 10), digit_char (n mod 10)]"
  by (subst dec.simps) (simp add: dec_less_10)

lemma demo_second: "second_string (\<lambda>_. demo_tm) collect_globals s = Some ''20200102 03:04:05''"
proof -
  have "dec 2020 = ''2020''" by code_simp
  moreover have "dec 1 = ''1''" "dec 2 = ''2''" "dec 3 = ''3''" "dec 4 = ''4''" "dec 5 = ''5''" by code_simp+
  ultimately show ?thesis
    by (simp add: second_string_def collect_globals_def second_text_def demo_tm_def pad_sp_def pad0_def dec_int_def)
qed

lemma demo_record:
  "record_text (\<lambda>_. []) (\<lambda>v::unit. []) demo_site INFO False demo_moment
     (time_string collect_globals ''20200102 03:04:05'' (lm_now demo_moment)) [L_CString (Some ''x=''), L_Int 12]
   = ''20200102 03:04:05.000007Z [INFO] [42] a.cpp f 7: {x=12}\<newline>''"
proof -
  have zeros: "replicate 5 (CHR ''0'') = ''00000''" by (simp add: numeral_eq_Suc)
  have "dec 42 = ''42''" "dec 12 = ''12''" "dec 7 = ''7''" by code_simp+
  then show ?thesis
    by (simp add: record_text_def demo_site_def demo_moment_def time_string_def collect_globals_def kMicroSecondsPerSecond_def
      dec_int_def pad0_def base_name_def LogLevelName_def signed_modulo_int_def signed_divide_int_def zeros)
qed


end
