(* ===== verification/LogFiles.thy ===== *)
theory LogFiles
  imports Logs
begin

text \<open>
  Where log records go: \<^verbatim>\<open>AppendFile\<close> of \<^verbatim>\<open>FileUtil.cpp\<close> and the rolling files of \<^verbatim>\<open>LogFile.cpp\<close>.

  The answers of \<^verbatim>\<open>fwrite\<close> are an oracle: the list of byte counts it accepts, call by call, everything when the list has
  ended. A file is what has been handed to it; \<^verbatim>\<open>fflush\<close> moves bytes from the library to the kernel and is recorded by the
  number of bytes flushed. The clock is read through arguments, one for each call of \<^verbatim>\<open>time\<close>. Whether \<^verbatim>\<open>fopen\<close> can open a file for
  appending is an oracle too; the constructor asserts that it did.
\<close>

section \<open>Appending to a file\<close>

record AppendFile =
  af_name :: string
  af_content :: string
  af_flushed :: nat
  af_writtenBytes :: int

definition AppendFile_new :: "(string \<Rightarrow> bool) \<Rightarrow> string \<Rightarrow> AppendFile option" where
  "AppendFile_new fopen filename = do {
     assertion (fopen filename);
     Some \<lparr>af_name = filename, af_content = [], af_flushed = 0, af_writtenBytes = 0\<rparr> }"

definition fwrite :: "nat list \<Rightarrow> string \<Rightarrow> AppendFile \<Rightarrow> nat \<times> nat list \<times> AppendFile" where
  "fwrite answers d f =
     (let n = (case answers of [] \<Rightarrow> length d | a # _ \<Rightarrow> min a (length d))
      in (n, tl answers, f\<lparr>af_content := af_content f @ take n d\<rparr>))"

text \<open>The loop of \<^verbatim>\<open>AppendFile::append\<close>: \<open>d\<close> is the rest of the line.\<close>

function append_rest :: "nat list \<Rightarrow> string \<Rightarrow> AppendFile \<Rightarrow> nat list \<times> AppendFile" where
  "append_rest answers d f =
     (if d = [] then (answers, f)
      else let (x, answers', f') = fwrite answers d f
           in if x = 0 then (answers', f') else append_rest answers' (drop x d) f')"
  by pat_completeness auto
termination by (relation "measure (\<lambda>(_, d, _). length d)") (auto simp: fwrite_def Let_def)

declare append_rest.simps [simp del]

text \<open>A value stored in an \<^verbatim>\<open>int\<close>.\<close>

definition int32 :: "int \<Rightarrow> int" where
  "int32 v = (v + 2 ^ 31) mod 2 ^ 32 - 2 ^ 31"

definition AppendFile_append :: "string \<Rightarrow> nat list \<Rightarrow> AppendFile \<Rightarrow> nat list \<times> AppendFile" where
  "AppendFile_append logline answers f =
     (let (n, answers, f) = fwrite answers logline f;
          (answers, f) = append_rest answers (drop n logline) f
      in (answers, f\<lparr>af_writtenBytes := int32 (af_writtenBytes f + int (length logline))\<rparr>))"

definition AppendFile_flush :: "AppendFile \<Rightarrow> AppendFile" where
  "AppendFile_flush f = f\<lparr>af_flushed := length (af_content f)\<rparr>"

section \<open>Rolling log files\<close>

record LogFile =
  lf_basename :: string
  lf_rollSize :: int
  lf_flushInterval :: int
  lf_checkEveryN :: int
  lf_count :: int
  lf_startOfPeriod :: int
  lf_lastRoll :: int
  lf_lastFlush :: int
  lf_file :: "AppendFile option"
  lf_closed :: "AppendFile list"

definition kRollPerSeconds :: int where
  "kRollPerSeconds = 60 * 60 * 24"

text \<open>What the name of a log file is made from besides the clock, and whether \<^verbatim>\<open>fopen\<close> opens a file.\<close>

record file_names =
  fn_gmtime :: "int \<Rightarrow> tm"
  fn_processname :: string
  fn_pid :: int
  fn_fopen :: "string \<Rightarrow> bool"

definition strftime_log :: "tm \<Rightarrow> string" where
  "strftime_log t = dec_int (tm_year t + 1900) @ pad0 2 (dec_int (tm_mon t + 1)) @ pad0 2 (dec_int (tm_mday t)) @ ''-''
     @ pad0 2 (dec_int (tm_hour t)) @ pad0 2 (dec_int (tm_min t)) @ pad0 2 (dec_int (tm_sec t)) @ ''_''"

definition getLogFileName :: "file_names \<Rightarrow> string \<Rightarrow> int \<Rightarrow> string" where
  "getLogFileName fn basename now = basename @ snprintf 32 (strftime_log (fn_gmtime fn now)) @ fn_processname fn
     @ snprintf 32 (''_'' @ dec_int (fn_pid fn)) @ ''.log''"

text \<open>Replacing \<^verbatim>\<open>file_\<close> closes the file it held, which writes out what is buffered.\<close>

definition rollFile :: "file_names \<Rightarrow> int \<Rightarrow> LogFile \<Rightarrow> (bool \<times> LogFile) option" where
  "rollFile fn now l =
     (let filename = getLogFileName fn (lf_basename l) now;
          start = now sdiv kRollPerSeconds * kRollPerSeconds
      in if now > lf_lastRoll l then do {
           f \<leftarrow> AppendFile_new (fn_fopen fn) filename;
           Some (True, l\<lparr>lf_lastRoll := now, lf_lastFlush := now, lf_startOfPeriod := start,
                   lf_closed := lf_closed l @ (case lf_file l of Some f \<Rightarrow> [AppendFile_flush f] | None \<Rightarrow> []),
                   lf_file := Some f\<rparr>) }
         else Some (False, l))"

definition LogFile_new :: "file_names \<Rightarrow> string \<Rightarrow> int \<Rightarrow> int \<Rightarrow> int \<Rightarrow> int \<Rightarrow> LogFile option" where
  "LogFile_new fn basename rollSize flushInterval checkEveryN now =
     map_option snd (rollFile fn now \<lparr>lf_basename = basename, lf_rollSize = rollSize, lf_flushInterval = flushInterval,
       lf_checkEveryN = checkEveryN, lf_count = 0, lf_startOfPeriod = 0, lf_lastRoll = 0, lf_lastFlush = 0,
       lf_file = None, lf_closed = []\<rparr>)"

text \<open>\<^verbatim>\<open>appendUnloked\<close>: \<open>now\<close> is read in it and \<open>now_roll\<close> in \<^verbatim>\<open>getLogFileName\<close>, when they are read. Without an open file
  the null pointer is used and the process stops.\<close>

definition appendUnloked :: "file_names \<Rightarrow> string \<Rightarrow> int \<Rightarrow> int \<Rightarrow> nat list \<Rightarrow> LogFile \<Rightarrow> (nat list \<times> LogFile) option" where
  "appendUnloked fn logline now now_roll answers l = do {
     f \<leftarrow> lf_file l;
     let (answers, f) = AppendFile_append logline answers f;
     let l = l\<lparr>lf_file := Some f\<rparr>;
     if af_writtenBytes f > lf_rollSize l then do { (rolled, l) \<leftarrow> rollFile fn now_roll l; Some (answers, l) }
     else do {
       let l = l\<lparr>lf_count := lf_count l + 1\<rparr>;
       if lf_count l \<ge> lf_checkEveryN l then do {
         let l = l\<lparr>lf_count := 0\<rparr>;
         let thisPeriod = now sdiv kRollPerSeconds * kRollPerSeconds;
         if thisPeriod \<noteq> lf_startOfPeriod l then do { (rolled, l) \<leftarrow> rollFile fn now_roll l; Some (answers, l) }
         else if now - lf_lastFlush l > lf_flushInterval l then
           Some (answers, l\<lparr>lf_lastFlush := now, lf_file := Some (AppendFile_flush f)\<rparr>)
         else Some (answers, l) }
       else Some (answers, l) } }"

text \<open>With or without the mutex the same steps run.\<close>

definition LogFile_append :: "file_names \<Rightarrow> string \<Rightarrow> int \<Rightarrow> int \<Rightarrow> nat list \<Rightarrow> LogFile \<Rightarrow> (nat list \<times> LogFile) option" where
  "LogFile_append fn logline now now_roll answers l = appendUnloked fn logline now now_roll answers l"

definition LogFile_flush :: "LogFile \<Rightarrow> LogFile option" where
  "LogFile_flush l = do { f \<leftarrow> lf_file l; Some (l\<lparr>lf_file := Some (AppendFile_flush f)\<rparr>) }"

section \<open>Nothing is lost in rolling\<close>

text \<open>Everything handed to the files so far, in the order of the files.\<close>

definition lf_all :: "LogFile \<Rightarrow> string" where
  "lf_all l = concat (map af_content (lf_closed l)) @ (case lf_file l of Some f \<Rightarrow> af_content f | None \<Rightarrow> [])"

lemma append_rest_content:
  "\<exists>k. af_content (snd (append_rest answers d f)) = af_content f @ take k d \<and> (answers = [] \<longrightarrow> k = length d)
     \<and> af_name (snd (append_rest answers d f)) = af_name f"
proof (induction answers d f rule: append_rest.induct)
  case (1 answers d f)
  show ?case
  proof (cases "d = []")
    case False
    obtain x where x: "fwrite answers d f = (x, tl answers, f\<lparr>af_content := af_content f @ take x d\<rparr>)" "x \<le> length d"
      "answers = [] \<longrightarrow> x = length d" by (cases answers) (simp_all add: fwrite_def Let_def)
    show ?thesis
    proof (cases "x = 0")
      case True
      then show ?thesis using x False by (subst append_rest.simps) (auto simp: append_rest.simps [of answers d] intro: exI [of _ 0])
    next
      case nz: False
      from "1.IH" [OF False x(1) [symmetric] refl refl nz] obtain k where
        k: "af_content (snd (append_rest (tl answers) (drop x d) (f\<lparr>af_content := af_content f @ take x d\<rparr>)))
          = af_content f @ take x d @ take k (drop x d)" "tl answers = [] \<longrightarrow> k = length (drop x d)"
          "af_name (snd (append_rest (tl answers) (drop x d) (f\<lparr>af_content := af_content f @ take x d\<rparr>))) = af_name f" by auto
      have "append_rest answers d f = append_rest (tl answers) (drop x d) (f\<lparr>af_content := af_content f @ take x d\<rparr>)"
        using False nz x(1) by (subst append_rest.simps) simp
      with k x(2,3) show ?thesis by (intro exI [of _ "x + k"]) (simp add: take_add)
    qed
  qed (simp add: append_rest.simps)
qed

lemma AppendFile_append_content:
  "\<exists>k. af_content (snd (AppendFile_append line answers f)) = af_content f @ take k line
     \<and> (answers = [] \<longrightarrow> k = length line) \<and> af_name (snd (AppendFile_append line answers f)) = af_name f"
proof -
  obtain x where x: "fwrite answers line f = (x, tl answers, f\<lparr>af_content := af_content f @ take x line\<rparr>)" "x \<le> length line"
    "answers = [] \<longrightarrow> x = length line" by (cases answers) (simp_all add: fwrite_def Let_def)
  from append_rest_content [of "tl answers" "drop x line" "f\<lparr>af_content := af_content f @ take x line\<rparr>"] obtain k where
    "af_content (snd (append_rest (tl answers) (drop x line) (f\<lparr>af_content := af_content f @ take x line\<rparr>)))
      = af_content f @ take (x + k) line" "tl answers = [] \<longrightarrow> k = length (drop x line)"
    "af_name (snd (append_rest (tl answers) (drop x line) (f\<lparr>af_content := af_content f @ take x line\<rparr>))) = af_name f"
    by (auto simp: take_add)
  with x show ?thesis
    by (intro exI [of _ "x + k"]) (simp add: AppendFile_append_def case_prod_unfold Let_def)
qed

lemma rollFile_keeps:
  assumes "rollFile fn now l = Some (b, l')"
  shows "lf_all l' = lf_all l" "lf_file l = Some f \<Longrightarrow> lf_file l' \<noteq> None"
  using assms
  by (auto simp: rollFile_def lf_all_def AppendFile_new_def AppendFile_flush_def Let_def elim!: bind_eq_SomeE split: option.splits if_splits)

text \<open>A roll stops the process exactly when the new file cannot be opened.\<close>

lemma rollFile_stops_iff:
  "rollFile fn now l = None \<longleftrightarrow> now > lf_lastRoll l \<and> \<not> fn_fopen fn (getLogFileName fn (lf_basename l) now)"
  by (auto simp: rollFile_def AppendFile_new_def Let_def)

lemma rollFile_opens: "\<forall>x. fn_fopen fn x \<Longrightarrow> \<exists>b l'. rollFile fn now l = Some (b, l')"
  using rollFile_stops_iff [of fn now l] by (cases "rollFile fn now l") auto

lemma append_rest_answers: "answers = [] \<Longrightarrow> fst (append_rest answers d f) = []"
proof (induction answers d f rule: append_rest.induct)
  case (1 answers d f)
  then show ?case by (subst append_rest.simps) (auto simp: fwrite_def Let_def)
qed

lemma LogFile_append_all:
  assumes "lf_file l = Some f" "\<forall>x. fn_fopen fn x"
  shows "\<exists>answers' l' k. LogFile_append fn line now now_roll answers l = Some (answers', l')
    \<and> lf_file l' \<noteq> None \<and> lf_all l' = lf_all l @ take k line \<and> (answers = [] \<longrightarrow> k = length line \<and> answers' = [])"
proof -
  define a f' where "a = fst (AppendFile_append line answers f)" and "f' = snd (AppendFile_append line answers f)"
  have af: "AppendFile_append line answers f = (a, f')" by (simp add: a_def f'_def)
  have a: "answers = [] \<longrightarrow> a = []"
    using append_rest_answers [of "[]"] by (auto simp: a_def AppendFile_append_def fwrite_def Let_def case_prod_unfold)
  from AppendFile_append_content [of line answers f] obtain k where
    k: "af_content f' = af_content f @ take k line" "answers = [] \<longrightarrow> k = length line" by (auto simp: f'_def)
  have all: "lf_all (l\<lparr>lf_file := Some f', lf_count := c\<rparr>) = lf_all l @ take k line"
    "lf_all (l\<lparr>lf_file := Some f'\<rparr>) = lf_all l @ take k line"
    "lf_all (l\<lparr>lf_count := c, lf_lastFlush := t, lf_file := Some (AppendFile_flush f')\<rparr>) = lf_all l @ take k line" for c t
    using assms k(1) by (simp_all add: lf_all_def AppendFile_flush_def)
  have roll: "\<exists>b l'. rollFile fn now_roll m = Some (b, l') \<and> lf_file l' \<noteq> None \<and> lf_all l' = lf_all m" if "lf_file m = Some f'" for m
    using rollFile_opens [OF assms(2), of now_roll m] rollFile_keeps [of fn now_roll m] that by blast
  note roll1 = roll [of "l\<lparr>lf_file := Some f'\<rparr>"] and roll2 = roll [of "l\<lparr>lf_file := Some f', lf_count := 0\<rparr>"]
  show ?thesis
    using a k(2) roll1 roll2 by (auto simp: LogFile_append_def appendUnloked_def assms(1) af Let_def all intro!: exI [of _ k])
qed

text \<open>Files that have been closed are written out.\<close>

definition af_saved :: "AppendFile \<Rightarrow> bool" where
  "af_saved f \<longleftrightarrow> af_flushed f = length (af_content f)"

definition closed_saved :: "LogFile \<Rightarrow> bool" where
  "closed_saved l \<longleftrightarrow> (\<forall>f\<in>set (lf_closed l). af_saved f)"

lemma AppendFile_flush_saved [simp]: "af_saved (AppendFile_flush f)"
  by (simp add: af_saved_def AppendFile_flush_def)

lemma closed_saved_rollFile: "closed_saved l \<Longrightarrow> rollFile fn now l = Some (b, l') \<Longrightarrow> closed_saved l'"
  by (auto simp: closed_saved_def rollFile_def Let_def elim!: bind_eq_SomeE split: option.splits if_splits)

lemma closed_saved_append:
  assumes "closed_saved l" "LogFile_append fn line now now_roll answers l = Some (answers', l')"
  shows "closed_saved l'"
proof -
  have u: "closed_saved (l\<lparr>lf_file := x\<rparr>)" "closed_saved (l\<lparr>lf_file := x, lf_count := c\<rparr>)"
    "closed_saved (l\<lparr>lf_count := c, lf_lastFlush := t, lf_file := x\<rparr>)" for x c t
    using assms(1) by (simp_all add: closed_saved_def)
  from assms(2) show ?thesis
    by (auto simp: LogFile_append_def appendUnloked_def Let_def u elim!: bind_eq_SomeE
        dest: closed_saved_rollFile [OF u(1)] closed_saved_rollFile [OF u(2)] split: if_splits prod.splits)
qed

end
