(* ===== verification/AsyncLogs.thy ===== *)
theory AsyncLogs
  imports LogFiles
begin

text \<open>
  The asynchronous log of \<^verbatim>\<open>AsyncLogging.cpp\<close>: threads append lines to large buffers under a mutex, and one background thread
  swaps the filled buffers out and writes them to the rolling files.

  A unique pointer is an option, \<^const>\<open>None\<close> after it has been moved from; using it then stops the process. The background
  thread moves through the points of \<^verbatim>\<open>threadFunc\<close> at which it takes or gives up the mutex or reads \<^verbatim>\<open>running_\<close>, so that a
  list of events is one interleaving of the threads. \<^verbatim>\<open>wait_for\<close> may return at any moment, by a notification, a time-out or
  spuriously.
\<close>

datatype thread_phase = T_open | T_test | T_lock | T_wait | T_write | T_exit | T_done

record async =
  al_running :: bool
  al_current :: "LogBuffer option"
  al_next :: "LogBuffer option"
  al_buffers :: "LogBuffer option list"
  al_phase :: thread_phase
  al_new1 :: "LogBuffer option"
  al_new2 :: "LogBuffer option"
  al_toWrite :: "LogBuffer option list"
  al_output :: "LogFile option"
  al_started :: bool
  al_joined :: bool

definition large_zeroed :: "string \<Rightarrow> LogBuffer" where
  "large_zeroed garbage = LogBuffer_bzeros (LogBuffer_new garbage)"

definition AsyncLogging_new :: "string \<Rightarrow> string \<Rightarrow> async" where
  "AsyncLogging_new garbage1 garbage2 = \<lparr>al_running = False, al_current = Some (large_zeroed garbage1),
     al_next = Some (large_zeroed garbage2), al_buffers = [], al_phase = T_done, al_new1 = None, al_new2 = None,
     al_toWrite = [], al_output = None, al_started = False, al_joined = False\<rparr>"

text \<open>\<^verbatim>\<open>start\<close> returns when the thread has counted the latch down, after its assertion that \<^verbatim>\<open>running_\<close> is set. \<open>al_started\<close> and
  \<open>al_joined\<close> are \<^verbatim>\<open>started_\<close> and \<^verbatim>\<open>joined_\<close> of \<^verbatim>\<open>thread_\<close>, asserted by \<^verbatim>\<open>Thread::start\<close> and \<^verbatim>\<open>Thread::join\<close>.\<close>

definition AsyncLogging_start :: "async \<Rightarrow> async option" where
  "AsyncLogging_start a = do {
     assertion (\<not> al_started a);
     Some (a\<lparr>al_running := True, al_phase := T_open, al_started := True\<rparr>) }"

text \<open>\<^verbatim>\<open>stop\<close> clears the flag, notifies and joins. The join marks the thread joined and then waits for its end, which is
  \<open>T_done\<close>: the caller is back when the thread has got there.\<close>

definition AsyncLogging_stop :: "async \<Rightarrow> async option" where
  "AsyncLogging_stop a = do {
     let a = a\<lparr>al_running := False\<rparr>;
     assertion (al_started a);
     assertion (\<not> al_joined a);
     Some (a\<lparr>al_joined := True\<rparr>) }"

definition AsyncLogging_destroy :: "async \<Rightarrow> async option" where
  "AsyncLogging_destroy a = (if al_running a then AsyncLogging_stop a else Some a)"

definition AsyncLogging_append :: "string \<Rightarrow> string \<Rightarrow> async \<Rightarrow> async option" where
  "AsyncLogging_append garbage logline a = do {
     cur \<leftarrow> al_current a;
     if LogBuffer_avail cur > length logline
     then Some (a\<lparr>al_current := Some (LogBuffer_append logline (length logline) cur)\<rparr>)
     else do {
       let a = a\<lparr>al_buffers := al_buffers a @ [Some cur]\<rparr>;
       let cur = (case al_next a of Some b \<Rightarrow> b | None \<Rightarrow> LogBuffer_new garbage);
       Some (a\<lparr>al_next := None, al_current := Some (LogBuffer_append logline (length logline) cur)\<rparr>) } }"

text \<open>The critical section of the background thread.\<close>

definition swap_buffers :: "async \<Rightarrow> async" where
  "swap_buffers a =
     (let a = a\<lparr>al_buffers := al_buffers a @ [al_current a], al_current := al_new1 a, al_new1 := None\<rparr>;
          a = a\<lparr>al_toWrite := al_buffers a, al_buffers := al_toWrite a\<rparr>
      in if al_next a = None then a\<lparr>al_next := al_new2 a, al_new2 := None\<rparr> else a)"

text \<open>Taking a used buffer back as a spare one.\<close>

definition recycle :: "LogBuffer option list \<Rightarrow> (LogBuffer option \<times> LogBuffer option list) option" where
  "recycle toWrite = do {
     assertion (toWrite \<noteq> []);
     b \<leftarrow> last toWrite;
     Some (Some (LogBuffer_reset b), butlast toWrite) }"

text \<open>What the thread meets outside: names for files, whether they open, the answers of \<^verbatim>\<open>fwrite\<close> and the clock, both readings for the \<open>n\<close>-th
  buffer of a round.\<close>

record outside =
  os_names :: file_names
  os_basename :: string
  os_rollSize :: int
  os_now :: int
  os_clock :: "nat \<Rightarrow> int \<times> int"
  os_answers :: "nat list"
  os_garbage1 :: string
  os_garbage2 :: string

fun write_all :: "outside \<Rightarrow> nat \<Rightarrow> LogBuffer option list \<Rightarrow> nat list \<Rightarrow> LogFile \<Rightarrow> LogFile option" where
  "write_all e n [] answers l = Some l"
| "write_all e n (p # ps) answers l = do {
     b \<leftarrow> p;
     (answers, l) \<leftarrow> LogFile_append (os_names e) (LogBuffer_toString b) (fst (os_clock e n)) (snd (os_clock e n)) answers l;
     write_all e (Suc n) ps answers l }"

definition write_round :: "outside \<Rightarrow> async \<Rightarrow> async option" where
  "write_round e a = do {
     assertion (al_toWrite a \<noteq> []);
     l \<leftarrow> al_output a;
     l \<leftarrow> write_all e 0 (al_toWrite a) (os_answers e) l;
     let toWrite = (if length (al_toWrite a) > 2 then take 2 (al_toWrite a) else al_toWrite a);
     (new1, toWrite) \<leftarrow> (if al_new1 a = None then recycle toWrite else Some (al_new1 a, toWrite));
     (new2, toWrite) \<leftarrow> (if al_new2 a = None then recycle toWrite else Some (al_new2 a, toWrite));
     l \<leftarrow> LogFile_flush l;
     Some (a\<lparr>al_output := Some l, al_new1 := new1, al_new2 := new2, al_toWrite := [], al_phase := T_test\<rparr>) }"

definition thread_step :: "outside \<Rightarrow> async \<Rightarrow> async option" where
  "thread_step e a = (case al_phase a of
     T_open \<Rightarrow> do {
       output \<leftarrow> LogFile_new (os_names e) (os_basename e) (os_rollSize e) 3 1024 (os_now e);
       Some (a\<lparr>al_output := Some output, al_new1 := Some (large_zeroed (os_garbage1 e)),
         al_new2 := Some (large_zeroed (os_garbage2 e)), al_phase := T_test\<rparr>) }
   | T_test \<Rightarrow> Some (a\<lparr>al_phase := (if al_running a then T_lock else T_exit)\<rparr>)
   | T_lock \<Rightarrow> do {
       assertion (al_toWrite a = []);
       Some (if al_buffers a = [] then a\<lparr>al_phase := T_wait\<rparr> else (swap_buffers a)\<lparr>al_phase := T_write\<rparr>) }
   | T_wait \<Rightarrow> Some ((swap_buffers a)\<lparr>al_phase := T_write\<rparr>)
   | T_write \<Rightarrow> write_round e a
   | T_exit \<Rightarrow> do { l \<leftarrow> al_output a; l \<leftarrow> LogFile_flush l; Some (a\<lparr>al_output := Some l, al_phase := T_done\<rparr>) }
   | T_done \<Rightarrow> Some a)"

datatype async_event = A_append string string | A_thread outside | A_stop

primrec async_exec :: "async_event \<Rightarrow> async \<Rightarrow> async option" where
  "async_exec (A_append garbage logline) a = AsyncLogging_append garbage logline a"
| "async_exec (A_thread e) a = thread_step e a"
| "async_exec A_stop a = AsyncLogging_stop a"

section \<open>Every line in its order\<close>

definition large :: "LogBuffer option \<Rightarrow> bool" where
  "large p \<longleftrightarrow> (\<exists>b. p = Some b \<and> lb_ok b \<and> length (lb_data b) = kLargeBuffer)"

definition text_of :: "LogBuffer option \<Rightarrow> string" where
  "text_of p = (case p of Some b \<Rightarrow> LogBuffer_toString b | None \<Rightarrow> [])"

definition spare :: "LogBuffer option \<Rightarrow> bool" where
  "spare p \<longleftrightarrow> large p \<and> text_of p = []"

definition output_ok :: "LogFile option \<Rightarrow> bool" where
  "output_ok out \<longleftrightarrow> (\<exists>l f. out = Some l \<and> lf_file l = Some f \<and> af_saved f \<and> closed_saved l)"

definition phase_ok :: "async \<Rightarrow> bool" where
  "phase_ok a \<longleftrightarrow> (case al_phase a of
     T_open \<Rightarrow> al_toWrite a = [] \<and> al_output a = None
   | T_write \<Rightarrow> al_new1 a = None \<and> al_toWrite a \<noteq> [] \<and> (\<forall>p\<in>set (al_toWrite a). large p)
       \<and> (spare (al_new2 a) \<or> al_new2 a = None \<and> 2 \<le> length (al_toWrite a)) \<and> output_ok (al_output a)
   | T_exit \<Rightarrow> al_toWrite a = [] \<and> output_ok (al_output a)
   | T_done \<Rightarrow> al_toWrite a = [] \<and> output_ok (al_output a)
   | _ \<Rightarrow> spare (al_new1 a) \<and> spare (al_new2 a) \<and> al_toWrite a = [] \<and> output_ok (al_output a))"

definition async_ok :: "async \<Rightarrow> bool" where
  "async_ok a \<longleftrightarrow> large (al_current a) \<and> (spare (al_next a) \<or> al_next a = None \<and> al_buffers a \<noteq> [])
     \<and> (\<forall>p\<in>set (al_buffers a). large p) \<and> phase_ok a \<and> al_started a"

definition in_files :: "async \<Rightarrow> string" where
  "in_files a = (case al_output a of Some l \<Rightarrow> lf_all l | None \<Rightarrow> [])"

definition in_memory :: "async \<Rightarrow> string" where
  "in_memory a = concat (map text_of (al_toWrite a @ al_buffers a @ [al_current a]))"

text \<open>Lines fit into a buffer (4,000,000 bytes); the clock is after the epoch, files open, and \<^verbatim>\<open>fwrite\<close> takes what it is given.\<close>

primrec event_ok :: "async_event \<Rightarrow> bool" where
  "event_ok (A_append garbage logline) \<longleftrightarrow> length garbage = kLargeBuffer \<and> length logline < kLargeBuffer"
| "event_ok (A_thread e) \<longleftrightarrow> 0 < os_now e \<and> (\<forall>x. fn_fopen (os_names e) x) \<and> os_answers e = [] \<and> length (os_garbage1 e) = kLargeBuffer
     \<and> length (os_garbage2 e) = kLargeBuffer"
| "event_ok A_stop \<longleftrightarrow> True"

primrec line_of :: "async_event \<Rightarrow> string" where
  "line_of (A_append garbage logline) = logline"
| "line_of (A_thread e) = []"
| "line_of A_stop = []"

text \<open>A state reached by an event that adds \<open>t\<close>.\<close>

definition goes :: "async \<Rightarrow> string \<Rightarrow> async option \<Rightarrow> bool" where
  "goes a t r \<longleftrightarrow> (\<exists>a'. r = Some a' \<and> async_ok a' \<and> in_files a' @ in_memory a' = in_files a @ in_memory a @ t)"

lemma write_round_flags:
  "write_round e a = Some a' \<Longrightarrow> al_joined a' = al_joined a \<and> al_running a' = al_running a"
  by (auto simp: write_round_def Let_def elim!: bind_eq_SomeE split: prod.splits)

lemma event_keeps_joined:
  assumes "async_exec ev a = Some a'" "ev \<noteq> A_stop"
  shows "al_joined a' = al_joined a \<and> al_running a' = al_running a"
proof (cases ev)
  case (A_append garbage logline)
  then show ?thesis using assms by (auto simp: AsyncLogging_append_def Let_def elim!: bind_eq_SomeE split: if_splits)
next
  case (A_thread e)
  have swap: "al_joined (swap_buffers b) = al_joined b" "al_running (swap_buffers b) = al_running b" for b
    by (simp_all add: swap_buffers_def Let_def)
  have run: "thread_step e a = Some a'" using assms(1) A_thread by simp
  show ?thesis
  proof (cases "al_phase a")
    case T_write
    then show ?thesis using run write_round_flags by (simp add: thread_step_def)
  qed (use run in \<open>auto simp: thread_step_def swap elim!: bind_eq_SomeE split: if_splits\<close>)
qed (use assms in simp)

lemma spare_zeroed: "length garbage = kLargeBuffer \<Longrightarrow> spare (Some (large_zeroed garbage))"
  by (simp add: spare_def large_def text_of_def large_zeroed_def LogBuffer_bzeros_def LogBuffer_new_def lb_ok_def LogBuffer_toString_def)

lemma spare_reset: "large (Some b) \<Longrightarrow> spare (Some (LogBuffer_reset b))"
  by (simp add: spare_def large_def text_of_def LogBuffer_reset_def lb_ok_def LogBuffer_toString_def)

lemma append_large:
  assumes "large (Some b)" "length logline < LogBuffer_avail b"
  shows "large (Some (LogBuffer_append logline (length logline) b))"
    "text_of (Some (LogBuffer_append logline (length logline) b)) = text_of (Some b) @ logline"
  using assms append_LogBuffer [of b "length logline" logline] avail_eq [of b] by (auto simp: large_def text_of_def)

lemma append_spare:
  assumes "spare (Some b)" "length logline < kLargeBuffer"
  shows "large (Some (LogBuffer_append logline (length logline) b))"
    "text_of (Some (LogBuffer_append logline (length logline) b)) = logline"
  using assms append_large [of b logline] avail_eq [of b] by (auto simp: spare_def large_def text_of_def)

lemma spare_new: "length garbage = kLargeBuffer \<Longrightarrow> spare (Some (LogBuffer_new garbage))"
  by (simp add: spare_def large_def text_of_def) (simp add: LogBuffer_new_def)

lemma phase_ok_update [simp]:
  "phase_ok (a\<lparr>al_current := x\<rparr>) = phase_ok a" "phase_ok (a\<lparr>al_next := x\<rparr>) = phase_ok a" "phase_ok (a\<lparr>al_buffers := y\<rparr>) = phase_ok a"
  "phase_ok (a\<lparr>al_running := r\<rparr>) = phase_ok a" "phase_ok (a\<lparr>al_joined := j\<rparr>) = phase_ok a"
  by (simp_all add: phase_ok_def split: thread_phase.split)

lemma append_goes:
  assumes "async_ok a" "length garbage = kLargeBuffer" "length logline < kLargeBuffer"
  shows "goes a logline (AsyncLogging_append garbage logline a)"
proof -
  from assms(1) obtain cur where cur: "al_current a = Some cur" "large (Some cur)" by (auto simp: async_ok_def large_def)
  define b where "b = (case al_next a of Some b \<Rightarrow> b | None \<Rightarrow> LogBuffer_new garbage)"
  have "spare (Some b)" using assms(1) spare_new [OF assms(2)]
    by (auto simp: b_def async_ok_def spare_def large_def split: option.split)
  note b = append_spare [OF this assms(3)]
  show ?thesis
  proof (cases "LogBuffer_avail cur > length logline")
    case True
    with append_large [OF cur(2) True] cur assms(1) show ?thesis
      by (auto simp: goes_def AsyncLogging_append_def async_ok_def in_files_def in_memory_def)
  next
    case False
    with b cur assms(1) show ?thesis
      by (auto simp: goes_def AsyncLogging_append_def async_ok_def in_files_def in_memory_def b_def [symmetric] Let_def)
  qed
qed

lemma swap_goes:
  assumes "async_ok a" "al_phase a = T_lock \<or> al_phase a = T_wait"
  shows "goes a [] (Some ((swap_buffers a)\<lparr>al_phase := T_write\<rparr>))"
  using assms
  by (auto simp: goes_def swap_buffers_def async_ok_def phase_ok_def in_files_def in_memory_def text_of_def Let_def spare_def Suc_le_eq)

lemma text_of_Some: "text_of (Some b) = LogBuffer_toString b"
  by (simp add: text_of_def)

lemma write_all_texts:
  assumes "lf_file l = Some f" "closed_saved l" "\<And>p. p \<in> set ps \<Longrightarrow> large p" "\<forall>x. fn_fopen (os_names e) x"
  shows "\<exists>l' f'. write_all e n ps [] l = Some l' \<and> lf_file l' = Some f' \<and> closed_saved l'
    \<and> lf_all l' = lf_all l @ concat (map text_of ps)"
  using assms
proof (induction ps arbitrary: n l f)
  case (Cons p ps)
  from Cons.prems(3) [of p] obtain b where b: "p = Some b" by (auto simp: large_def)
  from LogFile_append_all [OF Cons.prems(1,4), of "LogBuffer_toString b" "fst (os_clock e n)" "snd (os_clock e n)" "[]"]
  obtain l1 f1 where l1: "LogFile_append (os_names e) (LogBuffer_toString b) (fst (os_clock e n)) (snd (os_clock e n)) [] l = Some ([], l1)"
    "lf_file l1 = Some f1" "lf_all l1 = lf_all l @ LogBuffer_toString b" by auto
  from Cons.IH [OF l1(2) closed_saved_append [OF Cons.prems(2) l1(1)] _ Cons.prems(4), of "Suc n"] Cons.prems(3) obtain l' f' where
    "write_all e (Suc n) ps [] l1 = Some l' \<and> lf_file l' = Some f' \<and> closed_saved l' \<and> lf_all l' = lf_all l1 @ concat (map text_of ps)"
    by auto
  then show ?case using l1 b by (simp add: text_of_Some)
qed simp

lemma recycle_spare:
  assumes "ps \<noteq> []" "\<And>p. p \<in> set ps \<Longrightarrow> large p"
  shows "\<exists>p. recycle ps = Some (p, butlast ps) \<and> spare p"
proof -
  from assms have "large (last ps)" by simp
  then obtain b where "last ps = Some b" by (auto simp: large_def)
  with assms \<open>large (last ps)\<close> spare_reset [of b] show ?thesis by (simp add: recycle_def)
qed

lemma write_goes:
  assumes "async_ok a" "al_phase a = T_write" "os_answers e = []" "\<forall>x. fn_fopen (os_names e) x"
  shows "goes a [] (write_round e a)"
proof -
  let ?tw = "al_toWrite a"
  have ph: "al_new1 a = None" "?tw \<noteq> []" "\<And>p. p \<in> set ?tw \<Longrightarrow> large p"
    "spare (al_new2 a) \<or> al_new2 a = None \<and> 2 \<le> length ?tw" "output_ok (al_output a)"
    using assms(1,2) by (auto simp: async_ok_def phase_ok_def)
  from ph(5) obtain l f where l: "al_output a = Some l" "lf_file l = Some f" "closed_saved l" by (auto simp: output_ok_def)
  from write_all_texts [OF l(2,3), of ?tw e 0, OF ph(3) assms(4)] obtain l' f' where
    l': "write_all e 0 ?tw [] l = Some l'" "lf_file l' = Some f'" "closed_saved l'" "lf_all l' = lf_all l @ concat (map text_of ?tw)"
    by auto
  define tw where "tw = (if length ?tw > 2 then take 2 ?tw else ?tw)"
  have "tw \<noteq> []" using ph(2) by (simp add: tw_def)
  moreover have "\<And>p. p \<in> set tw \<Longrightarrow> large p" using ph(3) by (auto simp: tw_def dest: in_set_takeD split: if_splits)
  ultimately have tw: "tw \<noteq> []" "\<And>p. p \<in> set tw \<Longrightarrow> large p" by blast+
  from recycle_spare [OF tw] obtain p1 where p1: "recycle tw = Some (p1, butlast tw)" "spare p1" by blast
  have "\<exists>p2 tw'. (if al_new2 a = None then recycle (butlast tw) else Some (al_new2 a, butlast tw)) = Some (p2, tw') \<and> spare p2"
  proof (cases "al_new2 a = None")
    case True
    then have "2 \<le> length tw" using ph(4) by (auto simp: tw_def spare_def large_def)
    then have "butlast tw \<noteq> []" using length_butlast [of tw] by fastforce
    from recycle_spare [OF this] tw(2) True show ?thesis by (auto dest: in_set_butlastD)
  qed (use ph(4) in auto)
  then obtain p2 tw' where p2: "(if al_new2 a = None then recycle (butlast tw) else Some (al_new2 a, butlast tw)) = Some (p2, tw')" "spare p2"
    by blast
  let ?l = "l'\<lparr>lf_file := Some (AppendFile_flush f')\<rparr>"
  have fl: "lf_all ?l = lf_all l'" "closed_saved ?l" using l'(2,3) by (simp_all add: lf_all_def closed_saved_def AppendFile_flush_def)
  have "write_round e a = Some (a\<lparr>al_output := Some ?l, al_new1 := p1, al_new2 := p2, al_toWrite := [], al_phase := T_test\<rparr>)"
    using l(1) l'(1,2) ph(1,2) p1(1) p2(1) assms(3) tw_def [symmetric] by (simp add: write_round_def LogFile_flush_def)
  then show ?thesis using assms(1) p1(2) p2(2) fl l(1) l'(4)
    by (simp add: goes_def async_ok_def phase_ok_def output_ok_def in_files_def in_memory_def)
qed

lemma open_ok:
  assumes "0 < now" "\<forall>x. fn_fopen fn x"
  shows "\<exists>l. LogFile_new fn basename rollSize flushInterval checkEveryN now = Some l \<and> output_ok (Some l) \<and> lf_all l = []"
  using assms by (simp add: output_ok_def LogFile_new_def rollFile_def Let_def af_saved_def AppendFile_new_def closed_saved_def lf_all_def)

lemma open_empty: "LogFile_new fn basename rollSize flushInterval checkEveryN now = Some l \<Longrightarrow> lf_all l = []"
  by (auto simp: LogFile_new_def lf_all_def dest: rollFile_keeps(1))

lemma flush_ok: "output_ok (Some l) \<Longrightarrow> \<exists>l'. LogFile_flush l = Some l' \<and> output_ok (Some l') \<and> lf_all l' = lf_all l"
  by (auto simp: output_ok_def LogFile_flush_def closed_saved_def lf_all_def AppendFile_flush_def af_saved_def)

lemma thread_goes:
  assumes "async_ok a" "event_ok (A_thread e)"
  shows "goes a [] (thread_step e a)"
proof (cases "al_phase a")
  case T_open
  obtain l where "LogFile_new (os_names e) (os_basename e) (os_rollSize e) 3 1024 (os_now e) = Some l" "output_ok (Some l)" "lf_all l = []"
    using open_ok [of "os_now e" "os_names e" "os_basename e" "os_rollSize e" 3 1024] assms(2) by auto
  then show ?thesis using T_open assms spare_zeroed [of "os_garbage1 e"] spare_zeroed [of "os_garbage2 e"]
    by (simp add: goes_def thread_step_def async_ok_def phase_ok_def in_files_def in_memory_def)
next
  case T_exit
  then obtain l where "al_output a = Some l" "output_ok (Some l)" using assms(1) by (auto simp: async_ok_def phase_ok_def output_ok_def)
  with T_exit flush_ok [of l] assms(1) show ?thesis
    by (auto simp: goes_def thread_step_def async_ok_def phase_ok_def in_files_def in_memory_def)
next
  case T_lock
  then show ?thesis using assms(1) swap_goes [OF assms(1)]
    by (auto simp: thread_step_def async_ok_def phase_ok_def) (auto simp: goes_def async_ok_def phase_ok_def in_files_def in_memory_def)
next
  case T_write
  then show ?thesis using write_goes assms by (simp add: thread_step_def)
qed (use assms swap_goes [OF assms(1)] in \<open>auto simp: goes_def thread_step_def async_ok_def phase_ok_def in_files_def in_memory_def\<close>)

lemma exec_goes:
  assumes "async_ok a" "event_ok ev" "ev = A_stop \<Longrightarrow> \<not> al_joined a"
  shows "goes a (line_of ev) (async_exec ev a)"
proof (cases ev)
  case A_stop
  then show ?thesis using assms(1,3) by (simp add: goes_def AsyncLogging_stop_def async_ok_def in_files_def in_memory_def)
qed (use assms append_goes thread_goes in auto)

definition async_started :: "string \<Rightarrow> string \<Rightarrow> async" where
  "async_started garbage1 garbage2 = (AsyncLogging_new garbage1 garbage2)\<lparr>al_running := True, al_phase := T_open, al_started := True\<rparr>"

lemma async_starts: "AsyncLogging_start (AsyncLogging_new garbage1 garbage2) = Some (async_started garbage1 garbage2)"
  by (simp add: AsyncLogging_start_def async_started_def AsyncLogging_new_def)

lemma async_started_ok:
  "length garbage1 = kLargeBuffer \<Longrightarrow> length garbage2 = kLargeBuffer \<Longrightarrow>
    async_ok (async_started garbage1 garbage2) \<and> in_files (async_started garbage1 garbage2) @ in_memory (async_started garbage1 garbage2) = []"
  "\<not> al_joined (async_started garbage1 garbage2)"
  using spare_zeroed [of garbage1] spare_zeroed [of garbage2]
  by (simp_all add: async_started_def AsyncLogging_new_def async_ok_def phase_ok_def spare_def in_files_def in_memory_def)

text \<open>\<^verbatim>\<open>stop\<close> is called at most once.\<close>

abbreviation stops_left :: "async \<Rightarrow> nat" where
  "stops_left a \<equiv> (if al_joined a then 0 else 1)"

lemma run_goes:
  assumes "async_ok a" "\<And>ev. ev \<in> set evs \<Longrightarrow> event_ok ev" "count_list evs A_stop \<le> stops_left a"
  shows "goes a (concat (map line_of evs)) (foldo async_exec evs a)"
  using assms
proof (induction evs arbitrary: a)
  case (Cons ev evs)
  have "ev = A_stop \<Longrightarrow> \<not> al_joined a" using Cons.prems(3) by auto
  from exec_goes [OF Cons.prems(1) _ this] Cons.prems(2) obtain a1 where
    a1: "async_exec ev a = Some a1" "async_ok a1" "in_files a1 @ in_memory a1 = in_files a @ in_memory a @ line_of ev"
    by (auto simp: goes_def)
  have "count_list evs A_stop \<le> stops_left a1"
    using Cons.prems(3) event_keeps_joined [OF a1(1)] by (cases "ev = A_stop") (auto split: if_splits)
  from Cons.IH [OF a1(2) _ this] Cons.prems(2) have "goes a1 (concat (map line_of evs)) (foldo async_exec evs a1)" by simp
  with a1 show ?case by (fastforce simp: goes_def)
qed (simp add: goes_def)

lemma write_round_keeps:
  "write_round e a = Some a' \<Longrightarrow>
    al_toWrite a' = [] \<and> al_buffers a' = al_buffers a \<and> al_current a' = al_current a \<and> al_phase a' = T_test"
  by (auto simp: write_round_def Let_def elim!: bind_eq_SomeE split: prod.splits)

lemma round_empties:
  assumes "async_ok a" "al_phase a = T_wait" "event_ok (A_thread e1)" "event_ok (A_thread e2)"
    "foldo async_exec [A_thread e1, A_thread e2] a = Some a'"
  shows "in_memory a' = []"
proof -
  let ?a = "(swap_buffers a)\<lparr>al_phase := T_write\<rparr>"
  have "spare (al_new1 a)" using assms(1,2) by (simp add: async_ok_def phase_ok_def)
  moreover have "al_current ?a = al_new1 a" "al_buffers ?a = []"
    using assms(1,2) by (simp_all add: swap_buffers_def Let_def async_ok_def phase_ok_def)
  moreover have "write_round e2 ?a = Some a'" using assms(2,5) by (simp add: thread_step_def)
  then have "al_toWrite a' = []" "al_buffers a' = al_buffers ?a" "al_current a' = al_current ?a"
    using write_round_keeps by auto
  ultimately show ?thesis by (simp add: in_memory_def spare_def)
qed


text \<open>For the witness: names and a clock for the files.\<close>

definition demo_outside :: outside where
  "demo_outside = \<lparr>os_names = \<lparr>fn_gmtime = (\<lambda>_. demo_tm), fn_processname = ''p'', fn_pid = 1, fn_fopen = (\<lambda>_. True)\<rparr>, os_basename = ''log'', os_rollSize = 1000,
     os_now = 5, os_clock = (\<lambda>_. (6, 6)), os_answers = [], os_garbage1 = replicate kLargeBuffer (CHR 0x00),
     os_garbage2 = replicate kLargeBuffer (CHR 0x00)\<rparr>"

abbreviation demo_garbage :: string where
  "demo_garbage \<equiv> replicate kLargeBuffer (CHR 0x00)"


lemma lf_all_flush: "lf_file l = Some f \<Longrightarrow> lf_all (l\<lparr>lf_file := Some (AppendFile_flush f)\<rparr>) = lf_all l"
  by (simp add: lf_all_def AppendFile_flush_def)

lemma append_keeps:
  "AsyncLogging_append garbage logline a = Some a' \<Longrightarrow>
    al_phase a' = al_phase a \<and> al_output a' = al_output a \<and> al_running a' = al_running a"
  by (auto simp: AsyncLogging_append_def Let_def elim!: bind_eq_SomeE split: if_splits)

lemma done_keeps:
  "al_phase a = T_done \<Longrightarrow> async_exec ev a = Some a' \<Longrightarrow> al_phase a' = T_done \<and> in_files a' = in_files a"
  by (cases ev) (auto simp: thread_step_def AsyncLogging_stop_def in_files_def elim!: bind_eq_SomeE dest: append_keeps)

lemma done_stays:
  "al_phase a = T_done \<Longrightarrow> foldo async_exec evs a = Some a' \<Longrightarrow> in_files a' = in_files a"
  by (rule conjunct2 [OF foldo_invariant [of evs "\<lambda>b. al_phase b = T_done \<and> in_files b = in_files a" async_exec a a']])
     (auto dest: done_keeps)

text \<open>Lines can be lost at the end: when \<^verbatim>\<open>stop\<close> is called while the thread is on its way back to the loop test, the
  loop ends without another round, and a line appended before \<^verbatim>\<open>stop\<close> stays in memory for good: no later event writes
  it.\<close>

lemma async_stop_loses:
  assumes "length garbage1 = kLargeBuffer" "length garbage2 = kLargeBuffer" "length line < kLargeBuffer"
    and "event_ok (A_thread e)" "\<And>ev. ev \<in> set evs \<Longrightarrow> event_ok ev" "A_stop \<notin> set evs"
  shows "\<exists>a a'. foldo async_exec [A_thread e, A_append garbage1 line, A_stop, A_thread e, A_thread e]
        (async_started garbage1 garbage2) = Some a
    \<and> al_phase a = T_done \<and> in_files a = [] \<and> in_memory a = line
    \<and> foldo async_exec evs a = Some a' \<and> in_files a' = []"
proof -
  let ?evs = "[A_thread e, A_append garbage1 line, A_stop, A_thread e, A_thread e]"
  have evs: "ev \<in> set ?evs \<Longrightarrow> event_ok ev" for ev using assms(1,3,4) by (auto simp del: event_ok.simps(2))
  note start = async_started_ok(1) [OF assms(1,2)]
  have "count_list ?evs A_stop \<le> stops_left (async_started garbage1 garbage2)" using async_started_ok(2) by simp
  from run_goes [OF conjunct1 [OF start] evs this] start obtain a where a: "foldo async_exec ?evs (async_started garbage1 garbage2) = Some a" "async_ok a" "in_files a @ in_memory a = line"
    by (auto simp: goes_def)
  have "count_list evs A_stop \<le> stops_left a" using assms(6) by (simp add: count_list_0_iff)
  from run_goes [OF a(2) assms(5) this] obtain a' where a': "foldo async_exec evs a = Some a'" by (auto simp: goes_def)
  from a(1) have d: "al_phase a = T_done \<and> in_files a = []"
    by (auto simp: async_started_def AsyncLogging_new_def thread_step_def AsyncLogging_stop_def
      in_files_def LogFile_flush_def lf_all_flush open_empty elim!: bind_eq_SomeE dest!: append_keeps)
  with a a' done_stays [of a evs a'] show ?thesis by auto
qed

lemma async_stop_loses_witness:
  "\<exists>a. foldo async_exec [A_thread demo_outside, A_append demo_garbage ''one'', A_stop, A_thread demo_outside, A_thread demo_outside]
      (async_started demo_garbage demo_garbage) = Some a
    \<and> al_phase a = T_done \<and> in_files a = [] \<and> in_memory a = ''one''"
proof -
  have e: "event_ok (A_thread demo_outside)" by (simp add: demo_outside_def)
  have l: "length ''one'' < kLargeBuffer" by (simp add: kLargeBuffer_def)
  from async_stop_loses [where evs = "[]" and line = "''one''", OF length_replicate length_replicate l e] show ?thesis by fastforce
qed

text \<open>A second \<^verbatim>\<open>stop\<close> fails the assertion of \<^verbatim>\<open>Thread::join\<close> and a \<^verbatim>\<open>stop\<close> before \<^verbatim>\<open>start\<close> that the thread has been started; a file
  that cannot be opened stops the background thread and the process with it.\<close>

lemma async_stop_twice_stops: "AsyncLogging_stop a = Some a' \<Longrightarrow> AsyncLogging_stop a' = None"
  by (auto simp: AsyncLogging_stop_def Let_def split: if_splits)

lemma async_stop_unstarted_stops: "AsyncLogging_stop (AsyncLogging_new garbage1 garbage2) = None"
  by (simp add: AsyncLogging_stop_def AsyncLogging_new_def)

lemma async_open_fails_stops:
  "al_phase a = T_open \<Longrightarrow> 0 < os_now e \<Longrightarrow> \<not> fn_fopen (os_names e) (getLogFileName (os_names e) (os_basename e) (os_now e))
    \<Longrightarrow> thread_step e a = None"
  by (simp add: thread_step_def LogFile_new_def rollFile_def AppendFile_new_def Let_def)

end
