(* ===== verification/Pools.thy ===== *)
theory Pools
  imports Prelude "HOL-Library.Multiset"
begin

text \<open>
  Threads that share work: \<^verbatim>\<open>CountDownLatch.cpp\<close> and \<^verbatim>\<open>ThreadPool.cpp\<close>.

  A thread is the point of the code it has reached between two uses of the mutex; a condition variable is the set of threads at
  the point of waiting on it. \<^verbatim>\<open>notify_one\<close> moves one of them on, whichever the event says, and a waiting thread may also wake
  spuriously. A list of events is one interleaving of the threads. A task is an empty function or a name; running it is not
  part of the model beyond whether it returns or throws.
\<close>

section \<open>The latch\<close>

record latch =
  cl_count :: int
  cl_waiting :: nat
  cl_passed :: nat

definition CountDownLatch_new :: "int \<Rightarrow> latch" where
  "CountDownLatch_new n = \<lparr>cl_count = n, cl_waiting = 0, cl_passed = 0\<rparr>"

definition latch_wait :: "latch \<Rightarrow> latch" where
  "latch_wait l = (if cl_count l > 0 then l\<lparr>cl_waiting := cl_waiting l + 1\<rparr> else l\<lparr>cl_passed := cl_passed l + 1\<rparr>)"

text \<open>The threads woken by \<^verbatim>\<open>notify_all\<close> test the count again, which has not grown since.\<close>

definition countDown :: "latch \<Rightarrow> latch" where
  "countDown l =
     (let l = l\<lparr>cl_count := cl_count l - 1\<rparr>
      in if cl_count l = 0 then l\<lparr>cl_passed := cl_passed l + cl_waiting l, cl_waiting := 0\<rparr> else l)"

definition getCount :: "latch \<Rightarrow> int" where
  "getCount l = cl_count l"

datatype latch_event = L_wait | L_countDown

primrec latch_exec :: "latch_event \<Rightarrow> latch \<Rightarrow> latch" where
  "latch_exec L_wait l = latch_wait l"
| "latch_exec L_countDown l = countDown l"

text \<open>No thread is left waiting once the count has come down: all that ever waited have passed exactly when the latch has been
  counted down often enough.\<close>

lemma latch_releases_all:
  fixes evs :: "latch_event list" and n :: int
  defines "l \<equiv> fold latch_exec evs (CountDownLatch_new n)"
  shows "cl_count l = n - int (count_list evs L_countDown)"
    "cl_waiting l + cl_passed l = count_list evs L_wait"
    "cl_count l \<le> 0 \<Longrightarrow> cl_waiting l = 0" "0 < cl_count l \<Longrightarrow> cl_passed l = 0"
proof -
  have "cl_count l = n - int (count_list evs L_countDown) \<and> cl_waiting l + cl_passed l = count_list evs L_wait
      \<and> (cl_count l \<le> 0 \<longrightarrow> cl_waiting l = 0) \<and> (0 < cl_count l \<longrightarrow> cl_passed l = 0)"
    unfolding l_def
  proof (induction evs rule: rev_induct)
    case (snoc ev evs)
    then show ?case by (cases ev) (auto simp: latch_wait_def countDown_def Let_def)
  qed (simp add: CountDownLatch_new_def)
  then show "cl_count l = n - int (count_list evs L_countDown)" "cl_waiting l + cl_passed l = count_list evs L_wait"
    "cl_count l \<le> 0 \<Longrightarrow> cl_waiting l = 0" "0 < cl_count l \<Longrightarrow> cl_passed l = 0" by auto
qed

section \<open>The pool\<close>

type_synonym 't task = "'t option"

text \<open>\<open>tp_accepted\<close> and \<open>tp_begun\<close> record in which order tasks entered the queue and were begun; the code does not read
  them.\<close>

datatype 't worker = W_init | W_loop | W_take | W_wait | W_run "'t task" | W_done

datatype 't caller = C_try "'t task" | C_wait "'t task" | C_done "'t task"

record 't pool =
  tp_init :: bool
  tp_max :: nat
  tp_running :: bool
  tp_queue :: "'t task list"
  tp_threads :: "'t worker list"
  tp_callers :: "'t caller list"
  tp_accepted :: "'t task list"
  tp_begun :: "'t task list"
  tp_inits :: nat

definition ThreadPool_new :: "'t pool" where
  "ThreadPool_new = \<lparr>tp_init = False, tp_max = 0, tp_running = False, tp_queue = [], tp_threads = [], tp_callers = [],
     tp_accepted = [], tp_begun = [], tp_inits = 0\<rparr>"

definition setMaxQueueSize :: "nat \<Rightarrow> 't pool \<Rightarrow> 't pool" where
  "setMaxQueueSize maxSize p = p\<lparr>tp_max := maxSize\<rparr>"

definition setThreadInitCallback :: "'t pool \<Rightarrow> 't pool" where
  "setThreadInitCallback p = p\<lparr>tp_init := True\<rparr>"

text \<open>A negative number of threads makes \<^verbatim>\<open>reserve\<close> throw.\<close>

definition ThreadPool_start :: "int \<Rightarrow> 't pool \<Rightarrow> 't pool option" where
  "ThreadPool_start numThreads p = do {
     assertion (tp_threads p = []);
     let p = p\<lparr>tp_running := True\<rparr>;
     assertion (0 \<le> numThreads);
     let p = p\<lparr>tp_threads := replicate (nat numThreads) W_init\<rparr>;
     Some (if numThreads = 0 \<and> tp_init p then p\<lparr>tp_inits := tp_inits p + 1\<rparr> else p) }"

definition isFull :: "'t pool \<Rightarrow> bool" where
  "isFull p \<longleftrightarrow> tp_max p > 0 \<and> length (tp_queue p) \<ge> tp_max p"

definition queueSize :: "'t pool \<Rightarrow> nat" where
  "queueSize p = length (tp_queue p)"

text \<open>\<^verbatim>\<open>notify_one\<close>: the thread \<open>k\<close> when it waits, otherwise the first that does.\<close>

definition notify_one :: "('a \<Rightarrow> bool) \<Rightarrow> ('a \<Rightarrow> 'a) \<Rightarrow> nat \<Rightarrow> 'a list \<Rightarrow> 'a list" where
  "notify_one waits wake k xs =
     (let i = (if k < length xs \<and> waits (xs ! k) then k else find_index waits xs)
      in if i < length xs then xs[i := wake (xs ! i)] else xs)"

definition notify_all :: "('a \<Rightarrow> bool) \<Rightarrow> ('a \<Rightarrow> 'a) \<Rightarrow> 'a list \<Rightarrow> 'a list" where
  "notify_all waits wake xs = map (\<lambda>x. if waits x then wake x else x) xs"

fun w_waits :: "'t worker \<Rightarrow> bool" where
  "w_waits W_wait = True"
| "w_waits _ = False"

definition w_wake :: "'t worker \<Rightarrow> 't worker" where
  "w_wake w = W_take"

fun c_waits :: "'t caller \<Rightarrow> bool" where
  "c_waits (C_wait f) = True"
| "c_waits _ = False"

fun c_wake :: "'t caller \<Rightarrow> 't caller" where
  "c_wake (C_wait f) = C_try f"
| "c_wake c = c"

definition ThreadPool_stop :: "'t pool \<Rightarrow> 't pool" where
  "ThreadPool_stop p = p\<lparr>tp_running := False, tp_threads := notify_all w_waits w_wake (tp_threads p)\<rparr>"

definition ThreadPool_delete :: "'t pool \<Rightarrow> 't pool" where
  "ThreadPool_delete p = (if tp_running p then ThreadPool_stop p else p)"

text \<open>A call of \<^verbatim>\<open>run\<close>: without threads the task runs in the caller, where an empty one throws.\<close>

definition ThreadPool_run :: "'t task \<Rightarrow> bool \<Rightarrow> 't pool \<Rightarrow> 't pool option" where
  "ThreadPool_run func throws p =
     (if tp_threads p = [] then do {
        assertion (func \<noteq> None \<and> \<not> throws);
        Some (p\<lparr>tp_begun := tp_begun p @ [func]\<rparr>) }
      else Some (p\<lparr>tp_callers := tp_callers p @ [C_try func]\<rparr>))"

text \<open>The rest of \<^verbatim>\<open>run\<close>, in the thread that called it; \<open>k\<close> is the worker to notify.\<close>

definition caller_step :: "nat \<Rightarrow> nat \<Rightarrow> 't pool \<Rightarrow> 't pool option" where
  "caller_step j k p = (if j < length (tp_callers p) then (case tp_callers p ! j of
       C_try func \<Rightarrow>
         if isFull p then Some (p\<lparr>tp_callers := (tp_callers p)[j := C_wait func]\<rparr>)
         else do {
           assertion (\<not> isFull p);
           let p = p\<lparr>tp_queue := tp_queue p @ [func], tp_accepted := tp_accepted p @ [func],
             tp_callers := (tp_callers p)[j := C_done func]\<rparr>;
           Some (p\<lparr>tp_threads := notify_one w_waits w_wake k (tp_threads p)\<rparr>) }
     | C_wait func \<Rightarrow> Some p
     | C_done func \<Rightarrow> Some p) else Some p)"

text \<open>\<^verbatim>\<open>take\<close> in worker \<open>i\<close>; \<open>k\<close> is the caller to notify. An empty task sends the worker back to its loop.\<close>

definition take_task :: "nat \<Rightarrow> nat \<Rightarrow> 't pool \<Rightarrow> 't pool" where
  "take_task i k p =
     (if tp_queue p = [] \<and> tp_running p then p\<lparr>tp_threads := (tp_threads p)[i := W_wait]\<rparr>
      else case tp_queue p of
        threadTask # rest \<Rightarrow>
          let p = p\<lparr>tp_queue := rest, tp_begun := tp_begun p @ [threadTask], tp_threads := (tp_threads p)[i := W_run threadTask]\<rparr>
          in if tp_max p > 0 then p\<lparr>tp_callers := notify_one c_waits c_wake k (tp_callers p)\<rparr> else p
      | [] \<Rightarrow> p\<lparr>tp_threads := (tp_threads p)[i := W_loop]\<rparr>)"

text \<open>\<^verbatim>\<open>runInThread\<close>; an exception from a task, of whatever type, ends the process.\<close>

definition worker_step :: "nat \<Rightarrow> nat \<Rightarrow> bool \<Rightarrow> 't pool \<Rightarrow> 't pool option" where
  "worker_step i k throws p = (if i < length (tp_threads p) then (case tp_threads p ! i of
       W_init \<Rightarrow> Some (p\<lparr>tp_threads := (tp_threads p)[i := W_loop], tp_inits := tp_inits p + (if tp_init p then 1 else 0)\<rparr>)
     | W_loop \<Rightarrow> Some (p\<lparr>tp_threads := (tp_threads p)[i := (if tp_running p then W_take else W_done)]\<rparr>)
     | W_take \<Rightarrow> Some (take_task i k p)
     | W_wait \<Rightarrow> Some p
     | W_run threadTask \<Rightarrow> do {
         assertion (threadTask = None \<or> \<not> throws);
         Some (p\<lparr>tp_threads := (tp_threads p)[i := W_loop]\<rparr>) }
     | W_done \<Rightarrow> Some p) else Some p)"

datatype 't pool_event = P_run "'t task" | P_caller nat nat | P_worker nat nat | P_stop | P_spurious_worker nat | P_spurious_caller nat

primrec pool_exec :: "'t pool_event \<Rightarrow> 't pool \<Rightarrow> 't pool option" where
  "pool_exec (P_run func) p = ThreadPool_run func False p"
| "pool_exec (P_caller j k) p = caller_step j k p"
| "pool_exec (P_worker i k) p = worker_step i k False p"
| "pool_exec P_stop p = Some (ThreadPool_stop p)"
| "pool_exec (P_spurious_worker i) p =
     Some (if i < length (tp_threads p) \<and> w_waits (tp_threads p ! i) then p\<lparr>tp_threads := (tp_threads p)[i := W_take]\<rparr> else p)"
| "pool_exec (P_spurious_caller j) p =
     Some (if j < length (tp_callers p) then p\<lparr>tp_callers := (tp_callers p)[j := c_wake (tp_callers p ! j)]\<rparr> else p)"

section \<open>The invariant\<close>

fun c_tries :: "'t caller \<Rightarrow> bool" where
  "c_tries (C_try f) = True"
| "c_tries _ = False"

fun c_task :: "'t caller \<Rightarrow> 't task" where
  "c_task (C_try f) = f"
| "c_task (C_wait f) = f"
| "c_task (C_done f) = f"

fun c_accepted :: "'t caller \<Rightarrow> bool" where
  "c_accepted (C_done f) = True"
| "c_accepted _ = False"

definition queue_ok :: "'t pool \<Rightarrow> bool" where
  "queue_ok p \<longleftrightarrow> (0 < tp_max p \<longrightarrow> length (tp_queue p) \<le> tp_max p) \<and> tp_accepted p = tp_begun p @ tp_queue p"

definition workers_ok :: "'t pool \<Rightarrow> bool" where
  "workers_ok p \<longleftrightarrow> tp_threads p \<noteq> [] \<and> (tp_queue p \<noteq> [] \<longrightarrow> (\<exists>w\<in>set (tp_threads p). \<not> w_waits w))
     \<and> (tp_running p \<longrightarrow> W_done \<notin> set (tp_threads p)) \<and> (\<not> tp_running p \<longrightarrow> W_wait \<notin> set (tp_threads p))"

definition tries :: "'t caller list \<Rightarrow> nat" where
  "tries cs = length (filter c_tries cs)"

definition callers_ok :: "'t pool \<Rightarrow> bool" where
  "callers_ok p \<longleftrightarrow> ((\<exists>c\<in>set (tp_callers p). c_waits c) \<longrightarrow> 0 < tp_max p \<and> tp_max p \<le> tries (tp_callers p) + length (tp_queue p))
     \<and> mset (tp_accepted p) = mset (map c_task (filter c_accepted (tp_callers p)))"

definition pool_ok :: "'t pool \<Rightarrow> bool" where
  "pool_ok p \<longleftrightarrow> queue_ok p \<and> workers_ok p \<and> callers_ok p"

lemmas pool_ok_defs = pool_ok_def queue_ok_def workers_ok_def callers_ok_def tries_def

lemma split_at: "j < length xs \<Longrightarrow> \<exists>ys x zs. xs = ys @ x # zs \<and> length ys = j"
  by (metis id_take_nth_drop length_take min.absorb4)

lemma notify_one_cases:
  obtains (nobody) "\<forall>x\<in>set xs. \<not> waits x" "notify_one waits wake k xs = xs"
    | (one) ys x zs where "xs = ys @ x # zs" "waits x" "notify_one waits wake k xs = ys @ wake x # zs"
proof (cases "\<exists>x\<in>set xs. waits x")
  case False
  then have "find_index waits xs = length xs" by (simp add: find_index_eq_length)
  moreover have "\<not> (k < length xs \<and> waits (xs ! k))" using False nth_mem by blast
  ultimately have "notify_one waits wake k xs = xs" by (auto simp: notify_one_def Let_def)
  with False nobody show thesis by blast
next
  case True
  define i where "i = (if k < length xs \<and> waits (xs ! k) then k else find_index waits xs)"
  have f: "find_index waits xs < length xs" "waits (xs ! find_index waits xs)"
    using True find_index_less_iff [of waits xs] by (auto intro: find_index_holds)
  then have i: "i < length xs" "waits (xs ! i)" by (auto simp: i_def)
  from split_at [OF i(1)] obtain ys x zs where "xs = ys @ x # zs" "length ys = i" by blast
  moreover have "notify_one waits wake k xs = xs[i := wake (xs ! i)]"
    unfolding notify_one_def i_def [symmetric] Let_def using i(1) by simp
  ultimately have "waits x" "notify_one waits wake k xs = ys @ wake x # zs" using i by auto
  with \<open>xs = ys @ x # zs\<close> one show thesis by blast
qed

lemma c_waits_cases: "c_waits c \<Longrightarrow> \<exists>f. c = C_wait f"
  by (cases c) auto

lemma w_waits_iff: "w_waits w \<longleftrightarrow> w = W_wait"
  by (cases w) auto

lemma caller_step_ok:
  assumes "pool_ok p"
  shows "\<exists>p'. caller_step j k p = Some p' \<and> pool_ok p'"
proof (cases "j < length (tp_callers p)")
  case True
  then obtain ys c zs where cs: "tp_callers p = ys @ c # zs" "length ys = j" using split_at by blast
  show ?thesis
  proof (cases c)
    case c: (C_try f)
    show ?thesis
    proof (cases "isFull p")
      case full: True
      with True cs c assms show ?thesis by (auto simp: caller_step_def pool_ok_defs isFull_def)
    next
      case False
      let ?ws = "notify_one w_waits w_wake k (tp_threads p)"
      have ws: "?ws \<noteq> [] \<and> (\<exists>w\<in>set ?ws. \<not> w_waits w) \<and> (tp_running p \<longrightarrow> W_done \<notin> set ?ws) \<and> (\<not> tp_running p \<longrightarrow> W_wait \<notin> set ?ws)"
      proof (cases rule: notify_one_cases [of "tp_threads p" w_waits w_wake k])
        case nobody
        moreover have "hd (tp_threads p) \<in> set (tp_threads p)" using assms by (simp add: pool_ok_def workers_ok_def)
        ultimately show ?thesis using assms by (auto simp: pool_ok_def workers_ok_def)
      next
        case one
        then show ?thesis using assms by (auto simp: pool_ok_def workers_ok_def w_wake_def)
      qed
      with True cs c False assms show ?thesis by (auto simp: caller_step_def pool_ok_defs isFull_def)
    qed
  qed (use True cs assms in \<open>auto simp: caller_step_def\<close>)
qed (use assms in \<open>simp add: caller_step_def\<close>)

lemma take_task_ok:
  assumes "pool_ok p" "tp_threads p = ys @ W_take # zs" "length ys = i"
  shows "pool_ok (take_task i k p)"
proof (cases "tp_queue p")
  case Nil
  then show ?thesis using assms by (auto simp: take_task_def pool_ok_defs)
next
  case (Cons t rest)
  show ?thesis
    using Cons assms by (cases rule: notify_one_cases [of "tp_callers p" c_waits c_wake k])
      (auto simp: take_task_def pool_ok_defs Let_def dest!: c_waits_cases)
qed

lemma worker_step_ok:
  assumes "pool_ok p"
  shows "\<exists>p'. worker_step i k False p = Some p' \<and> pool_ok p'"
proof (cases "i < length (tp_threads p)")
  case True
  then obtain ys w zs where ws: "tp_threads p = ys @ w # zs" "length ys = i" using split_at by blast
  show ?thesis
  proof (cases w)
    case W_take
    with True ws assms take_task_ok [OF assms, of ys zs i k] show ?thesis by (auto simp: worker_step_def)
  qed (use True ws assms in \<open>auto simp: worker_step_def pool_ok_defs\<close>)
qed (use assms in \<open>simp add: worker_step_def\<close>)

lemma pool_exec_ok:
  assumes "pool_ok p"
  shows "\<exists>p'. pool_exec ev p = Some p' \<and> pool_ok p'"
proof (cases ev)
  case (P_run f)
  with assms show ?thesis by (auto simp: ThreadPool_run_def pool_ok_defs)
next
  case P_stop
  with assms show ?thesis by (auto simp: ThreadPool_stop_def notify_all_def pool_ok_defs w_wake_def w_waits_iff split: if_splits)
next
  case (P_spurious_worker i)
  show ?thesis
  proof (cases "i < length (tp_threads p)")
    case True
    then obtain ys w zs where "tp_threads p = ys @ w # zs" "length ys = i" using split_at by blast
    with P_spurious_worker assms show ?thesis by (auto simp: pool_ok_defs)
  qed (use P_spurious_worker assms in simp)
next
  case (P_spurious_caller j)
  show ?thesis
  proof (cases "j < length (tp_callers p)")
    case True
    then obtain ys c zs where "tp_callers p = ys @ c # zs" "length ys = j" using split_at by blast
    with P_spurious_caller assms show ?thesis by (cases c) (auto simp: pool_ok_defs)
  qed (use P_spurious_caller assms in simp)
qed (use assms caller_step_ok worker_step_ok in auto)

lemma pool_started_ok:
  assumes "0 < n" "ThreadPool_start n (setMaxQueueSize m ThreadPool_new) = Some p"
  shows "pool_ok p"
  using assms by (auto simp: ThreadPool_start_def setMaxQueueSize_def ThreadPool_new_def pool_ok_defs Let_def)

interpretation pm: safe_machine pool_exec pool_ok "\<lambda>_. True"
  by unfold_locales (rule pool_exec_ok)

text \<open>C11. A pool started with at least one thread: whatever the interleaving of callers, workers, spurious wake-ups and
  \<^verbatim>\<open>stop\<close>, no assertion fails, the queue stays within its maximum, tasks are begun in the order they were accepted and each
  accepted call of \<^verbatim>\<open>run\<close> adds its task exactly once. While the pool runs it cannot hang: as long as a task is queued or a
  caller waits for room, some worker or some caller is not waiting. After \<^verbatim>\<open>stop\<close> no worker waits, so that all of them reach
  their end.\<close>

theorem pool_never_hangs:
  assumes "0 < n" "ThreadPool_start n (setMaxQueueSize m ThreadPool_new) = Some p0"
  shows "\<exists>p. foldo pool_exec evs p0 = Some p
    \<and> (0 < tp_max p \<longrightarrow> queueSize p \<le> tp_max p)
    \<and> tp_accepted p = tp_begun p @ tp_queue p
    \<and> mset (tp_accepted p) = mset (map c_task (filter c_accepted (tp_callers p)))
    \<and> (tp_running p \<and> (tp_queue p \<noteq> [] \<or> (\<exists>c\<in>set (tp_callers p). c_waits c))
        \<longrightarrow> (\<exists>w\<in>set (tp_threads p). w \<noteq> W_wait \<and> w \<noteq> W_done) \<or> (\<exists>c\<in>set (tp_callers p). c_tries c))
    \<and> (\<not> tp_running p \<longrightarrow> W_wait \<notin> set (tp_threads p))"
proof -
  from pm.run_safe [OF pool_started_ok [OF assms], of evs] obtain p where
    p: "foldo pool_exec evs p0 = Some p" and ok: "pool_ok p" by blast
  have "(\<exists>w\<in>set (tp_threads p). w \<noteq> W_wait \<and> w \<noteq> W_done) \<or> (\<exists>c\<in>set (tp_callers p). c_tries c)"
    if r: "tp_running p" and w: "tp_queue p \<noteq> [] \<or> (\<exists>c\<in>set (tp_callers p). c_waits c)"
  proof (cases "tp_queue p = []")
    case False
    then show ?thesis using ok r by (auto simp: pool_ok_def workers_ok_def w_waits_iff)
  next
    case True
    with w ok have "0 < tries (tp_callers p)" by (auto simp: pool_ok_def callers_ok_def)
    then show ?thesis by (auto simp: tries_def filter_empty_conv)
  qed
  with p ok show ?thesis by (auto simp: pool_ok_def queue_ok_def workers_ok_def callers_ok_def queueSize_def)
qed

theorem pool_never_hangs_witness:
  "\<exists>p. foldo pool_exec [P_run (Some 7), P_caller 0 0, P_worker 0 0, P_worker 0 0, P_worker 0 0]
       \<lparr>tp_init = False, tp_max = 1, tp_running = True, tp_queue = [], tp_threads = [W_init], tp_callers = [], tp_accepted = [],
        tp_begun = [], tp_inits = 0\<rparr> = Some p
    \<and> tp_accepted p = tp_begun p @ tp_queue p \<and> tp_begun p = [Some (7::nat)]"
proof -
  have "ThreadPool_start 1 (setMaxQueueSize 1 ThreadPool_new) = Some
       \<lparr>tp_init = False, tp_max = 1, tp_running = True, tp_queue = [], tp_threads = [W_init], tp_callers = [], tp_accepted = [],
        tp_begun = [], tp_inits = 0 :: nat\<rparr>"
    by (simp add: ThreadPool_start_def setMaxQueueSize_def ThreadPool_new_def Let_def)
  from pool_never_hangs [OF _ this, of "[P_run (Some (7::nat)), P_caller 0 0, P_worker 0 0, P_worker 0 0, P_worker 0 0]"]
  show ?thesis
    by (auto simp: ThreadPool_run_def caller_step_def worker_step_def take_task_def isFull_def notify_one_def Let_def)
qed

text \<open>A caller that waits for room when the pool stops is never notified again: once the workers have ended, only a spurious
  wake-up moves it.\<close>

lemma caller_step_frame:
  assumes "caller_step i k q = Some q'"
  shows "tp_running q' = tp_running q"
    "tp_threads q' = tp_threads q \<or> tp_threads q' = notify_one w_waits w_wake k (tp_threads q)"
    "length (tp_callers q') = length (tp_callers q)"
    "j < length (tp_callers q) \<Longrightarrow> tp_callers q ! j = C_wait f \<Longrightarrow> tp_callers q' ! j = C_wait f"
  using assms by (auto simp: caller_step_def nth_list_update Let_def split: if_splits caller.splits)

lemma stop_strands_callers:
  assumes "\<not> tp_running p" "set (tp_threads p) = {W_done}" "j < length (tp_callers p)" "tp_callers p ! j = C_wait f"
    and "\<And>i. P_spurious_caller i \<notin> set evs" "foldo pool_exec evs p = Some p'"
  shows "j < length (tp_callers p') \<and> tp_callers p' ! j = C_wait f"
proof -
  define stuck where "stuck q \<longleftrightarrow> \<not> tp_running q \<and> set (tp_threads q) = {W_done} \<and> j < length (tp_callers q)
    \<and> tp_callers q ! j = C_wait f" for q :: "'a pool"
  have idle: "notify_one w_waits w_wake k ws = ws" if "set ws = {W_done}" for k and ws :: "'a worker list"
    using that by (cases rule: notify_one_cases [of ws w_waits w_wake k]) auto
  have "stuck q'" if "ev \<in> set evs" "stuck q" "pool_exec ev q = Some q'" for ev q q'
  proof (cases ev)
    case (P_caller i k)
    with that(2,3) caller_step_frame [of i k q q'] idle [of "tp_threads q" k] show ?thesis by (auto simp: stuck_def)
  next
    case (P_worker i k)
    have "tp_threads q ! i = W_done" if "i < length (tp_threads q)" using \<open>stuck q\<close> nth_mem [OF that] by (auto simp: stuck_def)
    with P_worker that(2,3) show ?thesis by (auto simp: worker_step_def split: if_splits)
  next
    case (P_spurious_worker i)
    have "tp_threads q ! i = W_done" if "i < length (tp_threads q)" using \<open>stuck q\<close> nth_mem [OF that] by (auto simp: stuck_def)
    with P_spurious_worker that(2,3) show ?thesis by (auto split: if_splits)
  qed (use that assms(5) in \<open>auto simp: stuck_def ThreadPool_run_def ThreadPool_stop_def notify_all_def nth_append split: if_splits\<close>)
  from foldo_invariant [of evs stuck pool_exec p p', OF this] assms show ?thesis by (auto simp: stuck_def)
qed

end
