(* ===== verification/AnyValue.thy ===== *)
theory AnyValue
  imports Prelude
begin

text \<open>
  The container \<^verbatim>\<open>any\<close> of \<^verbatim>\<open>any.hpp\<close>, which holds the context of a connection.

  Objects live at addresses: the variables of a program and the temporaries of the operations. Each has a storage, which is
  raw memory, a pointer to an object on the heap or an object in place, and a pointer to the table of the type it holds. Types
  are a type \<open>'t\<close>, with the traits the choice of storage depends on, and an object is its type and a value. Using raw
  memory, a deleted object or an object as another type than its own stops. A moved-from object is destroyed at once wherever
  the code moves, so its value does not matter.
\<close>

section \<open>Storage\<close>

datatype place = Var nat | Temp | SwapTemp | StorageTemp

datatype 't vtable = vtable_dynamic 't | vtable_stack 't

datatype ('t, 'v) storage = Raw | Dynamic "nat option" | Stack 't 'v

record ('t, 'v) memory =
  m_storage :: "place \<Rightarrow> ('t, 'v) storage"
  m_vtable :: "place \<Rightarrow> 't vtable option"
  m_cells :: "nat \<Rightarrow> ('t \<times> 'v) option"
  m_next :: nat

definition memory_empty :: "('t, 'v) memory" where
  "memory_empty = \<lparr>m_storage = (\<lambda>_. Raw), m_vtable = (\<lambda>_. None), m_cells = (\<lambda>_. None), m_next = 0\<rparr>"

record traits =
  nothrow_move :: bool
  size_of :: nat
  alignment_of :: nat

text \<open>The in-place storage has two words, on a machine with words of eight bytes.\<close>

definition requires_allocation :: "traits \<Rightarrow> bool" where
  "requires_allocation t \<longleftrightarrow> \<not> (nothrow_move t \<and> size_of t \<le> 2 * 8 \<and> alignment_of t \<le> 8)"

definition vtable_for_type :: "('t \<Rightarrow> traits) \<Rightarrow> 't \<Rightarrow> 't vtable" where
  "vtable_for_type tr T = (if requires_allocation (tr T) then vtable_dynamic T else vtable_stack T)"

definition set_storage :: "place \<Rightarrow> ('t, 'v) storage \<Rightarrow> ('t, 'v) memory \<Rightarrow> ('t, 'v) memory" where
  "set_storage a s m = m\<lparr>m_storage := (m_storage m)(a := s)\<rparr>"

definition set_vtable :: "place \<Rightarrow> 't vtable option \<Rightarrow> ('t, 'v) memory \<Rightarrow> ('t, 'v) memory" where
  "set_vtable a t m = m\<lparr>m_vtable := (m_vtable m)(a := t)\<rparr>"

section \<open>The tables\<close>

text \<open>\<^verbatim>\<open>new T(v)\<close> gives an address never used before; deleting a null pointer does nothing.\<close>

definition new_object :: "'t \<Rightarrow> 'v \<Rightarrow> place \<Rightarrow> ('t, 'v) memory \<Rightarrow> ('t, 'v) memory" where
  "new_object T v a m = (set_storage a (Dynamic (Some (m_next m))) m)\<lparr>m_cells := (m_cells m)(m_next m \<mapsto> (T, v)), m_next := m_next m + 1\<rparr>"

definition read_dynamic :: "'t \<Rightarrow> place \<Rightarrow> ('t, 'v) memory \<Rightarrow> 'v option" where
  "read_dynamic T a m = (case m_storage m a of
     Dynamic (Some p) \<Rightarrow> (case m_cells m p of Some (T', v) \<Rightarrow> if T' = T then Some v else None | None \<Rightarrow> None)
   | _ \<Rightarrow> None)"

definition read_stack :: "'t \<Rightarrow> place \<Rightarrow> ('t, 'v) memory \<Rightarrow> 'v option" where
  "read_stack T a m = (case m_storage m a of Stack T' v \<Rightarrow> if T' = T then Some v else None | _ \<Rightarrow> None)"

definition dynamic_destroy :: "'t \<Rightarrow> place \<Rightarrow> ('t, 'v) memory \<Rightarrow> ('t, 'v) memory option" where
  "dynamic_destroy T a m = (case m_storage m a of
     Dynamic None \<Rightarrow> Some m
   | Dynamic (Some p) \<Rightarrow> do {
       _ \<leftarrow> read_dynamic T a m;
       Some (m\<lparr>m_cells := (m_cells m)(p := None)\<rparr>) }
   | _ \<Rightarrow> None)"

definition dynamic_copy :: "'t \<Rightarrow> place \<Rightarrow> place \<Rightarrow> ('t, 'v) memory \<Rightarrow> ('t, 'v) memory option" where
  "dynamic_copy T src dest m = do {
     v \<leftarrow> read_dynamic T src m;
     Some (new_object T v dest m) }"

definition dynamic_move :: "place \<Rightarrow> place \<Rightarrow> ('t, 'v) memory \<Rightarrow> ('t, 'v) memory option" where
  "dynamic_move src dest m = (case m_storage m src of
     Dynamic p \<Rightarrow> Some (set_storage src (Dynamic None) (set_storage dest (Dynamic p) m))
   | _ \<Rightarrow> None)"

definition dynamic_swap :: "place \<Rightarrow> place \<Rightarrow> ('t, 'v) memory \<Rightarrow> ('t, 'v) memory option" where
  "dynamic_swap lhs rhs m = (case (m_storage m lhs, m_storage m rhs) of
     (Dynamic p, Dynamic q) \<Rightarrow> Some (set_storage rhs (Dynamic p) (set_storage lhs (Dynamic q) m))
   | _ \<Rightarrow> None)"

definition stack_destroy :: "'t \<Rightarrow> place \<Rightarrow> ('t, 'v) memory \<Rightarrow> ('t, 'v) memory option" where
  "stack_destroy T a m = do {
     _ \<leftarrow> read_stack T a m;
     Some (set_storage a Raw m) }"

definition stack_copy :: "'t \<Rightarrow> place \<Rightarrow> place \<Rightarrow> ('t, 'v) memory \<Rightarrow> ('t, 'v) memory option" where
  "stack_copy T src dest m = do {
     v \<leftarrow> read_stack T src m;
     Some (set_storage dest (Stack T v) m) }"

definition stack_move :: "'t \<Rightarrow> place \<Rightarrow> place \<Rightarrow> ('t, 'v) memory \<Rightarrow> ('t, 'v) memory option" where
  "stack_move T src dest m = do {
     v \<leftarrow> read_stack T src m;
     stack_destroy T src (set_storage dest (Stack T v) m) }"

definition stack_swap :: "'t \<Rightarrow> place \<Rightarrow> place \<Rightarrow> ('t, 'v) memory \<Rightarrow> ('t, 'v) memory option" where
  "stack_swap T lhs rhs m = do {
     m \<leftarrow> stack_move T rhs StorageTemp m;
     m \<leftarrow> stack_move T lhs rhs m;
     stack_move T StorageTemp lhs m }"

primrec vt_type :: "'t vtable \<Rightarrow> 't" where
  "vt_type (vtable_dynamic T) = T"
| "vt_type (vtable_stack T) = T"

primrec vt_destroy :: "'t vtable \<Rightarrow> place \<Rightarrow> ('t, 'v) memory \<Rightarrow> ('t, 'v) memory option" where
  "vt_destroy (vtable_dynamic T) = dynamic_destroy T"
| "vt_destroy (vtable_stack T) = stack_destroy T"

primrec vt_copy :: "'t vtable \<Rightarrow> place \<Rightarrow> place \<Rightarrow> ('t, 'v) memory \<Rightarrow> ('t, 'v) memory option" where
  "vt_copy (vtable_dynamic T) = dynamic_copy T"
| "vt_copy (vtable_stack T) = stack_copy T"

primrec vt_move :: "'t vtable \<Rightarrow> place \<Rightarrow> place \<Rightarrow> ('t, 'v) memory \<Rightarrow> ('t, 'v) memory option" where
  "vt_move (vtable_dynamic T) = dynamic_move"
| "vt_move (vtable_stack T) = stack_move T"

primrec vt_swap :: "'t vtable \<Rightarrow> place \<Rightarrow> place \<Rightarrow> ('t, 'v) memory \<Rightarrow> ('t, 'v) memory option" where
  "vt_swap (vtable_dynamic T) = dynamic_swap"
| "vt_swap (vtable_stack T) = stack_swap T"

section \<open>Operations\<close>

definition any_default :: "place \<Rightarrow> ('t, 'v) memory \<Rightarrow> ('t, 'v) memory" where
  "any_default a m = set_vtable a None m"

definition any_empty :: "place \<Rightarrow> ('t, 'v) memory \<Rightarrow> bool" where
  "any_empty a m \<longleftrightarrow> m_vtable m a = None"

definition any_copy_new :: "place \<Rightarrow> place \<Rightarrow> ('t, 'v) memory \<Rightarrow> ('t, 'v) memory option" where
  "any_copy_new this rhs m = do {
     let m = set_vtable this (m_vtable m rhs) m;
     case m_vtable m rhs of Some vt \<Rightarrow> vt_copy vt rhs this m | None \<Rightarrow> Some m }"

definition any_move_new :: "place \<Rightarrow> place \<Rightarrow> ('t, 'v) memory \<Rightarrow> ('t, 'v) memory option" where
  "any_move_new this rhs m = do {
     let m = set_vtable this (m_vtable m rhs) m;
     case m_vtable m rhs of
       Some vt \<Rightarrow> do { m \<leftarrow> vt_move vt rhs this m; Some (set_vtable rhs None m) }
     | None \<Rightarrow> Some m }"

text \<open>\<^verbatim>\<open>construct\<close>, called by the constructor from a value.\<close>

definition any_construct :: "('t \<Rightarrow> traits) \<Rightarrow> 't \<Rightarrow> 'v \<Rightarrow> place \<Rightarrow> ('t, 'v) memory \<Rightarrow> ('t, 'v) memory" where
  "any_construct tr T v this m =
     (let m = set_vtable this (Some (vtable_for_type tr T)) m
      in if requires_allocation (tr T) then new_object T v this m else set_storage this (Stack T v) m)"

definition any_clear :: "place \<Rightarrow> ('t, 'v) memory \<Rightarrow> ('t, 'v) memory option" where
  "any_clear this m = (case m_vtable m this of
     Some vt \<Rightarrow> do { m \<leftarrow> vt_destroy vt this m; Some (set_vtable this None m) }
   | None \<Rightarrow> Some m)"

definition any_swap :: "place \<Rightarrow> place \<Rightarrow> ('t, 'v) memory \<Rightarrow> ('t, 'v) memory option" where
  "any_swap this rhs m =
     (if m_vtable m this \<noteq> m_vtable m rhs then do {
        m \<leftarrow> any_move_new SwapTemp rhs m;
        let m = set_vtable rhs (m_vtable m this) m;
        m \<leftarrow> (case m_vtable m this of Some vt \<Rightarrow> vt_move vt this rhs m | None \<Rightarrow> Some m);
        let m = set_vtable this (m_vtable m SwapTemp) m;
        m \<leftarrow> (case m_vtable m SwapTemp of
            Some vt \<Rightarrow> do { m \<leftarrow> vt_move vt SwapTemp this m; Some (set_vtable SwapTemp None m) }
          | None \<Rightarrow> Some m);
        any_clear SwapTemp m }
      else case m_vtable m this of Some vt \<Rightarrow> vt_swap vt this rhs m | None \<Rightarrow> Some m)"

text \<open>The three assignments swap with a temporary, which is destroyed at the end of the statement.\<close>

definition any_assign :: "place \<Rightarrow> place \<Rightarrow> ('t, 'v) memory \<Rightarrow> ('t, 'v) memory option" where
  "any_assign this rhs m = do {
     m \<leftarrow> any_copy_new Temp rhs m;
     m \<leftarrow> any_swap Temp this m;
     any_clear Temp m }"

definition any_assign_move :: "place \<Rightarrow> place \<Rightarrow> ('t, 'v) memory \<Rightarrow> ('t, 'v) memory option" where
  "any_assign_move this rhs m = do {
     m \<leftarrow> any_move_new Temp rhs m;
     m \<leftarrow> any_swap Temp this m;
     any_clear Temp m }"

definition any_assign_value :: "('t \<Rightarrow> traits) \<Rightarrow> 't \<Rightarrow> 'v \<Rightarrow> place \<Rightarrow> ('t, 'v) memory \<Rightarrow> ('t, 'v) memory option" where
  "any_assign_value tr T v this m = do {
     m \<leftarrow> any_swap Temp this (any_construct tr T v Temp m);
     any_clear Temp m }"

text \<open>\<^verbatim>\<open>type\<close>: \<^const>\<open>None\<close> is \<^verbatim>\<open>typeid(void)\<close>.\<close>

definition any_type :: "place \<Rightarrow> ('t, 'v) memory \<Rightarrow> 't option" where
  "any_type this m = (if any_empty this m then None else map_option vt_type (m_vtable m this))"

definition is_typed :: "'t option \<Rightarrow> place \<Rightarrow> ('t, 'v) memory \<Rightarrow> bool" where
  "is_typed t this m \<longleftrightarrow> any_type this m = t"

definition any_cast_to :: "('t \<Rightarrow> traits) \<Rightarrow> 't \<Rightarrow> place \<Rightarrow> ('t, 'v) memory \<Rightarrow> 'v option" where
  "any_cast_to tr T this m = (if requires_allocation (tr T) then read_dynamic T this m else read_stack T this m)"

text \<open>\<^verbatim>\<open>any_cast<T>(&operand)\<close> and what it points to: a null pointer is \<^const>\<open>None\<close>, an address outside the object stops.\<close>

definition any_cast_pointer :: "('t \<Rightarrow> traits) \<Rightarrow> 't \<Rightarrow> place option \<Rightarrow> ('t, 'v) memory \<Rightarrow> 'v option option" where
  "any_cast_pointer tr T operand m = (case operand of
     Some a \<Rightarrow> if is_typed (Some T) a m then map_option Some (any_cast_to tr T a m) else Some None
   | None \<Rightarrow> Some None)"

datatype 'v cast_result = Value 'v | Bad_any_cast

definition any_cast :: "('t \<Rightarrow> traits) \<Rightarrow> 't \<Rightarrow> place \<Rightarrow> ('t, 'v) memory \<Rightarrow> 'v cast_result option" where
  "any_cast tr T operand m = do {
     p \<leftarrow> any_cast_pointer tr T (Some operand) m;
     Some (case p of None \<Rightarrow> Bad_any_cast | Some v \<Rightarrow> Value v) }"

section \<open>What a container holds and owns\<close>

fun held :: "(nat \<Rightarrow> ('t \<times> 'v) option) \<Rightarrow> 't vtable option \<Rightarrow> ('t, 'v) storage \<Rightarrow> ('t \<times> 'v) option" where
  "held c (Some (vtable_dynamic T)) (Dynamic (Some p)) =
     (case c p of Some (T', v) \<Rightarrow> if T' = T then Some (T, v) else None | None \<Rightarrow> None)"
| "held c (Some (vtable_stack T)) (Stack T' v) = (if T' = T then Some (T, v) else None)"
| "held c _ _ = None"

fun owned :: "'t vtable option \<Rightarrow> ('t, 'v) storage \<Rightarrow> nat option" where
  "owned (Some (vtable_dynamic T)) (Dynamic p) = p"
| "owned _ _ = None"

definition content :: "('t, 'v) memory \<Rightarrow> place \<Rightarrow> ('t \<times> 'v) option" where
  "content m a = held (m_cells m) (m_vtable m a) (m_storage m a)"

definition owner :: "('t, 'v) memory \<Rightarrow> place \<Rightarrow> nat option" where
  "owner m a = owned (m_vtable m a) (m_storage m a)"

text \<open>Every heap cell belongs to exactly one container.\<close>

definition owners_ok :: "(place \<Rightarrow> nat option) \<Rightarrow> nat set \<Rightarrow> bool" where
  "owners_ok f C \<longleftrightarrow> (\<forall>a b p. f a = Some p \<longrightarrow> f b = Some p \<longrightarrow> a = b) \<and> (\<forall>a p. f a = Some p \<longrightarrow> p \<in> C)
     \<and> (\<exists>g. \<forall>p\<in>C. f (g p) = Some p)"

lemma owners_okI:
  assumes "\<And>a b p. f a = Some p \<Longrightarrow> f b = Some p \<Longrightarrow> a = b" "\<And>a p. f a = Some p \<Longrightarrow> p \<in> C"
    "\<And>p. p \<in> C \<Longrightarrow> f (g p) = Some p"
  shows "owners_ok f C"
  using assms unfolding owners_ok_def by metis

lemma owners_ok_swap:
  assumes "owners_ok f C"
  shows "owners_ok (f(a := f b, b := f a)) C"
proof -
  from assms obtain g where "\<forall>p\<in>C. f (g p) = Some p" by (auto simp: owners_ok_def)
  with assms have g: "\<And>a b p. f a = Some p \<Longrightarrow> f b = Some p \<Longrightarrow> a = b" "\<And>a p. f a = Some p \<Longrightarrow> p \<in> C"
    "\<And>p. p \<in> C \<Longrightarrow> f (g p) = Some p" unfolding owners_ok_def by blast+
  let ?t = "\<lambda>x. if x = a then b else if x = b then a else x"
  have f: "f(a := f b, b := f a) = (\<lambda>x. f (?t x))" by (auto simp: fun_eq_iff)
  have t: "?t (?t x) = x" for x by auto
  show ?thesis unfolding f
  proof (rule owners_okI [where g = "\<lambda>p. ?t (g p)"])
    fix x y p assume "f (?t x) = Some p" "f (?t y) = Some p"
    then have "?t (?t x) = ?t (?t y)" using g(1) [of "?t x" p "?t y"] by simp
    then show "x = y" by (simp only: t)
  next
    fix p assume "p \<in> C"
    then show "f (?t (?t (g p))) = Some p" unfolding t by (rule g(3))
  qed (rule g(2))
qed

lemma owners_ok_move: "owners_ok f C \<Longrightarrow> f a = None \<Longrightarrow> owners_ok (f(a := f b, b := None)) C"
  using owners_ok_swap [of f C a b] by simp

lemma owners_ok_new: "owners_ok f C \<Longrightarrow> f a = None \<Longrightarrow> p \<notin> C \<Longrightarrow> owners_ok (f(a := Some p)) (insert p C)"
proof -
  assume o: "owners_ok f C" and n: "f a = None" "p \<notin> C"
  from o obtain g where "\<forall>p\<in>C. f (g p) = Some p" by (auto simp: owners_ok_def)
  with o have g: "\<And>a b p. f a = Some p \<Longrightarrow> f b = Some p \<Longrightarrow> a = b" "\<And>a p. f a = Some p \<Longrightarrow> p \<in> C"
    "\<And>p. p \<in> C \<Longrightarrow> f (g p) = Some p" unfolding owners_ok_def by blast+
  have "g q \<noteq> a" if "q \<in> C" for q using g(3) [OF that] n(1) by auto
  then show ?thesis using g(1,2) g(3) n by (intro owners_okI [where g = "\<lambda>q. if q = p then a else g q"]) (auto split: if_splits)
qed

lemma owners_ok_clear: "owners_ok f C \<Longrightarrow> f a = Some p \<Longrightarrow> owners_ok (f(a := None)) (C - {p})"
proof -
  assume o: "owners_ok f C" and a: "f a = Some p"
  from o obtain g where "\<forall>p\<in>C. f (g p) = Some p" by (auto simp: owners_ok_def)
  with o have g: "\<And>a b p. f a = Some p \<Longrightarrow> f b = Some p \<Longrightarrow> a = b" "\<And>a p. f a = Some p \<Longrightarrow> p \<in> C"
    "\<And>p. p \<in> C \<Longrightarrow> f (g p) = Some p" unfolding owners_ok_def by blast+
  have "g q \<noteq> a" if "q \<in> C - {p}" for q using g(3) [of q] a that by auto
  then show ?thesis using g a by (intro owners_okI [where g = g]) (auto split: if_splits)
qed

definition mem_ok :: "('t \<Rightarrow> traits) \<Rightarrow> ('t, 'v) memory \<Rightarrow> bool" where
  "mem_ok tr m \<longleftrightarrow>
     (\<forall>a vt. m_vtable m a = Some vt \<longrightarrow> vt = vtable_for_type tr (vt_type vt) \<and> (\<exists>v. content m a = Some (vt_type vt, v)))
     \<and> owners_ok (owner m) (dom (m_cells m)) \<and> (\<forall>p\<in>dom (m_cells m). p < m_next m)"

lemma held_cell_other: "owned vt s \<noteq> Some p \<Longrightarrow> held (c(p := x)) vt s = held c vt s"
  by (cases "(c, vt, s)" rule: held.cases) auto

lemma held_vtable: "held c vt s = Some (T, v) \<Longrightarrow> \<exists>k. vt = Some k \<and> vt_type k = T"
  by (cases "(c, vt, s)" rule: held.cases) (auto split: option.splits if_splits)

lemma content_none [simp]: "m_vtable m a = None \<Longrightarrow> content m a = None"
  by (simp add: content_def)

lemma owner_none [simp]: "m_vtable m a = None \<Longrightarrow> owner m a = None"
  by (simp add: owner_def)

text \<open>The two shapes of a container that holds something.\<close>

lemma mem_ok_cases:
  assumes "mem_ok tr m" "m_vtable m a = Some vt"
  obtains (heap) T v p where "vt = vtable_dynamic T" "m_storage m a = Dynamic (Some p)" "m_cells m p = Some (T, v)"
      "content m a = Some (T, v)" "owner m a = Some p" "requires_allocation (tr T)"
    | (inside) T v where "vt = vtable_stack T" "m_storage m a = Stack T v" "content m a = Some (T, v)" "owner m a = None"
      "\<not> requires_allocation (tr T)"
proof -
  from assms obtain v where v: "vt = vtable_for_type tr (vt_type vt)" "content m a = Some (vt_type vt, v)"
    unfolding mem_ok_def by metis
  show thesis
  proof (cases vt)
    case (vtable_dynamic T)
    from v(2) vtable_dynamic assms(2) obtain p where "m_storage m a = Dynamic (Some p)" "m_cells m p = Some (T, v)"
      by (cases "(m_cells m, m_vtable m a, m_storage m a)" rule: held.cases) (auto simp: content_def split: option.splits if_splits)
    with vtable_dynamic v assms(2) heap [of T p v] show thesis by (auto simp: owner_def vtable_for_type_def split: if_splits)
  next
    case (vtable_stack T)
    from v(2) vtable_stack assms(2) have "m_storage m a = Stack T v"
      by (cases "(m_cells m, m_vtable m a, m_storage m a)" rule: held.cases) (auto simp: content_def split: if_splits)
    with vtable_stack v assms(2) inside [of T v] show thesis by (auto simp: owner_def vtable_for_type_def split: if_splits)
  qed
qed

lemmas memory_defs = set_storage_def set_vtable_def new_object_def read_dynamic_def read_stack_def dynamic_destroy_def
  dynamic_copy_def dynamic_move_def dynamic_swap_def stack_destroy_def stack_copy_def stack_move_def stack_swap_def

text \<open>An operation that goes through, with the contents it leaves.\<close>

definition gives :: "('t \<Rightarrow> traits) \<Rightarrow> (place \<Rightarrow> ('t \<times> 'v) option) \<Rightarrow> (place \<Rightarrow> 't vtable option) \<Rightarrow> ('t, 'v) memory option \<Rightarrow> bool" where
  "gives tr f t r \<longleftrightarrow> (\<exists>m'. r = Some m' \<and> mem_ok tr m' \<and> content m' = f \<and> m_vtable m' = t)"

lemma givesE:
  assumes "gives tr f t r"
  obtains m' where "r = Some m'" "mem_ok tr m'" "content m' = f" "m_vtable m' = t"
  using assms by (auto simp: gives_def)

lemma gives_vtables:
  assumes "mem_ok tr m" "content m' = f" "owners_ok (owner m') (dom (m_cells m'))" "\<forall>p\<in>dom (m_cells m'). p < m_next m'"
    "\<And>a vt. m_vtable m' a = Some vt \<Longrightarrow> vt = vtable_for_type tr (vt_type vt) \<and> (\<exists>v. f a = Some (vt_type vt, v))"
  shows "gives tr f (m_vtable m') (Some m')"
  using assms by (auto simp: gives_def mem_ok_def)

lemma move_new_gives:
  assumes "mem_ok tr m" "m_vtable m a = None" "a \<noteq> b"
  shows "gives tr ((content m)(a := content m b, b := None)) ((m_vtable m)(a := m_vtable m b, b := None)) (any_move_new a b m)"
proof (cases "m_vtable m b")
  case None
  then have "(content m)(a := content m b, b := None) = content m" "(m_vtable m)(a := m_vtable m b, b := None) = m_vtable m"
    "set_vtable a None m = m"
    using assms(2) by (auto simp: set_vtable_def fun_eq_iff)
  then show ?thesis using None assms(1) by (simp add: gives_def any_move_new_def)
next
  case (Some vt)
  note ok = assms(1) [unfolded mem_ok_def]
  from assms(1) Some show ?thesis
  proof (cases rule: mem_ok_cases)
    case (heap T v p)
    let ?m = "m\<lparr>m_storage := (m_storage m)(a := Dynamic (Some p), b := Dynamic None), m_vtable := (m_vtable m)(a := Some vt, b := None)\<rparr>"
    have r: "any_move_new a b m = Some ?m"
      using Some heap assms(3) by (simp add: any_move_new_def memory_defs)
    have "content ?m = (content m)(a := content m b, b := None)" "owner ?m = (owner m)(a := owner m b, b := None)"
      using heap Some assms(3) by (auto simp: content_def owner_def fun_eq_iff)
    then have "gives tr ((content m)(a := content m b, b := None)) (m_vtable ?m) (Some ?m)"
      using ok heap Some assms(2,3) owners_ok_move [of "owner m" "dom (m_cells m)" a b]
      by (intro gives_vtables [OF assms(1)]) (auto split: if_splits)
    then show ?thesis by (simp add: r Some)
  next
    case (inside T v)
    let ?m = "m\<lparr>m_storage := (m_storage m)(a := Stack T v, b := Raw), m_vtable := (m_vtable m)(a := Some vt, b := None)\<rparr>"
    have r: "any_move_new a b m = Some ?m"
      using Some inside assms(3) by (simp add: any_move_new_def memory_defs)
    have "content ?m = (content m)(a := content m b, b := None)" "owner ?m = (owner m)(a := owner m b, b := None)"
      using inside Some assms(3) by (auto simp: content_def owner_def fun_eq_iff)
    then have "gives tr ((content m)(a := content m b, b := None)) (m_vtable ?m) (Some ?m)"
      using ok inside Some assms(2,3) owners_ok_move [of "owner m" "dom (m_cells m)" a b]
      by (intro gives_vtables [OF assms(1)]) (auto split: if_splits)
    then show ?thesis by (simp add: r Some)
  qed
qed

lemma mem_ok_fresh:
  assumes "mem_ok tr m"
  shows "m_next m \<notin> dom (m_cells m)" "owned (m_vtable m a) (m_storage m a) \<noteq> Some (m_next m)"
  using assms unfolding mem_ok_def owners_ok_def owner_def by blast+

text \<open>An empty container filled with a new object of a type, on the heap or inside.\<close>

lemma filled_gives:
  assumes "mem_ok tr m" "m_vtable m a = None" "vt = vtable_for_type tr T"
  shows "gives tr ((content m)(a := Some (T, v))) ((m_vtable m)(a := Some vt))
    (Some (if requires_allocation (tr T) then new_object T v a (set_vtable a (Some vt) m)
           else set_storage a (Stack T v) (set_vtable a (Some vt) m)))"
proof (cases "requires_allocation (tr T)")
  case True
  note ok = assms(1) [unfolded mem_ok_def] and fresh = mem_ok_fresh [OF assms(1)]
  let ?m = "new_object T v a (set_vtable a (Some vt) m)"
  have "held ((m_cells m)(m_next m \<mapsto> (T, v))) (m_vtable m x) (m_storage m x) = content m x" for x
    unfolding content_def by (rule held_cell_other) (rule fresh(2))
  then have "content ?m = (content m)(a := Some (T, v))" "owner ?m = (owner m)(a := Some (m_next m))"
    using True assms(3) by (auto simp: content_def owner_def memory_defs fun_eq_iff vtable_for_type_def)
  moreover have "m_cells ?m = (m_cells m)(m_next m \<mapsto> (T, v))" "m_next ?m = m_next m + 1" "m_vtable ?m = (m_vtable m)(a := Some vt)"
    by (simp_all add: memory_defs)
  moreover have "owners_ok ((owner m)(a := Some (m_next m))) (insert (m_next m) (dom (m_cells m)))"
    using ok fresh(1) assms(2) by (intro owners_ok_new) auto
  moreover have "\<forall>p\<in>insert (m_next m) (dom (m_cells m)). p < m_next m + 1"
  proof
    fix p assume "p \<in> insert (m_next m) (dom (m_cells m))"
    then have "p = m_next m \<or> p < m_next m" using ok by blast
    then show "p < m_next m + 1" by auto
  qed
  ultimately have "gives tr ((content m)(a := Some (T, v))) (m_vtable ?m) (Some ?m)"
    using ok assms(3) by (intro gives_vtables [OF assms(1)]) (auto simp: vtable_for_type_def split: if_splits)
  then show ?thesis using True by (simp add: memory_defs)
next
  case False
  note ok = assms(1) [unfolded mem_ok_def]
  let ?m = "set_storage a (Stack T v) (set_vtable a (Some vt) m)"
  have "content ?m = (content m)(a := Some (T, v))" "owner ?m = owner m"
    using False assms(2,3) by (auto simp: content_def owner_def memory_defs fun_eq_iff vtable_for_type_def)
  then have "gives tr ((content m)(a := Some (T, v))) (m_vtable ?m) (Some ?m)"
    using ok assms(3) by (intro gives_vtables [OF assms(1)]) (auto simp: memory_defs vtable_for_type_def split: if_splits)
  then show ?thesis using False by (simp add: memory_defs)
qed

lemma construct_gives:
  assumes "mem_ok tr m" "m_vtable m a = None"
  shows "gives tr ((content m)(a := Some (T, v))) ((m_vtable m)(a := Some (vtable_for_type tr T))) (Some (any_construct tr T v a m))"
  using filled_gives [OF assms refl, of T v] by (simp add: any_construct_def Let_def)

lemma copy_new_gives:
  assumes "mem_ok tr m" "m_vtable m a = None" "a \<noteq> b"
  shows "gives tr ((content m)(a := content m b)) ((m_vtable m)(a := m_vtable m b)) (any_copy_new a b m)"
proof (cases "m_vtable m b")
  case None
  then have "(content m)(a := content m b) = content m" "(m_vtable m)(a := m_vtable m b) = m_vtable m" "set_vtable a None m = m"
    using assms(2) by (auto simp: set_vtable_def fun_eq_iff)
  then show ?thesis using None assms(1) by (simp add: gives_def any_copy_new_def)
next
  case (Some vt)
  from assms(1) Some show ?thesis
  proof (cases rule: mem_ok_cases)
    case (heap T v p)
    then have "any_copy_new a b m = Some (new_object T v a (set_vtable a (Some vt) m))"
      using Some assms(3) by (simp add: any_copy_new_def memory_defs)
    with heap Some filled_gives [OF assms(1,2), of vt T v] show ?thesis by (simp add: vtable_for_type_def)
  next
    case (inside T v)
    then have "any_copy_new a b m = Some (set_storage a (Stack T v) (set_vtable a (Some vt) m))"
      using Some assms(3) by (simp add: any_copy_new_def memory_defs)
    with inside Some filled_gives [OF assms(1,2), of vt T v] show ?thesis by (simp add: vtable_for_type_def)
  qed
qed

lemma clear_gives:
  assumes "mem_ok tr m"
  shows "gives tr ((content m)(a := None)) ((m_vtable m)(a := None)) (any_clear a m)"
proof (cases "m_vtable m a")
  case None
  then have "(content m)(a := None) = content m" "(m_vtable m)(a := None) = m_vtable m" by (auto simp: fun_eq_iff)
  then show ?thesis using None assms by (simp add: gives_def any_clear_def)
next
  case (Some vt)
  note ok = assms [unfolded mem_ok_def]
  from assms Some show ?thesis
  proof (cases rule: mem_ok_cases)
    case (heap T v p)
    let ?m = "m\<lparr>m_cells := (m_cells m)(p := None), m_vtable := (m_vtable m)(a := None)\<rparr>"
    have other: "owned (m_vtable m b) (m_storage m b) \<noteq> Some p" if "b \<noteq> a" for b
      using ok heap(5) that unfolding owners_ok_def owner_def by metis
    have r: "any_clear a m = Some ?m" using Some heap by (simp add: any_clear_def memory_defs)
    have "content ?m = (content m)(a := None)" "owner ?m = (owner m)(a := None)"
      using other by (auto simp: content_def owner_def fun_eq_iff held_cell_other)
    then have "gives tr ((content m)(a := None)) (m_vtable ?m) (Some ?m)"
      using ok heap owners_ok_clear [of "owner m" "dom (m_cells m)" a p]
      by (intro gives_vtables [OF assms]) (auto split: if_splits)
    then show ?thesis by (simp add: r)
  next
    case (inside T v)
    let ?m = "m\<lparr>m_storage := (m_storage m)(a := Raw), m_vtable := (m_vtable m)(a := None)\<rparr>"
    have r: "any_clear a m = Some ?m" using Some inside by (simp add: any_clear_def memory_defs)
    have "content ?m = (content m)(a := None)" "owner ?m = owner m"
      using inside by (auto simp: content_def owner_def fun_eq_iff)
    then have "gives tr ((content m)(a := None)) (m_vtable ?m) (Some ?m)"
      using ok by (intro gives_vtables [OF assms]) (auto split: if_splits)
    then show ?thesis by (simp add: r)
  qed
qed

text \<open>Swapping containers of different types is three moves through the temporary.\<close>

lemma vt_move_vtable: "vt_move vt a b (set_vtable x t m) = map_option (set_vtable x t) (vt_move vt a b m)"
  by (cases vt) (auto simp: memory_defs split: storage.split Option.bind_split)

lemma vt_move_keeps: "vt_move vt a b m = Some m' \<Longrightarrow> m_vtable m' = m_vtable m"
  by (cases vt) (auto simp: memory_defs elim!: bind_eq_SomeE split: storage.splits if_splits)

lemma set_vtable_twice [simp]: "set_vtable x t (set_vtable x t' m) = set_vtable x t m"
  by (simp add: set_vtable_def)

lemma any_swap_moves:
  assumes "m_vtable m a \<noteq> m_vtable m b" "a \<noteq> b" "a \<noteq> SwapTemp" "b \<noteq> SwapTemp"
  shows "any_swap a b m = do {
     m \<leftarrow> any_move_new SwapTemp b m;
     m \<leftarrow> any_move_new b a m;
     m \<leftarrow> any_move_new a SwapTemp m;
     any_clear SwapTemp m }"
proof -
  define half where "half m = (let m = set_vtable b (m_vtable m a) m
    in case m_vtable m a of Some vt \<Rightarrow> vt_move vt a b m | None \<Rightarrow> Some m)" for m :: "('a, 'b) memory"
  have h: "any_move_new b a m = map_option (set_vtable a None) (half m)" for m
    using assms(2) by (auto simp: any_move_new_def half_def set_vtable_def Let_def fun_eq_iff split: option.split Option.bind_split)
  have t: "any_move_new a SwapTemp (set_vtable a None m) = do {
      let m = set_vtable a (m_vtable m SwapTemp) m;
      case m_vtable m SwapTemp of
        Some vt \<Rightarrow> do { m \<leftarrow> vt_move vt SwapTemp a m; Some (set_vtable SwapTemp None m) }
      | None \<Rightarrow> Some m }" for m
    using assms(3) by (simp add: any_move_new_def set_vtable_def)
  show ?thesis using assms(1)
    by (simp add: any_swap_def h t half_def Let_def bind_map_option comp_def)
qed

lemma move_chain:
  assumes "mem_ok tr m" "m_vtable m SwapTemp = None" "a \<noteq> b" "a \<noteq> SwapTemp" "b \<noteq> SwapTemp"
  shows "gives tr ((content m)(a := content m b, b := content m a)) ((m_vtable m)(a := m_vtable m b, b := m_vtable m a))
    (do { m \<leftarrow> any_move_new SwapTemp b m; m \<leftarrow> any_move_new b a m; m \<leftarrow> any_move_new a SwapTemp m; any_clear SwapTemp m })"
proof -
  from move_new_gives [OF assms(1,2), of b] assms(5) obtain m1 where m1: "any_move_new SwapTemp b m = Some m1" "mem_ok tr m1"
    "content m1 = (content m)(SwapTemp := content m b, b := None)" "m_vtable m1 = (m_vtable m)(SwapTemp := m_vtable m b, b := None)"
    by (auto elim: givesE)
  from move_new_gives [OF m1(2), of b a] assms(3) m1(4) obtain m2 where m2: "any_move_new b a m1 = Some m2" "mem_ok tr m2"
    "content m2 = (content m1)(b := content m1 a, a := None)" "m_vtable m2 = (m_vtable m1)(b := m_vtable m1 a, a := None)"
    by (auto elim: givesE)
  from move_new_gives [OF m2(2), of a SwapTemp] assms(4) m2(4) obtain m3 where m3: "any_move_new a SwapTemp m2 = Some m3" "mem_ok tr m3"
    "content m3 = (content m2)(a := content m2 SwapTemp, SwapTemp := None)"
    "m_vtable m3 = (m_vtable m2)(a := m_vtable m2 SwapTemp, SwapTemp := None)"
    by (auto elim: givesE)
  have "content m SwapTemp = None" using assms(2) by simp
  then have "(content m3)(SwapTemp := None) = (content m)(a := content m b, b := content m a)"
    "(m_vtable m3)(SwapTemp := None) = (m_vtable m)(a := m_vtable m b, b := m_vtable m a)"
    using assms(2-) by (auto simp: m1(3,4) m2(3,4) m3(3,4) fun_eq_iff)
  with clear_gives [OF m3(2), of SwapTemp] m1(1) m2(1) m3(1) show ?thesis by simp
qed

lemma same_type_swap:
  assumes "mem_ok tr m" "m_vtable m a = Some vt" "m_vtable m b = Some vt" "a \<noteq> b"
    "a \<noteq> StorageTemp" "b \<noteq> StorageTemp" "m_vtable m StorageTemp = None"
  shows "gives tr ((content m)(a := content m b, b := content m a)) (m_vtable m) (vt_swap vt a b m)"
proof -
  note ok = assms(1) [unfolded mem_ok_def]
  note sw = owners_ok_swap [of "owner m" "dom (m_cells m)" a b]
  from assms(1,2) show ?thesis
  proof (cases rule: mem_ok_cases)
    case a: (heap T v p)
    from assms(1,3) show ?thesis
    proof (cases rule: mem_ok_cases)
      case b: (heap T' v' p')
      let ?m = "m\<lparr>m_storage := (m_storage m)(a := Dynamic (Some p'), b := Dynamic (Some p))\<rparr>"
      have r: "vt_swap vt a b m = Some ?m" using a b by (simp add: memory_defs)
      have "content ?m = (content m)(a := content m b, b := content m a)" "owner ?m = (owner m)(a := owner m b, b := owner m a)"
        using a b assms(2-4) by (auto simp: content_def owner_def fun_eq_iff)
      then have "gives tr ((content m)(a := content m b, b := content m a)) (m_vtable ?m) (Some ?m)"
        using ok sw a b assms(2,3) by (intro gives_vtables [OF assms(1)]) auto
      then show ?thesis by (simp add: r)
    qed (use a in simp)
  next
    case a: (inside T v)
    from assms(1,3) show ?thesis
    proof (cases rule: mem_ok_cases)
      case b: (inside T' v')
      let ?m = "m\<lparr>m_storage := (m_storage m)(a := Stack T v', b := Stack T v, StorageTemp := Raw)\<rparr>"
      have r: "vt_swap vt a b m = Some ?m" using a b assms(4-6) by (simp add: memory_defs fun_upd_twist)
      have "content ?m = (content m)(a := content m b, b := content m a)" "owner ?m = owner m"
        using a b assms(2-) by (auto simp: content_def owner_def fun_eq_iff)
      then have "gives tr ((content m)(a := content m b, b := content m a)) (m_vtable ?m) (Some ?m)"
        using ok a b assms(2,3) by (intro gives_vtables [OF assms(1)]) auto
      then show ?thesis by (simp add: r)
    qed (use a in simp)
  qed
qed

lemma swap_gives:
  assumes "mem_ok tr m" "m_vtable m SwapTemp = None" "m_vtable m StorageTemp = None" "a \<noteq> b"
    "a \<notin> {SwapTemp, StorageTemp}" "b \<notin> {SwapTemp, StorageTemp}"
  shows "gives tr ((content m)(a := content m b, b := content m a)) ((m_vtable m)(a := m_vtable m b, b := m_vtable m a)) (any_swap a b m)"
proof (cases "m_vtable m a = m_vtable m b")
  case False
  then show ?thesis using move_chain [OF assms(1,2,4)] any_swap_moves [OF False assms(4)] assms(5,6) by simp
next
  case True
  then have t: "(m_vtable m)(a := m_vtable m b, b := m_vtable m a) = m_vtable m" by (auto simp: fun_eq_iff)
  show ?thesis
  proof (cases "m_vtable m a")
    case None
    with True have "(content m)(a := content m b, b := content m a) = content m" by (auto simp: fun_eq_iff)
    with None True t assms(1) show ?thesis by (simp add: gives_def any_swap_def)
  next
    case (Some vt)
    moreover from this True have b: "m_vtable m b = Some vt" by simp
    ultimately show ?thesis using t same_type_swap [OF assms(1) Some b assms(4)] assms(3,5,6) by (simp add: any_swap_def)
  qed
qed

text \<open>Between statements only the variables hold anything.\<close>

definition settled :: "('t, 'v) memory \<Rightarrow> bool" where
  "settled m \<longleftrightarrow> (\<forall>a. (\<forall>i. a \<noteq> Var i) \<longrightarrow> m_vtable m a = None)"

lemma settled_temps: "settled m \<Longrightarrow> m_vtable m Temp = None \<and> m_vtable m SwapTemp = None \<and> m_vtable m StorageTemp = None"
  by (simp add: settled_def)

text \<open>Swapping a filled temporary with a variable and destroying it, the end of every assignment.\<close>

lemma assign_end:
  assumes "mem_ok tr m" "m_vtable m SwapTemp = None" "m_vtable m StorageTemp = None"
  shows "gives tr ((content m)(Var i := content m Temp, Temp := None)) ((m_vtable m)(Var i := m_vtable m Temp, Temp := None))
    (do { m \<leftarrow> any_swap Temp (Var i) m; any_clear Temp m })"
proof -
  from swap_gives [OF assms, of Temp "Var i"] obtain m1 where m1: "any_swap Temp (Var i) m = Some m1" "mem_ok tr m1"
    "content m1 = (content m)(Temp := content m (Var i), Var i := content m Temp)"
    "m_vtable m1 = (m_vtable m)(Temp := m_vtable m (Var i), Var i := m_vtable m Temp)"
    by (auto elim: givesE)
  from clear_gives [OF m1(2), of Temp] m1 show ?thesis by (simp add: fun_upd_twist)
qed

datatype ('t, 'v) any_op = Assign nat nat | AssignMove nat nat | AssignValue nat 't 'v | Clear nat | Swap nat nat

primrec any_exec :: "('t \<Rightarrow> traits) \<Rightarrow> ('t, 'v) any_op \<Rightarrow> ('t, 'v) memory \<Rightarrow> ('t, 'v) memory option" where
  "any_exec tr (Assign i j) m = any_assign (Var i) (Var j) m"
| "any_exec tr (AssignMove i j) m = any_assign_move (Var i) (Var j) m"
| "any_exec tr (AssignValue i T v) m = any_assign_value tr T v (Var i) m"
| "any_exec tr (Clear i) m = any_clear (Var i) m"
| "any_exec tr (Swap i j) m = any_swap (Var i) (Var j) m"

text \<open>The abstract container: an optional value with its type.\<close>

primrec spec_exec :: "('t, 'v) any_op \<Rightarrow> (nat \<Rightarrow> ('t \<times> 'v) option) \<Rightarrow> nat \<Rightarrow> ('t \<times> 'v) option" where
  "spec_exec (Assign i j) f = f(i := f j)"
| "spec_exec (AssignMove i j) f = (f(j := None))(i := f j)"
| "spec_exec (AssignValue i T v) f = f(i := Some (T, v))"
| "spec_exec (Clear i) f = f(i := None)"
| "spec_exec (Swap i j) f = f(i := f j, j := f i)"

primrec no_self_swap :: "('t, 'v) any_op \<Rightarrow> bool" where
  "no_self_swap (Swap i j) \<longleftrightarrow> i \<noteq> j"
| "no_self_swap (Assign i j) \<longleftrightarrow> True"
| "no_self_swap (AssignMove i j) \<longleftrightarrow> True"
| "no_self_swap (AssignValue i T v) \<longleftrightarrow> True"
| "no_self_swap (Clear i) \<longleftrightarrow> True"

definition refines :: "('t \<Rightarrow> traits) \<Rightarrow> ('t, 'v) memory \<Rightarrow> (nat \<Rightarrow> ('t \<times> 'v) option) \<Rightarrow> bool" where
  "refines tr m f \<longleftrightarrow> mem_ok tr m \<and> settled m \<and> (\<forall>i. content m (Var i) = f i)"

lemma refines_gives:
  assumes "gives tr c t r" "\<And>i. c (Var i) = f i" "\<And>a. (\<And>i. a \<noteq> Var i) \<Longrightarrow> t a = None"
  shows "\<exists>m'. r = Some m' \<and> refines tr m' f"
  using assms(1) by (rule givesE) (auto simp: refines_def settled_def assms(2,3))

lemma any_exec_refines:
  assumes "refines tr m f" "no_self_swap op"
  shows "\<exists>m'. any_exec tr op m = Some m' \<and> refines tr m' (spec_exec op f)"
proof -
  have ok: "mem_ok tr m" and s: "settled m" and c: "content m (Var i) = f i" for i using assms(1) by (auto simp: refines_def)
  have t: "m_vtable m a = None" if "\<And>i. a \<noteq> Var i" for a using s that by (simp add: settled_def)
  note temps = settled_temps [OF s]
  show ?thesis
  proof (cases op)
    case (Assign i j)
    from copy_new_gives [OF ok, of Temp "Var j"] temps obtain m1 where m1: "any_copy_new Temp (Var j) m = Some m1" "mem_ok tr m1"
      "content m1 = (content m)(Temp := content m (Var j))" "m_vtable m1 = (m_vtable m)(Temp := m_vtable m (Var j))"
      by (auto elim: givesE)
    have "\<exists>m'. (do { m \<leftarrow> any_swap Temp (Var i) m1; any_clear Temp m }) = Some m' \<and> refines tr m' (f(i := f j))"
      by (rule refines_gives [OF assign_end [OF m1(2)]]) (auto simp: m1(3,4) c t)
    then show ?thesis using Assign m1(1) by (simp add: any_assign_def)
  next
    case (AssignMove i j)
    from move_new_gives [OF ok, of Temp "Var j"] temps obtain m1 where m1: "any_move_new Temp (Var j) m = Some m1" "mem_ok tr m1"
      "content m1 = (content m)(Temp := content m (Var j), Var j := None)"
      "m_vtable m1 = (m_vtable m)(Temp := m_vtable m (Var j), Var j := None)"
      by (auto elim: givesE)
    have "\<exists>m'. (do { m \<leftarrow> any_swap Temp (Var i) m1; any_clear Temp m }) = Some m' \<and> refines tr m' ((f(j := None))(i := f j))"
      by (rule refines_gives [OF assign_end [OF m1(2)]]) (auto simp: m1(3,4) c t)
    then show ?thesis using AssignMove m1(1) by (simp add: any_assign_move_def)
  next
    case (AssignValue i T v)
    from construct_gives [OF ok, of Temp T v] temps obtain m1 where m1: "any_construct tr T v Temp m = m1" "mem_ok tr m1"
      "content m1 = (content m)(Temp := Some (T, v))" "m_vtable m1 = (m_vtable m)(Temp := Some (vtable_for_type tr T))"
      by (auto elim: givesE)
    have "\<exists>m'. (do { m \<leftarrow> any_swap Temp (Var i) m1; any_clear Temp m }) = Some m' \<and> refines tr m' (f(i := Some (T, v)))"
      by (rule refines_gives [OF assign_end [OF m1(2)]]) (auto simp: m1(3,4) c t)
    then show ?thesis using AssignValue m1(1) by (simp add: any_assign_value_def)
  next
    case (Clear i)
    show ?thesis unfolding Clear any_exec.simps spec_exec.simps
      by (rule refines_gives [OF clear_gives [OF ok]]) (auto simp: c t)
  next
    case (Swap i j)
    with assms(2) have "gives tr ((content m)(Var i := content m (Var j), Var j := content m (Var i)))
        ((m_vtable m)(Var i := m_vtable m (Var j), Var j := m_vtable m (Var i))) (any_swap (Var i) (Var j) m)"
      using temps by (intro swap_gives [OF ok]) auto
    from refines_gives [OF this, of "f(i := f j, j := f i)"] show ?thesis unfolding Swap by (auto simp: c t)
  qed
qed

lemma any_cast_content:
  assumes "mem_ok tr m"
  shows "any_cast tr T a m = Some (case content m a of Some (T', v) \<Rightarrow> if T' = T then Value v else Bad_any_cast | None \<Rightarrow> Bad_any_cast)"
proof (cases "m_vtable m a")
  case None
  then show ?thesis by (simp add: any_cast_def any_cast_pointer_def is_typed_def any_type_def any_empty_def)
next
  case (Some vt)
  from assms Some show ?thesis
    by (cases rule: mem_ok_cases)
       (auto simp: any_cast_def any_cast_pointer_def is_typed_def any_type_def any_empty_def any_cast_to_def read_dynamic_def read_stack_def Some)
qed

interpretation am: refining_machine "any_exec tr" "refines tr" spec_exec no_self_swap for tr
  by unfold_locales (rule any_exec_refines)

text \<open>C16. A container of any type is exactly an optional value with its type. Any sequence of copy, move and value
  assignments, also from a container to itself, of clearing and of swapping two different containers goes through without
  touching raw memory, a deleted object or an object of another type, and leaves each variable with the value the abstract
  containers have; every object on the heap belongs to exactly one variable, so none leaks and none is deleted twice; and a
  cast gives the value when it names the type held, and throws otherwise.\<close>

theorem any_refines_optional:
  assumes "\<And>op. op \<in> set ops \<Longrightarrow> no_self_swap op"
  shows "\<exists>m. foldo (any_exec tr) ops memory_empty = Some m
    \<and> (let f = fold spec_exec ops (\<lambda>_. None) in
        (\<forall>i T. any_cast tr T (Var i) m = Some (case f i of Some (T', v) \<Rightarrow> if T' = T then Value v else Bad_any_cast
                                                        | None \<Rightarrow> Bad_any_cast))
        \<and> (\<forall>i. any_type (Var i) m = map_option fst (f i)))
    \<and> (\<forall>p. m_cells m p \<noteq> None \<longleftrightarrow> (\<exists>i. owner m (Var i) = Some p))
    \<and> (\<forall>i j p. owner m (Var i) = Some p \<longrightarrow> owner m (Var j) = Some p \<longrightarrow> i = j)"
proof -
  have "refines tr memory_empty (\<lambda>_. None)"
    by (auto simp: refines_def settled_def mem_ok_def memory_empty_def owners_ok_def owner_def content_def)
  from am.run_refines [OF this] assms obtain m where
    m: "foldo (any_exec tr) ops memory_empty = Some m" "refines tr m (fold spec_exec ops (\<lambda>_. None))" by blast
  have ok: "mem_ok tr m" and s: "settled m" and c: "content m (Var i) = fold spec_exec ops (\<lambda>_. None) i" for i
    using m(2) by (auto simp: refines_def)
  have ty: "any_type a m = map_option fst (content m a)" for a
  proof (cases "m_vtable m a")
    case (Some vt)
    with ok show ?thesis by (cases rule: mem_ok_cases) (auto simp: any_type_def any_empty_def Some)
  qed (simp add: any_type_def any_empty_def)
  have "\<exists>i. a = Var i" if "owner m a = Some p" for a p
    using that s by (cases "m_vtable m a") (auto simp: settled_def)
  moreover have "\<exists>a. owner m a = Some p" if "m_cells m p \<noteq> None" for p using ok that unfolding mem_ok_def owners_ok_def by blast
  moreover have "m_cells m p \<noteq> None" if "owner m a = Some p" for a p using ok that unfolding mem_ok_def owners_ok_def by blast
  ultimately have "m_cells m p \<noteq> None \<longleftrightarrow> (\<exists>i. owner m (Var i) = Some p)" for p by metis
  moreover have "i = j" if "owner m (Var i) = Some p" "owner m (Var j) = Some p" for i j p
    using ok that unfolding mem_ok_def owners_ok_def by blast
  ultimately have "(\<forall>p. m_cells m p \<noteq> None \<longleftrightarrow> (\<exists>i. owner m (Var i) = Some p))"
    "(\<forall>i j p. owner m (Var i) = Some p \<longrightarrow> owner m (Var j) = Some p \<longrightarrow> i = j)" by metis+
  then show ?thesis using m(1) by (simp add: any_cast_content [OF ok] c ty)
qed

text \<open>For the witness: characters are stored inside, strings on the heap.\<close>

definition demo_traits :: "nat \<Rightarrow> traits" where
  "demo_traits T = \<lparr>nothrow_move = True, size_of = T, alignment_of = 8\<rparr>"

theorem any_refines_optional_witness:
  "\<exists>m. foldo (any_exec demo_traits) [AssignValue 0 32 ''abc'', Assign 1 0, AssignValue 0 8 ''x'', Swap 0 1] memory_empty = Some m
    \<and> any_cast demo_traits 32 (Var 0) m = Some (Value ''abc'') \<and> any_cast demo_traits 8 (Var 1) m = Some (Value ''x'')
    \<and> any_cast demo_traits 32 (Var 1) m = Some Bad_any_cast"
proof -
  let ?ops = "[AssignValue 0 32 ''abc'', Assign 1 0, AssignValue 0 8 ''x'', Swap 0 1] :: (nat, string) any_op list"
  have "no_self_swap op" if "op \<in> set ?ops" for op using that by auto
  from any_refines_optional [of ?ops demo_traits, OF this] obtain m where m: "foldo (any_exec demo_traits) ?ops memory_empty = Some m"
    "\<forall>i T. any_cast demo_traits T (Var i) m = Some (case fold spec_exec ?ops (\<lambda>_. None) i of
        Some (T', v) \<Rightarrow> if T' = T then Value v else Bad_any_cast | None \<Rightarrow> Bad_any_cast)"
    unfolding Let_def by metis
  from m(2) [rule_format, of 32 0] m(2) [rule_format, of 8 1] m(2) [rule_format, of 32 1] m(1) show ?thesis by auto
qed

text \<open>Swapping a container with itself is the exception: an object stored inside has been moved away when it is moved again.\<close>

lemma self_swap_stops:
  assumes "mem_ok tr m" "m_vtable m (Var i) = Some (vtable_stack T)"
  shows "any_swap (Var i) (Var i) m = None"
  using assms(1,2) by (cases rule: mem_ok_cases) (auto simp: any_swap_def memory_defs assms(2))

end
