(* ===== verification/Wheel.thy ===== *)
theory Wheel
  imports Prelude
begin

text \<open>
  The bounded queues of \<^verbatim>\<open>CircularBuffer.hpp\<close> and \<^verbatim>\<open>RingBuffer.hpp\<close>, and the timing wheel of the echo server in
  \<^verbatim>\<open>examples/idleconnection\<close> that shuts idle connections down.

  Reading or removing an element of an empty \<^verbatim>\<open>std::deque\<close> stops. The wheel's entries, one for each connection, are shared
  between buckets: an entry lives as long as a bucket holds it, and its destructor shuts its connection down if the connection
  still exists.
\<close>

section \<open>Bounded queues\<close>

record 'a CircularBuffer =
  cb_maxSize :: int
  cb_buffer :: "'a list"

definition CircularBuffer_new :: "int \<Rightarrow> 'a CircularBuffer option" where
  "CircularBuffer_new maxSize = do {
     assertion (maxSize > 0);
     Some \<lparr>cb_maxSize = maxSize, cb_buffer = []\<rparr> }"

definition cb_size :: "'a CircularBuffer \<Rightarrow> nat" where
  "cb_size b = length (cb_buffer b)"

definition cb_at :: "nat \<Rightarrow> 'a CircularBuffer \<Rightarrow> 'a option" where
  "cb_at i b = (if i < length (cb_buffer b) then Some (cb_buffer b ! i) else None)"

definition cb_front :: "'a CircularBuffer \<Rightarrow> 'a option" where
  "cb_front b = (if cb_buffer b = [] then None else Some (hd (cb_buffer b)))"

definition cb_back :: "'a CircularBuffer \<Rightarrow> 'a option" where
  "cb_back b = (if cb_buffer b = [] then None else Some (last (cb_buffer b)))"

definition cb_empty :: "'a CircularBuffer \<Rightarrow> bool" where
  "cb_empty b \<longleftrightarrow> cb_size b = 0"

definition cb_full :: "'a CircularBuffer \<Rightarrow> bool" where
  "cb_full b \<longleftrightarrow> cb_size b = nat (cb_maxSize b)"

definition cb_pop_back :: "'a CircularBuffer \<Rightarrow> 'a CircularBuffer option" where
  "cb_pop_back b = (if cb_buffer b = [] then None else Some (b\<lparr>cb_buffer := butlast (cb_buffer b)\<rparr>))"

definition cb_pop_front :: "'a CircularBuffer \<Rightarrow> 'a CircularBuffer option" where
  "cb_pop_front b = (if cb_buffer b = [] then None else Some (b\<lparr>cb_buffer := tl (cb_buffer b)\<rparr>))"

definition cb_push_back :: "'a \<Rightarrow> 'a CircularBuffer \<Rightarrow> 'a CircularBuffer option" where
  "cb_push_back x b =
     (if length (cb_buffer b) < nat (cb_maxSize b) then Some (b\<lparr>cb_buffer := cb_buffer b @ [x]\<rparr>)
      else do {
        b \<leftarrow> cb_pop_front b;
        Some (b\<lparr>cb_buffer := cb_buffer b @ [x]\<rparr>) })"

definition cb_push_front :: "'a \<Rightarrow> 'a CircularBuffer \<Rightarrow> 'a CircularBuffer option" where
  "cb_push_front x b =
     (if length (cb_buffer b) < nat (cb_maxSize b) then Some (b\<lparr>cb_buffer := x # cb_buffer b\<rparr>)
      else do {
        b \<leftarrow> cb_pop_back b;
        Some (b\<lparr>cb_buffer := x # cb_buffer b\<rparr>) })"

text \<open>A circular buffer keeps the newest elements: the last \<open>n\<close> pushed at the back.\<close>

definition cb_ok :: "'a CircularBuffer \<Rightarrow> bool" where
  "cb_ok b \<longleftrightarrow> 0 < cb_maxSize b \<and> length (cb_buffer b) \<le> nat (cb_maxSize b)"

definition last_n :: "nat \<Rightarrow> 'a list \<Rightarrow> 'a list" where
  "last_n n xs = drop (length xs - n) xs"

lemma last_n_snoc: "0 < n \<Longrightarrow> n \<le> length ys \<Longrightarrow> last_n n (ys @ [x]) = tl (last_n n ys) @ [x]"
  by (simp add: last_n_def Suc_diff_le drop_Suc tl_drop)

lemma push_back_ok:
  assumes "cb_ok b"
  shows "\<exists>b'. cb_push_back x b = Some b' \<and> cb_ok b' \<and> cb_maxSize b' = cb_maxSize b
    \<and> cb_buffer b' = last_n (nat (cb_maxSize b)) (cb_buffer b @ [x])"
proof (cases "length (cb_buffer b) < nat (cb_maxSize b)")
  case False
  with assms have l: "length (cb_buffer b) = nat (cb_maxSize b)" "cb_buffer b \<noteq> []" "Suc 0 \<le> nat (cb_maxSize b)" by (auto simp: cb_ok_def)
  then have "last_n (nat (cb_maxSize b)) (cb_buffer b @ [x]) = tl (cb_buffer b) @ [x]" by (simp add: last_n_def Suc_diff_le drop_Suc)
  then show ?thesis using False l assms by (auto simp: cb_push_back_def cb_pop_front_def cb_ok_def)
qed (use assms in \<open>simp add: cb_push_back_def cb_ok_def last_n_def\<close>)

lemma circular_keeps_newest:
  assumes "CircularBuffer_new n = Some b"
  shows "\<exists>b'. foldo cb_push_back xs b = Some b' \<and> cb_ok b' \<and> cb_maxSize b' = n \<and> cb_buffer b' = last_n (nat n) xs"
proof (induction xs rule: rev_induct)
  case Nil
  then show ?case using assms by (auto simp: CircularBuffer_new_def cb_ok_def last_n_def)
next
  case (snoc x xs)
  then obtain b' where b': "foldo cb_push_back xs b = Some b'" "cb_ok b'" "cb_maxSize b' = n" "cb_buffer b' = last_n (nat n) xs" by blast
  have "last_n (nat n) (last_n (nat n) xs @ [x]) = last_n (nat n) (xs @ [x])"
    by (cases "length xs < nat n") (auto simp: last_n_def Suc_diff_le)
  with push_back_ok [OF b'(2), of x] b' show ?case by auto
qed

text \<open>The ring buffer is made with its size in default elements, and \<^verbatim>\<open>size()\<close> is that size whatever has been
  pushed.\<close>

record 'a RingBuffer =
  rb_size :: nat
  rb_buffer :: "'a list"

definition RingBuffer_new :: "int \<Rightarrow> 'a \<Rightarrow> 'a RingBuffer option" where
  "RingBuffer_new sz dflt = do {
     assertion (sz > 0);
     Some \<lparr>rb_size = nat sz, rb_buffer = replicate (nat sz) dflt\<rparr> }"

definition rb_empty :: "'a RingBuffer \<Rightarrow> bool" where
  "rb_empty b \<longleftrightarrow> rb_size b = 0"

definition rb_full :: "'a RingBuffer \<Rightarrow> bool" where
  "rb_full b \<longleftrightarrow> rb_size b = rb_size b"

definition rb_push_back :: "'a \<Rightarrow> 'a RingBuffer \<Rightarrow> 'a RingBuffer option" where
  "rb_push_back x b =
     (if length (rb_buffer b) < rb_size b then Some (b\<lparr>rb_buffer := rb_buffer b @ [x]\<rparr>)
      else do {
        assertion (rb_buffer b \<noteq> []);
        Some (b\<lparr>rb_buffer := tl (rb_buffer b) @ [x]\<rparr>) })"

definition rb_push_front :: "'a \<Rightarrow> 'a RingBuffer \<Rightarrow> 'a RingBuffer option" where
  "rb_push_front x b =
     (if length (rb_buffer b) < rb_size b then Some (b\<lparr>rb_buffer := x # rb_buffer b\<rparr>)
      else do {
        assertion (rb_buffer b \<noteq> []);
        Some (b\<lparr>rb_buffer := x # butlast (rb_buffer b)\<rparr>) })"

definition rb_resize :: "int \<Rightarrow> 'a \<Rightarrow> 'a RingBuffer \<Rightarrow> 'a RingBuffer option" where
  "rb_resize newSize dflt b = do {
     assertion (newSize > 0);
     Some (b\<lparr>rb_buffer := take (nat newSize) (rb_buffer b) @ replicate (nat newSize - length (rb_buffer b)) dflt,
       rb_size := nat newSize\<rparr>) }"

lemma ring_always_full:
  assumes "RingBuffer_new n dflt = Some b"
  shows "\<exists>b'. foldo rb_push_back xs b = Some b' \<and> rb_buffer b' = last_n (nat n) (replicate (nat n) dflt @ xs)
    \<and> rb_size b' = nat n \<and> rb_full b' \<and> \<not> rb_empty b'"
proof (induction xs rule: rev_induct)
  case Nil
  then show ?case using assms by (auto simp: RingBuffer_new_def rb_full_def rb_empty_def last_n_def)
next
  case (snoc x xs)
  then obtain b' where b': "foldo rb_push_back xs b = Some b'" "rb_buffer b' = last_n (nat n) (replicate (nat n) dflt @ xs)"
    "rb_size b' = nat n" by blast
  have n: "0 < nat n" using assms by (simp add: RingBuffer_new_def)
  have "length (rb_buffer b') = nat n" by (simp add: b'(2) last_n_def)
  moreover have "tl (last_n (nat n) (replicate (nat n) dflt @ xs)) @ [x] = last_n (nat n) (replicate (nat n) dflt @ xs @ [x])"
    using n last_n_snoc [of "nat n" "replicate (nat n) dflt @ xs" x] by simp
  ultimately have "rb_push_back x b' = Some (b'\<lparr>rb_buffer := last_n (nat n) (replicate (nat n) dflt @ xs @ [x])\<rparr>)"
    using b'(2,3) n by (auto simp: rb_push_back_def)
  then show ?case using b'(1,3) n by (auto simp: rb_full_def rb_empty_def)
qed

section \<open>The echo server\<close>

text \<open>The entry of a connection is named by the connection. \<open>es_alive\<close> are the connections that exist, \<open>es_context\<close>
  those that have been given their entry as context; the calls of \<^verbatim>\<open>send\<close> and \<^verbatim>\<open>shutdown\<close> are recorded.\<close>

record EchoServer =
  es_buckets :: "nat list CircularBuffer"
  es_alive :: "nat list"
  es_context :: "nat list"
  es_sent :: "(nat \<times> string) list"
  es_shutdown :: "nat list"

definition EchoServer_new :: "int \<Rightarrow> EchoServer option" where
  "EchoServer_new idleSeconds = do {
     b \<leftarrow> CircularBuffer_new idleSeconds;
     Some \<lparr>es_buckets = b, es_alive = [], es_context = [], es_sent = [], es_shutdown = []\<rparr> }"

text \<open>\<^verbatim>\<open>connectionBuckets_.back().insert(entry)\<close>.\<close>

definition insert_back :: "nat \<Rightarrow> EchoServer \<Rightarrow> EchoServer option" where
  "insert_back c s = do {
     bucket \<leftarrow> cb_back (es_buckets s);
     Some (s\<lparr>es_buckets := (es_buckets s)\<lparr>cb_buffer := butlast (cb_buffer (es_buckets s)) @ [List.insert c bucket]\<rparr>\<rparr>) }"

definition entry_lives :: "nat \<Rightarrow> EchoServer \<Rightarrow> bool" where
  "entry_lives c s \<longleftrightarrow> (\<exists>b\<in>set (cb_buffer (es_buckets s)). c \<in> set b)"

definition EchoServer_onConnection :: "nat \<Rightarrow> bool \<Rightarrow> EchoServer \<Rightarrow> EchoServer option" where
  "EchoServer_onConnection c is_connected s =
     (if is_connected then do {
        s \<leftarrow> insert_back c s;
        Some (s\<lparr>es_context := List.insert c (es_context s)\<rparr>) }
      else do {
        assertion (c \<in> set (es_context s));
        Some s })"

definition EchoServer_onMessage :: "nat \<Rightarrow> string \<Rightarrow> EchoServer \<Rightarrow> EchoServer option" where
  "EchoServer_onMessage c msg s = do {
     let s = s\<lparr>es_sent := es_sent s @ [(c, msg)]\<rparr>;
     assertion (c \<in> set (es_context s));
     if entry_lives c s then insert_back c s else Some s }"

text \<open>\<^verbatim>\<open>~Entry\<close> for each of the entries given.\<close>

definition destroy_entries :: "nat list \<Rightarrow> EchoServer \<Rightarrow> EchoServer" where
  "destroy_entries cs s = s\<lparr>es_shutdown := es_shutdown s @ filter (\<lambda>c. c \<in> set (es_alive s)) cs\<rparr>"

text \<open>\<^verbatim>\<open>onTime\<close>: the bucket that falls out of a full wheel releases its entries, and those no other bucket holds are
  destroyed.\<close>

definition EchoServer_onTime :: "EchoServer \<Rightarrow> EchoServer option" where
  "EchoServer_onTime s = do {
     let old = cb_buffer (es_buckets s);
     b \<leftarrow> cb_push_back [] (es_buckets s);
     let dropped = (if length (cb_buffer b) \<le> length old then hd old else []);
     let s = s\<lparr>es_buckets := b\<rparr>;
     Some (destroy_entries (filter (\<lambda>c. \<not> entry_lives c s) dropped) s) }"

text \<open>What happens to the server: a connection comes up, sends bytes, is reported down, its object goes away, a second
  passes.\<close>

datatype echo_event = E_up nat | E_message nat string | E_down nat | E_gone nat | E_tick

primrec echo_exec :: "echo_event \<Rightarrow> EchoServer \<Rightarrow> EchoServer option" where
  "echo_exec (E_up c) s = EchoServer_onConnection c True (s\<lparr>es_alive := List.insert c (es_alive s)\<rparr>)"
| "echo_exec (E_message c msg) s = EchoServer_onMessage c msg s"
| "echo_exec (E_down c) s = EchoServer_onConnection c False s"
| "echo_exec (E_gone c) s = Some (s\<lparr>es_alive := remove1 c (es_alive s)\<rparr>)"
| "echo_exec E_tick s = EchoServer_onTime s"

section \<open>Idle connections\<close>

definition wheel_ok :: "EchoServer \<Rightarrow> bool" where
  "wheel_ok s \<longleftrightarrow> cb_ok (es_buckets s) \<and> cb_buffer (es_buckets s) \<noteq> [] \<and> (\<forall>b\<in>set (cb_buffer (es_buckets s)). distinct b)
     \<and> distinct (es_alive s)"

abbreviation wheel :: "EchoServer \<Rightarrow> nat list list" where
  "wheel s \<equiv> cb_buffer (es_buckets s)"

abbreviation idle_limit :: "EchoServer \<Rightarrow> nat" where
  "idle_limit s \<equiv> nat (cb_maxSize (es_buckets s))"

text \<open>The newest bucket that holds a connection is \<open>k\<close> buckets from the back.\<close>

definition aged :: "nat \<Rightarrow> nat \<Rightarrow> nat list list \<Rightarrow> bool" where
  "aged k c w \<longleftrightarrow> k < length w \<and> c \<in> set (rev w ! k) \<and> (\<forall>i<k. c \<notin> set (rev w ! i))"

lemma count_list_distinct: "distinct xs \<Longrightarrow> count_list xs c = (if c \<in> set xs then 1 else 0)"
  by (induction xs) auto

lemma aged_lives: "aged k c (wheel s) \<Longrightarrow> entry_lives c s"
  unfolding aged_def entry_lives_def by (metis length_rev nth_mem set_rev)

lemma onTime_wheel:
  assumes "wheel_ok s"
  obtains s' where "EchoServer_onTime s = Some s'" "wheel_ok s'" "es_alive s' = es_alive s" "es_context s' = es_context s"
    "cb_maxSize (es_buckets s') = cb_maxSize (es_buckets s)"
    "length (wheel s) < idle_limit s \<Longrightarrow> wheel s' = wheel s @ [[]] \<and> es_shutdown s' = es_shutdown s"
    "\<not> length (wheel s) < idle_limit s \<Longrightarrow> wheel s' = tl (wheel s) @ [[]]
      \<and> es_shutdown s' = es_shutdown s @ filter (\<lambda>c. (\<forall>b\<in>set (tl (wheel s)). c \<notin> set b) \<and> c \<in> set (es_alive s)) (hd (wheel s))"
proof (cases "length (wheel s) < idle_limit s")
  case True
  with assms that [of "s\<lparr>es_buckets := (es_buckets s)\<lparr>cb_buffer := wheel s @ [[]]\<rparr>\<rparr>"] show thesis
    by (auto simp: EchoServer_onTime_def cb_push_back_def destroy_entries_def wheel_ok_def cb_ok_def Let_def)
next
  case False
  let ?w = "tl (wheel s) @ [[]]"
  let ?sh = "es_shutdown s @ filter (\<lambda>c. (\<forall>b\<in>set (tl (wheel s)). c \<notin> set b) \<and> c \<in> set (es_alive s)) (hd (wheel s))"
  from assms have ne: "wheel s \<noteq> []" by (simp add: wheel_ok_def)
  have r: "EchoServer_onTime s = Some (s\<lparr>es_buckets := (es_buckets s)\<lparr>cb_buffer := ?w\<rparr>, es_shutdown := ?sh\<rparr>)"
    using False ne by (auto simp: EchoServer_onTime_def cb_push_back_def cb_pop_front_def destroy_entries_def entry_lives_def Let_def
      intro!: filter_cong)
  from False ne assms show thesis
    by (intro that [OF r]) (auto simp: wheel_ok_def cb_ok_def dest: list.set_sel(2))
qed

text \<open>A second that passes makes a connection one bucket older, or shuts it down when it has reached the limit.\<close>

lemma onTime_aged:
  assumes "wheel_ok s" "aged k c (wheel s)" "c \<in> set (es_alive s)"
  shows "\<exists>s'. EchoServer_onTime s = Some s' \<and> wheel_ok s' \<and> es_alive s' = es_alive s \<and> es_context s' = es_context s
    \<and> idle_limit s' = idle_limit s
    \<and> (if Suc k < idle_limit s then aged (Suc k) c (wheel s') \<and> count_list (es_shutdown s') c = count_list (es_shutdown s) c
       else \<not> entry_lives c s' \<and> count_list (es_shutdown s') c = count_list (es_shutdown s) c + 1)"
proof -
  from assms(2) have k: "k < length (wheel s)" "c \<in> set (rev (wheel s) ! k)" "\<forall>i<k. c \<notin> set (rev (wheel s) ! i)" by (auto simp: aged_def)
  have le: "length (wheel s) \<le> idle_limit s" and d: "\<forall>b\<in>set (wheel s). distinct b" using assms(1) by (auto simp: wheel_ok_def cb_ok_def)
  obtain s' where s': "EchoServer_onTime s = Some s'" "wheel_ok s'" "es_alive s' = es_alive s" "es_context s' = es_context s"
    "cb_maxSize (es_buckets s') = cb_maxSize (es_buckets s)"
    "length (wheel s) < idle_limit s \<Longrightarrow> wheel s' = wheel s @ [[]] \<and> es_shutdown s' = es_shutdown s"
    "\<not> length (wheel s) < idle_limit s \<Longrightarrow> wheel s' = tl (wheel s) @ [[]]
      \<and> es_shutdown s' = es_shutdown s @ filter (\<lambda>c. (\<forall>b\<in>set (tl (wheel s)). c \<notin> set b) \<and> c \<in> set (es_alive s)) (hd (wheel s))"
    using onTime_wheel [OF assms(1)] by blast
  have older: "aged (Suc k) c (w @ [[]])" if "rev w = take n (rev (wheel s))" "k < n" for w n
  proof -
    have "length w = min n (length (wheel s))" using arg_cong [OF that(1), of length] by simp
    then show ?thesis using that k by (auto simp: aged_def nth_Cons split: nat.split)
  qed
  show ?thesis
  proof (cases "length (wheel s) < idle_limit s")
    case True
    with k(1) have "Suc k < idle_limit s" by simp
    then show ?thesis using s'(1-5) s'(6) [OF True] older [of "wheel s" "length (wheel s)"] k(1) by simp
  next
    case False
    with le have len: "length (wheel s) = idle_limit s" by simp
    obtain x xs where w: "wheel s = x # xs" using k(1) by (cases "wheel s") auto
    show ?thesis
    proof (cases "Suc k < idle_limit s")
      case True
      then have kx: "k < length xs" using len w by simp
      then have "rev xs ! k \<in> set xs" by (metis length_rev nth_mem set_rev)
      moreover have "c \<in> set (rev xs ! k)" using k(2) kx w by (simp add: nth_append)
      ultimately have "count_list (filter (\<lambda>c. (\<forall>b\<in>set xs. c \<notin> set b) \<and> c \<in> set (es_alive s)) x) c = 0"
        by (auto simp: count_list_0_iff)
      then show ?thesis using True s'(1-5) s'(7) [OF False] older [of xs "length xs"] kx w by simp
    next
      case last: False
      then have kx: "k = length xs" using k(1) len w by simp
      then have "c \<in> set x" using k(2) w by (simp add: nth_append)
      have "c \<notin> set b" if "b \<in> set xs" for b
      proof -
        from that obtain i where "i < length xs" "b = rev xs ! i" by (metis in_set_conv_nth length_rev set_rev)
        then show ?thesis using k(3) kx w by (auto simp: nth_append)
      qed
      moreover have "distinct x" using d w by simp
      ultimately have "count_list (filter (\<lambda>c. (\<forall>b\<in>set xs. c \<notin> set b) \<and> c \<in> set (es_alive s)) x) c = 1"
        using \<open>c \<in> set x\<close> assms(3) by (simp add: count_list_distinct)
      moreover have "\<not> entry_lives c s'" using s'(7) [OF False] w \<open>\<And>b. b \<in> set xs \<Longrightarrow> c \<notin> set b\<close> by (auto simp: entry_lives_def)
      ultimately show ?thesis using last s'(1-5) s'(7) [OF False] w by simp
    qed
  qed
qed

text \<open>Other events leave the age of a connection alone.\<close>

primrec about :: "nat \<Rightarrow> echo_event \<Rightarrow> bool" where
  "about c (E_up d) \<longleftrightarrow> d = c"
| "about c (E_message d msg) \<longleftrightarrow> d = c"
| "about c (E_down d) \<longleftrightarrow> d = c"
| "about c (E_gone d) \<longleftrightarrow> d = c"
| "about c E_tick \<longleftrightarrow> False"

text \<open>Bytes and the end of a connection are reported for connections that came up.\<close>

fun known :: "nat list \<Rightarrow> echo_event list \<Rightarrow> bool" where
  "known cs [] \<longleftrightarrow> True"
| "known cs (E_up c # evs) \<longleftrightarrow> known (List.insert c cs) evs"
| "known cs (E_message c msg # evs) \<longleftrightarrow> c \<in> set cs \<and> known cs evs"
| "known cs (E_down c # evs) \<longleftrightarrow> c \<in> set cs \<and> known cs evs"
| "known cs (E_gone c # evs) \<longleftrightarrow> known cs evs"
| "known cs (E_tick # evs) \<longleftrightarrow> known cs evs"

lemma insert_back_works:
  assumes "wheel_ok s"
  obtains s' where "insert_back d s = Some s'" "wheel_ok s'" "es_alive s' = es_alive s" "es_context s' = es_context s"
    "es_shutdown s' = es_shutdown s" "cb_maxSize (es_buckets s') = cb_maxSize (es_buckets s)" "aged 0 d (wheel s')"
    "\<And>c k. c \<noteq> d \<Longrightarrow> aged k c (wheel s') = aged k c (wheel s)" "\<And>c. c \<noteq> d \<Longrightarrow> entry_lives c s' = entry_lives c s"
proof -
  obtain w b where w: "wheel s = w @ [b]" using assms by (metis rev_exhaust wheel_ok_def)
  let ?s = "s\<lparr>es_buckets := (es_buckets s)\<lparr>cb_buffer := w @ [List.insert d b]\<rparr>\<rparr>"
  have r: "insert_back d s = Some ?s" using w by (simp add: insert_back_def cb_back_def)
  have "aged k c (w @ [List.insert d b]) = aged k c (w @ [b])" if "c \<noteq> d" for c k
    using that by (auto simp: aged_def nth_Cons split: nat.splits)
  then show thesis using assms w by (intro that [OF r]) (auto simp: wheel_ok_def cb_ok_def aged_def entry_lives_def)
qed

lemma tick_works: "wheel_ok s \<Longrightarrow> \<not> entry_lives c s \<Longrightarrow> \<exists>s'. EchoServer_onTime s = Some s' \<and> wheel_ok s' \<and> es_alive s' = es_alive s
    \<and> es_context s' = es_context s \<and> idle_limit s' = idle_limit s \<and> \<not> entry_lives c s'
    \<and> count_list (es_shutdown s') c = count_list (es_shutdown s) c"
proof -
  assume ok: "wheel_ok s" and dead: "\<not> entry_lives c s"
  have ne: "wheel s \<noteq> []" using ok by (simp add: wheel_ok_def)
  obtain s' where s': "EchoServer_onTime s = Some s'" "wheel_ok s'" "es_alive s' = es_alive s" "es_context s' = es_context s"
    "cb_maxSize (es_buckets s') = cb_maxSize (es_buckets s)"
    "length (wheel s) < idle_limit s \<Longrightarrow> wheel s' = wheel s @ [[]] \<and> es_shutdown s' = es_shutdown s"
    "\<not> length (wheel s) < idle_limit s \<Longrightarrow> wheel s' = tl (wheel s) @ [[]]
      \<and> es_shutdown s' = es_shutdown s @ filter (\<lambda>c. (\<forall>b\<in>set (tl (wheel s)). c \<notin> set b) \<and> c \<in> set (es_alive s)) (hd (wheel s))"
    using onTime_wheel [OF ok] by blast
  have "c \<notin> set (hd (wheel s))" using dead ne by (auto simp: entry_lives_def dest: hd_in_set)
  moreover have "set (tl (wheel s)) \<subseteq> set (wheel s)" using ne by (auto dest: list.set_sel(2))
  ultimately show ?thesis using s' dead
    by (cases "length (wheel s) < idle_limit s") (auto simp: entry_lives_def count_list_0_iff)
qed

text \<open>How long a connection has been idle, or that it has been shut down.\<close>

definition idle :: "nat \<Rightarrow> nat \<Rightarrow> nat \<Rightarrow> EchoServer \<Rightarrow> bool" where
  "idle t c n s \<longleftrightarrow> wheel_ok s \<and> c \<in> set (es_alive s)
     \<and> (if t < idle_limit s then aged t c (wheel s) \<and> count_list (es_shutdown s) c = n
        else \<not> entry_lives c s \<and> count_list (es_shutdown s) c = n + 1)"

lemma idle_same:
  assumes "idle t c n s" "wheel_ok s'" "c \<in> set (es_alive s')" "idle_limit s' = idle_limit s"
    "\<And>k. aged k c (wheel s') = aged k c (wheel s)" "entry_lives c s' = entry_lives c s" "es_shutdown s' = es_shutdown s"
  shows "idle t c n s'"
  using assms by (simp add: idle_def)

lemma echo_exec_idle:
  assumes "idle t c n s" "\<not> about c ev" "known (es_context s) (ev # evs)"
  shows "\<exists>s'. echo_exec ev s = Some s' \<and> idle (if ev = E_tick then Suc t else t) c n s' \<and> known (es_context s') evs
    \<and> idle_limit s' = idle_limit s"
proof -
  from assms(1) have ok: "wheel_ok s" "c \<in> set (es_alive s)" by (auto simp: idle_def)
  show ?thesis
  proof (cases ev)
    case (E_up d)
    let ?s = "s\<lparr>es_alive := List.insert d (es_alive s)\<rparr>"
    have ok': "wheel_ok ?s" using ok by (simp add: wheel_ok_def)
    obtain s1 where s1: "insert_back d ?s = Some s1" "wheel_ok s1" "es_alive s1 = es_alive ?s" "es_context s1 = es_context ?s"
      "es_shutdown s1 = es_shutdown ?s" "cb_maxSize (es_buckets s1) = cb_maxSize (es_buckets ?s)"
      "\<And>c k. c \<noteq> d \<Longrightarrow> aged k c (wheel s1) = aged k c (wheel ?s)" "\<And>c. c \<noteq> d \<Longrightarrow> entry_lives c s1 = entry_lives c ?s"
      by (rule insert_back_works [OF ok', of d]) blast
    let ?s1 = "s1\<lparr>es_context := List.insert d (es_context s1)\<rparr>"
    have c: "c \<noteq> d" using E_up assms(2) by auto
    have "wheel_ok ?s1" "entry_lives c ?s1 = entry_lives c s" using s1(2,8) c by (simp_all add: wheel_ok_def entry_lives_def)
    then have "idle t c n ?s1" using s1(3,5,6) s1(7) [OF c] ok(2) by (intro idle_same [OF assms(1)]) simp_all
    then show ?thesis using E_up s1(1,4,6) assms(3) by (simp add: EchoServer_onConnection_def)
  next
    case (E_message d msg)
    let ?s = "s\<lparr>es_sent := es_sent s @ [(d, msg)]\<rparr>"
    have ok': "wheel_ok ?s" using ok by (simp add: wheel_ok_def)
    obtain s1 where s1: "insert_back d ?s = Some s1" "wheel_ok s1" "es_alive s1 = es_alive ?s" "es_context s1 = es_context ?s"
      "es_shutdown s1 = es_shutdown ?s" "cb_maxSize (es_buckets s1) = cb_maxSize (es_buckets ?s)"
      "\<And>c k. c \<noteq> d \<Longrightarrow> aged k c (wheel s1) = aged k c (wheel ?s)" "\<And>c. c \<noteq> d \<Longrightarrow> entry_lives c s1 = entry_lives c ?s"
      by (rule insert_back_works [OF ok', of d]) blast
    have c: "c \<noteq> d" and d: "d \<in> set (es_context s)" using E_message assms(2,3) by auto
    have "entry_lives c s1 = entry_lives c s" using s1(8) [OF c] by (simp add: entry_lives_def)
    then have "idle t c n s1" using s1(2,3,5,6) s1(7) [OF c] ok(2) by (intro idle_same [OF assms(1)]) simp_all
    moreover have "idle t c n ?s" using ok' ok(2) by (intro idle_same [OF assms(1)]) (simp_all add: entry_lives_def)
    ultimately show ?thesis using E_message s1(1,4,6) d assms(3)
      by (cases "entry_lives d ?s") (simp_all add: EchoServer_onMessage_def Let_def)
  next
    case (E_down d)
    with assms show ?thesis by (auto simp: EchoServer_onConnection_def)
  next
    case (E_gone d)
    have "idle t c n (s\<lparr>es_alive := remove1 d (es_alive s)\<rparr>)"
      using E_gone assms(2) ok by (intro idle_same [OF assms(1)]) (auto simp: wheel_ok_def entry_lives_def)
    then show ?thesis using E_gone assms(3) by simp
  next
    case E_tick
    show ?thesis
    proof (cases "t < idle_limit s")
      case True
      then have a: "aged t c (wheel s)" "count_list (es_shutdown s) c = n" using assms(1) by (auto simp: idle_def)
      from onTime_aged [OF ok(1) a(1) ok(2)] obtain s' where s': "EchoServer_onTime s = Some s'" "wheel_ok s'" "es_alive s' = es_alive s"
        "es_context s' = es_context s" "idle_limit s' = idle_limit s"
        "if Suc t < idle_limit s then aged (Suc t) c (wheel s') \<and> count_list (es_shutdown s') c = count_list (es_shutdown s) c
         else \<not> entry_lives c s' \<and> count_list (es_shutdown s') c = count_list (es_shutdown s) c + 1" by blast
      then have "idle (Suc t) c n s'" using a(2) ok(2) unfolding idle_def by simp
      then show ?thesis using E_tick s'(1,4,5) assms(3) by simp
    next
      case False
      then have a: "\<not> entry_lives c s" "count_list (es_shutdown s) c = n + 1" using assms(1) by (auto simp: idle_def)
      from tick_works [OF ok(1) a(1)] obtain s' where s': "EchoServer_onTime s = Some s'" "wheel_ok s'" "es_alive s' = es_alive s"
        "es_context s' = es_context s" "idle_limit s' = idle_limit s" "\<not> entry_lives c s'"
        "count_list (es_shutdown s') c = count_list (es_shutdown s) c" by blast
      then have "idle (Suc t) c n s'" using a(2) ok(2) False unfolding idle_def by simp
      then show ?thesis using E_tick s'(1,4,5) assms(3) by simp
    qed
  qed
qed

lemma echo_exec_works:
  assumes "wheel_ok s" "known (es_context s) (ev # evs)"
  shows "\<exists>s'. echo_exec ev s = Some s' \<and> wheel_ok s' \<and> known (es_context s') evs \<and> idle_limit s' = idle_limit s"
proof (cases ev)
  case (E_up d)
  let ?s = "s\<lparr>es_alive := List.insert d (es_alive s)\<rparr>"
  have "wheel_ok ?s" using assms(1) by (simp add: wheel_ok_def)
  then obtain s1 where "insert_back d ?s = Some s1" "wheel_ok s1" "es_context s1 = es_context s" "idle_limit s1 = idle_limit s"
    by (rule insert_back_works [of ?s d]) auto
  then show ?thesis using E_up assms(2) by (simp add: EchoServer_onConnection_def wheel_ok_def)
next
  case (E_message d msg)
  let ?s = "s\<lparr>es_sent := es_sent s @ [(d, msg)]\<rparr>"
  have ok: "wheel_ok ?s" using assms(1) by (simp add: wheel_ok_def)
  then obtain s1 where "insert_back d ?s = Some s1" "wheel_ok s1" "es_context s1 = es_context s" "idle_limit s1 = idle_limit s"
    by (rule insert_back_works [of ?s d]) auto
  then show ?thesis using E_message ok assms(2) by (cases "entry_lives d ?s") (simp_all add: EchoServer_onMessage_def Let_def)
next
  case E_tick
  then show ?thesis using assms onTime_wheel [OF assms(1)] by (metis echo_exec.simps(5) known.simps(6))
qed (use assms in \<open>auto simp: EchoServer_onConnection_def wheel_ok_def\<close>)

lemma echo_run_works:
  assumes "wheel_ok s" "known (es_context s) (pre @ evs)"
  shows "\<exists>s'. foldo echo_exec pre s = Some s' \<and> wheel_ok s' \<and> known (es_context s') evs \<and> idle_limit s' = idle_limit s"
  using assms
proof (induction pre arbitrary: s)
  case (Cons ev pre)
  from echo_exec_works [OF Cons.prems(1), of ev "pre @ evs"] Cons.prems(2) obtain s1 where
    s1: "echo_exec ev s = Some s1" "wheel_ok s1" "known (es_context s1) (pre @ evs)" "idle_limit s1 = idle_limit s" by auto
  from Cons.IH [OF s1(2,3)] s1(1,4) show ?case by auto
qed simp

lemma idle_run:
  assumes "idle t c n s" "known (es_context s) evs" "\<And>e. e \<in> set evs \<Longrightarrow> \<not> about c e"
  shows "\<exists>s'. foldo echo_exec evs s = Some s' \<and> idle (t + count_list evs E_tick) c n s' \<and> idle_limit s' = idle_limit s"
  using assms
proof (induction evs arbitrary: t s)
  case (Cons ev evs)
  from echo_exec_idle [OF Cons.prems(1) _ Cons.prems(2)] Cons.prems(3) obtain s1 where
    s1: "echo_exec ev s = Some s1" "idle (if ev = E_tick then Suc t else t) c n s1" "known (es_context s1) evs"
      "idle_limit s1 = idle_limit s" by auto
  from Cons.IH [OF s1(2,3)] Cons.prems(3) s1(1,4) show ?case by (cases "ev = E_tick") auto
qed simp

text \<open>The two ways a connection shows that it is alive.\<close>

definition active :: "nat \<Rightarrow> echo_event \<Rightarrow> EchoServer \<Rightarrow> bool" where
  "active c ev s \<longleftrightarrow> ev = E_up c \<or> (\<exists>msg. ev = E_message c msg) \<and> entry_lives c s \<and> c \<in> set (es_alive s)"

lemma active_idle:
  assumes "wheel_ok s" "known (es_context s) (ev # evs)" "active c ev s"
  shows "\<exists>s'. echo_exec ev s = Some s' \<and> idle 0 c (count_list (es_shutdown s) c) s' \<and> known (es_context s') evs \<and> idle_limit s' = idle_limit s"
proof -
  have n: "0 < idle_limit s" using assms(1) by (auto simp: wheel_ok_def cb_ok_def)
  consider "ev = E_up c" | msg where "ev = E_message c msg" "entry_lives c s" "c \<in> set (es_alive s)"
    using assms(3) by (auto simp: active_def)
  then show ?thesis
  proof cases
    case 1
    let ?s = "s\<lparr>es_alive := List.insert c (es_alive s)\<rparr>"
    have "wheel_ok ?s" using assms(1) by (simp add: wheel_ok_def)
    then obtain s1 where "insert_back c ?s = Some s1" "wheel_ok s1" "es_alive s1 = es_alive ?s" "es_context s1 = es_context s"
      "es_shutdown s1 = es_shutdown s" "idle_limit s1 = idle_limit s" "aged 0 c (wheel s1)"
      by (rule insert_back_works [of ?s c]) auto
    then show ?thesis using 1 assms(2) n by (simp add: EchoServer_onConnection_def wheel_ok_def idle_def)
  next
    case (2 msg)
    let ?s = "s\<lparr>es_sent := es_sent s @ [(c, msg)]\<rparr>"
    have ok: "wheel_ok ?s" using assms(1) by (simp add: wheel_ok_def)
    then obtain s1 where "insert_back c ?s = Some s1" "wheel_ok s1" "es_alive s1 = es_alive ?s" "es_context s1 = es_context s"
      "es_shutdown s1 = es_shutdown s" "idle_limit s1 = idle_limit s" "aged 0 c (wheel s1)"
      by (rule insert_back_works [of ?s c]) auto
    moreover have "entry_lives c ?s" using 2(2) by (simp add: entry_lives_def)
    ultimately show ?thesis using 2 assms(2) n by (simp add: EchoServer_onMessage_def idle_def Let_def)
  qed
qed

lemma first_tick:
  assumes "EchoServer_new N = Some s0"
  shows "\<exists>s. echo_exec E_tick s0 = Some s \<and> wheel_ok s \<and> es_context s = [] \<and> idle_limit s = nat N"
  using assms by (auto simp: EchoServer_new_def CircularBuffer_new_def EchoServer_onTime_def cb_push_back_def destroy_entries_def
    wheel_ok_def cb_ok_def Let_def)

text \<open>C33. The echo server shuts down exactly the idle connections, on time. After the first tick of its clock the server
  handles every sequence of events; a connection that comes up, or sends something while its entry lives, and then shows
  nothing more is shut down by the tick that makes its silence \<open>N\<close> seconds long and not before, exactly once, whatever
  other connections do.\<close>

theorem idle_connection_shut_down:
  assumes "EchoServer_new N = Some s0" "known [] (pre @ ev # evs)" "\<And>e. e \<in> set evs \<Longrightarrow> \<not> about c e"
  shows "\<exists>s. foldo echo_exec (E_tick # pre) s0 = Some s
    \<and> (active c ev s \<longrightarrow> (\<exists>s'. foldo echo_exec (ev # evs) s = Some s'
         \<and> count_list (es_shutdown s') c = count_list (es_shutdown s) c + (if nat N \<le> count_list evs E_tick then 1 else 0)))"
proof -
  from first_tick [OF assms(1)] obtain s1 where s1: "echo_exec E_tick s0 = Some s1" "wheel_ok s1" "es_context s1 = []" "idle_limit s1 = nat N"
    by blast
  from echo_run_works [OF s1(2), of pre "ev # evs"] assms(2) s1(3,4) obtain s where
    s: "foldo echo_exec pre s1 = Some s" "wheel_ok s" "known (es_context s) (ev # evs)" "idle_limit s = nat N" by auto
  have "\<exists>s'. foldo echo_exec (ev # evs) s = Some s'
      \<and> count_list (es_shutdown s') c = count_list (es_shutdown s) c + (if nat N \<le> count_list evs E_tick then 1 else 0)"
    if a: "active c ev s"
  proof -
    from active_idle [OF s(2,3) a] obtain s2 where s2: "echo_exec ev s = Some s2" "idle 0 c (count_list (es_shutdown s) c) s2"
      "known (es_context s2) evs" "idle_limit s2 = nat N" using s(4) by auto
    from idle_run [OF s2(2,3) assms(3)] obtain s' where
      s': "foldo echo_exec evs s2 = Some s'" "idle (count_list evs E_tick) c (count_list (es_shutdown s) c) s'" "idle_limit s' = nat N"
      using s2(4) by auto
    then show ?thesis using s2(1) by (auto simp: idle_def split: if_splits)
  qed
  with s1(1) s(1) show ?thesis by auto
qed

theorem idle_connection_shut_down_witness:
  "\<exists>s0 s s'. EchoServer_new 2 = Some s0 \<and> foldo echo_exec [E_tick] s0 = Some s
     \<and> foldo echo_exec [E_up 7, E_tick, E_up 8, E_tick] s = Some s' \<and> count_list (es_shutdown s') 7 = count_list (es_shutdown s) 7 + 1"
proof -
  obtain s0 where s0: "EchoServer_new 2 = Some s0" by (simp add: EchoServer_new_def CircularBuffer_new_def)
  have "known [] ([] @ E_up 7 # [E_tick, E_up 8, E_tick])" by simp
  moreover have "e \<in> set [E_tick, E_up 8, E_tick] \<Longrightarrow> \<not> about 7 e" for e by auto
  ultimately obtain s where
    s: "foldo echo_exec [E_tick] s0 = Some s"
      "active 7 (E_up 7) s \<longrightarrow> (\<exists>s'. foldo echo_exec (E_up 7 # [E_tick, E_up 8, E_tick]) s = Some s'
         \<and> count_list (es_shutdown s') 7 = count_list (es_shutdown s) 7 + (if nat 2 \<le> count_list [E_tick, E_up 8, E_tick] E_tick then 1 else 0))"
    using idle_connection_shut_down [OF s0, of "[]" "E_up 7" "[E_tick, E_up 8, E_tick]" 7] by auto
  then show ?thesis using s0 by (auto simp: active_def)
qed

text \<open>Before the first tick there is no bucket: a connection that comes up then stops the process.\<close>

lemma early_connection_stops: "EchoServer_new N = Some s0 \<Longrightarrow> echo_exec (E_up c) s0 = None"
  by (auto simp: EchoServer_new_def CircularBuffer_new_def EchoServer_onConnection_def insert_back_def cb_back_def)

end
