(* ===== verification/ProcInfo.thy ===== *)
theory ProcInfo
  imports LogFiles Logs Http
begin

text \<open>
  Reading small files and what the process knows of itself: the rest of \<^verbatim>\<open>FileUtil.cpp\<close>, and \<^verbatim>\<open>ProcessInfo.cpp\<close>.

  The system is an argument. A file is the answer to \<^verbatim>\<open>open\<close>, the answer to \<^verbatim>\<open>fstat\<close> and the answers successive
  \<^verbatim>\<open>read\<close>s give: an error, or some bytes, of which a \<^verbatim>\<open>read\<close> for fewer takes only the first. \<^const>\<open>None\<close> is a failed assertion, a
  read outside an array or an exception nothing catches.
\<close>

section \<open>Small files\<close>

datatype file_kind = Regular | Directory | Special

record file_stat =
  st_kind :: file_kind
  st_size :: int
  st_mtime :: int
  st_ctime :: int

record system_file =
  sf_open :: "int option"
  sf_stat :: "int + file_stat"
  sf_reads :: "(int + string) list"

definition EISDIR :: int where "EISDIR = 21"

definition kBufferSize :: nat where "kBufferSize = 64 * 1024"

text \<open>\<^verbatim>\<open>fd_\<close> is kept as whether it is a descriptor; \<^verbatim>\<open>rf_file\<close> is what the descriptor refers to.\<close>

record ReadSmallFile =
  rf_open :: bool
  rf_err :: int
  rf_buf :: string
  rf_file :: system_file

definition ReadSmallFile_new :: "system_file \<Rightarrow> ReadSmallFile" where
  "ReadSmallFile_new f =
     (case sf_open f of
        None \<Rightarrow> \<lparr>rf_open = True, rf_err = 0, rf_buf = '''', rf_file = f\<rparr>
      | Some errno \<Rightarrow> \<lparr>rf_open = False, rf_err = errno, rf_buf = '''', rf_file = f\<rparr>)"

text \<open>\<^verbatim>\<open>read(fd, buf, toRead)\<close>; the end of the answers is the end of the file.\<close>

fun sys_read :: "nat \<Rightarrow> (int + string) list \<Rightarrow> (int + string) \<times> (int + string) list" where
  "sys_read toRead [] = (Inr [], [])"
| "sys_read toRead (Inl e # rest) = (Inl e, rest)"
| "sys_read toRead (Inr bs # rest) =
     (if length bs \<le> toRead then (Inr bs, rest) else (Inr (take toRead bs), Inr (drop toRead bs) # rest))"

lemma sys_read_length: "sys_read k rs = (Inr bs, rest) \<Longrightarrow> length bs \<le> k"
  by (cases "(k, rs)" rule: sys_read.cases) (auto split: if_splits)

text \<open>The loop of \<^verbatim>\<open>readToString\<close>: every turn but the last adds a byte, so it ends.\<close>

function read_loop :: "nat \<Rightarrow> (int + string) list \<Rightarrow> int \<Rightarrow> string \<Rightarrow> int \<times> string" where
  "read_loop maxSize reads err content =
     (if length content < maxSize then
        let toRead = min (maxSize - length content) kBufferSize in
        case sys_read toRead reads of
          (Inl errno, _) \<Rightarrow> (errno, content)
        | (Inr bs, reads') \<Rightarrow> if bs = [] then (err, content) else read_loop maxSize reads' err (content @ bs)
      else (err, content))"
  by pat_completeness auto
termination
  by (relation "measure (\<lambda>(maxSize, reads, err, content). maxSize - length content)") (auto simp flip: length_greater_0_conv)

declare read_loop.simps [simp del]

text \<open>The places the caller passes for the size and the two times; \<^const>\<open>None\<close> in the result is a place left alone.\<close>

record stat_places =
  want_size :: bool
  want_mtime :: bool
  want_ctime :: bool

record read_result =
  rr_err :: int
  rr_content :: string
  rr_size :: "int option"
  rr_mtime :: "int option"
  rr_ctime :: "int option"

text \<open>The block under \<^verbatim>\<open>if (fileSize)\<close>.\<close>

definition stat_block :: "stat_places \<Rightarrow> system_file \<Rightarrow> read_result \<Rightarrow> read_result" where
  "stat_block p f r =
     (case sf_stat f of
        Inr st \<Rightarrow>
          let r = (case st_kind st of
                     Regular \<Rightarrow> r\<lparr>rr_size := Some (st_size st)\<rparr>
                   | Directory \<Rightarrow> r\<lparr>rr_err := EISDIR\<rparr>
                   | Special \<Rightarrow> r);
              r = (if want_mtime p then r\<lparr>rr_mtime := Some (st_mtime st)\<rparr> else r)
          in (if want_ctime p then r\<lparr>rr_ctime := Some (st_ctime st)\<rparr> else r)
      | Inl errno \<Rightarrow> r\<lparr>rr_err := errno\<rparr>)"

definition readToString :: "int \<Rightarrow> stat_places \<Rightarrow> string \<Rightarrow> ReadSmallFile \<Rightarrow> read_result" where
  "readToString maxSize p content f =
     (let r = \<lparr>rr_err = rf_err f, rr_content = content, rr_size = None, rr_mtime = None, rr_ctime = None\<rparr>
      in if rf_open f then
           let r = r\<lparr>rr_content := ''''\<rparr>;
               r = (if want_size p then stat_block p (rf_file f) r else r);
               (err, content) = read_loop (size_t maxSize) (sf_reads (rf_file f)) (rr_err r) (rr_content r)
           in r\<lparr>rr_err := err, rr_content := content\<rparr>
         else r)"

text \<open>\<^verbatim>\<open>readToBuffer\<close>: \<^verbatim>\<open>pread\<close> at offset 0 of at most one byte less than the buffer holds.\<close>

definition readToBuffer :: "ReadSmallFile \<Rightarrow> int \<times> int option \<times> ReadSmallFile" where
  "readToBuffer f =
     (if rf_open f then
        (case fst (sys_read (kBufferSize - 1) (sf_reads (rf_file f))) of
           Inr bs \<Rightarrow> (rf_err f, Some (int (length bs)), f\<lparr>rf_buf := bs\<rparr>)
         | Inl errno \<Rightarrow> (errno, None, f))
      else (rf_err f, None, f))"

definition readFile :: "(string \<Rightarrow> system_file) \<Rightarrow> string \<Rightarrow> int \<Rightarrow> string \<Rightarrow> stat_places \<Rightarrow> read_result" where
  "readFile fs filename maxSize content p = readToString maxSize p content (ReadSmallFile_new (fs filename))"

definition no_places :: stat_places where
  "no_places = \<lparr>want_size = False, want_mtime = False, want_ctime = False\<rparr>"

definition appendFile :: "(string \<Rightarrow> bool) \<Rightarrow> string \<Rightarrow> string \<Rightarrow> nat list \<Rightarrow> AppendFile option" where
  "appendFile fopen filename content answers = do {
     f \<leftarrow> AppendFile_new fopen filename;
     Some (AppendFile_flush (snd (AppendFile_append content answers f))) }"

subsection \<open>What reading yields\<close>

text \<open>The bytes before the first error or empty answer, and the error that ends them if one does.\<close>

fun file_bytes :: "(int + string) list \<Rightarrow> string" where
  "file_bytes (Inr (b # bs) # rest) = b # bs @ file_bytes rest"
| "file_bytes _ = []"

fun file_error :: "(int + string) list \<Rightarrow> int option" where
  "file_error (Inr (b # bs) # rest) = file_error rest"
| "file_error (Inl e # _) = Some e"
| "file_error _ = None"

lemma sys_read_data:
  "sys_read k rs = (Inr bs, rest) \<Longrightarrow> bs \<noteq> [] \<Longrightarrow>
     file_bytes rs = bs @ file_bytes rest \<and> file_error rs = file_error rest"
proof (induction k rs rule: sys_read.induct)
  case (3 k cs rs)
  show ?case
  proof (cases "length cs \<le> k")
    case True
    with 3 show ?thesis by (cases cs) auto
  next
    case False
    then obtain x xs y ys where "take k cs = x # xs" "drop k cs = y # ys" "cs = x # xs @ y # ys"
      using 3 by (metis (no_types, lifting) append_take_drop_id drop_eq_Nil append_Cons neq_Nil_conv prod.inject sum.inject(2) sys_read.simps(3))
    with False 3 show ?thesis by auto
  qed
qed auto

text \<open>However the answers are cut, the content is the file's first bytes, at most \<open>maxSize\<close>; an error is reported when it comes
  before that many.\<close>

lemma read_loop_spec:
  "length content \<le> maxSize \<Longrightarrow> read_loop maxSize reads err content =
     (if length content + length (file_bytes reads) < maxSize
      then (case file_error reads of Some e \<Rightarrow> e | None \<Rightarrow> err, content @ file_bytes reads)
      else (err, take maxSize (content @ file_bytes reads)))"
proof (induction maxSize reads err content rule: read_loop.induct)
  case (1 maxSize reads err content)
  show ?case
  proof (cases "length content < maxSize")
    case True
    define toRead where "toRead = min (maxSize - length content) kBufferSize"
    then have pos: "0 < toRead" using True by (simp add: kBufferSize_def)
    show ?thesis
    proof (cases "sys_read toRead reads")
      case (Pair ans reads')
      show ?thesis
      proof (cases ans)
        case (Inl e)
        have "file_bytes reads = [] \<and> file_error reads = Some e"
          using Pair Inl by (cases "(toRead, reads)" rule: sys_read.cases) (auto split: if_splits)
        with Pair Inl True show ?thesis by (simp add: read_loop.simps toRead_def)
      next
        case (Inr bs)
        show ?thesis
        proof (cases "bs = []")
          case empty: True
          have "file_bytes reads = [] \<and> file_error reads = None"
            using Pair Inr empty pos by (cases "(toRead, reads)" rule: sys_read.cases) (auto split: if_splits)
          with Pair Inr True empty show ?thesis by (simp add: read_loop.simps toRead_def)
        next
          case False
          have fits: "length (content @ bs) \<le> maxSize"
            using sys_read_length [of toRead reads bs reads'] Pair Inr True by (auto simp: toRead_def)
          have "read_loop maxSize reads err content = read_loop maxSize reads' err (content @ bs)"
            using True Pair Inr False by (simp add: read_loop.simps [of maxSize reads] toRead_def)
          also have "\<dots> = (if length (content @ bs) + length (file_bytes reads') < maxSize
              then (case file_error reads' of Some e \<Rightarrow> e | None \<Rightarrow> err, (content @ bs) @ file_bytes reads')
              else (err, take maxSize ((content @ bs) @ file_bytes reads')))"
            by (rule 1) (use True Pair Inr False fits in \<open>auto simp: toRead_def\<close>)
          finally show ?thesis
            using sys_read_data [of toRead reads bs reads'] Pair Inr False by (simp add: add.assoc)
        qed
      qed
    qed
  qed (use 1 in \<open>simp add: read_loop.simps\<close>)
qed

lemma stat_block_content [simp]: "rr_content (stat_block p f r) = rr_content r"
  by (simp add: stat_block_def Let_def split: sum.split file_kind.split)

lemma readFile_open:
  assumes "sf_open (fs name) = None"
  shows "rr_content (readFile fs name maxSize content p) = take (size_t maxSize) (file_bytes (sf_reads (fs name)))"
    and "\<not> want_size p \<Longrightarrow> rr_err (readFile fs name maxSize content p) =
       (case file_error (sf_reads (fs name)) of
          Some e \<Rightarrow> if length (file_bytes (sf_reads (fs name))) < size_t maxSize then e else 0
        | None \<Rightarrow> 0)"
  using assms
  by (auto simp: readFile_def readToString_def ReadSmallFile_new_def read_loop_spec Let_def case_prod_unfold split: option.splits)

lemma readFile_fails:
  assumes "sf_open (fs name) = Some errno"
  shows "readFile fs name maxSize content p =
    \<lparr>rr_err = errno, rr_content = content, rr_size = None, rr_mtime = None, rr_ctime = None\<rparr>"
  using assms by (simp add: readFile_def readToString_def ReadSmallFile_new_def Let_def)

text \<open>\<^verbatim>\<open>readToBuffer\<close> leaves one byte for the terminator.\<close>

lemma readToBuffer_bounds:
  "readToBuffer f = (e, Some n, f') \<Longrightarrow> n = int (length (rf_buf f')) \<and> length (rf_buf f') < kBufferSize"
  using sys_read_length [of "kBufferSize - 1" "sf_reads (rf_file f)"]
  by (cases "sys_read (kBufferSize - 1) (sf_reads (rf_file f))")
     (auto simp: readToBuffer_def kBufferSize_def split: if_splits sum.splits)

section \<open>Process information\<close>

text \<open>The answers of the system at one moment: \<^verbatim>\<open>readlink("/proc/self/exe")\<close>, the identities, the password entry,
  \<^verbatim>\<open>gethostname\<close>, the two directories, \<^verbatim>\<open>getrlimit\<close>, \<^verbatim>\<open>times\<close> (user and system ticks), the file system and the clock. \<^const>\<open>None\<close> is
  a call that fails. The last two fields are the globals initialised at start.\<close>

record process_world =
  pw_exe :: "string option"
  pw_pid :: int
  pw_pwname :: "string option"
  pw_hostname :: "string option"
  pw_dir :: "string \<Rightarrow> string list option"
  pw_nofile :: "int option"
  pw_times :: "(int \<times> int) option"
  pw_files :: "string \<Rightarrow> system_file"
  pw_now :: Timestamp
  gStartTime :: Timestamp
  gClockTicks :: int

definition kPathMax :: nat where "kPathMax = 4096"

text \<open>A zeroed array that \<open>readlink\<close> has filled is a C string only while the last byte is still zero.\<close>

definition processname :: "'a process_world_scheme \<Rightarrow> string option" where
  "processname w =
     (case pw_exe w of
        None \<Rightarrow> Some ''''
      | Some target \<Rightarrow> do {
          let processdir = take kPathMax target;
          assertion (length processdir < kPathMax);
          assertion (CHR ''/'' \<in> set processdir);
          Some (base_name processdir) })"

definition username :: "'a process_world_scheme \<Rightarrow> string" where
  "username w = (case pw_pwname w of Some name \<Rightarrow> name | None \<Rightarrow> ''unknownuser'')"

definition hostname :: "'a process_world_scheme \<Rightarrow> string" where
  "hostname w = (case pw_hostname w of Some name \<Rightarrow> take 255 name | None \<Rightarrow> ''unknownhost'')"

definition exePath :: "'a process_world_scheme \<Rightarrow> string" where
  "exePath w = (case pw_exe w of Some target \<Rightarrow> take 1024 target | None \<Rightarrow> '''')"

subsection \<open>Directories\<close>

text \<open>A filter sees one name, may change its state, and says whether to keep the entry.\<close>

definition fdDirFilter :: "string \<Rightarrow> int \<Rightarrow> int \<times> int" where
  "fdDirFilter name tNumOpenFiles =
     (0, if name \<noteq> [] \<and> is_digit (hd name) then tNumOpenFiles + 1 else tNumOpenFiles)"

text \<open>\<^verbatim>\<open>strtol\<close> in base ten, which saturates, and \<^verbatim>\<open>atoi\<close>, which is its low half.\<close>

definition strtol :: "string \<Rightarrow> int" where
  "strtol str =
     (let s = dropWhile isspace str;
          neg = (s \<noteq> [] \<and> hd s = CHR ''-'');
          s = (if s \<noteq> [] \<and> (hd s = CHR ''-'' \<or> hd s = CHR ''+'') then tl s else s);
          v = int (dec_value (takeWhile is_digit s))
      in if neg then max (- (2 ^ 63)) (- v) else min (2 ^ 63 - 1) v)"

definition atoi :: "string \<Rightarrow> int" where
  "atoi str = int32 (strtol str)"

definition taskDirFilter :: "string \<Rightarrow> int list \<Rightarrow> int \<times> int list" where
  "taskDirFilter name tPids = (0, if name \<noteq> [] \<and> is_digit (hd name) then tPids @ [atoi name] else tPids)"

text \<open>\<^verbatim>\<open>scandir\<close> gives every entry to the filter and sets \<^verbatim>\<open>namelist\<close> when some are kept.\<close>

primrec scan_entries :: "(string \<Rightarrow> 's \<Rightarrow> int \<times> 's) \<Rightarrow> string list \<Rightarrow> 's \<Rightarrow> string list \<times> 's" where
  "scan_entries f [] s = ([], s)"
| "scan_entries f (d # ds) s =
     (let (keep, s) = f d s; (kept, s) = scan_entries f ds s
      in (if keep \<noteq> 0 then d # kept else kept, s))"

definition scanDir :: "'a process_world_scheme \<Rightarrow> string \<Rightarrow> (string \<Rightarrow> 's \<Rightarrow> int \<times> 's) \<Rightarrow> 's \<Rightarrow> (int \<times> 's) option" where
  "scanDir w dirpath pick s =
     (case pw_dir w dirpath of
        None \<Rightarrow> Some (-1, s)
      | Some entries \<Rightarrow> do {
          let (namelist, s) = scan_entries pick entries s;
          assertion (namelist = []);
          Some (int (length namelist), s) })"

definition openedFiles :: "'a process_world_scheme \<Rightarrow> int option" where
  "openedFiles w = do { (_, tNumOpenFiles) \<leftarrow> scanDir w ''/proc/self/fd'' fdDirFilter 0; Some tNumOpenFiles }"

definition maxOpenFiles :: "'a process_world_scheme \<Rightarrow> int option" where
  "maxOpenFiles w = (case pw_nofile w of None \<Rightarrow> openedFiles w | Some rlim_cur \<Rightarrow> Some (int32 rlim_cur))"

definition process_threads :: "'a process_world_scheme \<Rightarrow> int list option" where
  "process_threads w = do { (_, result) \<leftarrow> scanDir w ''/proc/self/task'' taskDirFilter []; Some (sort result) }"

subsection \<open>Files under /proc\<close>

definition procStatus :: "'a process_world_scheme \<Rightarrow> string" where
  "procStatus w = rr_content (readFile (pw_files w) ''/proc/self/status'' 65536 '''' no_places)"

definition procStat :: "'a process_world_scheme \<Rightarrow> string" where
  "procStat w = rr_content (readFile (pw_files w) ''/proc/self/stat'' 65536 '''' no_places)"

text \<open>\<^verbatim>\<open>string::find\<close> of a character and of a string, \<^verbatim>\<open>rfind\<close> of a character; \<^const>\<open>None\<close> is \<^verbatim>\<open>npos\<close>.\<close>

definition find_char :: "char \<Rightarrow> string \<Rightarrow> nat option" where
  "find_char c s = (if c \<in> set s then Some (find_index (\<lambda>x. x = c) s) else None)"

definition rfind_char :: "char \<Rightarrow> string \<Rightarrow> nat option" where
  "rfind_char c s = (if c \<in> set s then Some (length s - 1 - find_index (\<lambda>x. x = c) (rev s)) else None)"

fun find_str :: "string \<Rightarrow> string \<Rightarrow> nat option" where
  "find_str key s =
     (if take (length key) s = key then Some 0
      else case s of [] \<Rightarrow> None | c # cs \<Rightarrow> map_option Suc (find_str key cs))"

declare find_str.simps [simp del]

text \<open>\<^verbatim>\<open>name.assign(p, rp - lp - 2)\<close>: with nothing between the parentheses the length is \<open>-1\<close>, and \<^verbatim>\<open>assign\<close> throws.\<close>

definition procname :: "string \<Rightarrow> string option" where
  "procname stat =
     (case (find_char CHR ''('' stat, rfind_char CHR '')'' stat) of
        (Some lp, Some rp) \<Rightarrow>
          if lp < rp then
            if rp = lp + 1 then None else Some (take (rp - lp - 2) (drop (lp + 1) stat))
          else Some ''''
      | _ \<Rightarrow> Some '''')"

definition numThreads :: "'a process_world_scheme \<Rightarrow> int" where
  "numThreads w =
     (let status = procStatus w
      in case find_str ''Threads:'' status of None \<Rightarrow> 0 | Some pos \<Rightarrow> atoi (drop (pos + 8) status))"

record CpuTime =
  userSeconds :: rat
  systemSeconds :: rat

definition cpuTime :: "'a process_world_scheme \<Rightarrow> CpuTime" where
  "cpuTime w =
     (case pw_times w of
        Some (utime, stime) \<Rightarrow>
          let hz = rat_of_int (gClockTicks w)
          in \<lparr>userSeconds = rat_of_int utime / hz, systemSeconds = rat_of_int stime / hz\<rparr>
      | None \<Rightarrow> \<lparr>userSeconds = 0, systemSeconds = 0\<rparr>)"

subsection \<open>Their results\<close>

lemma scan_fds:
  "scan_entries fdDirFilter ds n = ([], n + int (length (filter (\<lambda>d. d \<noteq> [] \<and> is_digit (hd d)) ds)))"
  by (induction ds arbitrary: n) (auto simp: fdDirFilter_def)

lemma scan_tasks:
  "scan_entries taskDirFilter ds ps = ([], ps @ map atoi (filter (\<lambda>d. d \<noteq> [] \<and> is_digit (hd d)) ds))"
  by (induction ds arbitrary: ps) (auto simp: taskDirFilter_def)

lemma openedFiles_count:
  "openedFiles w = Some (case pw_dir w ''/proc/self/fd'' of None \<Rightarrow> 0
     | Some ds \<Rightarrow> int (length (filter (\<lambda>d. d \<noteq> [] \<and> is_digit (hd d)) ds)))"
  by (simp add: openedFiles_def scanDir_def scan_fds split: option.split)

lemma process_threads_sorted:
  "process_threads w = Some (case pw_dir w ''/proc/self/task'' of None \<Rightarrow> []
     | Some ds \<Rightarrow> sort (map atoi (filter (\<lambda>d. d \<noteq> [] \<and> is_digit (hd d)) ds)))"
  by (simp add: process_threads_def scanDir_def scan_tasks split: option.split)

lemma maxOpenFiles_returns: "\<exists>n. maxOpenFiles w = Some n"
  by (simp add: maxOpenFiles_def openedFiles_count split: option.split)

text \<open>A number in a string is read back, whatever follows it.\<close>

lemma takeWhile_dec: "\<not> (s \<noteq> [] \<and> is_digit (hd s)) \<Longrightarrow> takeWhile is_digit (dec n @ s) = dec n"
  by (subst takeWhile_append2) (auto simp: dec_is_digit takeWhile_eq_Nil_iff)

lemma strtol_dec:
  assumes "\<not> (s \<noteq> [] \<and> is_digit (hd s))" "int n < 2 ^ 63" "\<forall>c\<in>set sp. isspace c"
  shows "strtol (sp @ dec n @ s) = int n"
proof -
  obtain d ds where d: "dec n = d # ds" by (metis neq_Nil_conv dec_nonempty)
  then have "is_digit d" using dec_is_digit [of d n] by simp
  note sign = digit_not_space [OF this]
  have "dropWhile isspace (sp @ dec n @ s) = dec n @ s"
    using assms(3) sign d by (simp add: dropWhile_append2 dropWhile_append3)
  moreover have "hd (dec n) \<noteq> CHR ''-''" "hd (dec n) \<noteq> CHR ''+''" using sign d by auto
  ultimately show ?thesis
    using assms(2) by (simp add: strtol_def takeWhile_dec [OF assms(1)] Let_def)
qed

text \<open>The name between the parentheses loses its last character.\<close>


lemma procname_drops_last:
  assumes "CHR ''('' \<notin> set before" "CHR '')'' \<notin> set after" "name \<noteq> []"
  shows "procname (before @ ''('' @ name @ '')'' @ after) = Some (butlast name)"
proof -
  let ?s = "before @ ''('' @ name @ '')'' @ after"
  have "find_char CHR ''('' ?s = Some (length before)"
    using assms(1) by (auto simp: find_char_def find_index_append)
  moreover have "find_index (\<lambda>x. x = CHR '')'') (rev ?s) = length after"
    using assms(2) by (auto simp: find_index_append)
  then have "rfind_char CHR '')'' ?s = Some (length before + 1 + length name)"
    by (simp add: rfind_char_def)
  ultimately show ?thesis
    using assms(3) by (simp add: procname_def butlast_conv_take)
qed

lemma procname_empty_throws: "procname ''7 () S 1'' = None"
  by (simp add: procname_def find_char_def rfind_char_def)

end
