(* ===== verification/Inspect.thy ===== *)
theory Inspect
  imports ProcInfo "HOL-Library.Product_Lexorder"
begin

text \<open>
  The inspector: \<^verbatim>\<open>Inspector.cpp\<close>, an HTTP server whose paths \<^verbatim>\<open>/module/command/arguments\<close> name callbacks, and the commands
  \<^verbatim>\<open>ProcessInspector.cpp\<close> and \<^verbatim>\<open>SystemInspector.cpp\<close> register with it.

  A callback reads the system at the moment of the request (\<open>'w\<close>) and gives the body, or stops the process (\<^const>\<open>None\<close>); a
  \<^verbatim>\<open>std::function\<close> may be empty. What the requests log is left out.
\<close>

section \<open>Paths\<close>

text \<open>\<^verbatim>\<open>split\<close>: \<open>start\<close> is the position after the last slash, and \<open>pos\<close>, the next slash, is always the answer to
  \<^verbatim>\<open>str.find('/', start)\<close>.\<close>

definition find_from :: "char \<Rightarrow> string \<Rightarrow> nat \<Rightarrow> nat option" where
  "find_from c str start = map_option (\<lambda>i. start + i) (find_char c (drop start str))"

lemma find_from_bounds: "find_from c str start = Some pos \<Longrightarrow> start \<le> pos \<and> pos < length str"
  using find_index_less_iff [of "\<lambda>x. x = c" "drop start str"]
  by (auto simp: find_from_def find_char_def split: if_splits)

function split_loop :: "string \<Rightarrow> nat \<Rightarrow> string list \<Rightarrow> string list" where
  "split_loop str start result =
     (case find_from CHR ''/'' str start of
        Some pos \<Rightarrow> split_loop str (pos + 1) (if pos > start then result @ [between start pos str] else result)
      | None \<Rightarrow> if start < length str then result @ [drop start str] else result)"
  by pat_completeness auto
termination
  by (relation "measure (\<lambda>(str, start, result). length str - start)") (auto dest!: find_from_bounds)

declare split_loop.simps [simp del]

definition split :: "string \<Rightarrow> string list" where
  "split str = split_loop str 0 []"

section \<open>The inspector\<close>

text \<open>The icon answered for \<^verbatim>\<open>/favicon.ico\<close>.\<close>

definition favicon :: string where
  "favicon = map (char_of :: nat \<Rightarrow> char) (concat [
     [137, 80, 78, 71, 13, 10, 26, 10, 0, 0, 0, 13, 73, 72, 68, 82, 0, 0, 0, 16, 0, 0, 0, 16, 8, 6, 0, 0, 0, 31],
     [243, 255, 97, 0, 0, 0, 4, 115, 66, 73, 84, 8, 8, 8, 8, 124, 8, 100, 136, 0, 0, 0, 9, 112, 72, 89, 115, 0, 0, 11],
     [18, 0, 0, 11, 18, 1, 210, 221, 126, 252, 0, 0, 0, 28, 116, 69, 88, 116, 83, 111, 102, 116, 119, 97, 114, 101, 0, 65, 100, 111],
     [98, 101, 32, 70, 105, 114, 101, 119, 111, 114, 107, 115, 32, 67, 83, 51, 152, 214, 70, 3, 0, 0, 0, 21, 116, 69, 88, 116, 67, 114],
     [101, 97, 116, 105, 111, 110, 32, 84, 105, 109, 101, 0, 50, 47, 49, 55, 47, 48, 56, 32, 156, 170, 88, 0, 0, 4, 17, 116, 69, 88],
     [116, 88, 77, 76, 58, 99, 111, 109, 46, 97, 100, 111, 98, 101, 46, 120, 109, 112, 0, 60, 63, 120, 112, 97, 99, 107, 101, 116, 32, 98],
     [101, 103, 105, 110, 61, 34, 32, 32, 32, 34, 32, 105, 100, 61, 34, 87, 53, 77, 48, 77, 112, 67, 101, 104, 105, 72, 122, 114, 101, 83],
     [122, 78, 84, 99, 122, 107, 99, 57, 100, 34, 63, 62, 10, 60, 120, 58, 120, 109, 112, 109, 101, 116, 97, 32, 120, 109, 108, 110, 115, 58],
     [120, 61, 34, 97, 100, 111, 98, 101, 58, 110, 115, 58, 109, 101, 116, 97, 47, 34, 32, 120, 58, 120, 109, 112, 116, 107, 61, 34, 65, 100],
     [111, 98, 101, 32, 88, 77, 80, 32, 67, 111, 114, 101, 32, 52, 46, 49, 45, 99, 48, 51, 52, 32, 52, 54, 46, 50, 55, 50, 57, 55],
     [54, 44, 32, 83, 97, 116, 32, 74, 97, 110, 32, 50, 55, 32, 50, 48, 48, 55, 32, 50, 50, 58, 49, 49, 58, 52, 49, 32, 32, 32],
     [32, 32, 32, 32, 32, 34, 62, 10, 32, 32, 32, 60, 114, 100, 102, 58, 82, 68, 70, 32, 120, 109, 108, 110, 115, 58, 114, 100, 102, 61],
     [34, 104, 116, 116, 112, 58, 47, 47, 119, 119, 119, 46, 119, 51, 46, 111, 114, 103, 47, 49, 57, 57, 57, 47, 48, 50, 47, 50, 50, 45],
     [114, 100, 102, 45, 115, 121, 110, 116, 97, 120, 45, 110, 115, 35, 34, 62, 10, 32, 32, 32, 32, 32, 32, 60, 114, 100, 102, 58, 68, 101],
     [115, 99, 114, 105, 112, 116, 105, 111, 110, 32, 114, 100, 102, 58, 97, 98, 111, 117, 116, 61, 34, 34, 10, 32, 32, 32, 32, 32, 32, 32],
     [32, 32, 32, 32, 32, 120, 109, 108, 110, 115, 58, 120, 97, 112, 61, 34, 104, 116, 116, 112, 58, 47, 47, 110, 115, 46, 97, 100, 111, 98],
     [101, 46, 99, 111, 109, 47, 120, 97, 112, 47, 49, 46, 48, 47, 34, 62, 10, 32, 32, 32, 32, 32, 32, 32, 32, 32, 60, 120, 97, 112],
     [58, 67, 114, 101, 97, 116, 111, 114, 84, 111, 111, 108, 62, 65, 100, 111, 98, 101, 32, 70, 105, 114, 101, 119, 111, 114, 107, 115, 32, 67],
     [83, 51, 60, 47, 120, 97, 112, 58, 67, 114, 101, 97, 116, 111, 114, 84, 111, 111, 108, 62, 10, 32, 32, 32, 32, 32, 32, 32, 32, 32],
     [60, 120, 97, 112, 58, 67, 114, 101, 97, 116, 101, 68, 97, 116, 101, 62, 50, 48, 48, 56, 45, 48, 50, 45, 49, 55, 84, 48, 50, 58],
     [51, 54, 58, 52, 53, 90, 60, 47, 120, 97, 112, 58, 67, 114, 101, 97, 116, 101, 68, 97, 116, 101, 62, 10, 32, 32, 32, 32, 32, 32],
     [32, 32, 32, 60, 120, 97, 112, 58, 77, 111, 100, 105, 102, 121, 68, 97, 116, 101, 62, 50, 48, 48, 56, 45, 48, 51, 45, 50, 52, 84],
     [49, 57, 58, 48, 48, 58, 52, 50, 90, 60, 47, 120, 97, 112, 58, 77, 111, 100, 105, 102, 121, 68, 97, 116, 101, 62, 10, 32, 32, 32],
     [32, 32, 32, 60, 47, 114, 100, 102, 58, 68, 101, 115, 99, 114, 105, 112, 116, 105, 111, 110, 62, 10, 32, 32, 32, 32, 32, 32, 60, 114],
     [100, 102, 58, 68, 101, 115, 99, 114, 105, 112, 116, 105, 111, 110, 32, 114, 100, 102, 58, 97, 98, 111, 117, 116, 61, 34, 34, 10, 32, 32],
     [32, 32, 32, 32, 32, 32, 32, 32, 32, 32, 120, 109, 108, 110, 115, 58, 100, 99, 61, 34, 104, 116, 116, 112, 58, 47, 47, 112, 117, 114],
     [108, 46, 111, 114, 103, 47, 100, 99, 47, 101, 108, 101, 109, 101, 110, 116, 115, 47, 49, 46, 49, 47, 34, 62, 10, 32, 32, 32, 32, 32],
     [32, 32, 32, 32, 60, 100, 99, 58, 102, 111, 114, 109, 97, 116, 62, 105, 109, 97, 103, 101, 47, 112, 110, 103, 60, 47, 100, 99, 58, 102],
     [111, 114, 109, 97, 116, 62, 10, 32, 32, 32, 32, 32, 32, 60, 47, 114, 100, 102, 58, 68, 101, 115, 99, 114, 105, 112, 116, 105, 111, 110],
     [62, 10, 32, 32, 32, 60, 47, 114, 100, 102, 58, 82, 68, 70, 62, 10, 60, 47, 120, 58, 120, 109, 112, 109, 101, 116, 97, 62, 10, 32],
     [32, 32, 32, 32, 32, 32, 32, 32, 32, 32, 32, 32, 32, 32, 32, 32, 32, 32, 32, 32, 32, 32, 32, 32, 32, 32, 32, 32, 32, 32],
     [32, 32, 32, 32, 32, 32, 32, 32, 32, 32, 32, 32, 32, 32, 32, 32, 32, 32, 32, 32, 32, 32, 32, 32, 32, 32, 32, 32, 32, 32],
     [32, 32, 32, 32, 32, 32, 32, 32, 32, 32, 32, 32, 32, 32, 32, 32, 32, 32, 32, 32, 32, 32, 32, 32, 32, 32, 32, 32, 32, 32],
     [32, 32, 32, 32, 32, 32, 32, 32, 32, 10, 32, 32, 32, 32, 32, 32, 32, 32, 32, 32, 32, 32, 32, 32, 32, 32, 32, 32, 32, 32],
     [32, 32, 32, 32, 32, 32, 32, 32, 32, 32, 32, 32, 32, 32, 32, 32, 32, 32, 32, 32, 32, 32, 32, 32, 32, 32, 32, 32, 32, 32],
     [32, 32, 32, 32, 32, 32, 32, 32, 32, 32, 32, 32, 32, 32, 32, 32, 32, 32, 32, 32, 32, 32, 32, 32, 32, 32, 32, 32, 32, 32],
     [32, 32, 32, 32, 32, 32, 32, 32, 32, 32, 32, 32, 32, 32, 32, 32, 32, 32, 32, 32, 10, 32, 32, 32, 32, 32, 32, 32, 32, 32],
     [32, 32, 32, 32, 32, 32, 32, 32, 32, 32, 32, 32, 32, 32, 32, 32, 32, 32, 32, 32, 32, 32, 32, 32, 32, 32, 32, 32, 32, 32],
     [32, 32, 32, 32, 32, 32, 32, 32, 32, 32, 32, 32, 32, 32, 32, 32, 32, 32, 32, 32, 32, 32, 32, 32, 32, 32, 32, 32, 32, 32],
     [32, 32, 32, 32, 32, 32, 32, 32, 32, 32, 32, 32, 32, 32, 32, 32, 32, 32, 32, 32, 32, 32, 53, 29, 82, 100, 0, 0, 2, 11],
     [73, 68, 65, 84, 56, 141, 165, 147, 65, 107, 26, 65, 24, 134, 159, 137, 6, 35, 46, 116, 245, 32, 74, 14, 107, 32, 228, 226, 165, 120],
     [200, 161, 120, 137, 130, 23, 133, 130, 130, 61, 38, 98, 88, 114, 205, 79, 241, 24, 75, 27, 47, 165, 50, 224, 181, 158, 53, 26, 88, 47],
     [233, 15, 232, 101, 109, 132, 162, 132, 44, 10, 107, 88, 98, 167, 135, 104, 104, 19, 161, 165, 121, 225, 59, 12, 195, 251, 204, 55, 239, 124],
     [35, 148, 82, 188, 68, 126, 0, 33, 4, 0, 173, 86, 203, 24, 143, 199, 13, 219, 182, 211, 142, 227, 248, 131, 193, 160, 138, 199, 227, 63],
     [18, 137, 68, 185, 92, 46, 247, 86, 166, 223, 15, 21, 74, 41, 132, 16, 52, 155, 205, 119, 150, 101, 125, 54, 12, 67, 228, 114, 57, 226],
     [241, 56, 183, 183, 183, 244, 251, 125, 6, 131, 1, 169, 84, 234, 67, 165, 82, 57, 126, 10, 64, 41, 69, 171, 213, 50, 78, 79, 79, 127],
     [74, 41, 213, 221, 221, 221, 179, 234, 245, 122, 234, 228, 228, 68, 73, 41, 211, 43, 207, 170, 54, 0, 198, 227, 113, 99, 103, 103, 71, 228],
     [243, 121, 0, 60, 207, 163, 80, 40, 224, 186, 46, 158, 231, 145, 74, 165, 216, 219, 219, 99, 52, 26, 125, 124, 154, 193, 6, 128, 109, 219],
     [233, 108, 54, 139, 207, 231, 195, 243, 60, 92, 215, 5, 96, 54, 155, 225, 186, 46, 139, 197, 130, 76, 38, 131, 109, 219, 187, 107, 67, 116],
     [28, 199, 31, 139, 197, 0, 40, 22, 139, 143, 155, 213, 106, 21, 0, 41, 37, 154, 166, 49, 159, 207, 197, 90, 192, 214, 214, 150, 154, 76],
     [38, 34, 20, 10, 33, 165, 100, 54, 155, 81, 173, 86, 169, 213, 106, 104, 154, 6, 192, 245, 245, 53, 186, 174, 223, 175, 189, 130, 97, 24],
     [223, 44, 203, 122, 32, 250, 253, 4, 2, 1, 0, 52, 77, 35, 16, 8, 176, 88, 44, 232, 118, 187, 36, 18, 137, 139, 181, 29, 108, 111],
     [111, 31, 117, 58, 157, 126, 56, 28, 38, 151, 203, 33, 132, 64, 74, 9, 192, 230, 230, 38, 237, 118, 155, 201, 100, 162, 166, 211, 233, 39],
     [120, 152, 155, 213, 83, 62, 206, 193, 249, 249, 249, 251, 193, 96, 112, 156, 76, 38, 217, 223, 223, 39, 18, 137, 48, 28, 14, 185, 188, 188],
     [228, 230, 230, 70, 249, 124, 190, 47, 211, 233, 52, 15, 52, 234, 245, 122, 229, 25, 96, 25, 214, 155, 209, 104, 212, 24, 14, 135, 187, 243],
     [249, 92, 232, 186, 126, 111, 24, 198, 69, 52, 26, 61, 44, 149, 74, 223, 77, 211, 188, 2, 94, 3, 95, 129, 131, 179, 179, 51, 231, 15],
     [192, 223, 100, 154, 166, 177, 52, 235, 128, 3, 28, 108, 252, 147, 115, 169, 122, 189, 110, 3, 71, 203, 165, 14, 188, 226, 127, 126, 163, 105],
     [154, 135, 166, 105, 190, 85, 74, 61, 100, 240, 18, 253, 2, 13, 83, 6, 36, 136, 63, 225, 105, 0, 0, 0, 0, 73, 69, 78, 68, 174],
     [66, 96, 130]])"

lemma length_favicon: "length favicon = 1743"
  by (simp add: favicon_def)

type_synonym 'w Callback = "('w \<Rightarrow> Method \<Rightarrow> string list \<Rightarrow> string option) option"

record 'w Inspector =
  ins_name :: string
  ins_started :: bool
  ins_modules :: "(string, (string, 'w Callback) std_map) std_map"
  ins_helps :: "(string, (string, string) std_map) std_map"

text \<open>\<^verbatim>\<open>m[k]\<close> of a map of maps.\<close>

definition inner :: "('k, ('j, 'v) std_map) std_map \<Rightarrow> 'k \<Rightarrow> ('j, 'v) std_map" where
  "inner m k = (case map_find m k of Some l \<Rightarrow> l | None \<Rightarrow> [])"

definition Inspector_add :: "string \<Rightarrow> string \<Rightarrow> 'w Callback \<Rightarrow> string \<Rightarrow> 'w Inspector \<Rightarrow> 'w Inspector" where
  "Inspector_add mname command cb help ins =
     ins\<lparr>ins_modules := map_put (ins_modules ins) mname (map_put (inner (ins_modules ins) mname) command cb),
         ins_helps := map_put (ins_helps ins) mname (map_put (inner (ins_helps ins) mname) command help)\<rparr>"

definition Inspector_remove :: "string \<Rightarrow> string \<Rightarrow> 'w Inspector \<Rightarrow> 'w Inspector" where
  "Inspector_remove mname command ins =
     (case map_find (ins_modules ins) mname of
        None \<Rightarrow> ins
      | Some l \<Rightarrow>
          ins\<lparr>ins_modules := map_put (ins_modules ins) mname (snd (map_erase l command)),
              ins_helps := map_put (ins_helps ins) mname (snd (map_erase (inner (ins_helps ins) mname) command))\<rparr>)"

definition Inspector_start :: "'w Inspector \<Rightarrow> 'w Inspector" where
  "Inspector_start ins = ins\<lparr>ins_started := True\<rparr>"

text \<open>One line of the page \<^verbatim>\<open>/\<close>, and the page.\<close>

definition help_line :: "string \<Rightarrow> string \<times> string \<Rightarrow> string" where
  "help_line mname it =
     (let len = length mname + length (fst it)
      in ''/'' @ mname @ ''/'' @ fst it @ replicate (if len \<ge> 25 then 1 else 25 - len) CHR '' '' @ snd it @ [CHR 0x0A])"

definition help_page :: "(string, (string, string) std_map) std_map \<Rightarrow> string" where
  "help_page helps =
     foldl (\<lambda>result helpList. foldl (\<lambda>result it. result @ help_line (fst helpList) it) result (snd helpList)) '''' helps"

definition answer :: "HttpResponse \<Rightarrow> string \<Rightarrow> string \<Rightarrow> HttpResponse" where
  "answer resp contentType body =
     setBody (HttpResponse_setContentType (setStatusMessage (setStatusCode resp K200_OK) ''OK'') contentType) body"

definition Inspector_onRequest :: "'w \<Rightarrow> 'w Inspector \<Rightarrow> HttpRequest \<Rightarrow> HttpResponse \<Rightarrow> HttpResponse option" where
  "Inspector_onRequest w ins req resp =
     (if req_path req = ''/'' then Some (answer resp ''text/plain'' (help_page (ins_helps ins)))
      else
        let notFound = setStatusMessage (setStatusCode resp K404_NOT_FOUND) ''Not Found''
        in case split (req_path req) of
             [] \<Rightarrow> Some notFound
           | [mname] \<Rightarrow> if mname = ''favicon.ico'' then Some (answer resp ''image/png'' favicon) else Some notFound
           | mname # command # args \<Rightarrow>
               (case map_find (ins_modules ins) mname of
                  None \<Rightarrow> Some notFound
                | Some commList \<Rightarrow>
                    (case map_find commList command of
                       Some (Some cb) \<Rightarrow> do { body \<leftarrow> cb w (req_method req) args; Some (answer resp ''text/plain'' body) }
                     | _ \<Rightarrow> Some notFound)))"

section \<open>Commands on the process\<close>

text \<open>The system of a request: what \<^verbatim>\<open>ProcessInfo\<close> asks of it, \<^verbatim>\<open>uname\<close> (node name, machine, system, release, version), the
  library functions \<^verbatim>\<open>gmtime_r\<close>, \<^verbatim>\<open>%.3f\<close> and the tokens between the matches of a regular expression, and the static
  \<^verbatim>\<open>username_\<close>.\<close>

record inspected = process_world +
  iw_uname :: "(string \<times> string \<times> string \<times> string \<times> string) option"
  iw_gmtime :: "int \<Rightarrow> tm"
  iw_fixed3 :: "rat \<Rightarrow> string"
  iw_tokens :: "string \<Rightarrow> string \<Rightarrow> string list"
  iw_username :: string

text \<open>\<^verbatim>\<open>%0wd\<close> puts the zeros after a sign.\<close>

definition dec0 :: "nat \<Rightarrow> int \<Rightarrow> string" where
  "dec0 k i = (if i < 0 then CHR ''-'' # pad0 (k - 1) (dec (nat (- i))) else pad0 k (dec (nat i)))"

definition uptime :: "Timestamp \<Rightarrow> Timestamp \<Rightarrow> bool \<Rightarrow> string" where
  "uptime now start showMicroseconds =
     (let age = now - start;
          seconds = int32 (age sdiv kMicroSecondsPerSecond);
          days = seconds sdiv 86400;
          hours = (seconds smod 86400) sdiv 3600;
          minutes = (seconds smod 3600) sdiv 60;
          common = dec_int days @ '' days '' @ dec0 2 hours @ '':'' @ dec0 2 minutes @ '':'' @ dec0 2 (seconds smod 60)
      in if showMicroseconds then snprintf 256 (common @ ''.'' @ dec0 6 (int32 (age smod kMicroSecondsPerSecond)))
         else snprintf 256 common)"

definition getLong :: "string \<Rightarrow> string \<Rightarrow> int" where
  "getLong content key =
     (case find_str key content of None \<Rightarrow> 0 | Some pos \<Rightarrow> strtol (drop (pos + length key) content))"

text \<open>The loops of \<^verbatim>\<open>getProcessName\<close> read up to the end of the line; without one they leave the string.\<close>

definition getProcessName :: "string \<Rightarrow> string option" where
  "getProcessName status =
     (case find_str ''Name:'' status of
        None \<Rightarrow> Some ''''
      | Some pos \<Rightarrow> do {
          let rest = dropWhile (\<lambda>c. c = CHR 0x09) (drop (pos + 5) status);
          assertion (CHR 0x0A \<in> set rest);
          Some (takeWhile (\<lambda>c. c \<noteq> CHR 0x0A) rest) })"

definition getCpuTime :: "int \<Rightarrow> string list \<Rightarrow> CpuTime option" where
  "getCpuTime clockTicks vecStat = do {
     assertion (14 < length vecStat);
     let hz = rat_of_int clockTicks;
     Some \<lparr>userSeconds = rat_of_int (strtol (vecStat ! 13)) / hz, systemSeconds = rat_of_int (strtol (vecStat ! 14)) / hz\<rparr> }"

text \<open>\<^verbatim>\<open>stringPrintf\<close>, given the whole formatted text.\<close>

definition stringPrintf :: "string \<Rightarrow> string \<Rightarrow> string" where
  "stringPrintf out text = out @ snprintf 256 text"

definition c_str :: "string \<Rightarrow> string" where
  "c_str s = takeWhile (\<lambda>c. c \<noteq> CHR 0x00) s"

definition ProcessInspector_overview :: "inspected \<Rightarrow> Method \<Rightarrow> string list \<Rightarrow> string option" where
  "ProcessInspector_overview w _ _ = do {
     let now = pw_now w;
     let result = ''Page generated at '' @ toFormatTedString (iw_gmtime w) True now
       @ [CHR 0x0A] @ ''Started at '' @ toFormatTedString (iw_gmtime w) True (gStartTime w)
       @ '', up for '' @ uptime now (gStartTime w) True @ [CHR 0x0A];
     let status = procStatus w;
     name \<leftarrow> getProcessName status;
     let result = result @ name @ '' ('' @ exePath w @ '') running as '' @ iw_username w
       @ '' on '' @ hostname w @ [CHR 0x0A];
     let result = stringPrintf result (''pid '' @ dec_int (pw_pid w) @ '', num of threads '' @ dec_int (getLong status ''Threads:'')
       @ '', bits '' @ dec_int 64 @ [CHR 0x0A]);
     let result = result @ ''Virtual memory: '';
     let result = stringPrintf result (iw_fixed3 w (rat_of_int (getLong status ''VmSize:'') / 1024) @ '' MiB, '');
     let result = result @ ''RSS memory: '';
     let result = stringPrintf result (iw_fixed3 w (rat_of_int (getLong status ''VmRSS:'') / 1024) @ '' MiB'' @ [CHR 0x0A]);
     opened \<leftarrow> openedFiles w;
     limit \<leftarrow> maxOpenFiles w;
     let result = stringPrintf result (''Opened files: '' @ dec_int opened @ '', limit: '' @ dec_int limit @ [CHR 0x0A]);
     let t = cpuTime w;
     Some (stringPrintf result (''User time: '' @ pad_sp 12 (iw_fixed3 w (userSeconds t)) @ ''s'' @ [CHR 0x0A]
       @ ''Sys time:  '' @ pad_sp 12 (iw_fixed3 w (systemSeconds t)) @ ''s'' @ [CHR 0x0A])) }"

definition ProcessInspector_pid :: "inspected \<Rightarrow> Method \<Rightarrow> string list \<Rightarrow> string option" where
  "ProcessInspector_pid w _ _ = Some (snprintf 32 (dec_int (pw_pid w)))"

definition ProcessInspector_procStatus :: "inspected \<Rightarrow> Method \<Rightarrow> string list \<Rightarrow> string option" where
  "ProcessInspector_procStatus w _ _ = Some (procStatus w)"

definition ProcessInspector_openedFiles :: "inspected \<Rightarrow> Method \<Rightarrow> string list \<Rightarrow> string option" where
  "ProcessInspector_openedFiles w _ _ = do { n \<leftarrow> openedFiles w; Some (snprintf 32 (dec_int n)) }"

text \<open>One turn of the loop of \<^verbatim>\<open>threads\<close>.\<close>

definition thread_row :: "inspected \<Rightarrow> int \<Rightarrow> string \<Rightarrow> string option" where
  "thread_row w tid result = do {
     let path = snprintf 256 (''/proc/'' @ dec_int (pw_pid w) @ ''/task/'' @ dec_int tid @ ''/stat'');
     let r = readFile (pw_files w) path 65536 '''' no_places;
     if rr_err r = 0 then do {
       name \<leftarrow> procname (rr_content r);
       let vecStat = regexSplit (iw_tokens w) (rr_content r) '' +'';
       t \<leftarrow> getCpuTime (gClockTicks w) vecStat;
       let name = c_str name;
       Some (result @ snprintf 256 (pad_sp 5 (dec_int tid) @ '' '' @ name @ replicate (16 - length name) CHR '' '' @ '' ''
         @ c_str (vecStat ! 2) @ '' '' @ pad_sp 12 (iw_fixed3 w (userSeconds t)) @ '' ''
         @ pad_sp 12 (iw_fixed3 w (systemSeconds t)) @ [CHR 0x0A])) }
     else Some result }"

definition ProcessInspector_threads :: "inspected \<Rightarrow> Method \<Rightarrow> string list \<Rightarrow> string option" where
  "ProcessInspector_threads w _ _ = do {
     allThreads \<leftarrow> process_threads w;
     foldo (thread_row w) allThreads (''  TID NAME             S    User Time  System Time'' @ [CHR 0x0A]) }"

definition ProcessInspector_registerCommands :: "inspected Inspector \<Rightarrow> inspected Inspector" where
  "ProcessInspector_registerCommands ins =
     (let ins = Inspector_add ''proc'' ''overview'' (Some ProcessInspector_overview) ''print basic overview'' ins;
          ins = Inspector_add ''proc'' ''pid'' (Some ProcessInspector_pid) ''print pid'' ins;
          ins = Inspector_add ''proc'' ''status'' (Some ProcessInspector_procStatus) ''print /proc/self/status'' ins
      in Inspector_add ''proc'' ''threads'' (Some ProcessInspector_threads) ''list /proc/self/task'' ins)"

section \<open>Commands on the system\<close>

definition proc_file :: "inspected \<Rightarrow> string \<Rightarrow> string" where
  "proc_file w path = rr_content (readFile (pw_files w) path 65536 '''' no_places)"

definition mib :: "int \<Rightarrow> string" where
  "mib kb = pad_sp 6 (dec_int (kb sdiv 1024)) @ '' MiB'' @ [CHR 0x0A]"

definition SystemInspector_overview :: "inspected \<Rightarrow> Method \<Rightarrow> string list \<Rightarrow> string option" where
  "SystemInspector_overview w _ _ =
     (let now = pw_now w;
          result = ''Page generated at '' @ toFormatTedString (iw_gmtime w) True now @ '' (UTC)'' @ [CHR 0x0A];
          result = (case iw_uname w of
              None \<Rightarrow> result
            | Some (nodename, machine, sysname, release, version) \<Rightarrow>
                let result = stringPrintf result (''Hostname: '' @ nodename @ [CHR 0x0A]);
                    result = stringPrintf result (''Machine: '' @ machine @ [CHR 0x0A])
                in stringPrintf result (''OS: '' @ sysname @ '' '' @ release @ '' '' @ version @ [CHR 0x0A]));
          stat = proc_file w ''/proc/stat'';
          bootTime = kMicroSecondsPerSecond * getLong stat ''btime '';
          result = result @ ''Boot time: '' @ toFormatTedString (iw_gmtime w) False bootTime @ '' (UTC)'' @ [CHR 0x0A];
          result = result @ ''Up time: '' @ uptime now bootTime False @ [CHR 0x0A];
          loadavg = proc_file w ''/proc/loadavg'';
          result = stringPrintf result (''Processes created: '' @ dec_int (getLong stat ''processes '') @ [CHR 0x0A]);
          result = stringPrintf result (''Loadavg: '' @ c_str loadavg @ [CHR 0x0A]);
          meminfo = proc_file w ''/proc/meminfo'';
          totalKb = getLong meminfo ''MemTotal:'';
          freeKb = getLong meminfo ''MemFree:'';
          buffersKb = getLong meminfo ''Buffers:'';
          cachedKb = getLong meminfo ''Cached:'';
          result = stringPrintf result (''Total Memory: '' @ mib totalKb);
          result = stringPrintf result (''Free Memory:  '' @ mib freeKb);
          result = stringPrintf result (''Buffers:      '' @ mib buffersKb);
          result = stringPrintf result (''Cached:       '' @ mib cachedKb);
          result = stringPrintf result (''Real Used:    '' @ mib (totalKb - freeKb - buffersKb - cachedKb))
      in Some (stringPrintf result (''Real Free:    '' @ mib (freeKb + buffersKb + cachedKb))))"

definition SystemInspector_loadavg :: "inspected \<Rightarrow> Method \<Rightarrow> string list \<Rightarrow> string option" where
  "SystemInspector_loadavg w _ _ = Some (proc_file w ''/proc/loadavg'')"

definition SystemInspector_version :: "inspected \<Rightarrow> Method \<Rightarrow> string list \<Rightarrow> string option" where
  "SystemInspector_version w _ _ = Some (proc_file w ''/proc/version'')"

definition SystemInspector_cpuinfo :: "inspected \<Rightarrow> Method \<Rightarrow> string list \<Rightarrow> string option" where
  "SystemInspector_cpuinfo w _ _ = Some (proc_file w ''/proc/cpuinfo'')"

definition SystemInspector_meminfo :: "inspected \<Rightarrow> Method \<Rightarrow> string list \<Rightarrow> string option" where
  "SystemInspector_meminfo w _ _ = Some (proc_file w ''/proc/meminfo'')"

definition SystemInspector_stat :: "inspected \<Rightarrow> Method \<Rightarrow> string list \<Rightarrow> string option" where
  "SystemInspector_stat w _ _ = Some (proc_file w ''/proc/stat'')"

definition SystemInspector_registerCommands :: "inspected Inspector \<Rightarrow> inspected Inspector" where
  "SystemInspector_registerCommands ins =
     (let ins = Inspector_add ''sys'' ''overview'' (Some SystemInspector_overview) ''print system overview'' ins;
          ins = Inspector_add ''sys'' ''loadavg'' (Some SystemInspector_loadavg) ''print /proc/loadavg'' ins;
          ins = Inspector_add ''sys'' ''version'' (Some SystemInspector_version) ''print /proc/version'' ins;
          ins = Inspector_add ''sys'' ''cpuinfo'' (Some SystemInspector_cpuinfo) ''print /proc/cpuinfo'' ins;
          ins = Inspector_add ''sys'' ''meminfo'' (Some SystemInspector_meminfo) ''print /proc/meminfo'' ins
      in Inspector_add ''sys'' ''stat'' (Some SystemInspector_stat) ''print /proc/stat'' ins)"

text \<open>The constructor asserts that it runs in the main thread and that there is no other inspector; it leaves the start of the
  server to the loop.\<close>

definition Inspector_new :: "bool \<Rightarrow> bool \<Rightarrow> string \<Rightarrow> inspected Inspector option" where
  "Inspector_new isMainThread globalInspector name = do {
     assertion isMainThread;
     assertion (\<not> globalInspector);
     let ins = \<lparr>ins_name = ''Inspector:'' @ name, ins_started = False, ins_modules = [], ins_helps = []\<rparr>;
     Some (SystemInspector_registerCommands (ProcessInspector_registerCommands ins)) }"

section \<open>Splitting a path\<close>

text \<open>The reference: cut at every slash and keep the pieces that are not empty.\<close>

primrec cut :: "string \<Rightarrow> string list" where
  "cut [] = [[]]"
| "cut (c # cs) = (if c = CHR ''/'' then [] # cut cs else (c # hd (cut cs)) # tl (cut cs))"

definition segments :: "string \<Rightarrow> string list" where
  "segments s = filter (\<lambda>p. p \<noteq> []) (cut s)"

lemma cut_nonempty [simp]: "cut s \<noteq> []"
  by (cases s) auto

lemma cut_no_slash: "CHR ''/'' \<notin> set s \<Longrightarrow> cut s = [s]"
  by (induction s) auto

lemma cut_append: "CHR ''/'' \<notin> set p \<Longrightarrow> cut (p @ ''/'' @ s) = p # cut s"
  by (induction p) auto

lemma cut_at_slash:
  assumes "find_char CHR ''/'' s = Some i"
  shows "cut s = take i s # cut (drop (Suc i) s)"
proof -
  have i: "i = find_index (\<lambda>x. x = CHR ''/'') s" and "CHR ''/'' \<in> set s"
    using assms by (auto simp: find_char_def split: if_splits)
  then have "i < length s" "s ! i = CHR ''/''"
    using find_index_less_iff [of "\<lambda>x. x = CHR ''/''" s] find_index_holds [of s "\<lambda>x. x = CHR ''/''"] by auto
  then have "s = take i s @ ''/'' @ drop (Suc i) s" using id_take_nth_drop [of i s] by simp
  moreover have "CHR ''/'' \<notin> set (take i s)"
    by (auto simp: i take_find_index dest: set_takeWhileD)
  ultimately show ?thesis using cut_append by metis
qed

lemma split_loop_segments: "split_loop str start result = result @ segments (drop start str)"
proof (induction str start result rule: split_loop.induct)
  case (1 str start result)
  show ?case
  proof (cases "find_from CHR ''/'' str start")
    case None
    then have "CHR ''/'' \<notin> set (drop start str)" by (auto simp: find_from_def find_char_def split: if_splits)
    with None show ?thesis by (simp add: split_loop.simps segments_def cut_no_slash)
  next
    case (Some pos)
    then obtain i where i: "find_char CHR ''/'' (drop start str) = Some i" "pos = start + i"
      by (auto simp: find_from_def)
    then have "segments (drop start str) =
        (if pos > start then [between start pos str] else []) @ segments (drop (pos + 1) str)"
      using find_from_bounds [OF Some] by (simp add: segments_def cut_at_slash between_def drop_take add.commute)
    with 1 [OF Some] Some show ?thesis by (simp add: split_loop.simps [of str start])
  qed
qed

lemma split_segments: "split str = segments str"
  by (simp add: split_def split_loop_segments)

text \<open>Joining pieces with slashes and splitting gives them back.\<close>

lemma segments_join:
  "\<forall>p\<in>set ps. p \<noteq> [] \<and> CHR ''/'' \<notin> set p \<Longrightarrow> segments (concat (map (\<lambda>p. ''/'' @ p) ps)) = ps"
proof (induction ps)
  case (Cons p ps)
  then have p: "CHR ''/'' \<notin> set p" "p \<noteq> []" by auto
  show ?case
  proof (cases ps)
    case Nil
    with p show ?thesis by (simp add: segments_def cut_no_slash)
  next
    case (Cons q qs)
    let ?t = "concat (map (\<lambda>p. ''/'' @ p) ps)"
    define r where "r = q @ concat (map (\<lambda>p. ''/'' @ p) qs)"
    have t: "?t = ''/'' @ r" using Cons by (simp add: r_def)
    have "segments (''/'' @ p @ ''/'' @ r) = p # segments r"
      using p cut_append [of p r] by (simp add: segments_def)
    moreover have "segments (''/'' @ r) = segments r" by (simp add: segments_def)
    moreover have "segments ?t = ps" using Cons.IH Cons.prems by simp
    ultimately show ?thesis using t by simp
  qed
qed (simp add: segments_def)

section \<open>The table of commands\<close>

text \<open>The specification: one partial function from module and command to callback and help text.\<close>

datatype 'w ins_op = Ins_add string string "'w Callback" string | Ins_remove string string

primrec ins_exec :: "'w ins_op \<Rightarrow> 'w Inspector \<Rightarrow> 'w Inspector" where
  "ins_exec (Ins_add m c cb h) ins = Inspector_add m c cb h ins"
| "ins_exec (Ins_remove m c) ins = Inspector_remove m c ins"

type_synonym 'w command_table = "string \<times> string \<rightharpoonup> 'w Callback \<times> string"

primrec table_exec :: "'w ins_op \<Rightarrow> 'w command_table \<Rightarrow> 'w command_table" where
  "table_exec (Ins_add m c cb h) T = T((m, c) \<mapsto> (cb, h))"
| "table_exec (Ins_remove m c) T = T((m, c) := None)"

definition table_of :: "'w Inspector \<Rightarrow> 'w command_table" where
  "table_of ins k =
     (case map_find (inner (ins_modules ins) (fst k)) (snd k) of
        None \<Rightarrow> None
      | Some cb \<Rightarrow> map_option (Pair cb) (map_find (inner (ins_helps ins) (fst k)) (snd k)))"

text \<open>Both maps stay in order and have the same modules, and under each the same commands.\<close>

definition maps_agree :: "('k::linorder, 'v) std_map \<Rightarrow> ('k, 'u) std_map \<Rightarrow> bool" where
  "maps_agree m n \<longleftrightarrow> map_sorted m \<and> map_sorted n \<and> map fst m = map fst n"

definition ins_ok :: "'w Inspector \<Rightarrow> bool" where
  "ins_ok ins \<longleftrightarrow> maps_agree (ins_modules ins) (ins_helps ins)
     \<and> (\<forall>m. maps_agree (inner (ins_modules ins) m) (inner (ins_helps ins) m))"

lemma map_fst_put: "map fst m = map fst n \<Longrightarrow> map fst (map_put m k v) = map fst (map_put n k u)"
proof (induction m arbitrary: n)
  case (Cons e m)
  then show ?case by (cases n) auto
qed simp

lemma map_fst_erase: "map fst (snd (map_erase m k)) = filter (\<lambda>x. x \<noteq> k) (map fst m)"
  by (simp add: map_erase_def filter_map comp_def)

lemma agree_put: "maps_agree m n \<Longrightarrow> maps_agree (map_put m k v) (map_put n k u)"
  using map_fst_put by (fastforce simp: maps_agree_def map_put_sorted)

lemma agree_erase: "maps_agree m n \<Longrightarrow> maps_agree (snd (map_erase m k)) (snd (map_erase n k))"
  by (simp add: maps_agree_def map_sorted_def map_fst_erase sorted_wrt_filter)

lemma agree_find: "maps_agree m n \<Longrightarrow> map_find m k = None \<longleftrightarrow> map_find n k = None"
  unfolding maps_agree_def map_find_None_iff by (metis list.set_map)

lemma inner_put [simp]: "inner (map_put m k v) j = (if k = j then v else inner m j)"
  by (simp add: inner_def)


lemma ins_add_ok: "ins_ok ins \<Longrightarrow> ins_ok (Inspector_add m c cb h ins)"
  by (simp add: ins_ok_def Inspector_add_def agree_put)

lemma ins_remove_ok: "ins_ok ins \<Longrightarrow> ins_ok (Inspector_remove m c ins)"
  by (auto simp: ins_ok_def Inspector_remove_def agree_put agree_erase inner_def [of "ins_modules ins" m]
    split: option.split dest: spec [of _ m])

lemma table_add: "ins_ok ins \<Longrightarrow> table_of (Inspector_add m c cb h ins) = (table_of ins)((m, c) \<mapsto> (cb, h))"
  by (auto simp: table_of_def Inspector_add_def fun_eq_iff split: option.split)

lemma table_remove: "ins_ok ins \<Longrightarrow> table_of (Inspector_remove m c ins) = (table_of ins)((m, c) := None)"
proof (cases "map_find (ins_modules ins) m")
  case None
  then show ?thesis by (auto simp: table_of_def Inspector_remove_def fun_eq_iff inner_def)
next
  case (Some l)
  then have "inner (ins_modules ins) m = l" by (simp add: inner_def)
  with Some show ?thesis
    by (auto simp: table_of_def Inspector_remove_def fun_eq_iff split: option.split)
qed

lemma exec_refines: "ins_ok ins \<Longrightarrow> ins_ok (ins_exec op ins) \<and> table_of (ins_exec op ins) = table_exec op (table_of ins)"
  by (cases op) (simp_all add: ins_add_ok ins_remove_ok table_add table_remove)

interpretation im: refining_machine "\<lambda>op ins. Some (ins_exec op ins)" "\<lambda>ins T. ins_ok ins \<and> table_of ins = T" table_exec "\<lambda>_. True"
  by unfold_locales (auto dest: exec_refines)

lemma execs_refine:
  "ins_ok ins \<Longrightarrow> ins_ok (fold ins_exec ops ins) \<and> table_of (fold ins_exec ops ins) = fold table_exec ops (table_of ins)"
  using im.run_refines [of ins "table_of ins" ops] by (simp add: foldo_Some)

text \<open>The commands a new inspector has.\<close>

definition built_in :: "inspected ins_op list" where
  "built_in = [
     Ins_add ''proc'' ''overview'' (Some ProcessInspector_overview) ''print basic overview'',
     Ins_add ''proc'' ''pid'' (Some ProcessInspector_pid) ''print pid'',
     Ins_add ''proc'' ''status'' (Some ProcessInspector_procStatus) ''print /proc/self/status'',
     Ins_add ''proc'' ''threads'' (Some ProcessInspector_threads) ''list /proc/self/task'',
     Ins_add ''sys'' ''overview'' (Some SystemInspector_overview) ''print system overview'',
     Ins_add ''sys'' ''loadavg'' (Some SystemInspector_loadavg) ''print /proc/loadavg'',
     Ins_add ''sys'' ''version'' (Some SystemInspector_version) ''print /proc/version'',
     Ins_add ''sys'' ''cpuinfo'' (Some SystemInspector_cpuinfo) ''print /proc/cpuinfo'',
     Ins_add ''sys'' ''meminfo'' (Some SystemInspector_meminfo) ''print /proc/meminfo'',
     Ins_add ''sys'' ''stat'' (Some SystemInspector_stat) ''print /proc/stat'']"

lemma new_refines:
  assumes "Inspector_new isMainThread globalInspector name = Some ins"
  shows "ins_ok ins \<and> table_of ins = fold table_exec built_in Map.empty"
proof -
  define e :: "inspected Inspector"
    where "e = \<lparr>ins_name = ''Inspector:'' @ name, ins_started = False, ins_modules = [], ins_helps = []\<rparr>"
  have "ins = fold ins_exec built_in e"
    using assms by (simp add: Inspector_new_def built_in_def SystemInspector_registerCommands_def
      ProcessInspector_registerCommands_def Let_def assertion_def e_def split: if_splits)
  moreover have "ins_ok e" "table_of e = Map.empty"
    by (auto simp: ins_ok_def maps_agree_def inner_def table_of_def fun_eq_iff e_def)
  ultimately show ?thesis using execs_refine [of e built_in] by simp
qed

subsection \<open>The pages\<close>

definition listing :: "('k, ('j, 'v) std_map) std_map \<Rightarrow> (('k \<times> 'j) \<times> 'v) list" where
  "listing m = concat (map (\<lambda>(k, l). map (\<lambda>(j, v). ((k, j), v)) l) m)"

lemma foldl_append: "foldl (\<lambda>r x. r @ f x) r xs = r @ concat (map f xs)"
  by (induction xs arbitrary: r) auto

lemma help_page_listing: "help_page helps = concat (map (\<lambda>((m, c), h). help_line m (c, h)) (listing helps))"
  unfolding help_page_def listing_def foldl_append
  by (induction helps) (simp_all add: comp_def case_prod_unfold)

lemma map_of_listing:
  assumes "distinct (map fst m)"
  shows "map_of (listing m) (k, j) = map_find (inner m k) j"
  using assms
proof (induction m)
  case (Cons e m)
  obtain k' l where e: "e = (k', l)" by (cases e)
  have row: "map_of (map (\<lambda>(j, v). ((k', j), v)) l) (k, j) = (if k = k' then map_find l j else None)"
    by (induction l) auto
  have "k = k' \<Longrightarrow> map_of (listing m) (k, j) = None"
    using Cons.prems e by (force simp: map_of_eq_None_iff listing_def)
  with Cons e row show ?case by (auto simp: listing_def inner_def map_add_def split: option.split)
qed (simp add: listing_def inner_def)

lemma listing_sorted:
  assumes "map_sorted m" "\<And>k. map_sorted (inner m k)"
  shows "sorted_wrt (<) (map fst (listing m))"
proof -
  have "(\<forall>(k, l)\<in>set m. map_sorted l) \<Longrightarrow> ?thesis" using assms(1)
  proof (induction m)
    case (Cons e m)
    obtain k l where e: "e = (k, l)" by (cases e)
    have row: "map fst (map (\<lambda>(j, v). ((k, j), v)) l) = map (Pair k) (map fst l)" by auto
    have "sorted_wrt (<) (map (Pair k) (map fst l))"
      using Cons.prems(1) e by (simp add: map_sorted_def sorted_wrt_map)
    moreover have "\<forall>x\<in>set (listing m). k < fst (fst x)"
      using Cons.prems(2) e by (fastforce simp: listing_def)
    ultimately show ?case
      using Cons e by (auto simp: listing_def row sorted_wrt_append simp del: map_map)
  qed (simp add: listing_def)
  moreover have "\<forall>(k, l)\<in>set m. map_sorted l"
  proof safe
    fix k l assume "(k, l) \<in> set m"
    then have "inner m k = l"
      using assms(1) by (simp add: inner_def map_in_find)
    with assms(2) [of k] show "map_sorted l" by simp
  qed
  ultimately show ?thesis by blast
qed

lemma table_callback:
  assumes "ins_ok ins"
  shows "map_find (inner (ins_modules ins) m) c = map_option fst (table_of ins (m, c))"
  using assms agree_find [of "inner (ins_modules ins) m" "inner (ins_helps ins) m" c]
  by (auto simp: table_of_def ins_ok_def split: option.split)

lemma onRequest_table:
  assumes "ins_ok ins" "req_path req \<noteq> ''/''"
  shows "Inspector_onRequest w ins req resp =
    (case segments (req_path req) of
       m # c # args \<Rightarrow>
         (case table_of ins (m, c) of
            Some (Some cb, _) \<Rightarrow> map_option (answer resp ''text/plain'') (cb w (req_method req) args)
          | _ \<Rightarrow> Some (resp\<lparr>resp_statusCode := K404_NOT_FOUND, resp_statusMessage := ''Not Found''\<rparr>))
     | ms \<Rightarrow> if ms = [''favicon.ico''] then Some (answer resp ''image/png'' favicon)
             else Some (resp\<lparr>resp_statusCode := K404_NOT_FOUND, resp_statusMessage := ''Not Found''\<rparr>))"
proof -
  let ?notFound = "Some (resp\<lparr>resp_statusCode := K404_NOT_FOUND, resp_statusMessage := ''Not Found''\<rparr>)"
  have found: "(case map_find (ins_modules ins) m of None \<Rightarrow> ?notFound | Some commList \<Rightarrow>
        (case map_find commList c of Some (Some cb) \<Rightarrow> f cb | _ \<Rightarrow> ?notFound))
      = (case table_of ins (m, c) of Some (Some cb, _) \<Rightarrow> f cb | _ \<Rightarrow> ?notFound)" for m c f
    using table_callback [OF assms(1), of m c]
    by (cases "table_of ins (m, c)") (auto simp: inner_def split: option.splits)
  have body: "do { body \<leftarrow> x; Some (answer resp ''text/plain'' body) } = map_option (answer resp ''text/plain'') x" for x
    by (cases x) simp_all
  show ?thesis
    using assms(2) by (cases "segments (req_path req)" rule: remdups_adj.cases)
      (simp_all add: Inspector_onRequest_def split_segments found body Let_def split: option.split)
qed

lemma onRequest_root:
  assumes "ins_ok ins" "req_path req = ''/''"
  shows "\<exists>L. sorted_wrt (<) (map fst L) \<and> map_of L = (\<lambda>k. map_option snd (table_of ins k))
    \<and> Inspector_onRequest w ins req resp =
        Some (answer resp ''text/plain'' (concat (map (\<lambda>((m, c), h). help_line m (c, h)) L)))"
proof (intro exI conjI)
  let ?L = "listing (ins_helps ins)"
  show "sorted_wrt (<) (map fst ?L)"
    using assms(1) by (intro listing_sorted) (simp_all add: ins_ok_def maps_agree_def)
  show "map_of ?L = (\<lambda>k. map_option snd (table_of ins k))"
  proof
    fix k :: "string \<times> string"
    obtain m c where k: "k = (m, c)" by (cases k)
    have "map_of ?L k = map_find (inner (ins_helps ins) m) c"
      unfolding k using assms(1) by (intro map_of_listing) (simp add: ins_ok_def maps_agree_def map_sorted_distinct)
    then show "map_of ?L k = map_option snd (table_of ins k)"
      using assms(1) agree_find [of "inner (ins_modules ins) m" "inner (ins_helps ins) m" c]
      by (auto simp: k table_of_def ins_ok_def option.map_comp comp_def split: option.split)
  qed
  show "Inspector_onRequest w ins req resp =
      Some (answer resp ''text/plain'' (concat (map (\<lambda>((m, c), h). help_line m (c, h)) ?L)))"
    using assms(2) by (simp add: Inspector_onRequest_def help_page_listing)
qed

text \<open>C34. The inspector serves exactly its table. After the constructor and any sequence of \<^verbatim>\<open>add\<close> and \<^verbatim>\<open>remove\<close>, take the
  table as one partial function from module and command to callback and help text, starting with the ten built-in commands.
  A path is the list of its non-empty pieces between slashes. A path of two pieces or more that names an entry with a callback
  is answered 200 with what the callback gives for the method and the remaining pieces, \<^verbatim>\<open>/favicon.ico\<close> with the icon, and every
  other path 404, except \<^verbatim>\<open>/\<close>, whose page has one line for every entry of the table, in order of module and command.\<close>

theorem inspector_serves_table:
  fixes ops :: "inspected ins_op list"
  assumes new: "Inspector_new isMainThread globalInspector name = Some ins0"
  defines "ins \<equiv> fold ins_exec ops ins0"
    and "T \<equiv> fold table_exec ops (fold table_exec built_in Map.empty)"
  shows "if req_path req = ''/'' then
      (\<exists>L. sorted_wrt (<) (map fst L) \<and> map_of L = (\<lambda>k. map_option snd (T k))
        \<and> Inspector_onRequest w ins req resp =
            Some (answer resp ''text/plain'' (concat (map (\<lambda>((m, c), h). help_line m (c, h)) L))))
    else Inspector_onRequest w ins req resp =
      (case segments (req_path req) of
         m # c # args \<Rightarrow>
           (case T (m, c) of
              Some (Some cb, _) \<Rightarrow> map_option (answer resp ''text/plain'') (cb w (req_method req) args)
            | _ \<Rightarrow> Some (resp\<lparr>resp_statusCode := K404_NOT_FOUND, resp_statusMessage := ''Not Found''\<rparr>))
       | ms \<Rightarrow> if ms = [''favicon.ico''] then Some (answer resp ''image/png'' favicon)
               else Some (resp\<lparr>resp_statusCode := K404_NOT_FOUND, resp_statusMessage := ''Not Found''\<rparr>))"
proof -
  have ok: "ins_ok ins" and T: "table_of ins = T"
    using new_refines [OF new] execs_refine [of ins0 ops] by (simp_all add: ins_def T_def)
  show ?thesis
  proof (cases "req_path req = ''/''")
    case True
    with onRequest_root [OF ok this] show ?thesis unfolding T by (simp only: if_True simp_thms)
  next
    case False
    with onRequest_table [OF ok this] show ?thesis unfolding T by (simp only: if_False)
  qed
qed

lemma segments_demo: "segments ''/user//greet/a/b'' = [''user'', ''greet'', ''a'', ''b'']"
  by (simp add: segments_def)

theorem inspector_serves_table_witness:
  "\<exists>ins0. Inspector_new True False ''x'' = Some ins0 \<and> (\<forall>w.
     Inspector_onRequest w
       (fold ins_exec [Ins_add ''user'' ''greet'' (Some (\<lambda>_ _ args. Some (concat args))) ''greets'', Ins_remove ''proc'' ''pid''] ins0)
       (HttpRequest_new\<lparr>req_path := ''/user//greet/a/b''\<rparr>) (HttpResponse_new False)
     = Some (answer (HttpResponse_new False) ''text/plain'' ''ab''))"
proof -
  obtain ins0 where new: "Inspector_new True False ''x'' = Some ins0" by (simp add: Inspector_new_def)
  then show ?thesis
    using inspector_serves_table [OF new, where req = "HttpRequest_new\<lparr>req_path := ''/user//greet/a/b''\<rparr>"
        and ops = "[Ins_add ''user'' ''greet'' (Some (\<lambda>_ _ args. Some (concat args))) ''greets'', Ins_remove ''proc'' ''pid'']"
        and resp = "HttpResponse_new False"]
    by (simp add: segments_demo)
qed

section \<open>The built-in commands\<close>

text \<open>The system's pages always come back, and the pages of the process do when the kernel's files have the lines the code
  looks for: \<^verbatim>\<open>/proc/self/status\<close> a line with the name, and every readable \<^verbatim>\<open>stat\<close> of a thread a name that is not empty and
  fifteen fields.\<close>

definition stat_ok :: "inspected \<Rightarrow> string \<Rightarrow> bool" where
  "stat_ok w stat \<longleftrightarrow> procname stat \<noteq> None \<and> 14 < length (regexSplit (iw_tokens w) stat '' +'')"

definition task_stat :: "inspected \<Rightarrow> int \<Rightarrow> read_result" where
  "task_stat w tid =
     readFile (pw_files w) (snprintf 256 (''/proc/'' @ dec_int (pw_pid w) @ ''/task/'' @ dec_int tid @ ''/stat'')) 65536 '''' no_places"

lemma thread_row_returns:
  assumes "rr_err (task_stat w tid) = 0 \<Longrightarrow> stat_ok w (rr_content (task_stat w tid))"
  shows "\<exists>result'. thread_row w tid result = Some result'"
  using assms unfolding thread_row_def task_stat_def Let_def
  by (auto simp: stat_ok_def getCpuTime_def assertion_def Let_def)

lemma threads_return:
  assumes "\<And>tid. rr_err (task_stat w tid) = 0 \<Longrightarrow> stat_ok w (rr_content (task_stat w tid))"
  shows "\<exists>page. ProcessInspector_threads w method args = Some page"
proof -
  have "\<exists>page. foldo (thread_row w) tids r = Some page" for tids r
  proof (induction tids arbitrary: r)
    case (Cons tid tids)
    then show ?case using thread_row_returns [OF assms, of tid r] by auto
  qed simp
  then show ?thesis by (simp add: ProcessInspector_threads_def process_threads_sorted)
qed

lemma getProcessName_line:
  assumes "find_str ''Name:'' (before @ ''Name:'' @ tabs @ name @ [CHR 0x0A] @ rest) = Some (length before)"
    "\<forall>c\<in>set tabs. c = CHR 0x09" "name = [] \<or> hd name \<noteq> CHR 0x09" "CHR 0x0A \<notin> set name"
  shows "getProcessName (before @ ''Name:'' @ tabs @ name @ [CHR 0x0A] @ rest) = Some name"
proof -
  have "dropWhile (\<lambda>c. c = CHR 0x09) (tabs @ name @ [CHR 0x0A] @ rest) = name @ [CHR 0x0A] @ rest"
    using assms(2,3) by (cases name) (simp_all add: dropWhile_append2 dropWhile_append3)
  moreover have "takeWhile (\<lambda>c. c \<noteq> CHR 0x0A) (name @ CHR 0x0A # rest) = name"
    using assms(4) by (subst takeWhile_append2) auto
  ultimately show ?thesis using assms(1) by (simp add: getProcessName_def)
qed

lemma overview_returns:
  assumes "getProcessName (procStatus w) = Some name"
  shows "\<exists>page. ProcessInspector_overview w method args = Some page"
  using assms maxOpenFiles_returns [of w] by (auto simp: ProcessInspector_overview_def openedFiles_count Let_def)

text \<open>A status file that does not end its name line makes the overview read past the end of the string.\<close>

lemma overview_unterminated:
  assumes "getProcessName (procStatus w) = None"
  shows "ProcessInspector_overview w method args = None"
  using assms by (simp add: ProcessInspector_overview_def Let_def)

text \<open>Up time is the age cut into days, hours, minutes and seconds, for 68 years.\<close>

lemma smod_nonneg: "0 \<le> x \<Longrightarrow> 0 < y \<Longrightarrow> x smod y = x mod (y::int)"
  by (cases "x = 0") (simp_all add: signed_modulo_int_def)

lemma length_dec0: "0 \<le> x \<Longrightarrow> x < 10 ^ k \<Longrightarrow> 0 < k \<Longrightarrow> length (dec0 k x) = k"
  using length_dec [of "nat x" k] by (simp add: dec0_def pad0_def nat_less_iff)

lemma div_mod_cut: "0 < b \<Longrightarrow> 0 \<le> a \<Longrightarrow> s mod (b * a) div b = s div b mod a" for s :: int
  by (simp add: zmod_zmult2_eq)

lemma uptime_length:
  assumes "0 \<le> s" "s < 2 ^ 31"
  shows "length (dec_int (s div 86400) @ '' days '' @ dec0 2 (s div 3600 mod 24) @ '':'' @ dec0 2 (s div 60 mod 60) @ '':''
    @ dec0 2 (s mod 60)) < 256"
proof -
  have "length (dec_int (s div 86400)) \<le> 5"
    using assms length_dec [of "nat (s div 86400)" 5] by (simp add: dec_int_def nat_less_iff pos_imp_zdiv_neg_iff)
  then show ?thesis by (simp add: length_dec0)
qed

lemma clock_cut:
  assumes "0 \<le> (s::int)"
  shows "(s smod 86400) sdiv 3600 = s div 3600 mod 24" "(s smod 3600) sdiv 60 = s div 60 mod 60" "s smod 60 = s mod 60"
    "s sdiv 86400 = s div 86400"
proof -
  have cut: "(s smod (b * a)) sdiv b = s div b mod a" if "0 < a" "0 < b" for a b
    using assms that div_mod_cut [of b a s] by (simp add: smod_nonneg sdiv_nonneg pos_mod_sign)
  have "(3600::int) * 24 = 86400" "(60::int) * 60 = 3600" by simp_all
  then show "(s smod 86400) sdiv 3600 = s div 3600 mod 24" "(s smod 3600) sdiv 60 = s div 60 mod 60"
    using cut [of 24 3600, OF zero_less_numeral zero_less_numeral] cut [of 60 60, OF zero_less_numeral zero_less_numeral]
    by (simp_all only:)
  show "s smod 60 = s mod 60" "s sdiv 86400 = s div 86400" using assms by (simp_all add: smod_nonneg sdiv_nonneg)
qed

lemma uptime_text:
  assumes "0 \<le> now - start" "now - start < 2 ^ 31 * 1000000"
  defines "s \<equiv> (now - start) div 1000000"
  shows "uptime now start False =
    dec_int (s div 86400) @ '' days '' @ dec0 2 (s div 3600 mod 24) @ '':'' @ dec0 2 (s div 60 mod 60) @ '':'' @ dec0 2 (s mod 60)"
proof -
  have s: "0 \<le> s" "s < 2 ^ 31"
    unfolding s_def using assms(1,2) by (simp_all add: pos_imp_zdiv_nonneg_iff div_less_iff_less_mult)
  have "(now - start) sdiv kMicroSecondsPerSecond = s"
    unfolding s_def kMicroSecondsPerSecond_def using assms(1) by (simp add: sdiv_nonneg)
  moreover have "int32 s = s" using s by (simp add: int32_def)
  ultimately have secs: "int32 ((now - start) sdiv kMicroSecondsPerSecond) = s" by (simp only:)
  show ?thesis
    unfolding uptime_def Let_def secs clock_cut [OF s(1)] if_False by (rule snprintf_fits [OF uptime_length [OF s]])
qed

end
