(* ===== verification/Signals.thy ===== *)
theory Signals
  imports StdMap "HOL-Library.Sublist" "HOL-Library.Signed_Division"
begin

text \<open>
  Two templates about the life of shared objects: \<^verbatim>\<open>SignalSlot.hpp\<close> and \<^verbatim>\<open>ObjectPool.hpp\<close>.

  A signal keeps weak pointers to its slots in a list that running calls share, so the list is copied before it is written.
  Lists have addresses; a \<^verbatim>\<open>shared_ptr\<close> count is the number of owners the state has: handles held by users, and running calls. A
  list of events is one interleaving of users and calls, on one thread (a callback that connects, disconnects or calls again)
  or on several.
\<close>

section \<open>Signals and slots\<close>

text \<open>\<^verbatim>\<open>SlotImpl\<close>: what it is tied to, and the handles users hold. Its number stands for its callback.\<close>

record SlotImpl =
  sl_tie :: "nat option"
  sl_handles :: nat

text \<open>A running \<^verbatim>\<open>call\<close>: the list it took, the position it has reached, the slot whose callback runs, and the slots it has called.
  The list as it was when the call began is kept for the statements only.\<close>

record call_frame =
  fr_list :: nat
  fr_pos :: nat
  fr_running :: "nat option"
  fr_called :: "nat list"
  fr_began :: "nat list"

text \<open>\<^verbatim>\<open>sg_impl\<close> is the list the signal owns, and \<^const>\<open>None\<close> after its destruction; \<^verbatim>\<open>sg_ties\<close> counts the users' owners of each
  object a slot may be tied to.\<close>

record signal =
  sg_lists :: "nat \<Rightarrow> nat list"
  sg_next :: nat
  sg_impl :: "nat option"
  sg_slots :: "nat \<rightharpoonup> SlotImpl"
  sg_born :: nat
  sg_ties :: "nat \<Rightarrow> nat"
  sg_calls :: "(nat, call_frame) std_map"

definition Signal_new :: "(nat \<Rightarrow> nat) \<Rightarrow> signal" where
  "Signal_new ties = \<lparr>sg_lists = (\<lambda>_. []), sg_next = 1, sg_impl = Some 0, sg_slots = Map.empty, sg_born = 0,
     sg_ties = ties, sg_calls = []\<rparr>"

definition list_owners :: "signal \<Rightarrow> nat \<Rightarrow> nat" where
  "list_owners g a = (if sg_impl g = Some a then 1 else 0) + length (filter (\<lambda>e. fr_list (snd e) = a) (sg_calls g))"

definition slot_running :: "signal \<Rightarrow> nat \<Rightarrow> bool" where
  "slot_running g s \<longleftrightarrow> (\<exists>e\<in>set (sg_calls g). fr_running (snd e) = Some s)"

definition tie_alive :: "signal \<Rightarrow> nat \<Rightarrow> bool" where
  "tie_alive g t \<longleftrightarrow> 0 < sg_ties g t
     \<or> (\<exists>e\<in>set (sg_calls g).
          case fr_running (snd e) of
            Some s \<Rightarrow> (case sg_slots g s of Some sl \<Rightarrow> sl_tie sl = Some t | None \<Rightarrow> False)
          | None \<Rightarrow> False)"

text \<open>\<^verbatim>\<open>copyOnWrite\<close>, and the assertion that ends it.\<close>

definition copyOnWrite :: "nat \<Rightarrow> signal \<Rightarrow> (nat \<times> signal) option" where
  "copyOnWrite a g = do {
     let (a, g) = (if list_owners g a \<noteq> 1
                   then (sg_next g, g\<lparr>sg_lists := (sg_lists g)(sg_next g := sg_lists g a), sg_impl := Some (sg_next g),
                                     sg_next := sg_next g + 1\<rparr>)
                   else (a, g));
     assertion (list_owners g a = 1);
     Some (a, g) }"

text \<open>\<^verbatim>\<open>clean\<close>: the loop erases what has expired.\<close>

definition clean :: "nat \<Rightarrow> signal \<Rightarrow> signal option" where
  "clean a g = do {
     (a, g) \<leftarrow> copyOnWrite a g;
     Some (g\<lparr>sg_lists := (sg_lists g)(a := filter (\<lambda>s. sg_slots g s \<noteq> None) (sg_lists g a))\<rparr>) }"

text \<open>\<^verbatim>\<open>~SlotImpl\<close>, run when the last owner of the slot is gone.\<close>

definition SlotImpl_delete :: "nat \<Rightarrow> signal \<Rightarrow> signal option" where
  "SlotImpl_delete s g = do {
     let g = g\<lparr>sg_slots := (sg_slots g)(s := None)\<rparr>;
     case sg_impl g of None \<Rightarrow> Some g | Some a \<Rightarrow> clean a g }"

definition drop_if_unowned :: "nat \<Rightarrow> signal \<Rightarrow> signal option" where
  "drop_if_unowned s g =
     (case sg_slots g s of
        Some sl \<Rightarrow> if sl_handles sl = 0 \<and> \<not> slot_running g s then SlotImpl_delete s g else Some g
      | None \<Rightarrow> Some g)"

definition Signal_add :: "nat \<Rightarrow> nat \<Rightarrow> signal \<Rightarrow> signal option" where
  "Signal_add s a g = do {
     (a, g) \<leftarrow> copyOnWrite a g;
     Some (g\<lparr>sg_lists := (sg_lists g)(a := sg_lists g a @ [s])\<rparr>) }"

text \<open>Both \<^verbatim>\<open>connect\<close>s: the user holds the returned handle. After the signal's destruction there is nothing to call it on.\<close>

definition Signal_connect :: "nat option \<Rightarrow> signal \<Rightarrow> signal option" where
  "Signal_connect tie g =
     (case sg_impl g of
        None \<Rightarrow> Some g
      | Some a \<Rightarrow>
          let s = sg_born g;
              g = g\<lparr>sg_slots := (sg_slots g)(s \<mapsto> \<lparr>sl_tie = tie, sl_handles = 1\<rparr>), sg_born := s + 1\<rparr>
          in Signal_add s a g)"

text \<open>\<^verbatim>\<open>call\<close>, cut where other code may run: it takes the list under the mutex; then, for each element, it locks the slot and its
  tie and begins the callback, or passes over it; when the callback returns both are given up.\<close>

definition call_begin :: "nat \<Rightarrow> signal \<Rightarrow> signal" where
  "call_begin c g =
     (case sg_impl g of
        Some a \<Rightarrow>
          if map_find (sg_calls g) c = None
          then g\<lparr>sg_calls := map_put (sg_calls g) c
                  \<lparr>fr_list = a, fr_pos = 0, fr_running = None, fr_called = [], fr_began = sg_lists g a\<rparr>\<rparr>
          else g
      | None \<Rightarrow> g)"

definition call_step :: "nat \<Rightarrow> signal \<Rightarrow> signal" where
  "call_step c g =
     (case map_find (sg_calls g) c of
        Some f \<Rightarrow>
          if fr_running f \<noteq> None then g
          else if fr_pos f < length (sg_lists g (fr_list f)) then
            let s = sg_lists g (fr_list f) ! fr_pos f
            in (case sg_slots g s of
                  Some sl \<Rightarrow>
                    if (case sl_tie sl of None \<Rightarrow> True | Some t \<Rightarrow> tie_alive g t)
                    then g\<lparr>sg_calls := map_put (sg_calls g) c (f\<lparr>fr_running := Some s, fr_called := fr_called f @ [s]\<rparr>)\<rparr>
                    else g\<lparr>sg_calls := map_put (sg_calls g) c (f\<lparr>fr_pos := fr_pos f + 1\<rparr>)\<rparr>
                | None \<Rightarrow> g\<lparr>sg_calls := map_put (sg_calls g) c (f\<lparr>fr_pos := fr_pos f + 1\<rparr>)\<rparr>)
          else g\<lparr>sg_calls := snd (map_erase (sg_calls g) c)\<rparr>
      | None \<Rightarrow> g)"

definition call_return :: "nat \<Rightarrow> signal \<Rightarrow> signal option" where
  "call_return c g =
     (case map_find (sg_calls g) c of
        Some f \<Rightarrow>
          (case fr_running f of
             Some s \<Rightarrow>
               drop_if_unowned s (g\<lparr>sg_calls := map_put (sg_calls g) c (f\<lparr>fr_running := None, fr_pos := fr_pos f + 1\<rparr>)\<rparr>)
           | None \<Rightarrow> Some g)
      | None \<Rightarrow> Some g)"

text \<open>What users do: connect, copy and give up handles, give up an owner of a tie, destroy the signal, and let calls go on.\<close>

datatype signal_event = S_connect "nat option" | S_copy nat | S_release nat | S_untie nat | S_destroy
  | S_call nat | S_step nat | S_return nat

primrec signal_exec :: "signal_event \<Rightarrow> signal \<Rightarrow> signal option" where
  "signal_exec (S_connect tie) g = Signal_connect tie g"
| "signal_exec (S_copy s) g =
     (case sg_slots g s of
        Some sl \<Rightarrow> if 0 < sl_handles sl then Some (g\<lparr>sg_slots := (sg_slots g)(s \<mapsto> sl\<lparr>sl_handles := sl_handles sl + 1\<rparr>)\<rparr>) else Some g
      | None \<Rightarrow> Some g)"
| "signal_exec (S_release s) g =
     (case sg_slots g s of
        Some sl \<Rightarrow>
          if 0 < sl_handles sl
          then drop_if_unowned s (g\<lparr>sg_slots := (sg_slots g)(s \<mapsto> sl\<lparr>sl_handles := sl_handles sl - 1\<rparr>)\<rparr>) else Some g
      | None \<Rightarrow> Some g)"
| "signal_exec (S_untie t) g = Some (g\<lparr>sg_ties := (sg_ties g)(t := sg_ties g t - 1)\<rparr>)"
| "signal_exec S_destroy g = Some (g\<lparr>sg_impl := None\<rparr>)"
| "signal_exec (S_call c) g = Some (call_begin c g)"
| "signal_exec (S_step c) g = Some (call_step c g)"
| "signal_exec (S_return c) g = call_return c g"

subsection \<open>The invariant\<close>

definition connected_slots :: "signal \<Rightarrow> nat list" where
  "connected_slots g = filter (\<lambda>s. sg_slots g s \<noteq> None) [0..<sg_born g]"

text \<open>A call still sees the list it began with; it has called, in order and each once, some of the slots it has passed, and the slot
  whose callback runs is alive.\<close>

definition frame_ok :: "signal \<Rightarrow> call_frame \<Rightarrow> bool" where
  "frame_ok g f \<longleftrightarrow> fr_list f < sg_next g \<and> sg_lists g (fr_list f) = fr_began f \<and> fr_pos f \<le> length (fr_began f)
     \<and> sorted_wrt (<) (fr_began f)
     \<and> (case fr_running f of
          None \<Rightarrow> subseq (fr_called f) (take (fr_pos f) (fr_began f))
        | Some s \<Rightarrow> subseq (fr_called f) (take (Suc (fr_pos f)) (fr_began f))
            \<and> fr_pos f < length (fr_began f) \<and> fr_began f ! fr_pos f = s \<and> sg_slots g s \<noteq> None)"

definition signal_ok :: "signal \<Rightarrow> bool" where
  "signal_ok g \<longleftrightarrow> map_sorted (sg_calls g) \<and> dom (sg_slots g) \<subseteq> {..<sg_born g}
     \<and> (\<forall>a. sg_impl g = Some a \<longrightarrow> a < sg_next g \<and> sg_lists g a = connected_slots g)
     \<and> (\<forall>e\<in>set (sg_calls g). frame_ok g (snd e))
     \<and> (\<forall>s sl. sg_slots g s = Some sl \<longrightarrow> 0 < sl_handles sl \<or> slot_running g s)"

lemma map_put_mem: "e \<in> set (map_put m k v) \<Longrightarrow> e = (k, v) \<or> e \<in> set m"
  by (induction m) (auto split: if_splits)

lemma connected_sorted: "sorted_wrt (<) (connected_slots g)"
  by (simp add: connected_slots_def sorted_wrt_filter)

lemma list_owners_fresh:
  assumes "\<forall>e\<in>set (sg_calls g). fr_list (snd e) \<noteq> a" "sg_impl g = Some a"
  shows "list_owners g a = 1"
  using assms by (simp add: list_owners_def filter_empty_conv)

text \<open>After \<^verbatim>\<open>copyOnWrite\<close> no call looks at the signal's list, and nothing else has changed.\<close>

lemma copyOnWrite_ok:
  assumes "\<forall>e\<in>set (sg_calls g). fr_list (snd e) < sg_next g" "sg_impl g = Some a" "a < sg_next g"
  obtains a' g' where "copyOnWrite a g = Some (a', g')" "sg_impl g' = Some a'" "sg_lists g' a' = sg_lists g a"
    "a' < sg_next g'" "sg_next g \<le> sg_next g'" "\<forall>e\<in>set (sg_calls g). fr_list (snd e) \<noteq> a'"
    "\<forall>b < sg_next g. sg_lists g' b = sg_lists g b"
    "sg_slots g' = sg_slots g" "sg_born g' = sg_born g" "sg_calls g' = sg_calls g" "sg_ties g' = sg_ties g"
proof (cases "list_owners g a = 1")
  case True
  then have "\<forall>e\<in>set (sg_calls g). fr_list (snd e) \<noteq> a"
    using assms(2) by (auto simp: list_owners_def filter_empty_conv)
  with True assms show ?thesis by (intro that [of a g]) (auto simp: copyOnWrite_def)
next
  case False
  let ?n = "sg_next g"
  let ?g = "g\<lparr>sg_lists := (sg_lists g)(?n := sg_lists g a), sg_impl := Some ?n, sg_next := ?n + 1\<rparr>"
  have "list_owners ?g ?n = 1" using assms(1) by (intro list_owners_fresh) auto
  with False assms show ?thesis by (intro that [of ?n ?g]) (auto simp: copyOnWrite_def)
qed

text \<open>Writing the signal's list: \<open>w\<close> is what \<^verbatim>\<open>clean\<close> and \<^verbatim>\<open>add\<close> do to it.\<close>

lemma write_list_ok:
  assumes calls: "map_sorted (sg_calls g)" "\<forall>e\<in>set (sg_calls g). frame_ok g (snd e)"
    and slots: "dom (sg_slots g) \<subseteq> {..<sg_born g}" "\<forall>s sl. sg_slots g s = Some sl \<longrightarrow> 0 < sl_handles sl \<or> slot_running g s"
    and impl: "sg_impl g = Some a" "a < sg_next g"
    and w: "\<And>g'. sg_slots g' = sg_slots g \<Longrightarrow> w g' (sg_lists g a) = connected_slots g"
  shows "\<exists>g'. (do { (a', g') \<leftarrow> copyOnWrite a g; Some (g'\<lparr>sg_lists := (sg_lists g')(a' := w g' (sg_lists g' a'))\<rparr>) }) = Some g'
    \<and> signal_ok g'"
proof -
  have "\<forall>e\<in>set (sg_calls g). fr_list (snd e) < sg_next g" using calls(2) by (simp add: frame_ok_def)
  then obtain a' g' where cow: "copyOnWrite a g = Some (a', g')" "sg_impl g' = Some a'"
    "sg_lists g' a' = sg_lists g a" "a' < sg_next g'" "sg_next g \<le> sg_next g'" "\<forall>e\<in>set (sg_calls g). fr_list (snd e) \<noteq> a'"
    "\<forall>b < sg_next g. sg_lists g' b = sg_lists g b" "sg_slots g' = sg_slots g" "sg_born g' = sg_born g" "sg_calls g' = sg_calls g"
    "sg_ties g' = sg_ties g"
    using impl by (rule copyOnWrite_ok)
  let ?h = "g'\<lparr>sg_lists := (sg_lists g')(a' := w g' (sg_lists g' a'))\<rparr>"
  have "frame_ok ?h (snd e)" if "e \<in> set (sg_calls g)" for e
    using calls(2) that cow by (fastforce simp: frame_ok_def split: option.splits)
  moreover have "slot_running ?h = slot_running g" using cow by (simp add: slot_running_def fun_eq_iff)
  ultimately have "signal_ok ?h"
    using calls slots cow w [OF cow(8)] by (auto simp: signal_ok_def connected_slots_def)
  then show ?thesis using cow(1) by auto
qed

text \<open>The invariant without the owners of one slot, as it is while that slot loses one.\<close>

definition signal_ok_but :: "nat \<Rightarrow> signal \<Rightarrow> bool" where
  "signal_ok_but x g \<longleftrightarrow> map_sorted (sg_calls g) \<and> dom (sg_slots g) \<subseteq> {..<sg_born g}
     \<and> (\<forall>a. sg_impl g = Some a \<longrightarrow> a < sg_next g \<and> sg_lists g a = connected_slots g)
     \<and> (\<forall>e\<in>set (sg_calls g). frame_ok g (snd e))
     \<and> (\<forall>s sl. s \<noteq> x \<longrightarrow> sg_slots g s = Some sl \<longrightarrow> 0 < sl_handles sl \<or> slot_running g s)"

lemma signal_ok_but_iff:
  "signal_ok g \<longleftrightarrow> signal_ok_but x g \<and> (\<forall>sl. sg_slots g x = Some sl \<longrightarrow> 0 < sl_handles sl \<or> slot_running g x)"
proof -
  have "(\<forall>s sl. P s sl) \<longleftrightarrow> (\<forall>s sl. s \<noteq> x \<longrightarrow> P s sl) \<and> (\<forall>sl. P x sl)" for P :: "nat \<Rightarrow> SlotImpl \<Rightarrow> bool" by metis
  from this [of "\<lambda>s sl. sg_slots g s = Some sl \<longrightarrow> 0 < sl_handles sl \<or> slot_running g s"]
  show ?thesis by (simp add: signal_ok_def signal_ok_but_def)
qed

lemma SlotImpl_delete_ok:
  assumes "signal_ok_but s g" "\<not> slot_running g s"
  shows "\<exists>g'. SlotImpl_delete s g = Some g' \<and> signal_ok g'"
proof -
  let ?h = "g\<lparr>sg_slots := (sg_slots g)(s := None)\<rparr>"
  have frames: "\<forall>e\<in>set (sg_calls ?h). frame_ok ?h (snd e)"
    using assms by (auto simp: signal_ok_but_def frame_ok_def slot_running_def split: option.splits)
  have owned: "\<forall>x sl. sg_slots ?h x = Some sl \<longrightarrow> 0 < sl_handles sl \<or> slot_running ?h x"
    using assms(1) by (simp add: signal_ok_but_def slot_running_def)
  have born: "dom (sg_slots ?h) \<subseteq> {..<sg_born ?h}" using assms(1) by (auto simp: signal_ok_but_def)
  have sorted: "map_sorted (sg_calls ?h)" using assms(1) by (simp add: signal_ok_but_def)
  show ?thesis
  proof (cases "sg_impl g")
    case None
    with frames owned born sorted have "signal_ok ?h" by (simp add: signal_ok_def)
    with None show ?thesis by (simp add: SlotImpl_delete_def)
  next
    case (Some a)
    have "filter (\<lambda>x. sg_slots ?h x \<noteq> None) (connected_slots g) = connected_slots ?h"
      by (auto simp: connected_slots_def intro: filter_cong)
    then have "\<exists>g'. clean a ?h = Some g' \<and> signal_ok g'"
      unfolding clean_def using assms(1) Some
      by (intro write_list_ok [OF sorted frames born owned]) (auto simp: signal_ok_but_def)
    with Some show ?thesis by (simp add: SlotImpl_delete_def)
  qed
qed

lemma drop_if_unowned_ok:
  assumes "signal_ok_but s g"
  shows "\<exists>g'. drop_if_unowned s g = Some g' \<and> signal_ok g'"
proof (cases "\<exists>sl. sg_slots g s = Some sl \<and> sl_handles sl = 0 \<and> \<not> slot_running g s")
  case True
  with SlotImpl_delete_ok [OF assms] show ?thesis by (auto simp: drop_if_unowned_def)
next
  case False
  then have "signal_ok g" using assms by (auto simp: signal_ok_but_iff [of g s])
  with False show ?thesis by (auto simp: drop_if_unowned_def split: option.split)
qed

lemma Signal_connect_ok:
  assumes "signal_ok g"
  shows "\<exists>g'. Signal_connect tie g = Some g' \<and> signal_ok g'"
proof (cases "sg_impl g")
  case (Some a)
  define h where
    "h = g\<lparr>sg_slots := (sg_slots g)(sg_born g \<mapsto> \<lparr>sl_tie = tie, sl_handles = 1\<rparr>), sg_born := sg_born g + 1\<rparr>"
  have "sg_slots g (sg_born g) = None" using assms by (auto simp: signal_ok_def)
  then have "connected_slots g @ [sg_born g] = connected_slots h"
    by (auto simp: connected_slots_def h_def intro: filter_cong)
  moreover have "\<forall>e\<in>set (sg_calls h). frame_ok h (snd e)"
    using assms by (auto simp: signal_ok_def frame_ok_def h_def split: option.splits)
  moreover have "dom (sg_slots h) \<subseteq> {..<sg_born h}" using assms by (auto simp: signal_ok_def h_def)
  moreover have "\<forall>s sl. sg_slots h s = Some sl \<longrightarrow> 0 < sl_handles sl \<or> slot_running h s"
    using assms by (simp add: h_def signal_ok_def slot_running_def)
  moreover have "map_sorted (sg_calls h)" "sg_impl h = Some a" "a < sg_next h" "sg_lists h a = connected_slots g"
    using assms Some by (simp_all add: h_def signal_ok_def)
  ultimately have "\<exists>g'. Signal_add (sg_born g) a h = Some g' \<and> signal_ok g'"
    unfolding Signal_add_def by (intro write_list_ok) simp_all
  with Some show ?thesis by (simp add: Signal_connect_def Let_def h_def)
qed (use assms in \<open>simp add: Signal_connect_def\<close>)

lemma slot_running_iff:
  "map_sorted (sg_calls g) \<Longrightarrow> slot_running g s \<longleftrightarrow> (\<exists>c f. map_find (sg_calls g) c = Some f \<and> fr_running f = Some s)"
proof
  assume "map_sorted (sg_calls g)" "slot_running g s"
  then obtain c f where "(c, f) \<in> set (sg_calls g)" "fr_running f = Some s" by (auto simp: slot_running_def)
  with map_in_find [OF \<open>map_sorted (sg_calls g)\<close>] show "\<exists>c f. map_find (sg_calls g) c = Some f \<and> fr_running f = Some s" by blast
next
  assume "\<exists>c f. map_find (sg_calls g) c = Some f \<and> fr_running f = Some s"
  then show "slot_running g s" by (auto simp: slot_running_def dest!: map_find_Some_in intro: rev_bexI)
qed

lemma frame_ok_other [simp]:
  "frame_ok (g\<lparr>sg_calls := x\<rparr>) = frame_ok g" "frame_ok (g\<lparr>sg_ties := y\<rparr>) = frame_ok g" "frame_ok (g\<lparr>sg_impl := z\<rparr>) = frame_ok g"
  by (simp_all add: frame_ok_def fun_eq_iff split: option.split)

lemma slot_owned: "signal_ok g \<Longrightarrow> sg_slots g s = Some sl \<Longrightarrow> 0 < sl_handles sl \<or> slot_running g s"
  by (auto simp: signal_ok_def)

lemma frame_found: "signal_ok g \<Longrightarrow> map_find (sg_calls g) c = Some f \<Longrightarrow> frame_ok g f"
  using map_find_Some_in [of "sg_calls g" c f] by (auto simp: signal_ok_def)

text \<open>Changing a call's frame keeps the invariant when the new frame is right and the slot it no longer runs is set apart.\<close>

lemma put_frame_ok:
  assumes "signal_ok g" "frame_ok g f" "\<And>f0. map_find (sg_calls g) c = Some f0 \<Longrightarrow> fr_running f0 = None \<or> fr_running f0 = Some x"
  shows "signal_ok_but x (g\<lparr>sg_calls := map_put (sg_calls g) c f\<rparr>)"
proof -
  let ?h = "g\<lparr>sg_calls := map_put (sg_calls g) c f\<rparr>"
  have sorted: "map_sorted (sg_calls g)" "map_sorted (sg_calls ?h)" using assms(1) by (simp_all add: signal_ok_def map_put_sorted)
  have frames: "\<forall>e\<in>set (sg_calls ?h). frame_ok ?h (snd e)"
    using assms(1,2) by (auto simp: signal_ok_def dest!: map_put_mem)
  have runs: "slot_running ?h s" if run: "slot_running g s" "s \<noteq> x" for s
  proof -
    obtain c' f' where "map_find (sg_calls g) c' = Some f'" "fr_running f' = Some s"
      using run(1) slot_running_iff [OF sorted(1), of s] by auto
    moreover from this assms(3) [of f'] run(2) have "c' \<noteq> c" by auto
    ultimately show ?thesis unfolding slot_running_iff [OF sorted(2)] by (intro exI [of _ c'] exI [of _ f']) simp
  qed
  have "0 < sl_handles sl \<or> slot_running ?h s" if "s \<noteq> x" "sg_slots g s = Some sl" for s sl
    using slot_owned [OF assms(1) that(2)] runs [OF _ that(1)] by blast
  with frames sorted assms(1) show ?thesis by (simp add: signal_ok_but_def signal_ok_def connected_slots_def)
qed

text \<open>When no slot stops running, the whole invariant stays.\<close>

lemma put_idle_frame_ok:
  assumes "signal_ok g" "frame_ok g f" "\<And>f0. map_find (sg_calls g) c = Some f0 \<Longrightarrow> fr_running f0 = None"
  shows "signal_ok (g\<lparr>sg_calls := map_put (sg_calls g) c f\<rparr>)"
proof -
  let ?h = "g\<lparr>sg_calls := map_put (sg_calls g) c f\<rparr>"
  have but: "signal_ok_but x ?h" for x using put_frame_ok [OF assms(1,2)] assms(3) by blast
  have "sg_slots ?h s = Some sl \<Longrightarrow> 0 < sl_handles sl \<or> slot_running ?h s" for s sl
    using but [of "Suc s"] by (simp add: signal_ok_but_def)
  with but show ?thesis using signal_ok_but_iff [of ?h 0] by blast
qed

lemma call_begin_ok:
  assumes "signal_ok g"
  shows "signal_ok (call_begin c g)"
proof (cases "sg_impl g")
  case (Some a)
  let ?f = "\<lparr>fr_list = a, fr_pos = 0, fr_running = None, fr_called = [], fr_began = sg_lists g a\<rparr>"
  have "frame_ok g ?f" using assms Some by (simp add: signal_ok_def frame_ok_def connected_sorted)
  from put_idle_frame_ok [OF assms this, of c] Some assms show ?thesis by (auto simp: call_begin_def)
qed (use assms in \<open>simp add: call_begin_def\<close>)

lemma erase_frame_ok:
  assumes "signal_ok g" "map_find (sg_calls g) c = Some f" "fr_running f = None"
  shows "signal_ok (g\<lparr>sg_calls := snd (map_erase (sg_calls g) c)\<rparr>)"
proof -
  let ?h = "g\<lparr>sg_calls := snd (map_erase (sg_calls g) c)\<rparr>"
  have sorted: "map_sorted (sg_calls g)" "map_sorted (sg_calls ?h)" using assms(1) by (simp_all add: signal_ok_def map_erase_sorted)
  have runs: "slot_running ?h s" if run: "slot_running g s" for s
  proof -
    obtain c' f' where "map_find (sg_calls g) c' = Some f'" "fr_running f' = Some s"
      using run slot_running_iff [OF sorted(1), of s] by auto
    moreover from this assms(2,3) have "c' \<noteq> c" by auto
    ultimately show ?thesis unfolding slot_running_iff [OF sorted(2)] by (intro exI [of _ c'] exI [of _ f']) simp
  qed
  have "0 < sl_handles sl \<or> slot_running ?h s" if "sg_slots g s = Some sl" for s sl
    using slot_owned [OF assms(1) that] runs by blast
  moreover have "\<forall>e\<in>set (sg_calls ?h). frame_ok ?h (snd e)"
    using assms(1) by (simp add: signal_ok_def map_erase_def)
  ultimately show ?thesis using assms(1) sorted by (simp add: signal_ok_def connected_slots_def)
qed

lemma call_step_ok:
  assumes "signal_ok g"
  shows "signal_ok (call_step c g)"
proof (cases "map_find (sg_calls g) c")
  case (Some f)
  note f = frame_found [OF assms Some]
  show ?thesis
  proof (cases "fr_running f = None \<and> fr_pos f < length (fr_began f)")
    case True
    let ?s = "fr_began f ! fr_pos f"
    from f True have sub: "subseq (fr_called f) (take (fr_pos f) (fr_began f))" and l: "sg_lists g (fr_list f) = fr_began f"
      by (simp_all add: frame_ok_def)
    have take: "take (Suc (fr_pos f)) (fr_began f) = take (fr_pos f) (fr_began f) @ [?s]"
      using True by (simp add: take_Suc_conv_app_nth)
    have "frame_ok g (f\<lparr>fr_pos := fr_pos f + 1\<rparr>)"
      using f True sub by (simp add: frame_ok_def take list_emb_prefix)
    note skip = put_idle_frame_ok [OF assms this, of c]
    have "frame_ok g (f\<lparr>fr_running := Some ?s, fr_called := fr_called f @ [?s]\<rparr>)" if "sg_slots g ?s \<noteq> None"
      using f True sub that by (simp add: frame_ok_def take)
    note run = put_idle_frame_ok [OF assms this, of c]
    show ?thesis
      using Some True skip run l by (auto simp: call_step_def Let_def split: option.splits)
  next
    case False
    with f Some assms show ?thesis
      using erase_frame_ok [OF assms Some] by (auto simp: call_step_def frame_ok_def)
  qed
qed (use assms in \<open>simp add: call_step_def\<close>)

lemma call_return_ok:
  assumes "signal_ok g"
  shows "\<exists>g'. call_return c g = Some g' \<and> signal_ok g'"
proof (cases "\<exists>f s. map_find (sg_calls g) c = Some f \<and> fr_running f = Some s")
  case True
  then obtain f s where f: "map_find (sg_calls g) c = Some f" "fr_running f = Some s" by blast
  have "frame_ok g (f\<lparr>fr_running := None, fr_pos := fr_pos f + 1\<rparr>)"
    using frame_found [OF assms f(1)] f(2) by (simp add: frame_ok_def)
  then have "signal_ok_but s (g\<lparr>sg_calls := map_put (sg_calls g) c (f\<lparr>fr_running := None, fr_pos := fr_pos f + 1\<rparr>)\<rparr>)"
    using f by (intro put_frame_ok [OF assms]) auto
  from drop_if_unowned_ok [OF this] f show ?thesis by (simp add: call_return_def)
qed (use assms in \<open>auto simp: call_return_def split: option.split\<close>)

lemma handles_ok:
  assumes "signal_ok g" "sg_slots g s = Some sl"
  shows "signal_ok_but s (g\<lparr>sg_slots := (sg_slots g)(s \<mapsto> sl\<lparr>sl_handles := n\<rparr>)\<rparr>)"
proof -
  let ?h = "g\<lparr>sg_slots := (sg_slots g)(s \<mapsto> sl\<lparr>sl_handles := n\<rparr>)\<rparr>"
  have "connected_slots ?h = connected_slots g" using assms(2) by (auto simp: connected_slots_def intro: filter_cong)
  moreover have "frame_ok g f \<Longrightarrow> frame_ok ?h f" for f by (auto simp: frame_ok_def split: option.splits)
  ultimately show ?thesis using assms by (auto simp: signal_ok_but_def signal_ok_def slot_running_def)
qed

lemma signal_exec_ok:
  assumes "signal_ok g"
  shows "\<exists>g'. signal_exec ev g = Some g' \<and> signal_ok g'"
proof (cases ev)
  case (S_copy s)
  show ?thesis
  proof (cases "\<exists>sl. sg_slots g s = Some sl \<and> 0 < sl_handles sl")
    case True
    then obtain sl where sl: "sg_slots g s = Some sl" "0 < sl_handles sl" by blast
    have "signal_ok (g\<lparr>sg_slots := (sg_slots g)(s \<mapsto> sl\<lparr>sl_handles := sl_handles sl + 1\<rparr>)\<rparr>)"
      using handles_ok [OF assms sl(1)] by (simp add: signal_ok_but_iff [of _ s])
    with sl S_copy show ?thesis by simp
  qed (use assms S_copy in \<open>auto split: option.split\<close>)
next
  case (S_release s)
  show ?thesis
  proof (cases "\<exists>sl. sg_slots g s = Some sl \<and> 0 < sl_handles sl")
    case True
    then obtain sl where sl: "sg_slots g s = Some sl" "0 < sl_handles sl" by blast
    from drop_if_unowned_ok [OF handles_ok [OF assms sl(1)]] sl S_release show ?thesis by simp
  qed (use assms S_release in \<open>auto split: option.split\<close>)
next
  case (S_untie t)
  then show ?thesis using assms by (simp add: signal_ok_def slot_running_def connected_slots_def)
next
  case S_destroy
  then show ?thesis using assms by (simp add: signal_ok_def slot_running_def connected_slots_def)
qed (use assms Signal_connect_ok call_begin_ok call_step_ok call_return_ok in auto)

lemma Signal_new_ok: "signal_ok (Signal_new ties)"
  by (simp add: signal_ok_def Signal_new_def connected_slots_def)

interpretation sg: safe_machine signal_exec signal_ok "\<lambda>_. True"
  by unfold_locales (rule signal_exec_ok)

lemma signal_run_ok: "\<exists>g. foldo signal_exec evs (Signal_new ties) = Some g \<and> signal_ok g"
  using sg.run_safe [OF Signal_new_ok] by blast

subsection \<open>What a call does\<close>

lemma frame_exact:
  assumes "signal_ok g" "map_find (sg_calls g) c = Some f"
  shows "sg_lists g (fr_list f) = fr_began f \<and> subseq (fr_called f) (take (Suc (fr_pos f)) (fr_began f)) \<and> distinct (fr_called f)
    \<and> (\<forall>s. fr_running f = Some s \<longrightarrow> (\<exists>sl. sg_slots g s = Some sl \<and> (\<forall>t. sl_tie sl = Some t \<longrightarrow> tie_alive g t)))"
proof (intro conjI allI impI)
  note f = frame_found [OF assms]
  then show "sg_lists g (fr_list f) = fr_began f" by (simp add: frame_ok_def)
  have "subseq (take (fr_pos f) (fr_began f)) (take (Suc (fr_pos f)) (fr_began f))"
    using prefix_imp_subseq [OF take_is_prefix [of "fr_pos f" "take (Suc (fr_pos f)) (fr_began f)"]] by simp
  then show sub: "subseq (fr_called f) (take (Suc (fr_pos f)) (fr_began f))"
    using f subseq_order.trans by (auto simp: frame_ok_def split: option.splits)
  have "distinct (take (Suc (fr_pos f)) (fr_began f))"
    using f by (simp add: frame_ok_def strict_sorted_iff distinct_take)
  then show "distinct (fr_called f)" using sub by (auto simp: subseq_conv_nths)
  fix s assume s: "fr_running f = Some s"
  then obtain sl where sl: "sg_slots g s = Some sl" using f by (auto simp: frame_ok_def)
  moreover have "tie_alive g t" if "sl_tie sl = Some t" for t
    using that s sl map_find_Some_in [OF assms(2)] by (force simp: tie_alive_def)
  ultimately show "\<exists>sl. sg_slots g s = Some sl \<and> (\<forall>t. sl_tie sl = Some t \<longrightarrow> tie_alive g t)" by blast
qed

text \<open>A slot a call would call now.\<close>

definition ready :: "signal \<Rightarrow> nat \<Rightarrow> bool" where
  "ready g s \<longleftrightarrow> (\<exists>sl. sg_slots g s = Some sl \<and> (\<forall>t. sl_tie sl = Some t \<longrightarrow> tie_alive g t))"

lemma map_put_twice: "map_put (map_put m k v) k u = map_put m k u"
  by (induction m) auto

lemma set_map_put_new: "map_find m k = None \<Longrightarrow> set (map_put m k v) = insert (k, v) (set m)"
  by (induction m) (auto split: if_splits)

lemma map_erase_put_new: "map_find m k = None \<Longrightarrow> snd (map_erase (map_put m k v) k) = m"
  by (induction m) (auto simp: map_erase_def filter_id_conv map_find_None_iff split: if_splits)

definition call_frame_at :: "signal \<Rightarrow> nat \<Rightarrow> nat \<Rightarrow> call_frame" where
  "call_frame_at g a n = \<lparr>fr_list = a, fr_pos = n, fr_running = None, fr_called = filter (ready g) (take n (sg_lists g a)),
     fr_began = sg_lists g a\<rparr>"

definition in_call :: "signal \<Rightarrow> nat \<Rightarrow> nat \<Rightarrow> nat \<Rightarrow> signal" where
  "in_call g c a n = g\<lparr>sg_calls := map_put (sg_calls g) c (call_frame_at g a n)\<rparr>"

lemma tie_alive_in_call: "map_find (sg_calls g) c = None \<Longrightarrow> tie_alive (in_call g c a n) t = tie_alive g t"
  by (simp add: tie_alive_def in_call_def call_frame_at_def set_map_put_new cong: option.case_cong)

lemma call_turn:
  assumes "map_find (sg_calls g) c = None" "\<forall>s sl. sg_slots g s = Some sl \<longrightarrow> 0 < sl_handles sl" "n < length (sg_lists g a)"
  shows "foldo signal_exec [S_step c, S_return c] (in_call g c a n) = Some (in_call g c a (Suc n))"
proof -
  let ?s = "sg_lists g a ! n" and ?g = "in_call g c a n"
  have take: "take (Suc n) (sg_lists g a) = take n (sg_lists g a) @ [?s]" using assms(3) by (rule take_Suc_conv_app_nth)
  have find: "map_find (sg_calls ?g) c = Some (call_frame_at g a n)" "sg_slots ?g = sg_slots g" "sg_lists ?g = sg_lists g"
    by (simp_all add: in_call_def)
  show ?thesis
  proof (cases "ready g ?s")
    case True
    then obtain sl where sl: "sg_slots g ?s = Some sl" "\<forall>t. sl_tie sl = Some t \<longrightarrow> tie_alive ?g t"
      by (auto simp: ready_def tie_alive_in_call [OF assms(1)])
    let ?f = "(call_frame_at g a n)\<lparr>fr_running := Some ?s, fr_called := fr_called (call_frame_at g a n) @ [?s]\<rparr>"
    have "call_step c ?g = g\<lparr>sg_calls := map_put (sg_calls g) c ?f\<rparr>"
      using assms(3) sl find
      by (simp add: call_step_def call_frame_at_def map_put_twice Let_def split: option.split)
         (simp add: in_call_def map_put_twice call_frame_at_def)
    moreover have "call_return c (g\<lparr>sg_calls := map_put (sg_calls g) c ?f\<rparr>) = Some (in_call g c a (Suc n))"
      using spec [OF spec [OF assms(2), of ?s], of sl] sl(1) True
      by (simp add: call_return_def drop_if_unowned_def map_put_twice in_call_def call_frame_at_def take)
    ultimately show ?thesis by simp
  next
    case False
    let ?h = "in_call g c a (Suc n)"
    have h: "?h = ?g\<lparr>sg_calls := map_put (sg_calls ?g) c ((call_frame_at g a n)\<lparr>fr_pos := Suc n\<rparr>)\<rparr>"
      using False by (simp add: in_call_def call_frame_at_def map_put_twice take)
    have "fr_running (call_frame_at g a n) = None" "fr_list (call_frame_at g a n) = a" "fr_pos (call_frame_at g a n) = n"
      by (simp_all add: call_frame_at_def)
    note step = this call_step_def [of c ?g] Let_def find h
    have "sg_slots g ?s = None \<or> (\<exists>sl t. sg_slots g ?s = Some sl \<and> sl_tie sl = Some t \<and> \<not> tie_alive ?g t)"
      using False unfolding ready_def tie_alive_in_call [OF assms(1)] by (cases "sg_slots g ?s") auto
    then have "call_step c ?g = ?h"
      using assms(3) by (elim disjE exE conjE) (simp_all add: step)
    moreover have "call_return c (in_call g c a (Suc n)) = Some (in_call g c a (Suc n))"
      by (simp add: call_return_def in_call_def call_frame_at_def)
    ultimately show ?thesis by simp
  qed
qed

lemma call_turns:
  assumes "map_find (sg_calls g) c = None" "\<forall>s sl. sg_slots g s = Some sl \<longrightarrow> 0 < sl_handles sl" "n \<le> length (sg_lists g a)"
  shows "foldo signal_exec (concat (replicate n [S_step c, S_return c])) (in_call g c a 0) = Some (in_call g c a n)"
  using assms(3)
proof (induction n)
  case (Suc n)
  have "concat (replicate (Suc n) [S_step c, S_return c]) = concat (replicate n [S_step c, S_return c]) @ [S_step c, S_return c]"
    by (induction n) auto
  then show ?case using Suc call_turn [OF assms(1,2), of n a] by (simp del: foldo.simps)
qed simp

lemma call_complete:
  assumes "sg_impl g = Some a" "map_find (sg_calls g) c = None" "\<forall>s sl. sg_slots g s = Some sl \<longrightarrow> 0 < sl_handles sl"
  defines "l \<equiv> sg_lists g a"
  shows "\<exists>g'. foldo signal_exec (S_call c # concat (replicate (length l) [S_step c, S_return c])) g = Some g'
      \<and> map_option fr_called (map_find (sg_calls g') c) = Some (filter (ready g) l)
      \<and> signal_exec (S_step c) g' = Some g"
proof (intro exI conjI)
  let ?g = "in_call g c a (length l)"
  have "call_begin c g = in_call g c a 0" using assms(1,2) by (simp add: call_begin_def in_call_def call_frame_at_def)
  then show "foldo signal_exec (S_call c # concat (replicate (length l) [S_step c, S_return c])) g = Some ?g"
    using call_turns [OF assms(2,3), of "length l" a] by (simp add: l_def)
  show "map_option fr_called (map_find (sg_calls ?g) c) = Some (filter (ready g) l)"
    by (simp add: in_call_def call_frame_at_def l_def)
  show "signal_exec (S_step c) ?g = Some g"
    using map_erase_put_new [OF assms(2)] by (simp add: call_step_def in_call_def call_frame_at_def l_def)
qed

text \<open>C13. Calling a signal is safe and exact under every interleaving of connecting, copying and dropping handles, dropping what slots
  are tied to, destroying the signal and running calls, nested or on other threads. No assertion fails. A slot is alive
  exactly while somebody holds a handle or its callback runs, and while the signal lives its list is the living slots in
  order of connection. Every running call still sees the list it began with, has called some of the slots it has passed, in
  order and each once, and the slot whose callback runs, and what it is tied to, are alive. A call that nothing interrupts calls
  exactly the slots that are ready, in order of connection, and leaves the signal as it was.\<close>

theorem signal_calls_snapshot:
  "\<exists>g. foldo signal_exec evs (Signal_new ties) = Some g
     \<and> (\<forall>a. sg_impl g = Some a \<longrightarrow> sg_lists g a = filter (\<lambda>s. sg_slots g s \<noteq> None) [0..<sg_born g])
     \<and> (\<forall>s sl. sg_slots g s = Some sl \<longrightarrow> 0 < sl_handles sl \<or> slot_running g s)
     \<and> (\<forall>c f. map_find (sg_calls g) c = Some f \<longrightarrow>
          sg_lists g (fr_list f) = fr_began f \<and> subseq (fr_called f) (take (Suc (fr_pos f)) (fr_began f)) \<and> distinct (fr_called f)
          \<and> (\<forall>s. fr_running f = Some s \<longrightarrow>
               (\<exists>sl. sg_slots g s = Some sl \<and> (\<forall>t. sl_tie sl = Some t \<longrightarrow> tie_alive g t))))
     \<and> (\<forall>a c. sg_impl g = Some a \<longrightarrow> map_find (sg_calls g) c = None \<longrightarrow> (\<forall>s sl. sg_slots g s = Some sl \<longrightarrow> 0 < sl_handles sl)
          \<longrightarrow> (\<exists>g'. foldo signal_exec (S_call c # concat (replicate (length (sg_lists g a)) [S_step c, S_return c])) g = Some g'
              \<and> map_option fr_called (map_find (sg_calls g') c) = Some (filter (ready g) (sg_lists g a))
              \<and> signal_exec (S_step c) g' = Some g))"
proof -
  obtain g where run: "foldo signal_exec evs (Signal_new ties) = Some g" and ok: "signal_ok g" using signal_run_ok by blast
  have frame: "sg_lists g (fr_list f) = fr_began f \<and> subseq (fr_called f) (take (Suc (fr_pos f)) (fr_began f)) \<and> distinct (fr_called f)
      \<and> (\<forall>s. fr_running f = Some s \<longrightarrow> (\<exists>sl. sg_slots g s = Some sl \<and> (\<forall>t. sl_tie sl = Some t \<longrightarrow> tie_alive g t)))"
    if "map_find (sg_calls g) c = Some f" for c f
    using frame_exact [OF ok that] .
  show ?thesis
    using run ok frame slot_owned call_complete [of g]
    by (intro exI [of _ g] conjI) (auto simp: signal_ok_def connected_slots_def)
qed

definition demo_signal_events :: "signal_event list" where
  "demo_signal_events = [S_connect None, S_connect (Some 7), S_connect None, S_call 0, S_step 0, S_connect None, S_release 1]"

lemma demo_signal_run:
  "case foldo signal_exec demo_signal_events (Signal_new (\<lambda>_. 1)) of
     None \<Rightarrow> False
   | Some g \<Rightarrow> sg_impl g = Some 1 \<and> sg_born g = 4 \<and> sg_slots g 1 = None \<and> sg_slots g 0 \<noteq> None \<and> sg_slots g 2 \<noteq> None
       \<and> sg_slots g 3 \<noteq> None \<and> map_option fr_began (map_find (sg_calls g) 0) = Some [0, 1, 2]
       \<and> map_option fr_running (map_find (sg_calls g) 0) = Some (Some 0)"
  by code_simp

theorem signal_calls_snapshot_witness:
  "\<exists>g f. foldo signal_exec demo_signal_events (Signal_new (\<lambda>_. 1)) = Some g \<and> sg_impl g = Some 1 \<and> sg_lists g 1 = [0, 2, 3]
     \<and> map_find (sg_calls g) 0 = Some f \<and> sg_lists g (fr_list f) = [0, 1, 2] \<and> fr_running f = Some 0"
proof -
  from signal_calls_snapshot [of demo_signal_events "\<lambda>_. 1"] obtain g where
    g: "foldo signal_exec demo_signal_events (Signal_new (\<lambda>_. 1)) = Some g"
      "\<forall>a. sg_impl g = Some a \<longrightarrow> sg_lists g a = filter (\<lambda>s. sg_slots g s \<noteq> None) [0..<sg_born g]"
      "\<forall>c f. map_find (sg_calls g) c = Some f \<longrightarrow> sg_lists g (fr_list f) = fr_began f"
    by blast
  with demo_signal_run have r: "sg_impl g = Some 1" "sg_born g = 4" "sg_slots g 1 = None" "sg_slots g 0 \<noteq> None" "sg_slots g 2 \<noteq> None"
      "sg_slots g 3 \<noteq> None" "map_option fr_began (map_find (sg_calls g) 0) = Some [0, 1, 2]"
      "map_option fr_running (map_find (sg_calls g) 0) = Some (Some 0)"
    by simp_all
  have "[0..<4] = [0, 1, 2, 3::nat]" by (simp add: upt_rec)
  then have "sg_lists g 1 = [0, 2, 3]" using g(2) r(1-6) by simp
  then show ?thesis using g r by auto
qed

section \<open>Object pools\<close>

text \<open>\<^verbatim>\<open>SimpleObjectPool\<close>: objects have numbers; \<^verbatim>\<open>op_out\<close> are those users hold, kept for the statements only. \<^verbatim>\<open>op_exist\<close> is false once
  the pool is destroyed.\<close>

record object_pool =
  op_maxSize :: int
  op_useSize :: int
  op_pool :: "nat list"
  op_born :: nat
  op_exist :: bool
  op_out :: "nat list"

text \<open>\<^verbatim>\<open>reserve\<close> throws on a negative size, which only the constructor can ask for.\<close>

definition addObject :: "int \<Rightarrow> object_pool \<Rightarrow> object_pool option" where
  "addObject addSize p = do {
     assertion (0 \<le> addSize);
     Some (p\<lparr>op_pool := op_pool p @ [op_born p..<op_born p + nat addSize], op_born := op_born p + nat addSize\<rparr>) }"

definition SimpleObjectPool_new :: "int \<Rightarrow> object_pool option" where
  "SimpleObjectPool_new maxSize =
     addObject (maxSize sdiv 100 + 1)
       \<lparr>op_maxSize = maxSize, op_useSize = 0, op_pool = [], op_born = 0, op_exist = True, op_out = []\<rparr>"

definition SimpleObjectPool_delete :: "object_pool \<Rightarrow> object_pool" where
  "SimpleObjectPool_delete p = p\<lparr>op_exist := False, op_useSize := 0, op_pool := []\<rparr>"

definition hand_out :: "object_pool \<Rightarrow> object_pool" where
  "hand_out p = p\<lparr>op_pool := butlast (op_pool p), op_useSize := op_useSize p + 1, op_out := op_out p @ [last (op_pool p)]\<rparr>"

definition allotObject :: "object_pool \<Rightarrow> (nat option \<times> object_pool) option" where
  "allotObject p = do {
     full_or \<leftarrow>
       (if op_pool p = [] then
          let usedSize = op_useSize p in
          if usedSize * 2 < op_maxSize p then map_option Some (addObject usedSize p)
          else if usedSize < op_maxSize p then map_option Some (addObject (op_maxSize p - usedSize) p)
          else Some None
        else Some (Some p));
     case full_or of
       None \<Rightarrow> Some (None, p)
     | Some p \<Rightarrow> do {
         assertion (op_pool p \<noteq> []);
         Some (Some (last (op_pool p)), hand_out p) } }"

text \<open>The deleter of an object's pointer reads \<^verbatim>\<open>objectPoolExist_\<close> of the pool, so the pool has to outlive it.\<close>

definition object_deleter :: "nat \<Rightarrow> object_pool \<Rightarrow> object_pool option" where
  "object_deleter t p = do {
     assertion (op_exist p);
     Some (p\<lparr>op_pool := op_pool p @ [t], op_useSize := op_useSize p - 1, op_out := filter (\<lambda>x. x \<noteq> t) (op_out p)\<rparr>) }"

datatype pool_use = U_allot | U_drop nat

text \<open>Users give up only objects they hold.\<close>

primrec pool_use_exec :: "pool_use \<Rightarrow> object_pool \<Rightarrow> object_pool option" where
  "pool_use_exec U_allot p = map_option snd (allotObject p)"
| "pool_use_exec (U_drop t) p = (if t \<in> set (op_out p) then object_deleter t p else Some p)"

definition object_pool_ok :: "object_pool \<Rightarrow> bool" where
  "object_pool_ok p \<longleftrightarrow> op_exist p \<and> distinct (op_pool p @ op_out p) \<and> set (op_pool p @ op_out p) = {..<op_born p}
     \<and> op_useSize p = int (length (op_out p)) \<and> 1 \<le> op_born p \<and> int (op_born p) \<le> op_maxSize p"

lemma object_pool_total:
  assumes "object_pool_ok p"
  shows "length (op_pool p) + length (op_out p) = op_born p"
  using assms distinct_card [of "op_pool p @ op_out p"] by (simp add: object_pool_ok_def)

lemma addObject_ok:
  assumes "object_pool_ok p" "0 < n" "int (op_born p) + n \<le> op_maxSize p"
  shows "\<exists>p'. addObject n p = Some p' \<and> object_pool_ok p' \<and> op_pool p' \<noteq> [] \<and> op_out p' = op_out p \<and> op_maxSize p' = op_maxSize p"
proof -
  let ?p = "p\<lparr>op_pool := op_pool p @ [op_born p..<op_born p + nat n], op_born := op_born p + nat n\<rparr>"
  have set: "set (op_pool p) \<union> set (op_out p) = {..<op_born p}" using assms(1) by (simp add: object_pool_ok_def)
  then have old: "x < op_born p" if "x \<in> set (op_pool p) \<union> set (op_out p)" for x using that by blast
  have "set (op_pool p) \<inter> {op_born p..<op_born p + nat n} = {}" "{op_born p..<op_born p + nat n} \<inter> set (op_out p) = {}"
    using old by fastforce+
  then have "distinct (op_pool ?p @ op_out ?p)" using assms(1) by (simp add: object_pool_ok_def Int_Un_distrib)
  moreover have "set (op_pool ?p @ op_out ?p) = {..<op_born ?p}"
  proof -
    have "set (op_pool ?p @ op_out ?p) = (set (op_pool p) \<union> set (op_out p)) \<union> {op_born p..<op_born p + nat n}"
      by (simp add: Un_ac)
    also have "\<dots> = {..<op_born p + nat n}" unfolding set by (rule ivl_disj_un_one(2)) simp
    finally show ?thesis by simp
  qed
  ultimately have "object_pool_ok ?p" using assms by (simp add: object_pool_ok_def)
  then show ?thesis using assms(2) by (auto simp: addObject_def)
qed

lemma hand_out_ok:
  assumes "object_pool_ok p" "op_pool p \<noteq> []"
  shows "object_pool_ok (hand_out p)" "last (op_pool p) \<notin> set (op_out p)" "length (op_out p) < op_born p"
proof -
  obtain xs t where xs: "op_pool p = xs @ [t]" using assms(2) by (metis rev_exhaust)
  with assms(1) show "object_pool_ok (hand_out p)" "last (op_pool p) \<notin> set (op_out p)" by (auto simp: object_pool_ok_def hand_out_def)
  show "length (op_out p) < op_born p" using object_pool_total [OF assms(1)] xs by simp
qed

text \<open>An object is refused exactly when as many are in use as the pool may hold; otherwise an object nobody holds is handed out.\<close>

definition allot_ok :: "object_pool \<Rightarrow> nat option \<Rightarrow> object_pool \<Rightarrow> bool" where
  "allot_ok p t p' \<longleftrightarrow> object_pool_ok p' \<and> op_maxSize p' = op_maxSize p \<and> (t = None \<longleftrightarrow> int (length (op_out p)) = op_maxSize p)
     \<and> (case t of None \<Rightarrow> p' = p | Some x \<Rightarrow> x \<notin> set (op_out p) \<and> op_out p' = op_out p @ [x])"

lemma allot_from:
  assumes "object_pool_ok q" "op_pool q \<noteq> []" "op_out q = op_out p" "op_maxSize q = op_maxSize p"
  shows "allot_ok p (Some (last (op_pool q))) (hand_out q)"
proof -
  have "int (op_born q) \<le> op_maxSize q" using assms(1) by (simp add: object_pool_ok_def)
  with hand_out_ok [OF assms(1,2)] assms(3,4) show ?thesis by (simp add: allot_ok_def) (simp add: hand_out_def assms)
qed

lemma allotObject_ok:
  assumes "object_pool_ok p"
  shows "\<exists>t p'. allotObject p = Some (t, p') \<and> allot_ok p t p'"
proof (cases "op_pool p = []")
  case False
  with allot_from [OF assms False] show ?thesis by (simp add: allotObject_def)
next
  case True
  have total: "length (op_out p) = op_born p" using object_pool_total [OF assms] True by simp
  have use: "op_useSize p = int (op_born p)" "1 \<le> op_born p" "int (op_born p) \<le> op_maxSize p"
    using assms total by (simp_all add: object_pool_ok_def)
  define n where "n = (if op_useSize p * 2 < op_maxSize p then op_useSize p else op_maxSize p - op_useSize p)"
  show ?thesis
  proof (cases "op_useSize p < op_maxSize p")
    case grow: True
    have "0 < n" "int (op_born p) + n \<le> op_maxSize p" using use grow by (auto simp: n_def)
    from addObject_ok [OF assms this] obtain q where
      q: "addObject n p = Some q" "object_pool_ok q" "op_pool q \<noteq> []" "op_out q = op_out p" "op_maxSize q = op_maxSize p" by blast
    have "allotObject p = Some (Some (last (op_pool q)), hand_out q)"
      using q(1,3) True grow by (auto simp: allotObject_def n_def Let_def split: if_splits)
    with allot_from [OF q(2-5)] show ?thesis by blast
  next
    case False
    with use True have "allotObject p = Some (None, p)" by (simp add: allotObject_def)
    with False use total assms show ?thesis by (simp add: allot_ok_def)
  qed
qed

lemma object_deleter_ok:
  assumes "object_pool_ok p" "t \<in> set (op_out p)"
  shows "\<exists>p'. object_deleter t p = Some p' \<and> object_pool_ok p' \<and> op_maxSize p' = op_maxSize p"
proof -
  have d: "distinct (op_out p)" using assms(1) by (simp add: object_pool_ok_def)
  have "length (filter (\<lambda>x. x \<noteq> t) (op_out p)) + 1 = length (op_out p)"
  proof -
    have "filter (\<lambda>x. x \<noteq> t) (op_out p) = remove1 t (op_out p)"
      using d by (auto simp: distinct_remove1_removeAll removeAll_filter_not_eq intro: filter_cong)
    then show ?thesis using assms(2) length_pos_if_in_set [OF assms(2)] by (simp add: length_remove1)
  qed
  moreover have "t \<notin> set (op_pool p)" "insert t (set (op_out p)) = set (op_out p)"
    using assms by (auto simp: object_pool_ok_def)
  then have "set (op_pool p @ [t]) \<union> set (filter (\<lambda>x. x \<noteq> t) (op_out p)) = set (op_pool p) \<union> set (op_out p)"
    "distinct (op_pool p @ [t])" "set (op_pool p @ [t]) \<inter> set (filter (\<lambda>x. x \<noteq> t) (op_out p)) = {}"
    using assms by (auto simp: object_pool_ok_def)
  ultimately show ?thesis using assms by (simp add: object_deleter_def object_pool_ok_def)
qed

lemma object_pool_new_ok: "1 \<le> maxSize \<Longrightarrow> \<exists>p. SimpleObjectPool_new maxSize = Some p \<and> object_pool_ok p \<and> op_maxSize p = maxSize"
  by (auto simp: SimpleObjectPool_new_def addObject_def object_pool_ok_def signed_divide_int_def)

interpretation op: safe_machine pool_use_exec "\<lambda>p. object_pool_ok p \<and> op_maxSize p = maxSize" "\<lambda>_. True" for maxSize
proof
  show "\<exists>p'. pool_use_exec u p = Some p' \<and> object_pool_ok p' \<and> op_maxSize p' = maxSize"
    if "object_pool_ok p \<and> op_maxSize p = maxSize" for p u
    using that allotObject_ok [of p] object_deleter_ok [of p] by (cases u) (force simp: allot_ok_def)+
qed

text \<open>Over any sequence of allotments and deletions within the pool's life nothing stops, every object is in the pool or with one user,
  never more than \<open>maxSize\<close> objects exist, and the next request is refused only if all of them are in use.\<close>

lemma object_pool_conserves:
  assumes "1 \<le> maxSize"
  shows "\<exists>p0 p. SimpleObjectPool_new maxSize = Some p0 \<and> foldo pool_use_exec us p0 = Some p \<and> object_pool_ok p
    \<and> op_maxSize p = maxSize \<and> (\<exists>t p'. allotObject p = Some (t, p') \<and> allot_ok p t p')"
proof -
  obtain p0 where p0: "SimpleObjectPool_new maxSize = Some p0" "object_pool_ok p0 \<and> op_maxSize p0 = maxSize"
    using object_pool_new_ok [OF assms] by blast
  from op.run_safe [OF p0(2), of us] have "\<exists>p. foldo pool_use_exec us p0 = Some p \<and> object_pool_ok p \<and> op_maxSize p = maxSize" by simp
  with p0(1) allotObject_ok show ?thesis by blast
qed

text \<open>A pointer that outlives its pool deletes through a destroyed object.\<close>

lemma object_outlives_pool: "object_deleter t (SimpleObjectPool_delete p) = None"
  by (simp add: object_deleter_def SimpleObjectPool_delete_def)

end
