(* ===== verification/Threads.thy ===== *)
theory Threads
  imports Loop Pools
begin

text \<open>
  Threads and loops in threads of their own: \<^verbatim>\<open>Thread.cpp\<close> and \<^verbatim>\<open>EventLoopThread.cpp\<close>.

  An \<^verbatim>\<open>EventLoopThread\<close> is two threads that meet at a latch, at a condition variable and in \<^verbatim>\<open>join\<close>: its owner, in \<^verbatim>\<open>startLoop\<close> or in
  the destructor, and the thread it starts, in \<^verbatim>\<open>threadFunc\<close>. The loop inside is the loop of the theory \<open>Loop\<close>, so whatever other
  threads do to it while it is alive is part of the model.
\<close>

section \<open>Threads\<close>

text \<open>The variables of each thread: the cached number and the name.\<close>

record thread_locals =
  tCachedTid :: int
  tThreadName :: string

definition thread_locals_new :: thread_locals where
  "thread_locals_new = \<lparr>tCachedTid = 0, tThreadName = ''unknown''\<rparr>"

definition cacheTid :: "int \<Rightarrow> thread_locals \<Rightarrow> thread_locals" where
  "cacheTid gettid l = (if tCachedTid l = 0 then l\<lparr>tCachedTid := gettid\<rparr> else l)"

definition thread_tid :: "int \<Rightarrow> thread_locals \<Rightarrow> int \<times> thread_locals" where
  "thread_tid gettid l =
     (let l = (if tCachedTid l = 0 then cacheTid gettid l else l) in (tCachedTid l, l))"

definition isMainThread :: "int \<Rightarrow> int \<Rightarrow> thread_locals \<Rightarrow> bool \<times> thread_locals" where
  "isMainThread getpid gettid l = (let (tid, l) = thread_tid gettid l in (tid = getpid, l))"

record Thread =
  th_started :: bool
  th_joined :: bool
  th_detached :: bool
  th_tid :: int
  th_name :: string
  th_latch :: latch

definition setDefaultName :: "int \<Rightarrow> string \<Rightarrow> int \<times> string" where
  "setDefaultName numCreated name =
     (numCreated + 1, if name = [] then snprintf 32 (''Thread'' @ dec_int numCreated) else name)"

definition Thread_new :: "int \<Rightarrow> string \<Rightarrow> int \<times> Thread" where
  "Thread_new numCreated name =
     (let (numCreated, name) = setDefaultName numCreated name
      in (numCreated, \<lparr>th_started = False, th_joined = False, th_detached = False, th_tid = 0, th_name = name,
           th_latch = CountDownLatch_new 1\<rparr>))"

definition Thread_delete :: "Thread \<Rightarrow> Thread" where
  "Thread_delete t = (if th_started t \<and> \<not> th_joined t then t\<lparr>th_detached := True\<rparr> else t)"

text \<open>\<^verbatim>\<open>start\<close> up to the wait, given whether \<^verbatim>\<open>pthread_create\<close> succeeds, and what follows the wait.\<close>

definition Thread_start :: "bool \<Rightarrow> Thread \<Rightarrow> Thread option" where
  "Thread_start created t = do {
     assertion (\<not> th_started t);
     let t = t\<lparr>th_started := True\<rparr>;
     Some (if created then t\<lparr>th_latch := latch_wait (th_latch t)\<rparr> else t\<lparr>th_started := False\<rparr>) }"

definition Thread_start_end :: "Thread \<Rightarrow> unit option" where
  "Thread_start_end t = assertion (0 < th_tid t)"

definition Thread_join :: "Thread \<Rightarrow> Thread option" where
  "Thread_join t = do {
     assertion (th_started t);
     assertion (\<not> th_joined t);
     Some (t\<lparr>th_joined := True\<rparr>) }"

text \<open>\<^verbatim>\<open>runInThread\<close> before and after the thread's function; an exception ends the process, whichever it is.\<close>

definition runInThread_begin :: "int \<Rightarrow> Thread \<Rightarrow> thread_locals \<Rightarrow> Thread \<times> thread_locals" where
  "runInThread_begin gettid t l =
     (t\<lparr>th_tid := gettid, th_latch := countDown (th_latch t)\<rparr>,
      l\<lparr>tThreadName := if th_name t = [] then ''palletteThread'' else th_name t\<rparr>)"

datatype func_end = F_returns | F_Exception | F_std_exception | F_unknown

definition runInThread_end :: "func_end \<Rightarrow> thread_locals \<Rightarrow> thread_locals option" where
  "runInThread_end e l = (case e of F_returns \<Rightarrow> Some (l\<lparr>tThreadName := ''finished''\<rparr>) | _ \<Rightarrow> None)"

text \<open>A thread is never without a name, and a process knows its main thread by its number.\<close>

lemma Thread_new_named: "th_name (snd (Thread_new n name)) \<noteq> []"
  by (simp add: Thread_new_def setDefaultName_def snprintf_def)

lemma isMainThread_iff:
  "tCachedTid l \<in> {0, gettid} \<Longrightarrow> fst (isMainThread getpid gettid l) \<longleftrightarrow> gettid = getpid"
  by (auto simp: isMainThread_def thread_tid_def cacheTid_def Let_def)

section \<open>A loop in a thread\<close>

text \<open>Where the two threads are. The new thread: created; past the latch; with its \<^verbatim>\<open>EventLoop\<close>; after \<^verbatim>\<open>callback_\<close>; with \<^verbatim>\<open>loop_\<close>
  set; inside \<^verbatim>\<open>loop()\<close>; out of it; with \<^verbatim>\<open>loop_\<close> cleared; ended, its \<^verbatim>\<open>EventLoop\<close> destroyed.\<close>

datatype thread_pc = T_none | T_created | T_counted | T_loop | T_called | T_published | T_looping | T_left | T_cleared | T_ended

text \<open>The owner: not started; at the latch; testing \<^verbatim>\<open>loop_\<close>; blocked on the condition; past the test; with the pointer \<^verbatim>\<open>startLoop\<close>
  returned; in the destructor before and after it has seen \<^verbatim>\<open>loop_\<close>; in \<^verbatim>\<open>join\<close>; at the end; or after a failed assertion, a failed
  \<^verbatim>\<open>pthread_create\<close>, or a call on a destroyed loop.\<close>

datatype owner_pc = O_new | O_latch | O_testing | O_blocked | O_passed | O_running | O_destroying | O_quitting | O_joining | O_done
  | O_aborted | O_failed | O_dangling

record EventLoopThread =
  et_set :: bool
  et_exiting :: bool
  et_returned :: "bool option"
  et_thread :: Thread
  et_tpc :: thread_pc
  et_opc :: owner_pc
  et_loop :: event_loop

definition EventLoopThread_new :: "int \<Rightarrow> string \<Rightarrow> EventLoopThread" where
  "EventLoopThread_new numCreated name =
     \<lparr>et_set = False, et_exiting = False, et_returned = None, et_thread = snd (Thread_new numCreated name), et_tpc = T_none,
      et_opc = O_new, et_loop = EventLoop_new\<rparr>"

subsection \<open>The owner\<close>

definition startLoop_begin :: "bool \<Rightarrow> EventLoopThread \<Rightarrow> EventLoopThread" where
  "startLoop_begin created t =
     (case Thread_start created (et_thread t) of
        None \<Rightarrow> t\<lparr>et_opc := O_aborted\<rparr>
      | Some th \<Rightarrow> if created then t\<lparr>et_thread := th, et_tpc := T_created, et_opc := O_latch\<rparr>
                  else t\<lparr>et_thread := th, et_opc := O_failed\<rparr>)"

definition startLoop_latched :: "EventLoopThread \<Rightarrow> EventLoopThread" where
  "startLoop_latched t =
     (case Thread_start_end (et_thread t) of None \<Rightarrow> t\<lparr>et_opc := O_aborted\<rparr> | Some _ \<Rightarrow> t\<lparr>et_opc := O_testing\<rparr>)"

definition startLoop_test :: "EventLoopThread \<Rightarrow> EventLoopThread" where
  "startLoop_test t = t\<lparr>et_opc := if et_set t then O_passed else O_blocked\<rparr>"

definition startLoop_return :: "EventLoopThread \<Rightarrow> EventLoopThread" where
  "startLoop_return t = t\<lparr>et_returned := Some (et_set t), et_opc := O_running\<rparr>"

definition destructor_begin :: "EventLoopThread \<Rightarrow> EventLoopThread" where
  "destructor_begin t = t\<lparr>et_exiting := True, et_opc := O_destroying\<rparr>"

definition destructor_look :: "EventLoopThread \<Rightarrow> EventLoopThread" where
  "destructor_look t =
     (if et_set t then t\<lparr>et_opc := O_quitting\<rparr> else t\<lparr>et_thread := Thread_delete (et_thread t), et_opc := O_done\<rparr>)"

text \<open>\<^verbatim>\<open>loop_->quit()\<close> from the owner's thread, with the wakeup that ends it; then \<^verbatim>\<open>thread_.join()\<close>.\<close>

definition destructor_quit :: "EventLoopThread \<Rightarrow> EventLoopThread" where
  "destructor_quit t =
     (if et_tpc t = T_ended then t\<lparr>et_opc := O_dangling\<rparr>
      else case Thread_join (et_thread t) of
             None \<Rightarrow> t\<lparr>et_opc := O_aborted\<rparr>
           | Some th \<Rightarrow> t\<lparr>et_loop := EventLoop_wakeup (set_quit (et_loop t)), et_thread := th, et_opc := O_joining\<rparr>)"

subsection \<open>The thread\<close>

definition threadFunc_begin :: "int \<Rightarrow> EventLoopThread \<Rightarrow> EventLoopThread" where
  "threadFunc_begin gettid t =
     t\<lparr>et_thread := fst (runInThread_begin gettid (et_thread t) thread_locals_new), et_tpc := T_counted\<rparr>"

definition threadFunc_construct :: "EventLoopThread \<Rightarrow> EventLoopThread" where
  "threadFunc_construct t = t\<lparr>et_loop := EventLoop_new, et_tpc := T_loop\<rparr>"

definition threadFunc_publish :: "EventLoopThread \<Rightarrow> EventLoopThread" where
  "threadFunc_publish t =
     t\<lparr>et_set := True, et_tpc := T_published, et_opc := if et_opc t = O_blocked then O_testing else et_opc t\<rparr>"

definition threadFunc_loop :: "EventLoopThread \<Rightarrow> EventLoopThread" where
  "threadFunc_loop t = t\<lparr>et_loop := (et_loop t)\<lparr>el_looping := True, el_pc := Starting\<rparr>, et_tpc := T_looping\<rparr>"

definition threadFunc_clear :: "EventLoopThread \<Rightarrow> EventLoopThread" where
  "threadFunc_clear t = t\<lparr>et_set := False, et_tpc := T_cleared\<rparr>"

text \<open>The loop goes on, in its own thread and in others that know it; when \<^verbatim>\<open>loop()\<close> is over the thread has left it.\<close>

definition loop_goes_on :: "event_loop \<Rightarrow> EventLoopThread \<Rightarrow> EventLoopThread" where
  "loop_goes_on l t = t\<lparr>et_loop := l, et_tpc := if el_pc l = NotLooping then T_left else T_looping\<rparr>"

inductive et_step :: "(Loop.task \<Rightarrow> loop_act list) \<Rightarrow> EventLoopThread \<Rightarrow> EventLoopThread \<Rightarrow> bool" for acts where
  owner_starts: "et_opc t = O_new \<Longrightarrow> et_step acts t (startLoop_begin created t)"
| owner_latched: "et_opc t = O_latch \<Longrightarrow> cl_waiting (th_latch (et_thread t)) = 0 \<Longrightarrow> et_step acts t (startLoop_latched t)"
| owner_tests: "et_opc t = O_testing \<Longrightarrow> et_step acts t (startLoop_test t)"
| owner_spurious: "et_opc t = O_blocked \<Longrightarrow> et_step acts t (t\<lparr>et_opc := O_testing\<rparr>)"
| owner_returns: "et_opc t = O_passed \<Longrightarrow> et_step acts t (startLoop_return t)"
| owner_destroys: "et_opc t \<in> {O_new, O_running} \<Longrightarrow> et_step acts t (destructor_begin t)"
| owner_looks: "et_opc t = O_destroying \<Longrightarrow> et_step acts t (destructor_look t)"
| owner_quits: "et_opc t = O_quitting \<Longrightarrow> et_step acts t (destructor_quit t)"
| owner_joined: "et_opc t = O_joining \<Longrightarrow> et_tpc t = T_ended \<Longrightarrow> et_step acts t (t\<lparr>et_opc := O_done\<rparr>)"
| thread_begins: "et_tpc t = T_created \<Longrightarrow> 0 < gettid \<Longrightarrow> et_step acts t (threadFunc_begin gettid t)"
| thread_constructs: "et_tpc t = T_counted \<Longrightarrow> et_step acts t (threadFunc_construct t)"
| thread_calls: "et_tpc t = T_loop \<Longrightarrow> et_step acts t (t\<lparr>et_tpc := T_called\<rparr>)"
| thread_publishes: "et_tpc t = T_called \<Longrightarrow> et_step acts t (threadFunc_publish t)"
| loop_used_early: "et_tpc t \<in> {T_loop, T_called, T_published} \<Longrightarrow> el_step acts (et_loop t) l \<Longrightarrow> el_pc l = NotLooping \<Longrightarrow>
     et_step acts t (t\<lparr>et_loop := l\<rparr>)"
| thread_loops: "et_tpc t = T_published \<Longrightarrow> et_step acts t (threadFunc_loop t)"
| loop_steps: "et_tpc t = T_looping \<Longrightarrow> el_step acts (et_loop t) l \<Longrightarrow> et_step acts t (loop_goes_on l t)"
| thread_clears: "et_tpc t = T_left \<Longrightarrow> et_step acts t (threadFunc_clear t)"
| thread_ends: "et_tpc t = T_cleared \<Longrightarrow> et_step acts t (t\<lparr>et_tpc := T_ended\<rparr>)"

inductive et_reachable :: "(Loop.task \<Rightarrow> loop_act list) \<Rightarrow> EventLoopThread \<Rightarrow> bool" for acts where
  et_init: "et_reachable acts (EventLoopThread_new n name)"
| et_next: "et_reachable acts t \<Longrightarrow> et_step acts t t' \<Longrightarrow> et_reachable acts t'"

subsection \<open>The invariant\<close>

definition loop_known :: "thread_pc \<Rightarrow> bool" where
  "loop_known pc \<longleftrightarrow> pc \<in> {T_published, T_looping, T_left}"

definition et_inv :: "(Loop.task \<Rightarrow> loop_act list) \<Rightarrow> EventLoopThread \<Rightarrow> bool" where
  "et_inv acts t \<longleftrightarrow> el_reachable acts (et_loop t)
     \<and> et_set t = loop_known (et_tpc t)
     \<and> (el_pc (et_loop t) \<noteq> NotLooping) = (et_tpc t = T_looping)
     \<and> (et_tpc t = T_none) = (\<not> th_started (et_thread t))
     \<and> (et_opc t = O_new \<longrightarrow> et_tpc t = T_none \<and> cl_waiting (th_latch (et_thread t)) = 0 \<and> cl_count (th_latch (et_thread t)) = 1)
     \<and> (et_tpc t = T_none \<longrightarrow> et_opc t \<in> {O_new, O_destroying, O_done, O_failed})
     \<and> (et_tpc t \<notin> {T_none, T_created} \<longrightarrow> 0 < th_tid (et_thread t))
     \<and> (et_tpc t = T_created \<longrightarrow> et_opc t = O_latch \<and> cl_waiting (th_latch (et_thread t)) = 1 \<and> cl_count (th_latch (et_thread t)) = 1)
     \<and> (et_opc t = O_blocked \<longrightarrow> \<not> loop_known (et_tpc t))
     \<and> th_joined (et_thread t) = (et_opc t = O_joining \<or> et_opc t = O_done \<and> th_joined (et_thread t))
     \<and> et_opc t \<noteq> O_aborted"

lemma threadFunc_loop_reachable:
  assumes "el_reachable acts l" "el_pc l = NotLooping"
  shows "el_reachable acts (l\<lparr>el_looping := True, el_pc := Starting\<rparr>)"
  using assms el_reachable_inv [OF assms(1)] by (auto simp: el_inv_def intro: el_next loop_begin)

lemma quit_reachable:
  assumes "el_reachable acts l"
  shows "el_reachable acts (EventLoop_wakeup (set_quit l))"
proof -
  let ?l = "(set_quit l)\<lparr>el_owing := el_owing l + 1\<rparr>"
  have "el_reachable acts ?l" using assms by (rule el_next) (rule other_quits)
  moreover have "el_step acts ?l ((EventLoop_wakeup ?l)\<lparr>el_owing := el_owing ?l - 1\<rparr>)" by (rule other_wakes) simp
  moreover have "(EventLoop_wakeup ?l)\<lparr>el_owing := el_owing ?l - 1\<rparr> = EventLoop_wakeup (set_quit l)"
    by (simp add: EventLoop_wakeup_def set_quit_def)
  ultimately show ?thesis using el_next by metis
qed

lemma quit_pc: "el_pc (EventLoop_wakeup (set_quit l)) = el_pc l"
  by (simp add: EventLoop_wakeup_def set_quit_def)

lemmas et_op_defs = startLoop_begin_def startLoop_latched_def startLoop_test_def startLoop_return_def destructor_begin_def
  destructor_look_def destructor_quit_def threadFunc_begin_def threadFunc_construct_def threadFunc_publish_def threadFunc_clear_def
  loop_goes_on_def Thread_start_def Thread_start_end_def Thread_join_def Thread_delete_def runInThread_begin_def latch_wait_def countDown_def

lemma et_new_inv: "et_inv acts (EventLoopThread_new n name)"
  by (simp add: et_inv_def EventLoopThread_new_def Thread_new_def setDefaultName_def loop_known_def el_init CountDownLatch_new_def)
     (simp add: EventLoop_new_def)

lemma et_step_inv: "et_step acts t t' \<Longrightarrow> et_inv acts t \<Longrightarrow> et_inv acts t'"
proof (induction rule: et_step.induct)
  case (owner_starts t created)
  then show ?case
    by (auto simp: et_inv_def loop_known_def et_op_defs EventLoopThread_new_def Let_def split: option.splits)
next
  case (owner_quits t)
  then show ?case
    by (auto simp: et_inv_def loop_known_def et_op_defs quit_reachable quit_pc split: option.splits)
next
  case (thread_constructs t)
  then show ?case by (auto simp: et_inv_def loop_known_def et_op_defs el_init) (simp_all add: EventLoop_new_def)
next
  case (loop_used_early t l)
  then have "el_reachable acts l" using el_next [of acts "et_loop t" l] by (simp add: et_inv_def)
  moreover have "et_tpc t \<noteq> T_looping" using loop_used_early by auto
  ultimately show ?case using loop_used_early(3,4) by (simp add: et_inv_def)
next
  case (thread_loops t)
  then have "el_reachable acts ((et_loop t)\<lparr>el_looping := True, el_pc := Starting\<rparr>)"
    by (intro threadFunc_loop_reachable) (simp_all add: et_inv_def)
  with thread_loops show ?case by (auto simp: et_inv_def loop_known_def threadFunc_loop_def)
next
  case (loop_steps t l)
  then have "el_reachable acts l" using el_next [of acts "et_loop t" l] by (simp add: et_inv_def)
  with loop_steps show ?case by (auto simp: et_inv_def loop_known_def et_op_defs)
next
  case (owner_destroys t)
  then have "et_inv acts (t\<lparr>et_opc := O_destroying\<rparr>)"
    by (elim insertE emptyE) (simp add: et_inv_def, blast, simp add: et_inv_def)
  then show ?case by (simp add: et_inv_def destructor_begin_def)
qed (auto simp: et_inv_def loop_known_def et_op_defs Let_def)

lemma et_reachable_inv: "et_reachable acts t \<Longrightarrow> et_inv acts t"
  by (induction rule: et_reachable.induct) (simp add: et_new_inv, rule et_step_inv)

text \<open>The meeting of the two threads: no assertion of \<^verbatim>\<open>start\<close>, \<^verbatim>\<open>join\<close> or \<^verbatim>\<open>startLoop\<close> fails; the loop is always in a state a loop can
  be in; \<^verbatim>\<open>startLoop\<close> sleeps only while the loop is not published yet or is already over, and the pointer it has seen is that of
  a loop that was alive at that moment.\<close>

lemma et_handshake:
  assumes "et_reachable acts t"
  shows "et_opc t \<noteq> O_aborted" "el_reachable acts (et_loop t)"
    "et_opc t = O_blocked \<Longrightarrow> et_tpc t \<in> {T_counted, T_loop, T_called, T_cleared, T_ended}"
    "et_set t \<longleftrightarrow> et_tpc t \<in> {T_published, T_looping, T_left}"
  using et_reachable_inv [OF assms]
  by (auto simp: et_inv_def loop_known_def) (cases "et_tpc t"; simp)+

subsection \<open>A destructor that waits forever\<close>

text \<open>The loop on its way from the wakeup of a quit that came before \<^verbatim>\<open>loop()\<close> to its next sleep.\<close>

definition loop_at :: "nat \<Rightarrow> nat \<Rightarrow> bool \<Rightarrow> loop_pc \<Rightarrow> event_loop" where
  "loop_at c i calling pc = EventLoop_new\<lparr>el_looping := True, el_counter := c, el_iteration := i, el_calling := calling, el_pc := pc\<rparr>"

lemma loop_at_steps:
  "el_step acts (loop_at 1 0 False Starting) (loop_at 1 0 False Testing)"
  "el_step acts (loop_at 1 0 False Testing) (loop_at 1 0 False Polling)"
  "el_step acts (loop_at 1 0 False Polling) (loop_at 1 1 False (Handling True))"
  "el_step acts (loop_at 1 1 False (Handling True)) (loop_at 0 1 False (Handling False))"
  "el_step acts (loop_at 0 1 False (Handling False)) (loop_at 0 1 True BeforeSwap)"
  "el_step acts (loop_at 0 1 True BeforeSwap) (loop_at 0 1 True (Running [] []))"
  "el_step acts (loop_at 0 1 True (Running [] [])) (loop_at 0 1 False Testing)"
  "el_step acts (loop_at 0 1 False Testing) (loop_at 0 1 False Polling)"
  using loop_clear_quit [of "loop_at 1 0 False Starting" acts] loop_continue [of "loop_at 1 0 False Testing" acts]
    poll_returns [of "loop_at 1 0 False Polling" True acts] wakeup_handled [of "loop_at 1 1 False (Handling True)" acts]
    events_handled [of "loop_at 0 1 False (Handling False)" acts] swap_functors [of "loop_at 0 1 True BeforeSwap" acts]
    functors_done [of "loop_at 0 1 True (Running [] [])" acts] loop_continue [of "loop_at 0 1 False Testing" acts]
  by (simp_all add: loop_at_def EventLoop_new_def el_op_defs)

lemma et_loop_steps:
  assumes "et_reachable acts (t\<lparr>et_loop := l\<rparr>)" "et_tpc t = T_looping" "el_step acts l l'" "el_pc l' \<noteq> NotLooping"
  shows "et_reachable acts (t\<lparr>et_loop := l'\<rparr>)"
proof -
  have "et_step acts (t\<lparr>et_loop := l\<rparr>) (loop_goes_on l' (t\<lparr>et_loop := l\<rparr>))" by (rule loop_steps) (simp_all add: assms)
  moreover have "loop_goes_on l' (t\<lparr>et_loop := l\<rparr>) = t\<lparr>et_loop := l'\<rparr>" using assms(2,4) by (simp add: loop_goes_on_def)
  ultimately show ?thesis using et_next [OF assms(1)] by simp
qed

lemma et_falls_asleep:
  assumes "et_reachable acts (t\<lparr>et_loop := loop_at 1 0 False Starting\<rparr>)" "et_tpc t = T_looping"
  shows "et_reachable acts (t\<lparr>et_loop := loop_at 0 1 False Polling\<rparr>)"
proof -
  note steps = et_loop_steps [OF _ assms(2)]
  from steps [OF assms(1) loop_at_steps(1)] have "et_reachable acts (t\<lparr>et_loop := loop_at 1 0 False Testing\<rparr>)" by (simp add: loop_at_def)
  from steps [OF this loop_at_steps(2)] have "et_reachable acts (t\<lparr>et_loop := loop_at 1 0 False Polling\<rparr>)" by (simp add: loop_at_def)
  from steps [OF this loop_at_steps(3)] have "et_reachable acts (t\<lparr>et_loop := loop_at 1 1 False (Handling True)\<rparr>)" by (simp add: loop_at_def)
  from steps [OF this loop_at_steps(4)] have "et_reachable acts (t\<lparr>et_loop := loop_at 0 1 False (Handling False)\<rparr>)" by (simp add: loop_at_def)
  from steps [OF this loop_at_steps(5)] have "et_reachable acts (t\<lparr>et_loop := loop_at 0 1 True BeforeSwap\<rparr>)" by (simp add: loop_at_def)
  from steps [OF this loop_at_steps(6)] have "et_reachable acts (t\<lparr>et_loop := loop_at 0 1 True (Running [] [])\<rparr>)" by (simp add: loop_at_def)
  from steps [OF this loop_at_steps(7)] have "et_reachable acts (t\<lparr>et_loop := loop_at 0 1 False Testing\<rparr>)" by (simp add: loop_at_def)
  from steps [OF this loop_at_steps(8)] show ?thesis by (simp add: loop_at_def)
qed

text \<open>The owner starts the thread, gets the pointer and destroys the object before the thread has entered \<^verbatim>\<open>loop()\<close>.\<close>

definition et_path :: "int \<Rightarrow> string \<Rightarrow> EventLoopThread" where
  "et_path n name =
     threadFunc_publish ((threadFunc_construct (startLoop_latched (threadFunc_begin 1 (startLoop_begin True (EventLoopThread_new n name)))))
       \<lparr>et_tpc := T_called\<rparr>)"

lemma et_path_reachable: "et_reachable acts (et_path n name)"
proof -
  let ?t0 = "EventLoopThread_new n name"
  let ?t1 = "startLoop_begin True ?t0" let ?t2 = "threadFunc_begin 1 ?t1" let ?t3 = "startLoop_latched ?t2"
  let ?t4 = "threadFunc_construct ?t3"
  note defs = et_op_defs EventLoopThread_new_def Thread_new_def setDefaultName_def CountDownLatch_new_def Let_def
  have "et_reachable acts ?t1" by (rule et_next [OF et_init owner_starts]) (simp add: defs)
  then have "et_reachable acts ?t2" by (rule et_next) (rule thread_begins; simp add: defs)
  then have "et_reachable acts ?t3" by (rule et_next) (rule owner_latched; simp add: defs)
  then have "et_reachable acts ?t4" by (rule et_next) (rule thread_constructs, simp add: defs)
  then have "et_reachable acts (?t4\<lparr>et_tpc := T_called\<rparr>)" by (rule et_next) (rule thread_calls, simp add: defs)
  then show ?thesis unfolding et_path_def by (rule et_next) (rule thread_publishes, simp)
qed

lemma et_path_fields:
  "et_opc (et_path n name) = O_testing" "et_tpc (et_path n name) = T_published" "et_set (et_path n name)"
  "et_loop (et_path n name) = EventLoop_new" "th_started (et_thread (et_path n name))" "\<not> th_joined (et_thread (et_path n name))"
  by (simp_all add: et_path_def et_op_defs EventLoopThread_new_def Thread_new_def setDefaultName_def CountDownLatch_new_def Let_def)

text \<open>C40. Destroying an \<^verbatim>\<open>EventLoopThread\<close> can wait forever. \<^verbatim>\<open>startLoop\<close> returns as soon as the thread has set \<^verbatim>\<open>loop_\<close>, which is
  before \<^verbatim>\<open>loop()\<close>; a destructor that runs in between calls \<^verbatim>\<open>quit()\<close>, which only copies \<^verbatim>\<open>looping_\<close> and so asks for nothing, and
  then joins the thread. The loop takes the wakeup, runs nothing, and sleeps: it has not been told to quit, nothing is pending,
  nobody owes it a wakeup, and the only thread that had its address is waiting for it.\<close>

theorem destructor_can_hang:
  "\<exists>t. et_reachable acts t \<and> et_returned t = Some True \<and> et_opc t = O_joining \<and> et_tpc t = T_looping
     \<and> el_pc (et_loop t) = Polling \<and> \<not> el_quit (et_loop t) \<and> el_counter (et_loop t) = 0 \<and> el_owing (et_loop t) = 0
     \<and> el_pending (et_loop t) = []"
proof -
  let ?t0 = "et_path 0 ''io''"
  let ?t1 = "startLoop_test ?t0" let ?t2 = "startLoop_return ?t1" let ?t3 = "destructor_begin ?t2" let ?t4 = "destructor_look ?t3"
  let ?t5 = "destructor_quit ?t4" let ?t6 = "threadFunc_loop ?t5"
  note r0 = et_path_reachable [of acts 0 "''io''"]
  have "et_reachable acts ?t1" by (rule et_next [OF r0 owner_tests]) (simp add: et_path_fields)
  then have "et_reachable acts ?t2" by (rule et_next) (rule owner_returns, simp add: et_op_defs et_path_fields)
  then have "et_reachable acts ?t3" by (rule et_next) (rule owner_destroys, simp add: et_op_defs)
  then have "et_reachable acts ?t4" by (rule et_next) (rule owner_looks, simp add: et_op_defs)
  then have "et_reachable acts ?t5" by (rule et_next) (rule owner_quits, simp add: et_op_defs et_path_fields)
  then have r6: "et_reachable acts ?t6" by (rule et_next) (rule thread_loops, simp add: et_op_defs et_path_fields)
  have t6: "et_tpc ?t6 = T_looping" "?t6 = ?t6\<lparr>et_loop := loop_at 1 0 False Starting\<rparr>" "et_opc ?t6 = O_joining" "et_returned ?t6 = Some True"
    by (simp_all add: threadFunc_loop_def et_op_defs et_path_fields loop_at_def EventLoop_new_def EventLoop_wakeup_def set_quit_def)
  have "et_reachable acts (?t6\<lparr>et_loop := loop_at 1 0 False Starting\<rparr>)"
    using r6 by (rule subst [OF t6(2), of "et_reachable acts"])
  then have "et_reachable acts (?t6\<lparr>et_loop := loop_at 0 1 False Polling\<rparr>)" using t6(1) by (rule et_falls_asleep)
  then show ?thesis
    by (intro exI [of _ "?t6\<lparr>et_loop := loop_at 0 1 False Polling\<rparr>"]) (simp add: t6(1,3,4) loop_at_def EventLoop_new_def)
qed

text \<open>A quit that finds the loop past the line that clears \<^verbatim>\<open>quit_\<close> is not lost: \<^verbatim>\<open>quit_\<close> stays set until the loop is left.\<close>

lemma quit_stays:
  assumes "el_step acts s s'" "el_inv s" "el_quit s" "el_pc s \<notin> {NotLooping, Starting}"
  shows "el_pc s' = NotLooping \<or> el_quit s' \<and> el_pc s' \<notin> {NotLooping, Starting}"
  using assms
proof (induction rule: el_step.induct)
  case (handler_act s w act)
  then show ?case by (cases act) (simp_all add: el_inv_def el_op_defs)
next
  case (functor_act s act rest fs called s')
  then show ?case by (cases act) (auto simp: el_inv_def el_op_defs)
qed (simp_all add: el_inv_def el_op_defs)

end
