(* ===== verification/Chat.thy ===== *)
theory Chat
  imports Codec
begin

text \<open>
  The chat example: \<^verbatim>\<open>ChatServer.cpp\<close> passes every message a client sends on to all clients, and \<^verbatim>\<open>ChatClient.cpp\<close> sends the lines
  it reads. Connection objects have numbers, which are not used again; what a server or a client sends on a connection is the string of bytes handed to
  \<^verbatim>\<open>TcpConnection::send\<close>, and what arrives is appended to the connection's input buffer before the codec runs on it.
\<close>

section \<open>The server\<close>

text \<open>\<^verbatim>\<open>connections_\<close> is a set ordered by address, here by number. The last two fields are history: what each connection has received,
  and every message passed on with its sender and its receivers.\<close>

record ChatServer =
  cs_connections :: "nat list"
  cs_input :: "nat \<Rightarrow> buffer"
  cs_sent :: "nat \<Rightarrow> string"
  cs_forced :: "nat list"
  cs_got :: "nat \<Rightarrow> string"
  cs_log :: "(nat \<times> string \<times> nat list) list"

definition ChatServer_new :: ChatServer where
  "ChatServer_new = \<lparr>cs_connections = [], cs_input = (\<lambda>_. Buffer_new kInitalSize), cs_sent = (\<lambda>_. []), cs_forced = [],
     cs_got = (\<lambda>_. []), cs_log = []\<rparr>"

definition ChatServer_onConnection :: "nat \<Rightarrow> bool \<Rightarrow> ChatServer \<Rightarrow> ChatServer" where
  "ChatServer_onConnection c isConnected s =
     (if isConnected then s\<lparr>cs_connections := insort_insert c (cs_connections s)\<rparr>
      else s\<lparr>cs_connections := filter (\<lambda>x. x \<noteq> c) (cs_connections s)\<rparr>)"

definition chat_send :: "string \<Rightarrow> nat \<Rightarrow> ChatServer \<Rightarrow> ChatServer option" where
  "chat_send message conn s = do {
     buf \<leftarrow> codec_send message;
     Some (s\<lparr>cs_sent := (cs_sent s)(conn := cs_sent s conn @ Buffer_bytes buf)\<rparr>) }"

definition ChatServer_onStringMessage :: "nat \<Rightarrow> string \<Rightarrow> ChatServer \<Rightarrow> ChatServer option" where
  "ChatServer_onStringMessage c message s = do {
     s \<leftarrow> foldo (chat_send message) (cs_connections s) s;
     Some (s\<lparr>cs_log := cs_log s @ [(c, message, cs_connections s)]\<rparr>) }"

text \<open>Bytes arrive: the connection's \<^verbatim>\<open>handleRead\<close> and the codec. The callback does not touch the input buffer, so the messages may be
  handed to it after the loop.\<close>

definition chat_data :: "nat \<Rightarrow> string \<Rightarrow> ChatServer \<Rightarrow> ChatServer option" where
  "chat_data c bytes s = do {
     buf \<leftarrow> Buffer_append (cs_input s c) bytes;
     (messages, forceClose, buf) \<leftarrow> codec_onMessage buf;
     let s = s\<lparr>cs_input := (cs_input s)(c := buf), cs_got := (cs_got s)(c := cs_got s c @ bytes)\<rparr>;
     s \<leftarrow> foldo (ChatServer_onStringMessage c) messages s;
     Some (if forceClose then s\<lparr>cs_forced := cs_forced s @ [c]\<rparr> else s) }"

datatype chat_event = C_up nat | C_down nat | C_data nat string

primrec chat_exec :: "chat_event \<Rightarrow> ChatServer \<Rightarrow> ChatServer option" where
  "chat_exec (C_up c) s = Some (ChatServer_onConnection c True s)"
| "chat_exec (C_down c) s = Some (ChatServer_onConnection c False s)"
| "chat_exec (C_data c bytes) s = chat_data c bytes s"

section \<open>The client\<close>

record ChatClient =
  cc_connection :: "nat option"
  cc_sent :: "nat \<Rightarrow> string"

definition ChatClient_new :: ChatClient where
  "ChatClient_new = \<lparr>cc_connection = None, cc_sent = (\<lambda>_. [])\<rparr>"

definition ChatClient_onConnection :: "nat \<Rightarrow> bool \<Rightarrow> ChatClient \<Rightarrow> ChatClient" where
  "ChatClient_onConnection conn isConnected s = s\<lparr>cc_connection := if isConnected then Some conn else None\<rparr>"

definition ChatClient_write :: "string \<Rightarrow> ChatClient \<Rightarrow> ChatClient option" where
  "ChatClient_write message s =
     (case cc_connection s of
        None \<Rightarrow> Some s
      | Some conn \<Rightarrow> do {
          buf \<leftarrow> codec_send message;
          Some (s\<lparr>cc_sent := (cc_sent s)(conn := cc_sent s conn @ Buffer_bytes buf)\<rparr>) })"

section \<open>What is sent\<close>

text \<open>The lines a connected client writes leave as one frame each.\<close>

lemma client_writes:
  assumes "cc_connection s = Some conn"
  shows "\<exists>s'. foldo ChatClient_write ms s = Some s' \<and> cc_connection s' = Some conn
    \<and> cc_sent s' conn = cc_sent s conn @ concat (map frame ms)"
  using assms
proof (induction ms arbitrary: s)
  case (Cons m ms)
  obtain b where b: "codec_send m = Some b" "Buffer_bytes b = frame m" using lh.send_frame by blast
  let ?s = "s\<lparr>cc_sent := (cc_sent s)(conn := cc_sent s conn @ frame m)\<rparr>"
  have "ChatClient_write m s = Some ?s" using Cons.prems b by (simp add: ChatClient_write_def)
  moreover from Cons.IH [of ?s] Cons.prems obtain s' where "foldo ChatClient_write ms ?s = Some s'" "cc_connection s' = Some conn"
    "cc_sent s' conn = (cc_sent s conn @ frame m) @ concat (map frame ms)" by auto
  ultimately show ?case by simp
qed simp

lemma chat_sends:
  "distinct cs \<Longrightarrow> foldo (chat_send m) cs s = Some (s\<lparr>cs_sent := (\<lambda>r. if r \<in> set cs then cs_sent s r @ frame m else cs_sent s r)\<rparr>)"
proof (induction cs arbitrary: s)
  case (Cons c cs)
  obtain b where b: "codec_send m = Some b" "Buffer_bytes b = frame m" using lh.send_frame by blast
  then have "chat_send m c s = Some (s\<lparr>cs_sent := (cs_sent s)(c := cs_sent s c @ frame m)\<rparr>)" by (simp add: chat_send_def)
  moreover have "(\<lambda>r. if r \<in> set cs then ((cs_sent s)(c := cs_sent s c @ frame m)) r @ frame m else ((cs_sent s)(c := cs_sent s c @ frame m)) r)
      = (\<lambda>r. if r \<in> set (c # cs) then cs_sent s r @ frame m else cs_sent s r)"
    using Cons.prems by auto
  ultimately show ?case using Cons by (simp cong: if_cong)
qed simp

text \<open>The messages a connection has been sent, and those it has had passed on.\<close>

definition heard :: "nat \<Rightarrow> ChatServer \<Rightarrow> string list" where
  "heard r s = map (\<lambda>(c, m, cs). m) (filter (\<lambda>(c, m, cs). r \<in> set cs) (cs_log s))"

definition said :: "nat \<Rightarrow> ChatServer \<Rightarrow> string list" where
  "said c s = map (\<lambda>(c, m, cs). m) (filter (\<lambda>(c', m, cs). c' = c) (cs_log s))"

definition sent_ok :: "ChatServer \<Rightarrow> bool" where
  "sent_ok s \<longleftrightarrow> distinct (cs_connections s) \<and> sorted (cs_connections s) \<and> (\<forall>r. cs_sent s r = concat (map frame (heard r s)))"

lemma onStringMessage_ok:
  assumes "sent_ok s"
  shows "\<exists>s'. ChatServer_onStringMessage c m s = Some s' \<and> sent_ok s' \<and> cs_log s' = cs_log s @ [(c, m, cs_connections s)]
    \<and> cs_connections s' = cs_connections s \<and> cs_input s' = cs_input s \<and> cs_got s' = cs_got s \<and> cs_forced s' = cs_forced s"
  using assms chat_sends [of "cs_connections s" m s]
  by (auto simp: sent_ok_def ChatServer_onStringMessage_def heard_def)

lemma onStringMessages_ok:
  assumes "sent_ok s"
  shows "\<exists>s'. foldo (ChatServer_onStringMessage c) ms s = Some s' \<and> sent_ok s'
    \<and> cs_log s' = cs_log s @ map (\<lambda>m. (c, m, cs_connections s)) ms
    \<and> cs_connections s' = cs_connections s \<and> cs_input s' = cs_input s \<and> cs_got s' = cs_got s \<and> cs_forced s' = cs_forced s"
  using assms
proof (induction ms arbitrary: s)
  case (Cons m ms)
  from onStringMessage_ok [OF Cons.prems] obtain s1 where s1: "ChatServer_onStringMessage c m s = Some s1" "sent_ok s1"
    "cs_log s1 = cs_log s @ [(c, m, cs_connections s)]" "cs_connections s1 = cs_connections s" "cs_input s1 = cs_input s"
    "cs_got s1 = cs_got s" "cs_forced s1 = cs_forced s" by blast
  with Cons.IH [OF s1(2)] show ?case by auto
qed simp

section \<open>Whole conversations\<close>

definition data_of :: "nat \<Rightarrow> chat_event list \<Rightarrow> string" where
  "data_of c evs = concat (map (\<lambda>ev. case ev of C_data c' bytes \<Rightarrow> if c' = c then bytes else [] | _ \<Rightarrow> []) evs)"

lemma data_of_simps [simp]:
  "data_of c [] = []" "data_of c (C_up d # evs) = data_of c evs" "data_of c (C_down d # evs) = data_of c evs"
  "data_of c (C_data d bytes # evs) = (if d = c then bytes else []) @ data_of c evs"
  by (simp_all add: data_of_def)

text \<open>A connection that says the frames of \<open>ms\<close>: the first \<open>k\<close> messages are through, and the rest of what it sent is the beginning of
  the next frame.\<close>

definition stream_at :: "string list \<Rightarrow> nat \<Rightarrow> nat \<Rightarrow> ChatServer \<Rightarrow> bool" where
  "stream_at ms k c s \<longleftrightarrow> k \<le> length ms \<and> said c s = take k ms \<and> cs_got s c = concat (map frame (take k ms)) @ contents (cs_input s c)
     \<and> (k < length ms \<longrightarrow> length (contents (cs_input s c)) < length (frame (ms ! k)))"

definition chat_inv :: "(nat \<Rightarrow> string list) \<Rightarrow> ChatServer \<Rightarrow> bool" where
  "chat_inv script s \<longleftrightarrow> sent_ok s \<and> cs_forced s = [] \<and> (\<forall>c. buf_inv (cs_input s c) \<and> (\<exists>k. stream_at (script c) k c s))"

lemma chat_new_inv: "chat_inv script ChatServer_new"
proof -
  have "stream_at (script c) 0 c ChatServer_new" for c
    by (simp add: stream_at_def ChatServer_new_def said_def)
  moreover have "sent_ok ChatServer_new" by (simp add: sent_ok_def ChatServer_new_def heard_def)
  ultimately show ?thesis by (auto simp: chat_inv_def ChatServer_new_def Buffer_new_inv)
qed

lemma chat_data_inv:
  assumes inv: "chat_inv script s" and short: "\<forall>m\<in>set (script c). length m \<le> 65535"
    and stream: "cs_got s c @ bytes @ rest = concat (map frame (script c))"
  shows "\<exists>s'. chat_data c bytes s = Some s' \<and> chat_inv script s' \<and> cs_got s' = (cs_got s)(c := cs_got s c @ bytes)
    \<and> cs_connections s' = cs_connections s"
proof -
  let ?ms = "script c"
  obtain k where k: "stream_at ?ms k c s" using inv by (auto simp: chat_inv_def)
  have b: "buf_inv (cs_input s c)" using inv by (simp add: chat_inv_def)
  have "cs_got s c = concat (map frame (take k ?ms)) @ contents (cs_input s c)" "k \<le> length ?ms" using k by (simp_all add: stream_at_def)
  from lh.advance [OF b this stream short] obtain b1 j b2 where
    j: "Buffer_append (cs_input s c) bytes = Some b1" "codec_onMessage b1 = Some (take j (drop k ?ms), False, b2)" "buf_inv b2"
      "k + j \<le> length ?ms" "cs_got s c @ bytes = concat (map frame (take (k + j) ?ms)) @ contents b2"
      "k + j < length ?ms \<longrightarrow> length (contents b2) < length (frame (?ms ! (k + j)))" by blast
  let ?s = "s\<lparr>cs_input := (cs_input s)(c := b2), cs_got := (cs_got s)(c := cs_got s c @ bytes)\<rparr>"
  have "sent_ok ?s" using inv by (simp add: chat_inv_def sent_ok_def heard_def)
  from onStringMessages_ok [OF this, of c "take j (drop k ?ms)"] obtain s' where
    s': "foldo (ChatServer_onStringMessage c) (take j (drop k ?ms)) ?s = Some s'" "sent_ok s'"
      "cs_log s' = cs_log s @ map (\<lambda>m. (c, m, cs_connections s)) (take j (drop k ?ms))"
      "cs_connections s' = cs_connections s" "cs_input s' = (cs_input s)(c := b2)"
      "cs_got s' = (cs_got s)(c := cs_got s c @ bytes)" "cs_forced s' = cs_forced s" by auto
  have said: "said d s' = said d s @ (if d = c then take j (drop k ?ms) else [])" for d
    by (simp add: said_def s'(3) filter_map comp_def)
  have "stream_at ?ms (k + j) c s'"
    using k j s' said [of c] by (simp add: stream_at_def take_add)
  moreover have "stream_at (script d) i d s' = stream_at (script d) i d s" if "d \<noteq> c" for d i
    using that s' said [of d] by (simp add: stream_at_def)
  ultimately have "chat_inv script s'"
    using inv s' j(3) by (auto simp: chat_inv_def)
  with s' j show ?thesis by (simp add: chat_data_def)
qed

lemma onConnection_got [simp]: "cs_got (ChatServer_onConnection c up s) = cs_got s"
  by (simp add: ChatServer_onConnection_def)

lemma chat_connection_inv:
  assumes "chat_inv script s"
  shows "chat_inv script (ChatServer_onConnection c up s)"
proof -
  let ?s = "ChatServer_onConnection c up s"
  have "heard r ?s = heard r s" "stream_at ms k d ?s = stream_at ms k d s" for r ms k d
    by (simp_all add: ChatServer_onConnection_def heard_def stream_at_def said_def)
  moreover have "distinct (cs_connections ?s)" "sorted (cs_connections ?s)"
    using assms by (simp_all add: ChatServer_onConnection_def chat_inv_def sent_ok_def distinct_insort_insert sorted_insort_insert sorted_wrt_filter)
  ultimately show ?thesis using assms by (simp add: chat_inv_def sent_ok_def ChatServer_onConnection_def)
qed

lemma chat_run:
  assumes "chat_inv script s" "\<forall>c. \<forall>m\<in>set (script c). length m \<le> 65535"
    "\<forall>c. \<exists>rest. cs_got s c @ data_of c evs @ rest = concat (map frame (script c))"
  shows "\<exists>s'. foldo chat_exec evs s = Some s' \<and> chat_inv script s' \<and> (\<forall>c. cs_got s' c = cs_got s c @ data_of c evs)"
  using assms(1,3)
proof (induction evs arbitrary: s)
  case (Cons ev evs)
  show ?case
  proof (cases ev)
    case (C_data c bytes)
    obtain rest where "cs_got s c @ bytes @ (data_of c evs @ rest) = concat (map frame (script c))"
      using Cons.prems(2) [rule_format, of c] C_data by auto
    with chat_data_inv [OF Cons.prems(1)] assms(2) obtain s1 where
      s1: "chat_data c bytes s = Some s1" "chat_inv script s1" "cs_got s1 = (cs_got s)(c := cs_got s c @ bytes)" by metis
    then have "\<forall>d. \<exists>rest. cs_got s1 d @ data_of d evs @ rest = concat (map frame (script d))"
      using Cons.prems(2) C_data by (auto split: if_splits)
    from Cons.IH [OF s1(2) this] s1 C_data show ?thesis by auto
  qed (use Cons.IH [OF chat_connection_inv [OF Cons.prems(1)]] Cons.prems(2) in auto)
qed simp



end
