(* ===== verification/Sockets.thy ===== *)
theory Sockets
  imports Addresses
begin

text \<open>
  \<^verbatim>\<open>Socket.cpp\<close> and the calls of \<^verbatim>\<open>SocketsOperations.cpp\<close> that change a socket or ask about it, as far as
  \<open>Addresses\<close> does not have them.

  The kernel's socket is the state; whether a system call succeeds is an argument (its \<^verbatim>\<open>errno\<close> when it fails and the code looks at it).
  \<^const>\<open>None\<close> is \<^verbatim>\<open>LOG_SYSFATAL\<close>, which aborts; what \<^verbatim>\<open>LOG_SYSERR\<close> reports is kept in \<open>so_reported\<close>.
\<close>

record sys_socket =
  so_nodelay :: bool
  so_reuseaddr :: bool
  so_reuseport :: bool
  so_keepalive :: bool
  so_bound :: "sockaddr option"
  so_listening :: bool
  so_write_shut :: bool
  so_closed :: bool
  so_reported :: "string list"

definition fresh_socket :: sys_socket where
  "fresh_socket = \<lparr>so_nodelay = False, so_reuseaddr = False, so_reuseport = False, so_keepalive = False, so_bound = None,
     so_listening = False, so_write_shut = False, so_closed = False, so_reported = []\<rparr>"

definition report :: "string \<Rightarrow> sys_socket \<Rightarrow> sys_socket" where
  "report msg s = s\<lparr>so_reported := so_reported s @ [msg]\<rparr>"

section \<open>Operations\<close>

text \<open>\<^verbatim>\<open>socket()\<close> answers with a descriptor or a negative number.\<close>

definition createNonblockingOrDie :: "int \<Rightarrow> (int \<times> sys_socket) option" where
  "createNonblockingOrDie sockfd = do { assertion (\<not> sockfd < 0); Some (sockfd, fresh_socket) }"

definition bindOrDie :: "bool \<Rightarrow> sockaddr \<Rightarrow> sys_socket \<Rightarrow> sys_socket option" where
  "bindOrDie ok addr s = do { assertion ok; Some (s\<lparr>so_bound := Some addr\<rparr>) }"

definition listenOrDie :: "bool \<Rightarrow> sys_socket \<Rightarrow> sys_socket option" where
  "listenOrDie ok s = do { assertion ok; Some (s\<lparr>so_listening := True\<rparr>) }"

definition sockets_close :: "bool \<Rightarrow> sys_socket \<Rightarrow> sys_socket" where
  "sockets_close ok s = (if ok then s\<lparr>so_closed := True\<rparr> else report ''sockets::close'' s)"

definition sockets_shutdownWrite :: "bool \<Rightarrow> sys_socket \<Rightarrow> sys_socket" where
  "sockets_shutdownWrite ok s = (if ok then s\<lparr>so_write_shut := True\<rparr> else report ''sockets::shutdownWrite'' s)"

text \<open>\<^verbatim>\<open>getsockopt(SO_ERROR)\<close>: its \<^verbatim>\<open>errno\<close>, or the option's value.\<close>

definition getSocketError :: "int + int \<Rightarrow> int" where
  "getSocketError answer = (case answer of Inl errno \<Rightarrow> errno | Inr optval \<Rightarrow> optval)"

definition getLocalAddr :: "sockaddr option \<Rightarrow> sys_socket \<Rightarrow> sockaddr \<times> sys_socket" where
  "getLocalAddr answer s =
     (case answer of Some a \<Rightarrow> (a, s) | None \<Rightarrow> (SockaddrUnspec, report ''sockets::getLocalAddr'' s))"

definition getPeerAddr :: "sockaddr option \<Rightarrow> sys_socket \<Rightarrow> sockaddr \<times> sys_socket" where
  "getPeerAddr answer s =
     (case answer of Some a \<Rightarrow> (a, s) | None \<Rightarrow> (SockaddrUnspec, report ''sockets::getPeerAddr'' s))"

definition socket_isSelfConnect :: "sockaddr option \<Rightarrow> sockaddr option \<Rightarrow> sys_socket \<Rightarrow> bool \<times> sys_socket" where
  "socket_isSelfConnect local peer s =
     (let (localaddr, s) = getLocalAddr local s; (peeraddr, s) = getPeerAddr peer s in (isSelfConnect localaddr peeraddr, s))"

section \<open>The class\<close>

definition Socket_delete :: "bool \<Rightarrow> sys_socket \<Rightarrow> sys_socket" where
  "Socket_delete ok s = sockets_close ok s"

definition Socket_bindAddress :: "bool \<Rightarrow> sockaddr \<Rightarrow> sys_socket \<Rightarrow> sys_socket option" where
  "Socket_bindAddress ok localaddr s = bindOrDie ok localaddr s"

definition Socket_listen :: "bool \<Rightarrow> sys_socket \<Rightarrow> sys_socket option" where
  "Socket_listen ok s = listenOrDie ok s"

definition Socket_shutdownWrite :: "bool \<Rightarrow> sys_socket \<Rightarrow> sys_socket" where
  "Socket_shutdownWrite ok s = sockets_shutdownWrite ok s"

definition setTcpNoDelay :: "bool \<Rightarrow> bool \<Rightarrow> sys_socket \<Rightarrow> sys_socket" where
  "setTcpNoDelay ok on s =
     (if ok then s\<lparr>so_nodelay := on\<rparr> else if on then report ''TCP_NODELAY failed.'' s else s)"

definition setReuseAddr :: "bool \<Rightarrow> bool \<Rightarrow> sys_socket \<Rightarrow> sys_socket" where
  "setReuseAddr ok on s =
     (if ok then s\<lparr>so_reuseaddr := on\<rparr> else if on then report ''SO_REUSEADDR failed.'' s else s)"

definition setReusePort :: "bool \<Rightarrow> bool \<Rightarrow> sys_socket \<Rightarrow> sys_socket" where
  "setReusePort ok on s =
     (if ok then s\<lparr>so_reuseport := on\<rparr> else if on then report ''SO_REUSEPORT failed.'' s else s)"

definition setKeepAlive :: "bool \<Rightarrow> bool \<Rightarrow> sys_socket \<Rightarrow> sys_socket" where
  "setKeepAlive ok on s =
     (if ok then s\<lparr>so_keepalive := on\<rparr> else if on then report ''SO_KEEPALIVE failed.'' s else s)"

text \<open>The fields of \<^verbatim>\<open>tcp_info\<close> the text shows, in its order.\<close>

definition tcp_info_names :: "string list" where
  "tcp_info_names = [''unrecovered='', ''rto='', ''ato='', ''snd_mss='', ''rcv_mss='', ''lost='', ''retrans='', ''rtt='', ''rttvar='',
     ''sshthresh='', ''cwnd='', ''total_retrans='']"

definition join_sp :: "string list \<Rightarrow> string" where
  "join_sp ws = (case ws of [] \<Rightarrow> [] | w # ws \<Rightarrow> w @ concat (map (\<lambda>v. CHR '' '' # v) ws))"

definition getTcpInfoString :: "nat list option \<Rightarrow> nat \<Rightarrow> string \<Rightarrow> bool \<times> string" where
  "getTcpInfoString tcpi len buf =
     (case tcpi of
        Some vs \<Rightarrow> (True, snprintf len (join_sp (map (\<lambda>(name, v). name @ dec v) (zip tcp_info_names vs))))
      | None \<Rightarrow> (False, buf))"

text \<open>\<^verbatim>\<open>InetAddress::resolve\<close>: \<^verbatim>\<open>gethostbyname_r\<close> answers with an error, with no entry, or with an entry, whose address the code
  takes when it is an IPv4 one; only the address of \<^verbatim>\<open>out\<close> changes.\<close>

datatype host_answer = HostError | NoHost | HostInet "32 word" | HostOther

definition InetAddress_resolve :: "host_answer \<Rightarrow> sockaddr \<Rightarrow> (bool \<times> sockaddr) option" where
  "InetAddress_resolve answer out =
     (case answer of
        HostInet a \<Rightarrow>
          Some (True, case out of SockaddrIn p _ \<Rightarrow> SockaddrIn p a | SockaddrIn6 p _ b \<Rightarrow> SockaddrIn6 p a b | SockaddrUnspec \<Rightarrow> SockaddrUnspec)
      | HostOther \<Rightarrow> None
      | _ \<Rightarrow> Some (False, out))"

section \<open>What they do\<close>

text \<open>The socket of an \<^verbatim>\<open>Acceptor\<close>: created, made reusable, bound, and later listening.\<close>

definition acceptor_socket :: "int \<Rightarrow> bool \<Rightarrow> bool \<Rightarrow> bool \<Rightarrow> bool \<Rightarrow> bool \<Rightarrow> sockaddr \<Rightarrow> (int \<times> sys_socket) option" where
  "acceptor_socket sockfd ok_addr ok_port ok_bind ok_listen reuseport listenAddr = do {
     (fd, s) \<leftarrow> createNonblockingOrDie sockfd;
     let s = setReuseAddr ok_addr True s;
     let s = setReusePort ok_port reuseport s;
     s \<leftarrow> Socket_bindAddress ok_bind listenAddr s;
     s \<leftarrow> Socket_listen ok_listen s;
     Some (fd, s) }"

text \<open>Either the process aborts, because there is no descriptor, the address is in use or listening fails, or the socket listens at the
  address; an option that could not be set is reported, unless it was to be switched off.\<close>

lemma acceptor_socket_listens:
  "acceptor_socket sockfd ok_addr ok_port ok_bind ok_listen reuseport listenAddr =
     (if 0 \<le> sockfd \<and> ok_bind \<and> ok_listen
      then Some (sockfd, fresh_socket\<lparr>so_reuseaddr := ok_addr, so_reuseport := ok_port \<and> reuseport, so_bound := Some listenAddr,
        so_listening := True,
        so_reported := (if ok_addr then [] else [''SO_REUSEADDR failed.'']) @ (if ok_port \<or> \<not> reuseport then [] else [''SO_REUSEPORT failed.''])\<rparr>)
      else None)"
  by (cases ok_addr; cases ok_port; cases reuseport)
     (simp_all add: acceptor_socket_def createNonblockingOrDie_def bindOrDie_def listenOrDie_def Socket_bindAddress_def Socket_listen_def
       setReuseAddr_def setReusePort_def report_def fresh_socket_def assertion_def Let_def)

text \<open>A socket whose addresses cannot be read is not taken for a connection to itself.\<close>

lemma no_self_connect_unknown: "fst (socket_isSelfConnect None peer s) = False"
  by (simp add: socket_isSelfConnect_def getLocalAddr_def isSelfConnect_def case_prod_unfold)

lemma self_connect_known: "socket_isSelfConnect (Some a) (Some a) s = (a \<noteq> SockaddrUnspec, s)"
  by (cases a) (simp_all add: socket_isSelfConnect_def getLocalAddr_def getPeerAddr_def isSelfConnect_def)

text \<open>Resolving keeps the port.\<close>

lemma resolve_keeps_port: "InetAddress_resolve answer out = Some (ok, out') \<Longrightarrow> toPort out' = toPort out"
  by (auto simp: InetAddress_resolve_def toPort_def split: host_answer.splits sockaddr.splits)

text \<open>Twelve 32-bit numbers fit the buffer of 1024 bytes \<^verbatim>\<open>TcpConnection\<close> passes.\<close>

lemma tcp_info_fits:
  assumes "length vs = 12" "\<forall>v\<in>set vs. v < 2 ^ 32"
  shows "snd (getTcpInfoString (Some vs) 1024 buf) = join_sp (map (\<lambda>(name, v). name @ dec v) (zip tcp_info_names vs))"
proof -
  have d: "length (dec v) \<le> 10" if "v \<in> set vs" for v
    using that assms(2) length_dec [of v 10] by (auto intro: less_trans [of _ "2 ^ 32"])
  have len: "length (join_sp ws) \<le> sum_list (map length ws) + length ws" for ws
    by (cases ws) (simp_all add: join_sp_def length_concat comp_def sum_list_Suc)
  have "length ((\<lambda>(name, v). name @ dec v) p) \<le> 24" if "p \<in> set (zip tcp_info_names vs)" for p
  proof -
    obtain n v where p: "p = (n, v)" by (cases p)
    with that have "n \<in> set tcp_info_names" "v \<in> set vs" by (auto dest: set_zip_leftD set_zip_rightD)
    then have "length n \<le> 14" "length (dec v) \<le> 10" using d by (auto simp: tcp_info_names_def)
    with p show ?thesis by simp
  qed
  then have "sum_list (map (\<lambda>p. length ((\<lambda>(name, v). name @ dec v) p)) (zip tcp_info_names vs))
      \<le> sum_list (map (\<lambda>_. 24) (zip tcp_info_names vs))"
    by (intro sum_list_mono) auto
  also have "\<dots> = 24 * 12" using assms(1) by (simp add: tcp_info_names_def sum_list_triv)
  finally have "length (join_sp (map (\<lambda>(name, v). name @ dec v) (zip tcp_info_names vs))) < 1024"
    using len [of "map (\<lambda>(name, v). name @ dec v) (zip tcp_info_names vs)"] assms(1)
    by (simp add: comp_def tcp_info_names_def)
  then show ?thesis by (simp add: getTcpInfoString_def)
qed

end
