(* ===== verification/Utilities.thy ===== *)
theory Utilities
  imports Timestamps
begin

text \<open>
  Small parts that stand alone: \<^verbatim>\<open>Daemon.cpp\<close>, \<^verbatim>\<open>StatElapseTime.h\<close>, \<^verbatim>\<open>singleton.hpp\<close> and \<^verbatim>\<open>WeakCallback.h\<close>.
\<close>

section \<open>Becoming a daemon\<close>

text \<open>What the call changes of the process: its open descriptors and the files they refer to, whether it leads its session, whether
  that session has a terminal, its directory and its file mode mask.\<close>

record process =
  pr_fds :: "(nat \<times> string) list"
  pr_leader :: bool
  pr_terminal :: bool
  pr_cwd :: string
  pr_umask :: nat

text \<open>The answers of the system: both \<^verbatim>\<open>fork\<close>s (negative, zero in the child, or the child's number), \<^verbatim>\<open>setsid\<close>, the \<^verbatim>\<open>errno\<close> of
  \<^verbatim>\<open>mkdir\<close> if it fails, \<^verbatim>\<open>chdir\<close>, \<^verbatim>\<open>sysconf(_SC_OPEN_MAX)\<close>, and whether \<^verbatim>\<open>open\<close> and both \<^verbatim>\<open>dup2\<close>s succeed.\<close>

record daemon_answers =
  da_fork1 :: int
  da_setsid :: bool
  da_fork2 :: int
  da_mkdir :: "int option"
  da_chdir :: bool
  da_open_max :: int
  da_open :: bool
  da_dup1 :: bool
  da_dup2 :: bool

datatype daemon_end = D_returns int process | D_exits process

definition kMaxClose :: int where "kMaxClose = 8192"

definition EEXIST :: int where "EEXIST = 17"

definition close_fd :: "nat \<Rightarrow> process \<Rightarrow> process" where
  "close_fd fd p = p\<lparr>pr_fds := filter (\<lambda>e. fst e \<noteq> fd) (pr_fds p)\<rparr>"

text \<open>\<^verbatim>\<open>open\<close> gives the lowest free descriptor.\<close>

function lowest_free :: "nat \<Rightarrow> nat list \<Rightarrow> nat" where
  "lowest_free n fds = (if n \<in> set fds then lowest_free (n + 1) (removeAll n fds) else n)"
  by pat_completeness auto
termination by (relation "measure (\<lambda>(n, fds). length fds)") (auto intro: length_removeAll_less)

declare lowest_free.simps [simp del]

definition open_file :: "string \<Rightarrow> process \<Rightarrow> nat \<times> process" where
  "open_file name p = (let fd = lowest_free 0 (map fst (pr_fds p)) in (fd, p\<lparr>pr_fds := (fd, name) # pr_fds p\<rparr>))"

definition dup_to :: "nat \<Rightarrow> string \<Rightarrow> process \<Rightarrow> process" where
  "dup_to fd name p = p\<lparr>pr_fds := (fd, name) # pr_fds (close_fd fd p)\<rparr>"

text \<open>The descriptors, from \<^verbatim>\<open>sysconf\<close> on.\<close>

definition daemon_descriptors :: "daemon_answers \<Rightarrow> process \<Rightarrow> daemon_end" where
  "daemon_descriptors a p =
     (let maxfd = (if da_open_max a = -1 then kMaxClose else da_open_max a);
          p = fold close_fd [0..<nat maxfd] p
      in if \<not> da_open a then D_returns (-1) p
         else let (fd, p) = open_file ''/dev/null'' p
              in if fd \<noteq> 0 then D_returns (-1) p
                 else if \<not> da_dup1 a then D_returns (-1) p
                 else let p = dup_to 1 ''/dev/null'' p
                      in if \<not> da_dup2 a then D_returns (-1) p
                         else D_returns 0 (dup_to 2 ''/dev/null'' p))"

definition daemonInit :: "daemon_answers \<Rightarrow> string \<Rightarrow> process \<Rightarrow> daemon_end" where
  "daemonInit a workdir p =
     (if da_fork1 a = -1 then D_returns (-1) p
      else if da_fork1 a \<noteq> 0 then D_exits p
      else let p = p\<lparr>pr_leader := False\<rparr>
      in if \<not> da_setsid a then D_returns (-1) p
      else let p = p\<lparr>pr_leader := True, pr_terminal := False\<rparr>
      in if da_fork2 a = -1 then D_returns (-1) p
      else if da_fork2 a \<noteq> 0 then D_exits p
      else let p = p\<lparr>pr_leader := False, pr_umask := 0\<rparr>
      in if (case da_mkdir a of None \<Rightarrow> False | Some errno \<Rightarrow> errno \<noteq> EEXIST) then D_returns (-1) p
      else if \<not> da_chdir a then D_returns (-1) p
      else daemon_descriptors a (p\<lparr>pr_cwd := workdir\<rparr>))"

lemma close_fds: "pr_fds (fold close_fd fds p) = filter (\<lambda>e. fst e \<notin> set fds) (pr_fds p)"
  "pr_leader (fold close_fd fds p) = pr_leader p" "pr_terminal (fold close_fd fds p) = pr_terminal p"
  "pr_cwd (fold close_fd fds p) = pr_cwd p" "pr_umask (fold close_fd fds p) = pr_umask p"
  by (induction fds arbitrary: p) (auto simp: close_fd_def intro: filter_cong)

text \<open>A daemon that \<^verbatim>\<open>daemonInit\<close> returns 0 in has no terminal and cannot get one by leading its session, works in its directory with no
  file mode mask, and its descriptors 0, 1 and 2 are the null device. No other descriptor below the limit is open.\<close>

lemma daemon_detached:
  assumes "daemonInit a workdir p = D_returns 0 p'"
  defines "limit \<equiv> nat (if da_open_max a = -1 then kMaxClose else da_open_max a)"
  shows "\<not> pr_leader p'" "\<not> pr_terminal p'" "pr_cwd p' = workdir" "pr_umask p' = 0"
    "map_of (pr_fds p') 0 = Some ''/dev/null''" "map_of (pr_fds p') 1 = Some ''/dev/null''" "map_of (pr_fds p') 2 = Some ''/dev/null''"
    "\<And>fd. fd \<in> fst ` set (pr_fds p') \<Longrightarrow> fd < limit \<Longrightarrow> fd \<le> 2"
  using assms(1) unfolding limit_def
  by (auto simp: daemonInit_def daemon_descriptors_def open_file_def dup_to_def close_fd_def close_fds Let_def split: if_splits option.splits)

text \<open>It does succeed in the last child when no call fails.\<close>

lemma lowest_free_0: "0 \<notin> set fds \<Longrightarrow> lowest_free 0 fds = 0"
  by (simp add: lowest_free.simps)

lemma daemon_succeeds:
  assumes "da_fork1 a = 0" "da_setsid a" "da_fork2 a = 0" "da_mkdir a \<in> {None, Some EEXIST}" "da_chdir a" "da_open_max a \<noteq> 0"
    "da_open_max a \<ge> -1" "da_open a" "da_dup1 a" "da_dup2 a"
  shows "\<exists>p'. daemonInit a workdir p = D_returns 0 p'"
proof -
  define n where "n = nat (if da_open_max a = -1 then kMaxClose else da_open_max a)"
  have "0 < n" using assms(6,7) by (auto simp: n_def kMaxClose_def)
  then have "lowest_free 0 (map fst (pr_fds (fold close_fd [0..<n] q))) = 0" for q
    by (intro lowest_free_0) (auto simp: close_fds)
  with assms show ?thesis
    by (auto simp: daemonInit_def daemon_descriptors_def open_file_def Let_def n_def cong: if_cong)
qed

section \<open>Elapsed time\<close>

text \<open>The destructor of \<^verbatim>\<open>AutoStatElapsedTimeus\<close> measures, and \<^verbatim>\<open>execStatElapsedTime\<close> keeps the greatest measure. \<open>now\<close> is the clock
  before and after the function.\<close>

definition elapsed_us :: "Timestamp \<Rightarrow> Timestamp \<Rightarrow> int" where
  "elapsed_us startTimeus now =
     Doubles.truncate (nearest_double (timeDifference now startTimeus * rat_of_int kMicroSecondsPerSecond))"

record StatElapsedTimeus =
  se_elapsed :: int
  se_max :: int

definition StatElapsedTimeus_new :: StatElapsedTimeus where
  "StatElapsedTimeus_new = \<lparr>se_elapsed = 0, se_max = 0\<rparr>"

definition execStatElapsedTime :: "Timestamp \<times> Timestamp \<Rightarrow> StatElapsedTimeus \<Rightarrow> StatElapsedTimeus" where
  "execStatElapsedTime now s =
     (let elapsed = elapsed_us (fst now) (snd now)
      in \<lparr>se_elapsed = elapsed, se_max = (if elapsed > se_max s then elapsed else se_max s)\<rparr>)"

text \<open>The division by a million rounds, and the cast after the multiplication drops what is left of the last microsecond.\<close>

lemma elapsed_near:
  assumes "startTimeus \<le> now" "now - startTimeus < 2 ^ 51"
  shows "elapsed_us startTimeus now \<in> {now - startTimeus - 1, now - startTimeus} \<and> 0 \<le> elapsed_us startTimeus now"
  using addTime_timeDifference_pos [of "now - startTimeus"] assms
  by (simp add: elapsed_us_def timeDifference_def Let_def getMicroSeconds_def kMicroSecondsPerSecond_def)

lemma elapsed_loses_us: "elapsed_us 0 249 = 248"
proof -
  have "timeDifference 249 0 = rat_of_int 4593239274353678 / 2 ^ 64"
  proof -
    have "nearest_double 249 = 249" using nearest_double_int [of 249] by simp
    then have "timeDifference 249 0 = nearest_double (249 / 1000000)"
      by (simp add: timeDifference_def getMicroSeconds_def kMicroSecondsPerSecond_def)
    also have "\<dots> = rat_of_int 4593239274353678 / 2 ^ 64" by (rule nearest_double_eq) simp_all
    finally show ?thesis .
  qed
  moreover have "nearest_double (rat_of_int 4593239274353678 / 2 ^ 64 * rat_of_int kMicroSecondsPerSecond) = rat_of_int 8760908650119167 / 2 ^ 45"
    by (rule nearest_double_eq) (simp_all add: kMicroSecondsPerSecond_def)
  ultimately have "elapsed_us 0 249 = Doubles.truncate (rat_of_int 8760908650119167 / 2 ^ 45)"
    unfolding elapsed_us_def by (simp only:)
  then show ?thesis by (simp add: Doubles.truncate_def floor_eq_iff)
qed

lemma elapsed_max:
  "se_max (fold execStatElapsedTime ms StatElapsedTimeus_new) = Max (insert 0 ((\<lambda>m. elapsed_us (fst m) (snd m)) ` set ms))"
proof (induction ms rule: rev_induct)
  case (snoc m ms)
  have "insert 0 ((\<lambda>m. elapsed_us (fst m) (snd m)) ` set (ms @ [m]))
      = insert (elapsed_us (fst m) (snd m)) (insert 0 ((\<lambda>m. elapsed_us (fst m) (snd m)) ` set ms))" by auto
  then have "Max (insert 0 ((\<lambda>m. elapsed_us (fst m) (snd m)) ` set (ms @ [m])))
      = max (elapsed_us (fst m) (snd m)) (Max (insert 0 ((\<lambda>m. elapsed_us (fst m) (snd m)) ` set ms)))"
    by (simp only: Max_insert finite_insert finite_imageI finite_set insert_not_empty simp_thms)
  also have "\<dots> = se_max (fold execStatElapsedTime (ms @ [m]) StatElapsedTimeus_new)"
    unfolding snoc [symmetric] by (simp add: execStatElapsedTime_def Let_def max_def)
  finally show ?case ..
qed (simp add: StatElapsedTimeus_new_def)

section \<open>Singletons\<close>

text \<open>\<^verbatim>\<open>pthread_once\<close> runs \<^verbatim>\<open>init\<close> in the first call only and lets every other call wait for it, so calls are one after the other.
  Objects have numbers.\<close>

record singleton =
  sn_once :: bool
  sn_value :: "nat option"
  sn_made :: nat
  sn_atexit :: nat

definition Singleton_static :: singleton where
  "Singleton_static = \<lparr>sn_once = False, sn_value = None, sn_made = 0, sn_atexit = 0\<rparr>"

definition Singleton_init :: "singleton \<Rightarrow> singleton" where
  "Singleton_init s = s\<lparr>sn_value := Some (sn_made s), sn_made := sn_made s + 1, sn_atexit := sn_atexit s + 1\<rparr>"

definition Singleton_instance :: "singleton \<Rightarrow> (nat \<times> singleton) option" where
  "Singleton_instance s = do {
     let s = (if sn_once s then s else (Singleton_init s)\<lparr>sn_once := True\<rparr>);
     assertion (sn_value s \<noteq> None);
     Some (the (sn_value s), s) }"

definition Singleton_destroy :: "singleton \<Rightarrow> singleton" where
  "Singleton_destroy s = s\<lparr>sn_value := None\<rparr>"

text \<open>Every call gives the one object made by the first, until the process exits; a call after that fails its assertion.\<close>

lemma singleton_once:
  "foldo (\<lambda>_ s. map_option snd (Singleton_instance s)) (u # us) Singleton_static
     = Some \<lparr>sn_once = True, sn_value = Some 0, sn_made = 1, sn_atexit = 1\<rparr>"
proof -
  let ?s = "\<lparr>sn_once = True, sn_value = Some 0, sn_made = 1, sn_atexit = 1\<rparr>"
  have "Singleton_instance Singleton_static = Some (0, ?s)" "Singleton_instance ?s = Some (0, ?s)"
    by (simp_all add: Singleton_instance_def Singleton_init_def Singleton_static_def)
  moreover from this have "foldo (\<lambda>_ s. map_option snd (Singleton_instance s)) us ?s = Some ?s" by (induction us) simp_all
  ultimately show ?thesis by simp
qed

lemma singleton_after_exit:
  "Singleton_instance s = Some (v, s') \<Longrightarrow> Singleton_instance (Singleton_destroy s') = None"
  by (auto simp: Singleton_instance_def Singleton_destroy_def Singleton_init_def assertion_def Let_def split: if_splits)

section \<open>Weak callbacks\<close>

text \<open>\<^verbatim>\<open>WeakCallback::operator()\<close>: \<open>alive\<close> says which objects still have an owner.\<close>

definition WeakCallback_call :: "('o \<Rightarrow> bool) \<Rightarrow> 'o \<Rightarrow> ('o \<Rightarrow> 'w \<Rightarrow> 'w) \<Rightarrow> 'w \<Rightarrow> 'w" where
  "WeakCallback_call alive object function w = (if alive object then function object w else w)"

end
