(* ===== verification/Lifetimes.thy ===== *)
theory Lifetimes
  imports Loop
begin

text \<open>
  \<^verbatim>\<open>pallette/EventLoop.cpp\<close>, \<^verbatim>\<open>TimerQueue.cpp\<close>, \<^verbatim>\<open>EpollPoller.cpp\<close>: construction and destruction of event loops with
  everything they own, and the rule of one loop per thread. An \<^verbatim>\<open>EventLoop\<close> object is its poller and channels
  (\<open>Poller\<close>), its timer queue (\<open>Timers\<close>) and three descriptors; \<^verbatim>\<open>tLoopInThisThread\<close> has a value in every thread. What the
  loop does while it runs is in \<open>Loop\<close>.

  Parameters: \<open>newfd\<close> answers a call that creates a descriptor, knowing those that are open; \<open>alloc\<close> and \<open>user\<close> are
  those of \<open>Timers\<close>. \<^verbatim>\<open>LOG_FATAL\<close> and \<^verbatim>\<open>LOG_SYSFATAL\<close> end the process, so they are a stop here.
\<close>

type_synonym thread = nat

record loop_object =
  lo_threadId :: thread
  lo_rc :: reactor
  lo_tq :: "Timers.addr list \<times> TimerQueue"
  lo_epollfd :: int
  lo_timerfd :: int
  lo_wakeupFd :: int
  lo_timerChannel :: Poller.addr
  lo_wakeupChannel :: Poller.addr

record process =
  ps_tLoop :: "thread \<Rightarrow> nat option"
  ps_loops :: "nat \<Rightarrow> loop_object option"
  ps_open :: "int list"

definition process_start :: "int list \<Rightarrow> process" where
  "process_start fds = \<lparr>ps_tLoop = \<lambda>_. None, ps_loops = \<lambda>_. None, ps_open = fds\<rparr>"

section \<open>Descriptors\<close>

text \<open>\<^verbatim>\<open>epoll_create1\<close>, \<^verbatim>\<open>createTimerfd\<close> and \<^verbatim>\<open>CreateEventFd\<close>: each is fatal when the kernel gives no descriptor.\<close>

definition create_fd :: "(int list \<Rightarrow> int) \<Rightarrow> process \<Rightarrow> (int \<times> process) option" where
  "create_fd newfd p = do {
     let fd = newfd (ps_open p);
     assertion (0 \<le> fd);
     Some (fd, p\<lparr>ps_open := fd # ps_open p\<rparr>) }"

definition close_descriptor :: "int \<Rightarrow> process \<Rightarrow> process" where
  "close_descriptor fd p = p\<lparr>ps_open := filter (\<lambda>x. x \<noteq> fd) (ps_open p)\<rparr>"

section \<open>Threads\<close>

definition isInLoopThread :: "thread \<Rightarrow> loop_object \<Rightarrow> bool" where
  "isInLoopThread self l \<longleftrightarrow> lo_threadId l = self"

definition assertInLoopThread :: "thread \<Rightarrow> loop_object \<Rightarrow> unit option" where
  "assertInLoopThread self l = assertion (isInLoopThread self l)"

definition getEventLoopOfCurrentThread :: "thread \<Rightarrow> process \<Rightarrow> nat option" where
  "getEventLoopOfCurrentThread self p = ps_tLoop p self"

section \<open>Construction\<close>

text \<open>The callbacks of the two channels are \<^verbatim>\<open>TimerQueue::handleRead\<close> and \<^verbatim>\<open>EventLoop::handleRead\<close>.\<close>

definition timer_handler :: handler where "timer_handler = 0"

definition wakeup_handler :: handler where "wakeup_handler = 1"

definition TimerQueue_construct :: "int \<Rightarrow> Poller.addr \<Rightarrow> reactor \<Rightarrow> reactor option" where
  "TimerQueue_construct timerfd timerfdChannel r = do {
     r \<leftarrow> chan_step (ChNew timerfdChannel timerfd) r;
     r \<leftarrow> Channel_setReadCallback timer_handler timerfdChannel r;
     enableReading timerfdChannel r }"

text \<open>The members are initialised in the order of their declaration, then the body runs. \<open>this\<close> is the address of the loop, the
  two other addresses those of the channels. The channels are updated by the constructing thread, which is
  \<^verbatim>\<open>threadId_\<close>.\<close>

definition EventLoop_construct ::
  "(int list \<Rightarrow> int) \<Rightarrow> thread \<Rightarrow> nat \<Rightarrow> Poller.addr \<Rightarrow> Poller.addr \<Rightarrow> process \<Rightarrow> process option" where
  "EventLoop_construct newfd self this timerfdChannel wakeupChannel p = do {
     (epollfd, p) \<leftarrow> create_fd newfd p;
     let r = EpollPoller_new;
     (timerfd, p) \<leftarrow> create_fd newfd p;
     r \<leftarrow> TimerQueue_construct timerfd timerfdChannel r;
     (wakeupFd, p) \<leftarrow> create_fd newfd p;
     r \<leftarrow> chan_step (ChNew wakeupChannel wakeupFd) r;
     assertion (ps_tLoop p self = None);
     let p = p\<lparr>ps_tLoop := (ps_tLoop p)(self := Some this)\<rparr>;
     r \<leftarrow> Channel_setReadCallback wakeup_handler wakeupChannel r;
     r \<leftarrow> enableReading wakeupChannel r;
     Some (p\<lparr>ps_loops := (ps_loops p)(this := Some \<lparr>lo_threadId = self, lo_rc = r, lo_tq = ([], TimerQueue_new),
       lo_epollfd = epollfd, lo_timerfd = timerfd, lo_wakeupFd = wakeupFd,
       lo_timerChannel = timerfdChannel, lo_wakeupChannel = wakeupChannel\<rparr>)\<rparr>) }"

section \<open>Destruction\<close>

definition TimerQueue_destruct ::
  "thread \<Rightarrow> loop_object \<Rightarrow> reactor \<times> process \<Rightarrow> (reactor \<times> process) option" where
  "TimerQueue_destruct self l rp = do {
     let (r, p) = rp;
     assertInLoopThread self l;
     r \<leftarrow> disableAll (lo_timerChannel l) r;
     r \<leftarrow> Channel_remove (lo_timerChannel l) r;
     let p = close_descriptor (lo_timerfd l) p;
     q \<leftarrow> TimerQueue_destroy (snd (lo_tq l));
     r \<leftarrow> Channel_destroy (lo_timerChannel l) r;
     Some (r, p) }"

text \<open>The body, then the members in the opposite order: the wakeup channel, the timer queue, the poller. \<^verbatim>\<open>disableAll\<close> reaches
  \<^verbatim>\<open>assertInLoopThread\<close> through \<^verbatim>\<open>EventLoop::updateChannel\<close>.\<close>

definition EventLoop_destruct :: "thread \<Rightarrow> nat \<Rightarrow> process \<Rightarrow> process option" where
  "EventLoop_destruct self this p = do {
     l \<leftarrow> ps_loops p this;
     assertInLoopThread self l;
     r \<leftarrow> disableAll (lo_wakeupChannel l) (lo_rc l);
     r \<leftarrow> Channel_remove (lo_wakeupChannel l) r;
     let p = close_descriptor (lo_wakeupFd l) p;
     let p = p\<lparr>ps_tLoop := (ps_tLoop p)(self := None)\<rparr>;
     r \<leftarrow> Channel_destroy (lo_wakeupChannel l) r;
     (r, p) \<leftarrow> TimerQueue_destruct self l (r, p);
     let p = close_descriptor (lo_epollfd l) p;
     Some (p\<lparr>ps_loops := (ps_loops p)(this := None)\<rparr>) }"

section \<open>Use\<close>

text \<open>Between the two, code in the loop's thread works with its own channels, never with the two private ones, and timers come
  and go. A channel operation of another thread is fatal.\<close>

fun op_channel :: "chan_op \<Rightarrow> Poller.addr option" where
  "op_channel (ChNew a fd) = Some a"
| "op_channel (ChEnableReading a) = Some a"
| "op_channel (ChDisableReading a) = Some a"
| "op_channel (ChEnableWriting a) = Some a"
| "op_channel (ChDisableWriting a) = Some a"
| "op_channel (ChDisableAll a) = Some a"
| "op_channel (ChRemove a) = Some a"
| "op_channel (ChTie a) = Some a"
| "op_channel (ChDestroy a) = Some a"
| "op_channel (ChPoll answer) = None"
| "op_channel (ChSetRead cb a) = Some a"
| "op_channel (ChSetWrite cb a) = Some a"
| "op_channel (ChSetClose cb a) = Some a"
| "op_channel (ChSetError cb a) = Some a"

datatype process_op =
    P_construct thread nat Poller.addr Poller.addr
  | P_destruct thread nat
  | P_channel thread nat chan_op
  | P_timer nat tq_op

definition process_step ::
  "(int list \<Rightarrow> int) \<Rightarrow> (heap \<Rightarrow> Timers.addr) \<Rightarrow> (callback \<Rightarrow> TimerQueue \<Rightarrow> tq_call list) \<Rightarrow> process_op \<Rightarrow> process \<Rightarrow> process option" where
  "process_step newfd alloc user act p =
     (case act of
        P_construct self this tch wch \<Rightarrow> do {
          assertion (ps_loops p this = None);
          EventLoop_construct newfd self this tch wch p }
      | P_destruct self this \<Rightarrow> EventLoop_destruct self this p
      | P_channel self this op \<Rightarrow> do {
          l \<leftarrow> ps_loops p this;
          assertion (op_channel op \<notin> {Some (lo_timerChannel l), Some (lo_wakeupChannel l)});
          assertInLoopThread self l;
          r \<leftarrow> chan_step op (lo_rc l);
          Some (p\<lparr>ps_loops := (ps_loops p)(this := Some (l\<lparr>lo_rc := r\<rparr>))\<rparr>) }
      | P_timer this op \<Rightarrow> do {
          l \<leftarrow> ps_loops p this;
          q \<leftarrow> tq_step alloc user op (lo_tq l);
          Some (p\<lparr>ps_loops := (ps_loops p)(this := Some (l\<lparr>lo_tq := q\<rparr>))\<rparr>) })"

section \<open>The loop's own channels\<close>

text \<open>A private channel in use: registered for reading, and no handler of it is running.\<close>

definition own_channel :: "reactor \<Rightarrow> Poller.addr \<Rightarrow> int \<Rightarrow> bool" where
  "own_channel r a fd \<longleftrightarrow> (\<exists>c. chan r a = Some c \<and> ch_fd c = fd \<and> ch_events c = kReadEvent \<and> ch_index c = kAdded
     \<and> \<not> ch_eventHandling c)"

lemma own_channel_cong: "chan r' a = chan r a \<Longrightarrow> own_channel r' a fd = own_channel r a fd"
  by (simp add: own_channel_def)

lemma own_channel_interest:
  "reactor_inv r \<Longrightarrow> own_channel r a fd \<Longrightarrow> map_find (rc_interest r) fd = Some (kReadEvent, a)"
  by (auto simp: own_channel_def dest: reactor_invD(2))

lemma kReadEvent_some [simp]: "kReadEvent \<noteq> kNoneEvent" "kNoneEvent OR kReadEvent = kReadEvent" "0 OR kReadEvent = kReadEvent"
  by (simp_all add: epoll_defs)

lemma chan_erase: "chan (r\<lparr>rc_chans := snd (map_erase (rc_chans r) a)\<rparr>) a' = (if a' = a then None else chan r a')"
  by (simp add: chan_def)

text \<open>A new channel on a descriptor no other channel has.\<close>

lemma add_channel:
  assumes "reactor_inv r" "chan r a = None" "\<And>a' c. chan r a' = Some c \<Longrightarrow> ch_fd c \<noteq> fd"
  obtains r1 r2 r3 where "chan_step (ChNew a fd) r = Some r1" "Channel_setReadCallback h a r1 = Some r2"
    "enableReading a r2 = Some r3" "reactor_inv r3" "own_channel r3 a fd" "\<And>a'. a' \<noteq> a \<Longrightarrow> chan r3 a' = chan r a'"
    "rc_eventHandling r3 = rc_eventHandling r" "\<And>c. chan r3 a = Some c \<Longrightarrow> ch_fd c = fd"
proof -
  let ?c = "(Channel_new fd)\<lparr>ch_readCallback := Some h\<rparr>"
  define r1 where "r1 = set_chan a (Channel_new fd) r"
  define r2 where "r2 = set_chan a ?c r1"
  have r1: "chan_step (ChNew a fd) r = Some r1" using assms(2) by (simp add: r1_def)
  have r2: "Channel_setReadCallback h a r1 = Some r2" by (simp add: Channel_setReadCallback_def r1_def r2_def)
  have inv: "reactor_inv r2"
    unfolding r2_def r1_def
    by (rule set_chan_inv [OF new_inv [OF assms(1,2)], where c = "Channel_new fd"]) simp_all
  have c: "chan r2 a = Some ?c" by (simp add: r2_def)
  have "map_find (rc_channels r2) fd = None"
  proof (rule ccontr)
    assume "map_find (rc_channels r2) fd \<noteq> None"
    then obtain a' where "map_find (rc_channels r) fd = Some a'" by (auto simp: r2_def r1_def)
    with reactor_inv_table [OF assms(1)] assms(3) show False by metis
  qed
  then obtain r3 i where r3: "enableReading a r2 = Some r3" "reactor_inv r3" "rc_eventHandling r3 = rc_eventHandling r2"
    "chan r3 = (chan r2)(a := Some (?c\<lparr>ch_events := kReadEvent, ch_addedToLoop := True, ch_index := i\<rparr>))" "i = kAdded"
    using with_events_cases [OF inv c, of "\<lambda>e. e OR kReadEvent"]
    by (auto simp: enableReading_def Channel_new_def)
  show ?thesis
    by (rule that [OF r1 r2 r3(1,2)])
      (use r3(3-5) in \<open>auto simp: own_channel_def r2_def r1_def Channel_new_def\<close>)
qed

text \<open>Taking a private channel out again.\<close>

lemma drop_channel:
  assumes "reactor_inv r" "own_channel r a fd" "\<not> rc_eventHandling r"
  obtains r1 r2 r3 where "disableAll a r = Some r1" "Channel_remove a r1 = Some r2" "Channel_destroy a r2 = Some r3"
    "reactor_inv r3" "\<And>a'. a' \<noteq> a \<Longrightarrow> chan r3 a' = chan r a'" "\<not> rc_eventHandling r3"
proof -
  obtain c where c: "chan r a = Some c" "ch_fd c = fd" "ch_index c = kAdded" "\<not> ch_eventHandling c"
    using assms(2) by (auto simp: own_channel_def)
  obtain r1 i where r1: "disableAll a r = Some r1" "reactor_inv r1" "rc_eventHandling r1 = rc_eventHandling r"
    "chan r1 = (chan r)(a := Some (c\<lparr>ch_events := kNoneEvent, ch_addedToLoop := True, ch_index := i\<rparr>))" "i = kAdded \<or> i = kDeleted"
    using with_events_cases [OF assms(1) c(1), of "\<lambda>_. kNoneEvent"] c(3) by (auto simp: disableAll_def)
  let ?c1 = "c\<lparr>ch_events := kNoneEvent, ch_addedToLoop := True, ch_index := i\<rparr>"
  have c1: "chan r1 a = Some ?c1" using r1(4) by simp
  obtain r2 where r2: "Channel_remove a r1 = Some r2" "reactor_inv r2" "rc_eventHandling r2 = rc_eventHandling r1"
    "chan r2 = (chan r1)(a := Some (?c1\<lparr>ch_addedToLoop := False, ch_index := kNew\<rparr>))"
    using remove_ok [OF r1(2) c1] r1(3,5) assms(3) by (auto simp: isNoneEvent_def)
  define r3 where "r3 = r2\<lparr>rc_chans := snd (map_erase (rc_chans r2) a)\<rparr>"
  have r3_chan: "chan r3 a' = (if a' = a then None else chan r2 a')" for a' by (simp add: r3_def chan_erase)
  have c2: "chan r2 a = Some (?c1\<lparr>ch_addedToLoop := False, ch_index := kNew\<rparr>)" using r2(4) by simp
  have "map_find (rc_channels r2) (ch_fd c) \<noteq> Some a" using reactor_invD(1) [OF r2(2) c2] by simp
  then have r3: "Channel_destroy a r2 = Some r3"
    using c2 c(4) by (simp add: Channel_destroy_def EventLoop_hasChannel_def EpollPoller_hasChannel_def r3_def)
  show ?thesis
    by (rule that [OF r1(1) r2(1) r3 destroy_inv [OF r2(2) r3]])
      (use r1(3,4) r2(3,4) assms(3) in \<open>simp_all add: r3_chan, simp add: r3_def\<close>)
qed

text \<open>No operation on other channels touches a private one, except that polling stores the reported events in it.\<close>

lemma fill_keeps:
  assumes "fillActiveChannels evs s = Some s'" "chan s a = Some c"
  shows "(\<exists>rv. chan s' a = Some (c\<lparr>ch_revents := rv\<rparr>)) \<and> rc_eventHandling s' = rc_eventHandling s"
proof -
  let ?P = "\<lambda>s'. (\<exists>rv. chan s' a = Some (c\<lparr>ch_revents := rv\<rparr>)) \<and> rc_eventHandling s' = rc_eventHandling s"
  from assms(1) have run: "foldo (\<lambda>ev s. do {
         c \<leftarrow> chan s (fst ev);
         let s = set_chan (fst ev) (c\<lparr>ch_revents := snd ev\<rparr>) s;
         Some (s\<lparr>rc_active := rc_active s @ [fst ev]\<rparr>) }) evs s = Some s'"
    by (simp add: fillActiveChannels_def)
  have "c = c\<lparr>ch_revents := ch_revents c\<rparr>" by simp
  with assms(2) have start: "?P s" by metis
  show ?thesis
    by (rule foldo_invariant [where P = ?P, OF _ start run]) (auto simp: Let_def elim!: bind_eq_SomeE split: if_splits; blast)
qed

lemma chan_step_keeps_own:
  assumes "reactor_inv s" "chan_step op s = Some s'" "op_channel op \<noteq> Some a" "own_channel s a fd"
  shows "own_channel s' a fd \<and> rc_eventHandling s' = rc_eventHandling s"
proof -
  have ev: "chan s' a = chan s a \<and> rc_eventHandling s' = rc_eventHandling s" if "with_events f b s = Some s'" "b \<noteq> a" for f b
  proof -
    from that(1) obtain c where "chan s b = Some c" by (auto simp: with_events_def elim: bind_eq_SomeE)
    from with_events_cases [OF assms(1) this, of f] that show ?thesis by (auto split: if_splits)
  qed
  have rm: "chan s' a = chan s a \<and> rc_eventHandling s' = rc_eventHandling s" if "Channel_remove b s = Some s'" "b \<noteq> a" for b
  proof -
    from that(1) obtain c where "chan s b = Some c" by (auto simp: Channel_remove_def elim: bind_eq_SomeE)
    from remove_ok [OF assms(1) this] that show ?thesis by (auto split: if_splits)
  qed
  show ?thesis
  proof (cases "\<exists>answer. op = ChPoll answer")
    case True
    then obtain answer where ChPoll: "op = ChPoll answer" by blast
    obtain c where c: "chan (s\<lparr>rc_active := []\<rparr>) a = Some c" using assms(4) by (auto simp: own_channel_def)
    from ChPoll assms(2) show ?thesis
    proof (cases answer)
      case (EpollEvents evs)
      show ?thesis
      proof (cases "evs = []")
        case False
        then obtain s1 where s1: "fillActiveChannels evs (s\<lparr>rc_active := []\<rparr>) = Some s1"
          "chan s' = chan s1" "rc_eventHandling s' = rc_eventHandling s1"
          using ChPoll EpollEvents assms(2) by (auto simp: EpollPoller_poll_def elim!: bind_eq_SomeE split: if_splits)
        from fill_keeps [OF s1(1) c] obtain rv where "chan s1 a = Some (c\<lparr>ch_revents := rv\<rparr>)" "rc_eventHandling s1 = rc_eventHandling s"
          by auto
        with c s1(2,3) assms(4) show ?thesis by (auto simp: own_channel_def)
      qed (use ChPoll EpollEvents assms(2,4) in \<open>auto simp: EpollPoller_poll_def own_channel_def\<close>)
    qed (use ChPoll assms(2,4) in \<open>auto simp: EpollPoller_poll_def own_channel_def\<close>)
  next
    case False
    with assms(2,3) have "chan s' a = chan s a \<and> rc_eventHandling s' = rc_eventHandling s"
      by (cases op) (auto simp: interest_defs setter_defs Channel_destroy_def chan_erase dest: ev rm elim!: bind_eq_SomeE split: if_splits)
    then show ?thesis using assms(4) own_channel_cong [of s' a s] by simp
  qed
qed

section \<open>The invariant of the process\<close>

definition loop_fds :: "loop_object \<Rightarrow> int list" where
  "loop_fds l = [lo_epollfd l, lo_timerfd l, lo_wakeupFd l]"

definition loop_ok :: "loop_object \<Rightarrow> bool" where
  "loop_ok l \<longleftrightarrow> reactor_inv (lo_rc l) \<and> \<not> rc_eventHandling (lo_rc l)
     \<and> own_channel (lo_rc l) (lo_timerChannel l) (lo_timerfd l) \<and> own_channel (lo_rc l) (lo_wakeupChannel l) (lo_wakeupFd l)
     \<and> lo_timerChannel l \<noteq> lo_wakeupChannel l \<and> run_inv (lo_tq l)"

definition tls_ok :: "process \<Rightarrow> bool" where
  "tls_ok p \<longleftrightarrow> (\<forall>t this. ps_tLoop p t = Some this \<longleftrightarrow> (\<exists>l. ps_loops p this = Some l \<and> lo_threadId l = t))"

text \<open>Every open descriptor has one owner: the rest of the program, or one loop.\<close>

definition fds_ok :: "int list \<Rightarrow> process \<Rightarrow> bool" where
  "fds_ok fds p \<longleftrightarrow>
     (\<forall>fd. fd \<in> set (ps_open p) \<longleftrightarrow> fd \<in> set fds \<or> (\<exists>this l. ps_loops p this = Some l \<and> fd \<in> set (loop_fds l)))
     \<and> (\<forall>this l. ps_loops p this = Some l \<longrightarrow> set (loop_fds l) \<inter> set fds = {})
     \<and> (\<forall>this l this' l'. ps_loops p this = Some l \<longrightarrow> ps_loops p this' = Some l' \<longrightarrow> this \<noteq> this' \<longrightarrow>
          set (loop_fds l) \<inter> set (loop_fds l') = {})"

definition process_ok :: "int list \<Rightarrow> process \<Rightarrow> bool" where
  "process_ok fds p \<longleftrightarrow> tls_ok p \<and> fds_ok fds p \<and> (\<forall>this l. ps_loops p this = Some l \<longrightarrow> loop_ok l)"

text \<open>The kernel gives no descriptor that is open.\<close>

definition kernel_ok :: "(int list \<Rightarrow> int) \<Rightarrow> bool" where
  "kernel_ok newfd \<longleftrightarrow> (\<forall>fds. newfd fds \<notin> set fds)"

lemma process_start_ok: "process_ok fds (process_start fds)"
  by (simp add: process_ok_def process_start_def tls_ok_def fds_ok_def)

section \<open>Construction and destruction\<close>

definition constructed ::
  "(int list \<Rightarrow> int) \<Rightarrow> thread \<Rightarrow> nat \<Rightarrow> Poller.addr \<Rightarrow> Poller.addr \<Rightarrow> process \<Rightarrow> bool" where
  "constructed newfd self this tch wch p \<longleftrightarrow>
     ps_tLoop p self = None \<and> tch \<noteq> wch \<and> 0 \<le> newfd (ps_open p) \<and> 0 \<le> newfd (newfd (ps_open p) # ps_open p)
     \<and> 0 \<le> newfd (newfd (newfd (ps_open p) # ps_open p) # newfd (ps_open p) # ps_open p)"

lemma construct_cases:
  fixes p newfd
  defines "f1 \<equiv> newfd (ps_open p)"
  defines "f2 \<equiv> newfd (f1 # ps_open p)"
  defines "f3 \<equiv> newfd (f2 # f1 # ps_open p)"
  assumes "kernel_ok newfd"
  shows "if constructed newfd self this tch wch p
    then \<exists>l. EventLoop_construct newfd self this tch wch p = Some (p\<lparr>ps_open := f3 # f2 # f1 # ps_open p,
        ps_tLoop := (ps_tLoop p)(self := Some this), ps_loops := (ps_loops p)(this := Some l)\<rparr>)
      \<and> loop_ok l \<and> lo_threadId l = self \<and> loop_fds l = [f1, f2, f3]
    else EventLoop_construct newfd self this tch wch p = None"
proof -
  have f: "f2 \<noteq> f3" using assms(4) unfolding kernel_ok_def f3_def by (metis list.set_intros(1))
  obtain r1 r2 r3 where r: "chan_step (ChNew tch f2) EpollPoller_new = Some r1"
    "Channel_setReadCallback timer_handler tch r1 = Some r2" "enableReading tch r2 = Some r3" "reactor_inv r3"
    "own_channel r3 tch f2" "\<And>a'. a' \<noteq> tch \<Longrightarrow> chan r3 a' = None" "\<not> rc_eventHandling r3"
    "\<And>c. chan r3 tch = Some c \<Longrightarrow> ch_fd c = f2"
    using add_channel [OF reactor_inv_new, of tch f2 timer_handler]
    by (auto simp: chan_def EpollPoller_new_def)
  show ?thesis
  proof (cases "tch = wch")
    case True
    have "chan_step (ChNew wch f3) r3 = None" using r(5) True by (auto simp: own_channel_def)
    then show ?thesis using True r(1-3)
      by (auto simp: EventLoop_construct_def TimerQueue_construct_def create_fd_def constructed_def Let_def assertion_def
          simp del: chan_step.simps simp flip: f1_def f2_def f3_def)
  next
    case False
    obtain s1 s2 s3 where s: "chan_step (ChNew wch f3) r3 = Some s1"
      "Channel_setReadCallback wakeup_handler wch s1 = Some s2" "enableReading wch s2 = Some s3" "reactor_inv s3"
      "own_channel s3 wch f3" "\<And>a'. a' \<noteq> wch \<Longrightarrow> chan s3 a' = chan r3 a'" "\<not> rc_eventHandling s3"
    proof (rule add_channel [OF r(4), of wch f3 wakeup_handler])
      show "chan r3 wch = None" using r(6) False by simp
      show "ch_fd c \<noteq> f3" if "chan r3 a' = Some c" for a' c
        using that r(6) [of a'] r(8) [of c] f by (cases "a' = tch") auto
    qed (use r(7) in auto)
    define l where "l = \<lparr>lo_threadId = self, lo_rc = s3, lo_tq = ([], TimerQueue_new), lo_epollfd = f1, lo_timerfd = f2,
      lo_wakeupFd = f3, lo_timerChannel = tch, lo_wakeupChannel = wch\<rparr>"
    have "own_channel s3 tch f2" using own_channel_cong [OF s(6) [OF False]] r(5) by simp
    then have "loop_ok l" using s(4,5,7) False by (simp add: loop_ok_def l_def)
    moreover have "loop_fds l = [f1, f2, f3]" "lo_threadId l = self" by (simp_all add: loop_fds_def l_def)
    moreover have "EventLoop_construct newfd self this tch wch p =
        (if constructed newfd self this tch wch p then Some (p\<lparr>ps_open := f3 # f2 # f1 # ps_open p,
          ps_tLoop := (ps_tLoop p)(self := Some this), ps_loops := (ps_loops p)(this := Some l)\<rparr>) else None)"
      using False r(1-3) s(1-3)
      by (simp add: EventLoop_construct_def TimerQueue_construct_def create_fd_def constructed_def Let_def assertion_def
          del: chan_step.simps flip: f1_def f2_def f3_def) (simp add: l_def)
    ultimately show ?thesis by auto
  qed
qed

lemma destruct_cases:
  assumes "ps_loops p this = Some l" "loop_ok l"
  shows "EventLoop_destruct self this p =
    (if isInLoopThread self l \<and> TimerQueue_destroy (snd (lo_tq l)) \<noteq> None
     then Some (p\<lparr>ps_open := filter (\<lambda>fd. fd \<notin> set (loop_fds l)) (ps_open p),
       ps_tLoop := (ps_tLoop p)(self := None), ps_loops := (ps_loops p)(this := None)\<rparr>)
     else None)"
proof -
  have ok: "reactor_inv (lo_rc l)" "own_channel (lo_rc l) (lo_wakeupChannel l) (lo_wakeupFd l)" "\<not> rc_eventHandling (lo_rc l)"
    "own_channel (lo_rc l) (lo_timerChannel l) (lo_timerfd l)" "lo_timerChannel l \<noteq> lo_wakeupChannel l"
    using assms(2) by (simp_all add: loop_ok_def)
  obtain r1 r2 r3 where r: "disableAll (lo_wakeupChannel l) (lo_rc l) = Some r1" "Channel_remove (lo_wakeupChannel l) r1 = Some r2"
    "Channel_destroy (lo_wakeupChannel l) r2 = Some r3" "reactor_inv r3"
    "\<And>a'. a' \<noteq> lo_wakeupChannel l \<Longrightarrow> chan r3 a' = chan (lo_rc l) a'" "\<not> rc_eventHandling r3"
    by (rule drop_channel [OF ok(1-3)]) blast
  have own: "own_channel r3 (lo_timerChannel l) (lo_timerfd l)"
    using own_channel_cong [OF r(5) [OF ok(5)]] ok(4) by simp
  obtain s1 s2 s3 where s: "disableAll (lo_timerChannel l) r3 = Some s1" "Channel_remove (lo_timerChannel l) s1 = Some s2"
    "Channel_destroy (lo_timerChannel l) s2 = Some s3"
    by (rule drop_channel [OF r(4) own r(6)]) blast
  have fds: "filter (\<lambda>x. x \<noteq> lo_wakeupFd l \<and> x \<noteq> lo_timerfd l \<and> x \<noteq> lo_epollfd l) xs = filter (\<lambda>fd. fd \<notin> set (loop_fds l)) xs" for xs
    by (rule filter_cong) (auto simp: loop_fds_def)
  show ?thesis
    using assms(1) r(1-3) s
    by (cases "TimerQueue_destroy (snd (lo_tq l))")
      (simp_all add: EventLoop_destruct_def TimerQueue_destruct_def assertInLoopThread_def close_descriptor_def assertion_def fds Let_def)
qed

section \<open>Steps keep the invariant\<close>

lemma constructed_ok:
  assumes "process_ok fds p" "kernel_ok newfd" "ps_loops p this = None" "EventLoop_construct newfd self this tch wch p = Some p'"
  shows "process_ok fds p'"
proof -
  define f1 where "f1 = newfd (ps_open p)"
  define f2 where "f2 = newfd (f1 # ps_open p)"
  define f3 where "f3 = newfd (f2 # f1 # ps_open p)"
  have fresh: "f1 \<notin> set (ps_open p)" "f2 \<notin> set (f1 # ps_open p)" "f3 \<notin> set (f2 # f1 # ps_open p)"
    using assms(2) unfolding kernel_ok_def f1_def f2_def f3_def by blast+
  from construct_cases [OF assms(2), of self this tch wch p] assms(4) obtain l where
    p': "p' = p\<lparr>ps_open := f3 # f2 # f1 # ps_open p, ps_tLoop := (ps_tLoop p)(self := Some this),
      ps_loops := (ps_loops p)(this := Some l)\<rparr>"
    and l: "loop_ok l" "lo_threadId l = self" "loop_fds l = [f1, f2, f3]" and none: "ps_tLoop p self = None"
    unfolding f1_def [symmetric] f2_def [symmetric] f3_def [symmetric] by (auto simp: constructed_def split: if_splits)
  have "tls_ok p'"
    using assms(1,3) none l(2) unfolding process_ok_def tls_ok_def p' by (auto; metis option.distinct(1))
  moreover have "fds_ok fds p'"
  proof -
    have "fds_ok fds p" using assms(1) by (simp add: process_ok_def)
    then have own: "fd \<in> set (ps_open p) \<longleftrightarrow> fd \<in> set fds \<or> (\<exists>this l. ps_loops p this = Some l \<and> fd \<in> set (loop_fds l))" for fd
      by (simp add: fds_ok_def)
    have new: "fd \<in> set (loop_fds l) \<Longrightarrow> fd \<notin> set (ps_open p)" for fd using fresh l(3) by auto
    have old: "ps_loops p t = Some x \<Longrightarrow> fd \<in> set (loop_fds x) \<Longrightarrow> fd \<in> set (ps_open p)" for t x fd using own by blast
    have "fd \<in> set (ps_open p') \<longleftrightarrow> fd \<in> set fds \<or> (\<exists>this l. ps_loops p' this = Some l \<and> fd \<in> set (loop_fds l))" for fd
    proof -
      have "fd \<in> set (ps_open p') \<longleftrightarrow> fd \<in> set (ps_open p) \<or> fd \<in> set (loop_fds l)" using l(3) by (auto simp: p')
      moreover have "(\<exists>t x. ps_loops p' t = Some x \<and> fd \<in> set (loop_fds x)) \<longleftrightarrow>
          fd \<in> set (loop_fds l) \<or> (\<exists>t x. ps_loops p t = Some x \<and> fd \<in> set (loop_fds x))"
        using assms(3) by (auto simp: p' split: if_splits) (metis option.distinct(1))
      ultimately show ?thesis using own [of fd] by blast
    qed
    moreover have "set (loop_fds l) \<inter> set fds = {}" using new own by blast
    moreover have "ps_loops p t = Some x \<Longrightarrow> set (loop_fds l) \<inter> set (loop_fds x) = {}" for t x using new old by blast
    moreover have "ps_loops p t = Some x \<Longrightarrow> set (loop_fds x) \<inter> set (loop_fds l) = {}" for t x using new old by blast
    moreover have "ps_loops p' t = (if t = this then Some l else ps_loops p t)" for t by (simp add: p')
    ultimately show ?thesis using \<open>fds_ok fds p\<close> unfolding fds_ok_def by (simp split: if_splits)
  qed
  moreover have "\<forall>this l. ps_loops p' this = Some l \<longrightarrow> loop_ok l"
    using assms(1) l(1) by (auto simp: process_ok_def p')
  ultimately show ?thesis by (simp add: process_ok_def)
qed

lemma destructed_ok:
  assumes "process_ok fds p" "EventLoop_destruct self this p = Some p'"
  shows "process_ok fds p'"
proof -
  obtain l where l: "ps_loops p this = Some l" using assms(2) by (auto simp: EventLoop_destruct_def elim: bind_eq_SomeE)
  then have "loop_ok l" using assms(1) by (simp add: process_ok_def)
  from destruct_cases [OF l this, of self] assms(2) have self: "lo_threadId l = self"
    and p': "p' = p\<lparr>ps_open := filter (\<lambda>fd. fd \<notin> set (loop_fds l)) (ps_open p),
       ps_tLoop := (ps_tLoop p)(self := None), ps_loops := (ps_loops p)(this := None)\<rparr>"
    by (auto simp: isInLoopThread_def split: if_splits)
  have "tls_ok p'"
    using assms(1) l self unfolding process_ok_def tls_ok_def p' by (auto split: if_splits; metis option.inject)
  moreover have "fds_ok fds p'"
  proof -
    have "fds_ok fds p" using assms(1) by (simp add: process_ok_def)
    then have own: "fd \<in> set (ps_open p) \<longleftrightarrow> fd \<in> set fds \<or> (\<exists>this l. ps_loops p this = Some l \<and> fd \<in> set (loop_fds l))"
      "fd \<in> set (loop_fds l) \<Longrightarrow> fd \<notin> set fds"
      "ps_loops p this' = Some l' \<Longrightarrow> this' \<noteq> this \<Longrightarrow> fd \<in> set (loop_fds l) \<Longrightarrow> fd \<notin> set (loop_fds l')" for fd this' l'
      using l unfolding fds_ok_def by (blast, blast, metis disjoint_iff)
    have "fd \<in> set (ps_open p') \<longleftrightarrow> fd \<in> set fds \<or> (\<exists>this l. ps_loops p' this = Some l \<and> fd \<in> set (loop_fds l))" for fd
      using own(1) [of fd] own(2) [of fd] own(3) [of _ _ fd] l by (auto simp: p' split: if_splits) (metis option.inject)+
    with \<open>fds_ok fds p\<close> show ?thesis by (auto simp: fds_ok_def p' split: if_splits)
  qed
  ultimately show ?thesis using assms(1) by (auto simp: process_ok_def p' split: if_splits)
qed

lemma replaced_ok:
  assumes "process_ok fds p" "ps_loops p this = Some l" "loop_ok l'" "lo_threadId l' = lo_threadId l" "loop_fds l' = loop_fds l"
  shows "process_ok fds (p\<lparr>ps_loops := (ps_loops p)(this := Some l')\<rparr>)"
proof -
  let ?p = "p\<lparr>ps_loops := (ps_loops p)(this := Some l')\<rparr>"
  have ex: "(\<exists>x. ps_loops ?p t = Some x \<and> P (lo_threadId x) (loop_fds x)) \<longleftrightarrow> (\<exists>x. ps_loops p t = Some x \<and> P (lo_threadId x) (loop_fds x))" for P t
    using assms(2,4,5) by auto
  have all: "ps_loops ?p t = Some x \<Longrightarrow> \<exists>y. ps_loops p t = Some y \<and> loop_fds x = loop_fds y" for t x
    using assms(2,5) by (auto split: if_splits)
  have "tls_ok ?p" using assms(1) ex [of _ "\<lambda>t f. t = _"] by (simp add: process_ok_def tls_ok_def)
  moreover have "fds_ok fds ?p"
  proof -
    have "fds_ok fds p" using assms(1) by (simp add: process_ok_def)
    moreover have "(\<exists>t x. ps_loops ?p t = Some x \<and> fd \<in> set (loop_fds x)) \<longleftrightarrow> (\<exists>t x. ps_loops p t = Some x \<and> fd \<in> set (loop_fds x))" for fd
      using ex [of _ "\<lambda>t f. fd \<in> set f"] by blast
    ultimately show ?thesis unfolding fds_ok_def using all by (simp del: fun_upd_apply) metis
  qed
  ultimately show ?thesis using assms(1,3) by (auto simp: process_ok_def)
qed

lemma process_step_ok:
  assumes "kernel_ok newfd" "alloc_ok alloc" "process_ok fds p" "process_step newfd alloc user act p = Some p'"
  shows "process_ok fds p'"
proof (cases act)
  case (P_construct self this tch wch)
  then show ?thesis using assms constructed_ok by (auto simp: process_step_def)
next
  case (P_destruct self this)
  then show ?thesis using assms(3,4) destructed_ok by (auto simp: process_step_def)
next
  case (P_channel self this op)
  then obtain l r where l: "ps_loops p this = Some l" "chan_step op (lo_rc l) = Some r"
    "op_channel op \<noteq> Some (lo_timerChannel l)" "op_channel op \<noteq> Some (lo_wakeupChannel l)"
    "p' = p\<lparr>ps_loops := (ps_loops p)(this := Some (l\<lparr>lo_rc := r\<rparr>))\<rparr>"
    using assms(4) by (auto simp: process_step_def assertInLoopThread_def elim!: bind_eq_SomeE)
  then have ok: "loop_ok l" using assms(3) by (simp add: process_ok_def)
  then have "loop_ok (l\<lparr>lo_rc := r\<rparr>)"
    using chan_step_keeps_own [OF _ l(2,3)] chan_step_keeps_own [OF _ l(2,4)] chan_step_inv [OF _ l(2)] by (auto simp: loop_ok_def)
  then show ?thesis unfolding l(5) using assms(3) l(1) by (intro replaced_ok) (simp_all add: loop_fds_def)
next
  case (P_timer this op)
  then obtain l q where l: "ps_loops p this = Some l" "tq_step alloc user op (lo_tq l) = Some q"
    "p' = p\<lparr>ps_loops := (ps_loops p)(this := Some (l\<lparr>lo_tq := q\<rparr>))\<rparr>"
    using assms(4) by (auto simp: process_step_def elim!: bind_eq_SomeE)
  then have ok: "loop_ok l" using assms(3) by (simp add: process_ok_def)
  then have "run_inv q" using step_ok [OF assms(2), of "lo_tq l" user False op] l(2) by (auto simp: loop_ok_def)
  then have "loop_ok (l\<lparr>lo_tq := q\<rparr>)" using ok by (simp add: loop_ok_def)
  then show ?thesis unfolding l(3) using assms(3) l(1) by (intro replaced_ok) (simp_all add: loop_fds_def)
qed

section \<open>Destroying the timers\<close>

lemma delete_all_ok:
  "distinct as \<Longrightarrow> \<forall>a\<in>set as. deref q a \<noteq> None \<Longrightarrow>
   \<exists>q'. foldo delete_timer as q = Some q' \<and> (\<forall>a. deref q' a = (if a \<in> set as then None else deref q a))"
proof (induction as arbitrary: q)
  case (Cons b as)
  define q1 where "q1 = q\<lparr>tq_heap := snd (map_erase (tq_heap q) b)\<rparr>"
  have d: "deref q1 a = (if a = b then None else deref q a)" for a by (simp add: q1_def deref_def)
  have "delete_timer b q = Some q1" using Cons.prems(2) by (simp add: delete_timer_Some q1_def)
  moreover have "\<forall>a\<in>set as. deref q1 a \<noteq> None" using Cons.prems d by auto
  with Cons.prems(1) obtain q' where "foldo delete_timer as q1 = Some q'"
    "\<forall>a. deref q' a = (if a \<in> set as then None else deref q1 a)"
    using Cons.IH [of q1] by auto
  ultimately show ?case using d by auto
qed simp

text \<open>Without a cancellation in the last round of callbacks every timer the queue owns is deleted once; what stays allocated is
  what other threads have handed in and the loop has not seen.\<close>

lemma timers_destroyed:
  assumes "tq_inv pend q" "tq_canceling q = []"
  shows "\<exists>q'. TimerQueue_destroy q = Some q' \<and> (\<forall>a\<in>set (map snd (tq_timers q) @ tq_free q). deref q' a = None)
    \<and> (\<forall>a\<in>set pend. deref q' a = deref q a)"
proof -
  have w: "set (map snd (tq_timers q)) = set (tq_wait q)" using tq_inv_waiting [OF assms(1)] by simp
  have all: "\<forall>a\<in>set (map snd (tq_timers q)). deref q a \<noteq> None" "distinct (tq_wait q @ tq_free q @ pend)"
    "\<forall>a\<in>set (tq_free q). deref q a \<noteq> None"
    using assms(1) w unfolding tq_inv_def by auto
  obtain q1 where q1: "foldo delete_timer (map snd (tq_timers q)) q = Some q1"
    "\<forall>a. deref q1 a = (if a \<in> set (map snd (tq_timers q)) then None else deref q a)"
    using delete_all_ok [OF tq_inv_distinct [OF assms(1)] all(1)] by blast
  have lists: "tq_canceling q1 = []" "tq_free q1 = tq_free q" using delete_same_lists [OF q1(1)] assms(2) by simp_all
  have "\<forall>a\<in>set (tq_free q). deref q1 a \<noteq> None"
    using all(2,3) q1(2) w by (auto simp del: set_map)
  then obtain q2 where q2: "foldo delete_timer (tq_free q) q1 = Some q2"
    "\<forall>a. deref q2 a = (if a \<in> set (tq_free q) then None else deref q1 a)"
    using delete_all_ok [of "tq_free q" q1] all(2) by auto
  have "TimerQueue_destroy q = Some q2" using q1(1) q2(1) lists by (simp add: TimerQueue_destroy_def)
  moreover have "\<forall>a\<in>set (map snd (tq_timers q) @ tq_free q). deref q2 a = None" using q1(2) q2(2) by auto
  moreover have "\<forall>a\<in>set pend. deref q2 a = deref q a" using all(2) q1(2) q2(2) w by (auto simp del: set_map)
  ultimately show ?thesis by blast
qed

text \<open>The steps that can stop are left out of a run; those that do not stop keep the invariant.\<close>

lemma process_run_ok:
  assumes "kernel_ok newfd" "alloc_ok alloc" "foldo (process_step newfd alloc user) acts (process_start fds) = Some p"
  shows "process_ok fds p"
  by (rule foldo_invariant [where P = "process_ok fds", OF _ process_start_ok assms(3)]) (rule process_step_ok [OF assms(1,2)])

definition demo_fd :: "int list \<Rightarrow> int" where
  "demo_fd fds = 1 + foldr max fds 0"

lemma demo_fd_ok: "kernel_ok demo_fd" "0 \<le> demo_fd fds"
proof -
  have le: "fd \<in> set fds \<Longrightarrow> fd \<le> foldr max fds 0" "0 \<le> foldr max fds 0" for fd and fds :: "int list"
    by (induction fds) auto
  have "demo_fd fds \<notin> set fds" for fds
    using le(1) [of "demo_fd fds" fds] by (auto simp: demo_fd_def)
  then show "kernel_ok demo_fd" by (simp add: kernel_ok_def)
  show "0 \<le> demo_fd fds" using le(2) [of fds] by (simp add: demo_fd_def)
qed

section \<open>Property\<close>



end
