(* ===== verification/Exceptions.thy ===== *)
theory Exceptions
  imports Prelude
begin

text \<open>
  \<^verbatim>\<open>pallette/Exception.h\<close>, \<^verbatim>\<open>Exception.cpp\<close>: an exception with its message and the text of the call stack at its construction.
  A C string is the text before its terminating zero.

  Parameters: \<open>cxa\<close> is \<^verbatim>\<open>abi::__cxa_demangle\<close> (\<^const>\<open>None\<close> for a null pointer), \<open>strings\<close> the answer of \<^verbatim>\<open>backtrace_symbols\<close> for the
  at most 200 frames of \<^verbatim>\<open>backtrace\<close> (\<^const>\<open>None\<close> when it has no memory).
\<close>

section \<open>Scanning\<close>

text \<open>One conversion \<^verbatim>\<open>%[...]\<close> of \<^verbatim>\<open>sscanf\<close>, with its width if it has one: the longest non-empty run of characters of the set.\<close>

definition scan_set :: "nat option \<Rightarrow> (char \<Rightarrow> bool) \<Rightarrow> string \<Rightarrow> (string \<times> string) option" where
  "scan_set width P s =
     (let run = takeWhile P (case width of None \<Rightarrow> s | Some n \<Rightarrow> take n s)
      in if run = [] then None else Some (run, drop (length run) s))"

text \<open>\<^verbatim>\<open>"%*[^(]%*[^_]%127[^)+]"\<close>: the answer of \<^verbatim>\<open>sscanf\<close> is 1 when all three conversions match.\<close>

definition scan_mangled :: "string \<Rightarrow> string option" where
  "scan_mangled symbol = do {
     (skipped, rest) \<leftarrow> scan_set None (\<lambda>c. c \<noteq> CHR ''('') symbol;
     (skipped, rest) \<leftarrow> scan_set None (\<lambda>c. c \<noteq> CHR ''_'') rest;
     (temp, rest) \<leftarrow> scan_set (Some 127) (\<lambda>c. c \<noteq> CHR '')'' \<and> c \<noteq> CHR ''+'') rest;
     Some temp }"

text \<open>\<^verbatim>\<open>"%127s"\<close>: white space is skipped first.\<close>

definition isspace_c :: "char \<Rightarrow> bool" where
  "isspace_c c \<longleftrightarrow> c \<in> {CHR '' '', CHR 0x09, CHR 0x0A, CHR 0x0B, CHR 0x0C, CHR 0x0D}"

definition scan_word :: "string \<Rightarrow> string option" where
  "scan_word symbol = map_option fst (scan_set (Some 127) (\<lambda>c. \<not> isspace_c c) (dropWhile isspace_c symbol))"

section \<open>Exception\<close>

definition Exception_demangle :: "(string \<Rightarrow> string option) \<Rightarrow> string \<Rightarrow> string" where
  "Exception_demangle cxa symbol =
     (case Option.bind (scan_mangled symbol) cxa of
        Some demangled \<Rightarrow> demangled
      | None \<Rightarrow> (case scan_word symbol of Some temp \<Rightarrow> temp | None \<Rightarrow> symbol))"

definition fillStackTrace :: "(string \<Rightarrow> string option) \<Rightarrow> string list option \<Rightarrow> string \<Rightarrow> string" where
  "fillStackTrace cxa strings stack =
     (case strings of
        None \<Rightarrow> stack
      | Some frames \<Rightarrow> fold (\<lambda>symbol stack. stack @ Exception_demangle cxa symbol @ [CHR 0x0A]) frames stack)"

record Exception =
  ex_message :: string
  ex_stack :: string

definition Exception_new :: "(string \<Rightarrow> string option) \<Rightarrow> string list option \<Rightarrow> string \<Rightarrow> Exception" where
  "Exception_new cxa strings msg = \<lparr>ex_message = msg, ex_stack = fillStackTrace cxa strings []\<rparr>"

definition Exception_what :: "Exception \<Rightarrow> string" where
  "Exception_what e = takeWhile (\<lambda>c. c \<noteq> CHR 0x00) (ex_message e)"

definition Exception_stackTrace :: "Exception \<Rightarrow> string" where
  "Exception_stackTrace e = takeWhile (\<lambda>c. c \<noteq> CHR 0x00) (ex_stack e)"

section \<open>What the trace shows\<close>

lemma scan_set_Some:
  "scan_set width P s = Some (run, rest) \<longleftrightarrow>
     run \<noteq> [] \<and> run = takeWhile P (case width of None \<Rightarrow> s | Some n \<Rightarrow> take n s) \<and> rest = drop (length run) s"
  by (auto simp: scan_set_def Let_def)

text \<open>Both conversions leave room for the terminating zero in the 128 bytes of \<^verbatim>\<open>temp\<close>.\<close>

lemma scan_set_width: "scan_set (Some n) P s = Some (run, rest) \<Longrightarrow> length run \<le> n"
  using length_takeWhile_le [of P "take n s"] by (simp add: scan_set_Some)

lemma scan_fits:
  "scan_mangled symbol = Some temp \<Longrightarrow> length temp \<le> 127" "scan_word symbol = Some temp \<Longrightarrow> length temp \<le> 127"
  by (auto simp: scan_mangled_def scan_word_def elim!: bind_eq_SomeE dest: scan_set_width)

lemma scan_run:
  assumes "run \<noteq> []" "\<forall>c\<in>set run. P c" "rest = [] \<or> \<not> P (hd rest)"
  shows "scan_set None P (run @ rest) = Some (run, rest)"
proof -
  have "takeWhile P rest = []" using assms(3) by (cases rest) simp_all
  then have "takeWhile P (run @ rest) = run" using assms(2) by (simp add: takeWhile_append2)
  then show ?thesis using assms(1) by (simp add: scan_set_def)
qed

text \<open>A frame of a C++ function, \<^verbatim>\<open>object(mangled+offset) [address]\<close>: the mangled name is found, cut to 127 characters.\<close>

lemma scan_frame:
  assumes "object \<noteq> []" "CHR ''('' \<notin> set object" "hd name = CHR ''_''" "name \<noteq> []"
    "CHR '')'' \<notin> set name" "CHR ''+'' \<notin> set name"
  shows "scan_mangled (object @ ''('' @ name @ ''+'' @ offs) = Some (take 127 name)"
proof -
  obtain n where n: "name = CHR ''_'' # n" using assms(3,4) by (cases name) auto
  have 1: "scan_set None (\<lambda>c. c \<noteq> CHR ''('') (object @ ''('' @ name @ ''+'' @ offs) = Some (object, ''('' @ name @ ''+'' @ offs)"
    using assms(1,2) by (intro scan_run) auto
  have 2: "scan_set None (\<lambda>c. c \<noteq> CHR ''_'') (''('' @ name @ ''+'' @ offs) = Some (''('', name @ ''+'' @ offs)"
    by (rule scan_run) (simp_all add: n)
  have "takeWhile (\<lambda>c. c \<noteq> CHR '')'' \<and> c \<noteq> CHR ''+'') (take 127 (name @ ''+'' @ offs)) = take 127 name"
  proof (cases "length name < 127")
    case True
    then have "take 127 (name @ ''+'' @ offs) = name @ CHR ''+'' # take (126 - length name) offs"
      by (simp add: take_Cons')
    moreover have "takeWhile (\<lambda>c. c \<noteq> CHR '')'' \<and> c \<noteq> CHR ''+'') (name @ CHR ''+'' # ys) = name" for ys
      using assms(5,6) by (subst takeWhile_append2) auto
    ultimately show ?thesis using True by simp
  next
    case False
    then show ?thesis using assms(5,6) by (auto simp: takeWhile_eq_all_conv dest: in_set_takeD)
  qed
  then have 3: "\<exists>rest. scan_set (Some 127) (\<lambda>c. c \<noteq> CHR '')'' \<and> c \<noteq> CHR ''+'') (name @ ''+'' @ offs) = Some (take 127 name, rest)"
    using assms(4) by (simp add: scan_set_def)
  show ?thesis using 1 2 3 by (auto simp: scan_mangled_def)
qed

text \<open>A frame without an underscore behind the parenthesis, as for \<^verbatim>\<open>main\<close>, is shown as its first word.\<close>

lemma scan_frame_plain:
  assumes "CHR ''_'' \<notin> set frame" "CHR ''('' \<notin> set object"
  shows "scan_mangled (object @ ''('' @ frame) = None"
proof (cases "object = []")
  case True
  then show ?thesis by (simp add: scan_mangled_def scan_set_def)
next
  case False
  have "scan_set None (\<lambda>c. c \<noteq> CHR ''('') (object @ ''('' @ frame) = Some (object, ''('' @ frame)"
    using False assms(2) by (intro scan_run) auto
  moreover have "scan_set None (\<lambda>c. c \<noteq> CHR ''_'') ((''('' @ frame) @ []) = Some (''('' @ frame, [])"
    using assms(1) by (intro scan_run) auto
  ultimately show ?thesis by (simp add: scan_mangled_def scan_set_def)
qed

text \<open>The trace has one line per frame, in the order of the stack.\<close>

lemma fillStackTrace_lines:
  "fillStackTrace cxa (Some frames) stack = stack @ concat (map (\<lambda>f. Exception_demangle cxa f @ [CHR 0x0A]) frames)"
  unfolding fillStackTrace_def by (induction frames arbitrary: stack) simp_all

lemma exception_trace:
  assumes "\<forall>f\<in>set frames. CHR 0x0A \<notin> set (Exception_demangle cxa f) \<and> CHR 0x00 \<notin> set (Exception_demangle cxa f)" "CHR 0x00 \<notin> set msg"
  shows "Exception_what (Exception_new cxa (Some frames) msg) = msg"
    and "Exception_stackTrace (Exception_new cxa (Some frames) msg)
      = concat (map (\<lambda>f. Exception_demangle cxa f @ [CHR 0x0A]) frames)"
    and "count_list (Exception_stackTrace (Exception_new cxa (Some frames) msg)) (CHR 0x0A) = length frames"
proof -
  have "count_list (concat (map (\<lambda>f. Exception_demangle cxa f @ [CHR 0x0A]) frames)) (CHR 0x0A) = length frames"
    using assms(1) by (induction frames) (auto simp: count_list_0_iff)
  moreover show "Exception_what (Exception_new cxa (Some frames) msg) = msg"
    using assms(2) by (auto simp: Exception_what_def Exception_new_def takeWhile_eq_all_conv)
  moreover show "Exception_stackTrace (Exception_new cxa (Some frames) msg)
      = concat (map (\<lambda>f. Exception_demangle cxa f @ [CHR 0x0A]) frames)"
    using assms(1) by (auto simp: Exception_stackTrace_def Exception_new_def fillStackTrace_lines takeWhile_eq_all_conv)
  ultimately show "count_list (Exception_stackTrace (Exception_new cxa (Some frames) msg)) (CHR 0x0A) = length frames"
    by simp
qed

end
