(* ===== verification/Serving.thy ===== *)
theory Serving
  imports Server Connection
begin

text \<open>
  \<^verbatim>\<open>pallette/TcpServer.cpp\<close> and \<^verbatim>\<open>TcpConnection.cpp\<close> together: the server of \<open>Server\<close> with a connection of \<open>Connection\<close> for every object it has
  made. \<open>Server\<close> knows of a connection only the stage of its life, \<open>Connection\<close> of its owner only that \<^verbatim>\<open>connectDestroyed\<close> is
  queued when the close callback has run (\<open>QConnectDestroyed\<close>). Here the close callback is \<^verbatim>\<open>TcpServer::removeConnection\<close>, and
  \<^verbatim>\<open>connectDestroyed\<close> runs when the functor \<^verbatim>\<open>removeConnectionInLoop\<close> has posted reaches the connection's loop.

  The close callback comes last in \<^verbatim>\<open>handleClose\<close> and what it does to the server no handler of the connection reads, so it is run after
  the whole operation. Every loop has one poller, shared by all its connections (and, in the server's loop, the acceptor): an
  operation of a connection works on the poller of its loop and leaves it there changed for the next one.
\<close>

section \<open>How far an operation moves a connection\<close>

definition down :: "TcpConnection \<Rightarrow> bool" where
  "down c \<longleftrightarrow> tc_state c = kDisconnected"

definition to_destroy :: "TcpConnection \<Rightarrow> nat" where
  "to_destroy c = count_list (tc_queued c) QConnectDestroyed"

text \<open>It stays up, goes down with its destruction requested once, or keeps its state, request, channel and poller.\<close>

definition moves :: "TcpConnection \<Rightarrow> TcpConnection \<Rightarrow> bool" where
  "moves c c' \<longleftrightarrow> up c \<and> up c' \<or> up c \<and> down c' \<and> to_destroy c' = 1
     \<or> \<not> up c \<and> tc_state c' = tc_state c \<and> to_destroy c' = to_destroy c
         \<and> tc_channel c' = tc_channel c \<and> tc_reactor c' = tc_reactor c"

lemma not_up_down [simp]: "down c \<Longrightarrow> \<not> up c"
  by (simp add: down_def)

lemma moves_trans: "moves c c1 \<Longrightarrow> moves c1 c2 \<Longrightarrow> moves c c2"
  by (auto simp: moves_def down_def)

lemma moves_keeps: "api_keeps c c' \<Longrightarrow> moves c c'"
  by (auto simp: moves_def api_keeps_def to_destroy_def tc_chan_def count_list_0_iff)

lemma moves_same:
  "tc_state c' = tc_state c \<Longrightarrow> tc_queued c' = tc_queued c \<Longrightarrow> tc_channel c' = tc_channel c \<Longrightarrow> tc_reactor c' = tc_reactor c
   \<Longrightarrow> moves c c'"
  by (auto simp: moves_def to_destroy_def)

lemma moves_logged: "moves (c\<lparr>tc_log := l\<rparr>) c' \<longleftrightarrow> moves c c'"
  by (simp add: moves_def to_destroy_def)

lemma call_other_moves:
  assumes "user_ok user" "conn_inv c" "tc_state c \<noteq> kConnecting" "\<not> is_connection_cb ev" "call_user user ev c = Some c'"
  shows "moves c c' \<and> conn_inv c'"
  using call_other_ok [OF assms(1-4)] assms(5) moves_keeps [of "c\<lparr>tc_log := tc_log c @ [ev]\<rparr>" c'] by (auto simp: moves_logged)

lemma handleClose_moves:
  assumes "user_ok user" "conn_inv c" "up c" "TcpConnection_handleClose user c = Some c'"
  shows "down c' \<and> to_destroy c' = 1"
proof -
  obtain s1 s2 where s: "on_channel disableAll (setState kDisconnected c) = Some s1" "tc_state s1 = kDisconnected"
    "call_user user (ConnectionCb kDisconnected) s1 = Some s2" "conn_inv s2" "tc_state s2 = kDisconnected"
    "QConnectDestroyed \<notin> set (tc_queued s2)" "\<exists>ch. tc_chan s2 = Some ch \<and> ch_index ch \<noteq> kNew"
    using go_down_ok [OF assms(1-3)] by blast
  let ?s3 = "queue_functor QConnectDestroyed s2"
  have inv: "conn_inv ?s3"
    using s(4-7) by (auto simp: conn_inv_def queue_functor_def state_ok_def connection_calls_def count_list_0_iff)
  have "call_user user CloseCb ?s3 = Some c'"
    using assms(3,4) s(1-3) by (auto simp: TcpConnection_handleClose_def)
  then have "moves ?s3 c'" using call_other_moves [OF assms(1) inv, of CloseCb c'] s(5) by (simp add: queue_functor_def)
  then show ?thesis using s(5,6) by (auto simp: moves_def queue_functor_def down_def to_destroy_def count_list_0_iff)
qed

lemma readFd_inv: "buf_inv b \<Longrightarrow> readFd b answer = Some (b', n, e) \<Longrightarrow> buf_inv b'"
proof (cases answer)
  case (ReadBytes x)
  assume "buf_inv b" "readFd b answer = Some (b', n, e)"
  then show ?thesis using readFd_spec [of b x] ReadBytes by auto
qed (simp add: readFd_def)

lemma handleRead_moves:
  assumes "user_ok user" "conn_inv c" "tc_state c \<noteq> kConnecting" "TcpConnection_handleRead user answer t c = Some c'"
  shows "moves c c'"
proof -
  obtain input n e where r: "readFd (tc_input c) answer = Some (input, n, e)"
    using assms(4) by (auto simp: TcpConnection_handleRead_def elim: bind_eq_SomeE)
  have "buf_inv input" using readFd_inv [OF _ r] assms(2) by (simp add: conn_inv_def)
  then have inv: "conn_inv (c\<lparr>tc_input := input\<rparr>)" by (rule conn_inv_frame(8) [OF assms(2)])
  consider "n > 0" | "n = 0" | "n < 0" by linarith
  then show ?thesis
  proof cases
    case 1
    let ?c = "c\<lparr>tc_input := input, tc_bytesReceived := tc_bytesReceived c + word_of_int n, tc_lastReceiveTime := t\<rparr>"
    have "conn_inv ?c" using conn_inv_frame(5,6) inv by blast
    moreover have "call_user user (MessageCb (Buffer_bytes input)) ?c = Some c'"
      using assms(4) r 1 by (simp add: TcpConnection_handleRead_def)
    ultimately have "moves ?c c'" using call_other_moves [OF assms(1), of ?c "MessageCb (Buffer_bytes input)" c'] assms(3) by auto
    then show ?thesis by (simp add: moves_def to_destroy_def)
  next
    case 2
    then have close: "TcpConnection_handleClose user (c\<lparr>tc_input := input\<rparr>) = Some c'"
      using assms(4) r by (simp add: TcpConnection_handleRead_def)
    then have "up c" by (auto simp: TcpConnection_handleClose_def split: if_splits)
    then show ?thesis using handleClose_moves [OF assms(1) inv _ close] by (simp add: moves_def)
  next
    case 3
    then have "c' = c\<lparr>tc_input := input\<rparr>"
      using assms(4) r by (simp add: TcpConnection_handleRead_def TcpConnection_handleError_def)
    then show ?thesis by (simp add: moves_same)
  qed
qed

lemma handleWrite_moves:
  assumes "conn_inv c" "tc_state c \<noteq> kConnecting" "TcpConnection_handleWrite c = Some c'"
  shows "moves c c'"
proof (cases "up c")
  case True
  with conn_handleWrite_ok [OF assms(1,2)] assms(3) show ?thesis by (auto simp: moves_def)
next
  case False
  then have "tc_state c = kDisconnected" using assms(2) by (cases "tc_state c") auto
  then obtain ch where "tc_chan c = Some ch" "\<not> isWriting ch"
    using assms(1) isWriting_none by (auto simp: conn_inv_def state_ok_def)
  then have "c' = c" using assms(3) by (simp add: TcpConnection_handleWrite_def)
  then show ?thesis by (simp add: moves_same)
qed

lemma handleEvent_moves:
  assumes "user_ok user" "conn_inv c" "up c" "\<not> (lone_hup revents \<and> answer = ReadBytes [])"
    "conn_handleEvent user revents answer t c = Some c'"
  shows "moves c c'"
proof -
  obtain c0 where c0: "(if lone_hup revents then TcpConnection_handleClose user c else Some c) = Some c0"
    "conn_inv c0" "tc_state c0 \<noteq> kConnecting" "up c0 \<or> answer \<noteq> ReadBytes []"
    using conn_handleClose_ok [OF assms(1-3)] assms(2-4) that by (cases "lone_hup revents") auto
  then have m0: "moves c c0" using handleClose_moves [OF assms(1-3)] assms(3) by (auto simp: moves_def split: if_splits)
  obtain c1 where c1: "(if revents AND (EPOLLIN OR EPOLLPRI OR EPOLLHUP) \<noteq> 0
           then TcpConnection_handleRead user answer t c0 else Some c0) = Some c1"
    "(if revents AND EPOLLOUT \<noteq> 0 then TcpConnection_handleWrite c1 else Some c1) = Some c'"
    using assms(5) c0(1) unfolding conn_handleEvent_def TcpConnection_handleError_def lone_hup_def
    by (auto elim!: bind_eq_SomeE split: if_splits)
  have "moves c0 c1 \<and> conn_inv c1 \<and> tc_state c1 \<noteq> kConnecting"
    using c1(1) c0(2,3) handleRead_moves [OF assms(1) c0(2,3)] conn_handleRead_ok [OF assms(1) c0(2,3,4), of t]
    by (auto simp: moves_same split: if_splits)
  moreover have "moves c1 c'" using handleWrite_moves [of c1 c'] c1(2) calculation by (auto simp: moves_same split: if_splits)
  ultimately show ?thesis using moves_trans m0 by blast
qed

text \<open>The next functor of the connection other than its destruction.\<close>

lemma run_queued_moves:
  assumes "user_ok user" "conn_inv c" "tc_state c \<noteq> kConnecting" "tc_queued c = f # fs" "f \<noteq> QConnectDestroyed"
    "run_queued user c = Some c'" "queue_allowed c"
  shows "moves c c'"
proof -
  let ?c = "c\<lparr>tc_queued := fs\<rparr>"
  have inv: "conn_inv ?c" by (rule conn_inv_pop(1) [OF assms(2,4)])
  have m: "moves ?c c' \<longleftrightarrow> moves c c'" using assms(4,5) by (simp add: moves_def to_destroy_def)
  have cb: "moves ?c c'" if "call_user user ev ?c = Some c'" "\<not> is_connection_cb ev" for ev
    using call_other_moves [OF assms(1) inv, of ev c'] that assms(3) by simp
  have "moves ?c c'"
  proof (cases f)
    case QForceClose
    show ?thesis
    proof (cases "up ?c")
      case True
      then show ?thesis using handleClose_moves [OF assms(1) inv True, of c'] QForceClose assms(4,6)
        by (simp add: run_queued_def forceCloseInLoop_def moves_def)
    next
      case False
      then show ?thesis using QForceClose assms(4,6) by (simp add: run_queued_def forceCloseInLoop_def moves_same)
    qed
  next
    case (QSend m)
    then have run: "sendInLoop m ?c = Some c'" using assms(4,6) by (simp add: run_queued_def)
    show ?thesis
    proof (cases "up ?c")
      case True
      with sendInLoop_ok [OF inv, of m] run show ?thesis by (auto simp: moves_def)
    next
      case False
      then have "tc_state ?c = kDisconnected" using assms(3) by (cases "tc_state c") auto
      with run show ?thesis by (simp add: sendInLoop_def moves_same)
    qed
  next
    case QShutdown
    then show ?thesis using shutdownInLoop_ok [OF inv] assms(4,6) by (auto simp: run_queued_def moves_same)
  next
    case QStartRead
    then have "api_do ApiStartRead ?c = Some c'" "api_allowed ?c ApiStartRead"
      using assms(4,6,7) by (simp_all add: run_queued_def in_loop_thread api_allowed_def queue_allowed_def)
    with api_ok [OF inv, of ApiStartRead] assms(3) show ?thesis by (auto intro: moves_keeps)
  next
    case QStopRead
    then have "api_do ApiStopRead ?c = Some c'" "api_allowed ?c ApiStopRead"
      using assms(4,6,7) by (simp_all add: run_queued_def in_loop_thread api_allowed_def queue_allowed_def)
    with api_ok [OF inv, of ApiStopRead] assms(3) show ?thesis by (auto intro: moves_keeps)
  qed (use assms(4-6) in \<open>auto simp: run_queued_def intro: cb [of WriteCompleteCb] cb [of "HighWaterCb _"]\<close>)
  then show ?thesis by (simp add: m)
qed

lemma forceClose_moves: "forceClose c = Some c' \<Longrightarrow> moves c c'"
  by (auto simp: forceClose_def moves_def setState_def queue_functor_def split: if_splits)

lemma delay_fires_moves: "delay_fires c = Some c' \<Longrightarrow> moves c c'"
proof (cases "tc_delayed c")
  case (Cons d ds)
  assume "delay_fires c = Some c'"
  then have "moves (c\<lparr>tc_delayed := ds\<rparr>) c'" using Cons forceClose_moves by (simp add: delay_fires_def)
  then show ?thesis by (simp add: moves_def to_destroy_def)
qed (simp add: delay_fires_def moves_same)

section \<open>The order of queued functors\<close>

text \<open>When the server's loop is another than the connection's, the functor \<^verbatim>\<open>connectDestroyed\<close> arrives behind functors the connection
  has queued in the meantime: the place of \<open>QConnectDestroyed\<close> in the connection's queue is free.\<close>

definition destroy_last :: "TcpConnection \<Rightarrow> TcpConnection" where
  "destroy_last c = c\<lparr>tc_queued := filter (\<lambda>f. f \<noteq> QConnectDestroyed) (tc_queued c) @ filter (\<lambda>f. f = QConnectDestroyed) (tc_queued c)\<rparr>"

definition destroy_first :: "TcpConnection \<Rightarrow> TcpConnection" where
  "destroy_first c = c\<lparr>tc_queued := filter (\<lambda>f. f = QConnectDestroyed) (tc_queued c) @ filter (\<lambda>f. f \<noteq> QConnectDestroyed) (tc_queued c)\<rparr>"

lemma count_list_filter: "count_list (filter P xs) x = (if P x then count_list xs x else 0)"
  by (induction xs) auto

lemma requeue_inv:
  assumes "conn_inv c" "count_list q QConnectDestroyed = to_destroy c" "tc_queued c = [] \<Longrightarrow> q = []"
  shows "conn_inv (c\<lparr>tc_queued := q\<rparr>)"
proof -
  have "QConnectDestroyed \<in> set q \<longleftrightarrow> QConnectDestroyed \<in> set (tc_queued c)"
    using assms(2) by (metis count_list_0_iff to_destroy_def)
  then show ?thesis
    using assms by (auto simp: conn_inv_def state_ok_def connection_calls_def to_destroy_def split: StateE.splits)
qed

lemma destroy_last_simps:
  "conn_inv c \<Longrightarrow> conn_inv (destroy_last c)" "moves (destroy_last c) c' \<longleftrightarrow> moves c c'" "tc_state (destroy_last c) = tc_state c"
  by (auto simp: destroy_last_def count_list_filter to_destroy_def moves_def intro!: requeue_inv)

lemma destroy_first_simps:
  "conn_inv c \<Longrightarrow> conn_inv (destroy_first c)" "tc_state (destroy_first c) = tc_state c"
  by (auto simp: destroy_first_def count_list_filter to_destroy_def intro!: requeue_inv)

text \<open>An operation of a connection in its loop; running functors leaves the destruction to the server.\<close>

definition conn_turn :: "(conn_event \<Rightarrow> TcpConnection \<Rightarrow> conn_api list) \<Rightarrow> conn_op \<Rightarrow> TcpConnection \<Rightarrow> TcpConnection option" where
  "conn_turn user x c =
     (if x = RunQueued
      then if filter (\<lambda>f. f \<noteq> QConnectDestroyed) (tc_queued c) = [] then Some c else run_queued user (destroy_last c)
      else conn_do user x c)"

text \<open>Before a functor is run the queue is the one with the destruction last.\<close>

definition turn_allowed :: "conn_op \<Rightarrow> TcpConnection \<Rightarrow> bool" where
  "turn_allowed x c \<longleftrightarrow> x \<noteq> Establish \<and> x \<noteq> ServerDestroys \<and> op_allowed x (if x = RunQueued then destroy_last c else c)"

lemma conn_turn_stops:
  assumes "user_ok user" "conn_inv c" "turn_allowed x c" "op_stops x c"
  shows "conn_turn user x c = None"
proof -
  have "x \<noteq> RunQueued" using assms(4) by auto
  then show ?thesis using conn_do_stops [OF assms(1,2)] assms(3,4) by (simp add: conn_turn_def turn_allowed_def)
qed

lemma conn_turn_ok:
  assumes "user_ok user" "conn_inv c" "turn_allowed x c" "\<not> op_stops x c"
  shows "\<exists>c'. conn_turn user x c = Some c' \<and> conn_inv c' \<and> moves c c'"
proof (cases "x = RunQueued")
  case True
  show ?thesis
  proof (cases "filter (\<lambda>f. f \<noteq> QConnectDestroyed) (tc_queued c)")
    case Nil
    then show ?thesis using True assms(2) by (simp add: conn_turn_def moves_same)
  next
    case (Cons f fs)
    have f: "f \<noteq> QConnectDestroyed" using Cons by (metis (mono_tags) filter_eq_Cons_iff)
    have "tc_queued (destroy_last c) = f # fs @ filter (\<lambda>f. f = QConnectDestroyed) (tc_queued c)"
      using Cons by (simp add: destroy_last_def)
    moreover have st: "tc_state (destroy_last c) \<noteq> kConnecting" and q: "queue_allowed (destroy_last c)"
      using assms(3) True by (simp_all add: turn_allowed_def)
    ultimately show ?thesis
      using True Cons f run_queued_ok [OF assms(1) destroy_last_simps(1) [OF assms(2)] st q]
        run_queued_moves [OF assms(1) destroy_last_simps(1) [OF assms(2)] st _ _ _ q]
      by (auto simp: conn_turn_def destroy_last_simps)
  qed
next
  case False
  have al: "op_allowed x c" "x \<noteq> Establish" "x \<noteq> ServerDestroys" using assms(3) False by (simp_all add: turn_allowed_def)
  obtain c' where c': "conn_do user x c = Some c'" "conn_inv c'" using conn_do_ok [OF assms(1,2) al(1) assms(4)] by blast
  have "moves c c'"
  proof (cases x)
    case (Event revents answer t)
    then show ?thesis using handleEvent_moves [OF assms(1,2) _ _ , of revents answer t c'] al(1) assms(4) c'(1) by auto
  next
    case DelayFires
    then show ?thesis using delay_fires_moves c'(1) by simp
  next
    case (Call a)
    then show ?thesis using api_ok [OF assms(2), of a] al(1) c'(1) by (auto intro: moves_keeps)
  next
    case (OtherThread a)
    then show ?thesis using foreign_call_ok [OF assms(2), of a] al(1) c'(1) by (auto intro: moves_keeps split: conn_api.splits)
  qed (use False al c'(1) in \<open>auto intro: moves_same\<close>)
  then show ?thesis using False c' by (simp add: conn_turn_def)
qed

text \<open>The destruction takes the channel out of the poller for good.\<close>

lemma destroyed_conn:
  assumes "conn_inv c" "down c" "to_destroy c = 1"
  shows "\<exists>c'. run_queued user (destroy_first c) = Some c' \<and> conn_inv c' \<and> down c' \<and> to_destroy c' = 0
    \<and> (\<exists>ch. tc_chan c' = Some ch \<and> ch_index ch = kNew)"
proof -
  let ?d = "filter (\<lambda>f. f = QConnectDestroyed) (tc_queued c)" and ?q = "filter (\<lambda>f. f \<noteq> QConnectDestroyed) (tc_queued c)"
  have "length (filter ((=) QConnectDestroyed) (tc_queued c)) = 1"
    using assms(3) by (simp add: to_destroy_def count_list_eq_length_filter)
  moreover have "filter ((=) QConnectDestroyed) (tc_queued c) = ?d" by (rule filter_cong) auto
  ultimately obtain f where "?d = [f]" by (auto simp: length_Suc_conv)
  then have "?d = [QConnectDestroyed]" by (metis (mono_tags) filter_eq_Cons_iff)
  then have q: "tc_queued (destroy_first c) = QConnectDestroyed # ?q" by (simp add: destroy_first_def)
  note inv = destroy_first_simps(1) [OF assms(1)]
  let ?c = "(destroy_first c)\<lparr>tc_queued := ?q\<rparr>"
  have popped: "conn_inv ?c" "tc_state ?c = kDisconnected" using conn_inv_pop(1) [OF inv q] assms(2) by (simp_all add: destroy_first_simps down_def)
  obtain ch where ch: "tc_chan ?c = Some ch" "ch_index ch \<noteq> kNew" using conn_inv_pop(2) [OF inv q] by auto
  have run: "run_queued user (destroy_first c) = on_channel Channel_remove ?c"
    using q popped(2) by (simp add: run_queued_def connectDestroyed_def)
  obtain c' where c': "on_channel Channel_remove ?c = Some c'" "conn_inv c'" "tc_state c' = kDisconnected"
    using remove_channel_ok [OF popped ch] by auto
  then obtain r where r: "Channel_remove (tc_channel ?c) (tc_reactor ?c) = Some r" "c' = ?c\<lparr>tc_reactor := r\<rparr>"
    by (auto simp: on_channel_def elim: bind_eq_SomeE)
  have "reactor_inv (tc_reactor ?c)" using popped(1) by (simp add: conn_inv_def)
  from remove_ok [OF this ch(1) [unfolded tc_chan_def]] r(1) have "\<exists>ch. chan r (tc_channel ?c) = Some ch \<and> ch_index ch = kNew"
    by (auto split: if_splits)
  moreover have "to_destroy c' = 0" using r(2) by (simp add: to_destroy_def count_list_0_iff)
  ultimately show ?thesis using run c' r(2) by (simp add: down_def)
qed

section \<open>One poller for many connections\<close>

text \<open>What changes when the channel at \<open>a\<close> is updated: its own state, and in the table the entry of its descriptor.\<close>

definition framed :: "addr \<Rightarrow> reactor \<Rightarrow> reactor \<Rightarrow> bool" where
  "framed a r r' \<longleftrightarrow> (\<forall>b. b \<noteq> a \<longrightarrow> chan r' b = chan r b) \<and> map_option ch_fd (chan r' a) = map_option ch_fd (chan r a)
     \<and> (\<forall>fd. map_option ch_fd (chan r a) \<noteq> Some fd \<longrightarrow> map_find (rc_channels r') fd = map_find (rc_channels r) fd)"

lemma framed_refl [simp]: "framed a r r"
  by (simp add: framed_def)

lemma framed_trans: "framed a r r1 \<Longrightarrow> framed a r1 r2 \<Longrightarrow> framed a r r2"
  by (simp add: framed_def)

lemma update_framed: "EpollPoller_update op a r = Some r' \<Longrightarrow> chan r' = chan r \<and> rc_channels r' = rc_channels r"
  by (auto simp: EpollPoller_update_def elim!: bind_eq_SomeE split: option.splits if_splits)

lemma with_events_framed: "with_events f a r = Some r' \<Longrightarrow> framed a r r'"
  by (auto simp: framed_def with_events_def Channel_update_def EventLoop_updateChannel_def EpollPoller_updateChannel_def Let_def
      elim!: bind_eq_SomeE dest!: update_framed split: if_splits)

lemma tie_framed: "Channel_tie a r = Some r' \<Longrightarrow> framed a r r'"
  by (auto simp: framed_def Channel_tie_def elim!: bind_eq_SomeE)

lemma remove_framed: "Channel_remove a r = Some r' \<Longrightarrow> framed a r r'"
  by (auto simp: framed_def Channel_remove_def EventLoop_removeChannel_def EpollPoller_removeChannel_def Let_def map_find_erase
      case_prod_beta elim!: bind_eq_SomeE dest!: update_framed split: if_splits)

abbreviation stays :: "TcpConnection \<Rightarrow> TcpConnection \<Rightarrow> bool" where
  "stays c c' \<equiv> tc_channel c' = tc_channel c \<and> framed (tc_channel c) (tc_reactor c) (tc_reactor c')"

lemma stays_trans: "stays c c1 \<Longrightarrow> stays c1 c2 \<Longrightarrow> stays c c2"
  by (auto intro: framed_trans)

lemma on_channel_stays:
  "on_channel enableReading c = Some c' \<Longrightarrow> stays c c'" "on_channel disableReading c = Some c' \<Longrightarrow> stays c c'"
  "on_channel enableWriting c = Some c' \<Longrightarrow> stays c c'" "on_channel disableWriting c = Some c' \<Longrightarrow> stays c c'"
  "on_channel disableAll c = Some c' \<Longrightarrow> stays c c'" "on_channel Channel_tie c = Some c' \<Longrightarrow> stays c c'"
  "on_channel Channel_remove c = Some c' \<Longrightarrow> stays c c'"
  by (auto simp: on_channel_def enableReading_def disableReading_def enableWriting_def disableWriting_def disableAll_def
      elim!: bind_eq_SomeE intro: with_events_framed tie_framed remove_framed)

lemma send_rest_stays: "send_rest data n c = Some c' \<Longrightarrow> stays c c'"
  using note_high_water_form [of "length data - n" c]
  by (auto simp: send_rest_def Let_def elim!: bind_eq_SomeE dest!: on_channel_stays(3) split: if_splits)

lemma sendInLoop_stays: "sendInLoop data c = Some c' \<Longrightarrow> stays c c'"
proof (cases "tc_state c = kDisconnected")
  case False
  assume run: "sendInLoop data c = Some c'"
  with False obtain ch where ch: "tc_chan c = Some ch" by (auto simp: sendInLoop_def elim!: bind_eq_SomeE)
  obtain n f q a b where d: "send_direct data ch c = (n, f, c\<lparr>tc_queued := tc_queued c @ q, tc_answers := a,
      tc_sent := tc_sent c @ take n data, tc_bytesSent := b\<rparr>)" "n \<le> length data"
    using send_direct_form by blast
  then show ?thesis using run ch False send_rest_stays [of data n] by (force simp: sendInLoop_def split: if_splits)
qed (simp add: sendInLoop_def)

lemma reading_stays:
  "startReadInLoop c = Some c' \<Longrightarrow> stays c c'" "stopReadInLoop c = Some c' \<Longrightarrow> stays c c'"
  "shutdownInLoop c = Some c' \<Longrightarrow> stays c c'"
  by (auto simp: startReadInLoop_def stopReadInLoop_def shutdownInLoop_def elim!: bind_eq_SomeE dest!: on_channel_stays(1,2)
      split: if_splits)

lemma api_stays: "api_call inLoop a c = Some c' \<Longrightarrow> stays c c'"
proof (cases a)
  case (ApiSendBuffer b)
  assume "api_call inLoop a c = Some c'"
  then show ?thesis using ApiSendBuffer
    by (auto simp: in_loop_thread queue_functor_def elim!: bind_eq_SomeE dest!: sendInLoop_stays split: if_splits)
next
  case ApiShutdown
  assume "api_call inLoop a c = Some c'"
  then show ?thesis using ApiShutdown reading_stays(3) [of "setState kDisconnecting c" c']
    by (auto simp: in_loop_thread queue_functor_def setState_def split: if_splits)
qed (auto simp: in_loop_thread queue_functor_def forceClose_def forceCloseWithDelay_def setState_def
    dest!: sendInLoop_stays reading_stays split: if_splits)

lemma calls_stay: "foldo (api_call inLoop) as c = Some c' \<Longrightarrow> stays c c'"
proof (induction as arbitrary: c)
  case (Cons a as)
  then obtain c1 where "api_call inLoop a c = Some c1" "stays c1 c'" by (auto elim!: bind_eq_SomeE)
  then show ?case by (rule stays_trans [OF api_stays])
qed simp

lemma call_user_stays: "call_user user ev c = Some c' \<Longrightarrow> stays c c'"
  using calls_stay [of True "user ev (c\<lparr>tc_log := tc_log c @ [ev]\<rparr>)" "c\<lparr>tc_log := tc_log c @ [ev]\<rparr>" c']
  by (simp add: call_user_def Let_def)

lemma connectEstablished_stays:
  assumes "connectEstablished user c = Some c'"
  shows "stays c c'"
proof -
  obtain c1 c2 where "on_channel Channel_tie (setState kConnected c) = Some c1" "on_channel enableReading c1 = Some c2"
    "call_user user (ConnectionCb (tc_state c2)) c2 = Some c'"
    using assms by (auto simp: connectEstablished_def Let_def elim!: bind_eq_SomeE split: if_splits)
  from stays_trans [OF stays_trans [OF on_channel_stays(6) [OF this(1)] on_channel_stays(1) [OF this(2)]] call_user_stays [OF this(3)]]
  have "stays (setState kConnected c) c'" .
  then show ?thesis by (simp add: setState_def)
qed

lemma connectDestroyed_stays:
  assumes "connectDestroyed user c = Some c'"
  shows "stays c c'"
proof (cases "tc_state c = kConnected")
  case True
  then obtain c1 c2 where "on_channel disableAll (setState kDisconnected c) = Some c1"
    "call_user user (ConnectionCb (tc_state c1)) c1 = Some c2" "on_channel Channel_remove c2 = Some c'"
    using assms by (auto simp: connectDestroyed_def Let_def elim!: bind_eq_SomeE)
  from stays_trans [OF stays_trans [OF on_channel_stays(5) [OF this(1)] call_user_stays [OF this(2)]] on_channel_stays(7) [OF this(3)]]
  have "stays (setState kDisconnected c) c'" .
  then show ?thesis by (simp add: setState_def)
next
  case False
  then show ?thesis using assms on_channel_stays(7) by (simp add: connectDestroyed_def)
qed

lemma handleClose_stays:
  assumes "TcpConnection_handleClose user c = Some c'"
  shows "stays c c'"
proof -
  obtain c1 c2 where c: "on_channel disableAll (setState kDisconnected c) = Some c1"
    "call_user user (ConnectionCb (tc_state c1)) c1 = Some c2" "call_user user CloseCb (queue_functor QConnectDestroyed c2) = Some c'"
    using assms by (auto simp: TcpConnection_handleClose_def Let_def elim!: bind_eq_SomeE split: if_splits)
  from stays_trans [OF on_channel_stays(5) [OF this(1)] call_user_stays [OF this(2)]]
  have "stays (setState kDisconnected c) c2" .
  moreover have "stays c2 c'" using call_user_stays [OF c(3)] by (simp add: queue_functor_def)
  ultimately have "stays (setState kDisconnected c) c'" by (rule stays_trans)
  then show ?thesis by (simp add: setState_def)
qed

lemma handleRead_stays: "TcpConnection_handleRead user answer t c = Some c' \<Longrightarrow> stays c c'"
  by (auto simp: TcpConnection_handleRead_def TcpConnection_handleError_def Let_def elim!: bind_eq_SomeE
      dest!: call_user_stays handleClose_stays split: if_splits)

lemma handleWrite_stays:
  assumes "TcpConnection_handleWrite c = Some c'"
  shows "stays c c'"
proof -
  obtain n e d where d: "sockets_write (Buffer_bytes (tc_output c)) c = (n, e, d)"
    by (cases "sockets_write (Buffer_bytes (tc_output c)) c")
  then have "tc_channel d = tc_channel c" "tc_reactor d = tc_reactor c"
    by (auto simp: sockets_write_def Let_def split: if_splits list.splits write_answer.splits)
  with assms d show ?thesis
    by (auto simp: TcpConnection_handleWrite_def Let_def queue_functor_def elim!: bind_eq_SomeE
        dest!: on_channel_stays(4) reading_stays(3) split: if_splits) (metis framed_trans)+
qed

lemma handleEvent_stays:
  assumes "conn_handleEvent user revents answer t c = Some c'"
  shows "stays c c'"
proof -
  obtain c1 c2 where c:
    "(if revents AND EPOLLHUP \<noteq> 0 \<and> \<not> revents AND EPOLLIN \<noteq> 0 then TcpConnection_handleClose user c else Some c) = Some c1"
    "(if revents AND (EPOLLIN OR EPOLLPRI OR EPOLLHUP) \<noteq> 0 then TcpConnection_handleRead user answer t c1 else Some c1) = Some c2"
    "(if revents AND EPOLLOUT \<noteq> 0 then TcpConnection_handleWrite c2 else Some c2) = Some c'"
    using assms unfolding conn_handleEvent_def TcpConnection_handleError_def by (auto elim!: bind_eq_SomeE)
  have 1: "stays c c1" using c(1) handleClose_stays by (auto split: if_splits)
  have 2: "stays c1 c2" using c(2) handleRead_stays by (auto split: if_splits)
  have 3: "stays c2 c'" using c(3) handleWrite_stays by (auto split: if_splits)
  show ?thesis by (rule stays_trans [OF stays_trans [OF 1 2] 3])
qed

lemma run_queued_stays: "run_queued user c = Some c' \<Longrightarrow> stays c c'"
  by (auto simp: run_queued_def Let_def forceCloseInLoop_def split: list.splits queued.splits if_splits
      dest!: call_user_stays handleClose_stays connectDestroyed_stays sendInLoop_stays reading_stays)

lemma conn_do_stays: "conn_do user x c = Some c' \<Longrightarrow> stays c c'"
proof (cases x)
  case DelayFires
  assume "conn_do user x c = Some c'"
  then show ?thesis using DelayFires
    by (auto simp: delay_fires_def forceClose_def setState_def queue_functor_def split: list.splits if_splits)
qed (auto dest!: connectEstablished_stays connectDestroyed_stays handleEvent_stays run_queued_stays api_stays)

lemma conn_turn_stays: "conn_turn user x c = Some c' \<Longrightarrow> stays c c'"
  using run_queued_stays [of user "destroy_last c" c'] conn_do_stays [of user x c c']
  by (auto simp: conn_turn_def destroy_last_def split: if_splits)

section \<open>A server with its connections\<close>

record serving =
  sg_server :: TcpServer
  sg_conns :: "TcpConnection list"
  sg_pollers :: "nat \<Rightarrow> reactor"

abbreviation loop_of :: "serving \<Rightarrow> nat \<Rightarrow> nat" where
  "loop_of g i \<equiv> sc_loop (obj (sg_server g) i)"

text \<open>Connection \<open>i\<close> on the poller of its loop, and the state after it has worked there.\<close>

definition conn_view :: "serving \<Rightarrow> nat \<Rightarrow> TcpConnection" where
  "conn_view g i = (sg_conns g ! i)\<lparr>tc_reactor := sg_pollers g (loop_of g i)\<rparr>"

definition put_conn :: "nat \<Rightarrow> TcpConnection \<Rightarrow> serving \<Rightarrow> serving" where
  "put_conn i c g = g\<lparr>sg_conns := (sg_conns g)[i := c], sg_pollers := (sg_pollers g)(loop_of g i := tc_reactor c)\<rparr>"

text \<open>\<^verbatim>\<open>newConnection\<close> makes the connection object, with a channel of the chosen loop, and runs \<^verbatim>\<open>connectEstablished\<close> at once when that
  loop is the server's. \<open>ch\<close> and \<open>now\<close> are the address of the new channel and the clock.\<close>

definition serve_accept ::
  "(conn_event \<Rightarrow> TcpConnection \<Rightarrow> conn_api list) \<Rightarrow> accept_answer \<Rightarrow> int \<Rightarrow> int \<Rightarrow> addr \<Rightarrow> Timestamp
   \<Rightarrow> serving \<Rightarrow> serving option" where
  "serve_accept user answer second_accept reopened ch now g = do {
     s \<leftarrow> server_accepts answer second_accept reopened (sg_server g);
     let i = length (sg_conns g);
     if length (sv_objects s) = i then Some (g\<lparr>sg_server := s\<rparr>)
     else do {
       let c = TcpConnection_new ch (sc_fd (sv_objects s ! i)) now (sg_pollers g (sc_loop (sv_objects s ! i)));
       c \<leftarrow> (if sc_stage (sv_objects s ! i) = Up then connectEstablished user c else Some c);
       Some (put_conn i c (g\<lparr>sg_server := s, sg_conns := sg_conns g @ [c]\<rparr>)) } }"

text \<open>A loop runs a posted functor: the establishing, the removal from the server's map, the destruction.\<close>

definition serve_posted :: "(conn_event \<Rightarrow> TcpConnection \<Rightarrow> conn_api list) \<Rightarrow> nat \<Rightarrow> serving \<Rightarrow> serving option" where
  "serve_posted user k g = do {
     let f = snd (sv_posted (sg_server g) ! k);
     s \<leftarrow> run_posted k (sg_server g);
     c \<leftarrow> (case f of
             ConnectEstablished i \<Rightarrow> connectEstablished user (conn_view g i)
           | RemoveConnectionInLoop i \<Rightarrow> Some (conn_view g i)
           | ConnectDestroyed i \<Rightarrow> run_queued user (destroy_first (conn_view g i)));
     Some (put_conn (conn_of f) c (g\<lparr>sg_server := s\<rparr>)) }"

text \<open>A connection does something in its loop; when that took it down, its close callback is \<^verbatim>\<open>removeConnection\<close> of the server.\<close>

definition serve_conn :: "(conn_event \<Rightarrow> TcpConnection \<Rightarrow> conn_api list) \<Rightarrow> nat \<Rightarrow> conn_op \<Rightarrow> serving \<Rightarrow> serving option" where
  "serve_conn user i x g = do {
     let c0 = conn_view g i;
     c \<leftarrow> conn_turn user x c0;
     s \<leftarrow> (if up c0 \<and> \<not> up c then close_callback i (sg_server g) else Some (sg_server g));
     Some (put_conn i c (g\<lparr>sg_server := s\<rparr>)) }"

datatype serve_event =
    S_accept accept_answer int int addr Timestamp
  | S_posted nat
  | S_conn nat conn_op

fun serve_do :: "(conn_event \<Rightarrow> TcpConnection \<Rightarrow> conn_api list) \<Rightarrow> serve_event \<Rightarrow> serving \<Rightarrow> serving option" where
  "serve_do user (S_accept answer second_accept reopened ch now) g = serve_accept user answer second_accept reopened ch now g"
| "serve_do user (S_posted k) g = serve_posted user k g"
| "serve_do user (S_conn i x) g = serve_conn user i x g"

text \<open>What the kernel and the heap give: \<^verbatim>\<open>accept\<close> a descriptor that no open connection has and the poller of the chosen loop does not
  know, and \<^verbatim>\<open>new Channel\<close> an address that loop does not use. Connections do what \<open>op_allowed\<close> says.\<close>

fun serve_allowed :: "serve_event \<Rightarrow> serving \<Rightarrow> bool" where
  "serve_allowed (S_accept answer second_accept reopened ch now) g \<longleftrightarrow>
     (case answer of
        Accepted fd a \<Rightarrow>
          (\<forall>x \<in> set (sv_objects (sg_server g)). sc_stage x \<noteq> Destroyed \<longrightarrow> sc_fd x \<noteq> fd)
          \<and> (case getNextLoop (sv_threadPool (sg_server g)) of None \<Rightarrow> True
             | Some (l, p) \<Rightarrow> chan (sg_pollers g l) ch = None \<and> map_find (rc_channels (sg_pollers g l)) fd = None)
      | AcceptErr e \<Rightarrow> True)"
| "serve_allowed (S_posted k) g \<longleftrightarrow> k < length (sv_posted (sg_server g))"
| "serve_allowed (S_conn i x) g \<longleftrightarrow> i < length (sg_conns g) \<and> turn_allowed x (conn_view g i)"

text \<open>What stops the process: a fatal answer of \<^verbatim>\<open>accept\<close>, a connection after \<^verbatim>\<open>INT_MAX - 1\<close> others, and what stops a connection.\<close>

fun serve_stops :: "serve_event \<Rightarrow> serving \<Rightarrow> bool" where
  "serve_stops (S_accept answer second_accept reopened ch now) g \<longleftrightarrow>
     (case sockets_accept answer of None \<Rightarrow> True
      | Some (connfd, errno, a) \<Rightarrow> connfd \<ge> 0 \<and> sv_nextConnId (sg_server g) \<ge> 2 ^ 31 - 1)"
| "serve_stops (S_posted k) g \<longleftrightarrow> False"
| "serve_stops (S_conn i x) g \<longleftrightarrow> op_stops x (conn_view g i)"

text \<open>A server that has just been started; in its own loop's poller is the acceptor's channel.\<close>

inductive serve_reachable :: "(conn_event \<Rightarrow> TcpConnection \<Rightarrow> conn_api list) \<Rightarrow> serving \<Rightarrow> bool" for user where
  serve_started: "server_reachable s \<Longrightarrow> sv_objects s = [] \<Longrightarrow> sv_posted s = []
    \<Longrightarrow> pollers (sv_loop s) = ac_reactor (sv_acceptor s)
    \<Longrightarrow> \<forall>l. reactor_inv (pollers l) \<and> \<not> rc_eventHandling (pollers l)
    \<Longrightarrow> serve_reachable user \<lparr>sg_server = s, sg_conns = [], sg_pollers = pollers\<rparr>"
| serve_happens: "serve_reachable user g \<Longrightarrow> serve_allowed e g \<Longrightarrow> serve_do user e g = Some g' \<Longrightarrow> serve_reachable user g'"

section \<open>Stages and states\<close>

text \<open>What the server's stage says about the connection.\<close>

definition in_stage :: "stage \<Rightarrow> TcpConnection \<Rightarrow> bool" where
  "in_stage st c \<longleftrightarrow>
     (case st of
        Created \<Rightarrow> tc_state c = kConnecting
      | Up \<Rightarrow> up c
      | Closing \<Rightarrow> down c \<and> to_destroy c = 1
      | Removed \<Rightarrow> down c \<and> to_destroy c = 1
      | Destroyed \<Rightarrow> down c \<and> to_destroy c = 0 \<and> (\<exists>ch. tc_chan c = Some ch \<and> ch_index ch = kNew))"

text \<open>Every stage on the way has a functor posted that leads on.\<close>

definition led_on :: "TcpServer \<Rightarrow> nat \<Rightarrow> bool" where
  "led_on s i \<longleftrightarrow>
     (case sc_stage (obj s i) of
        Created \<Rightarrow> (sc_loop (obj s i), ConnectEstablished i) \<in> set (sv_posted s)
      | Closing \<Rightarrow> (sv_loop s, RemoveConnectionInLoop i) \<in> set (sv_posted s)
      | Removed \<Rightarrow> (sc_loop (obj s i), ConnectDestroyed i) \<in> set (sv_posted s)
      | _ \<Rightarrow> True)"

text \<open>The connections of a loop have channels of their own, open connections have descriptors of their own, and a connection's
  channel is for its descriptor.\<close>

definition apart :: "serving \<Rightarrow> bool" where
  "apart g \<longleftrightarrow>
     (\<forall>i < length (sg_conns g). \<forall>j < length (sg_conns g). i \<noteq> j \<longrightarrow>
        (loop_of g i = loop_of g j \<longrightarrow> tc_channel (sg_conns g ! i) \<noteq> tc_channel (sg_conns g ! j))
        \<and> (sc_stage (obj (sg_server g) i) \<noteq> Destroyed \<and> sc_stage (obj (sg_server g) j) \<noteq> Destroyed
             \<longrightarrow> sc_fd (obj (sg_server g) i) \<noteq> sc_fd (obj (sg_server g) j)))"

definition serving_inv :: "serving \<Rightarrow> bool" where
  "serving_inv g \<longleftrightarrow> server_inv (sg_server g) \<and> length (sg_conns g) = length (sv_objects (sg_server g)) \<and> apart g
     \<and> (\<forall>l. reactor_inv (sg_pollers g l) \<and> \<not> rc_eventHandling (sg_pollers g l))
     \<and> (\<forall>i < length (sg_conns g). conn_inv (conn_view g i) \<and> in_stage (sc_stage (obj (sg_server g) i)) (conn_view g i)
          \<and> led_on (sg_server g) i \<and> map_option ch_fd (tc_chan (conn_view g i)) = Some (sc_fd (obj (sg_server g) i)))"

lemma in_stage_moves:
  assumes "moves c c'" "in_stage st c"
  shows "if up c \<and> \<not> up c' then st = Up \<and> down c' \<and> to_destroy c' = 1 else in_stage st c'"
  using assms by (cases st) (auto simp: moves_def in_stage_def down_def tc_chan_def)

text \<open>What the operations of the server change.\<close>

lemma removeConnectionInLoop_changes:
  assumes "removeConnectionInLoop i s = Some s'"
  shows "sv_objects s' = (sv_objects s)[i := (obj s i)\<lparr>sc_stage := Removed\<rparr>]"
    "sv_posted s' = sv_posted s @ [(sc_loop (obj s i), ConnectDestroyed i)]" "sv_loop s' = sv_loop s"
  using assms by (auto simp: removeConnectionInLoop_def case_prod_beta set_stage_def post_def)

lemma close_callback_changes:
  assumes "close_callback i s = Some s'" "i < length (sv_objects s)"
  obtains st e where "sv_objects s' = (sv_objects s)[i := (obj s i)\<lparr>sc_stage := st\<rparr>]" "sv_posted s' = sv_posted s @ [e]"
    "sv_loop s' = sv_loop s" "st = Closing \<and> e = (sv_loop s, RemoveConnectionInLoop i)
      \<or> st = Removed \<and> e = (sc_loop (obj s i), ConnectDestroyed i)"
proof (cases "sc_loop (obj s i) = sv_loop s")
  case True
  then have "removeConnectionInLoop i (set_stage i Closing s) = Some s'"
    using assms by (simp add: close_callback_def removeConnection_def)
  from removeConnectionInLoop_changes [OF this] show ?thesis
    using that [of Removed "(sc_loop (obj s i), ConnectDestroyed i)"] assms(2) by (simp add: set_stage_def)
next
  case False
  then have "s' = post (sv_loop s) (RemoveConnectionInLoop i) (set_stage i Closing s)"
    using assms by (simp add: close_callback_def removeConnection_def)
  then show ?thesis using that [of Closing "(sv_loop s, RemoveConnectionInLoop i)"] by (simp add: set_stage_def post_def)
qed

lemma run_posted_changes:
  assumes "run_posted k s = Some s'" "sv_posted s ! k = (l, f)"
  shows "sv_objects s' = (sv_objects s)[conn_of f := (obj s (conn_of f))\<lparr>sc_stage :=
      (case f of ConnectEstablished _ \<Rightarrow> Up | RemoveConnectionInLoop _ \<Rightarrow> Removed | ConnectDestroyed _ \<Rightarrow> Destroyed)\<rparr>]" (is ?thesis1)
    and "sv_posted s' = take k (sv_posted s) @ drop (Suc k) (sv_posted s)
      @ (case f of RemoveConnectionInLoop i \<Rightarrow> [(sc_loop (obj s i), ConnectDestroyed i)] | _ \<Rightarrow> [])" (is ?thesis2)
    and "sv_loop s' = sv_loop s" (is ?thesis3)
proof -
  let ?t = "s\<lparr>sv_posted := take k (sv_posted s) @ drop (Suc k) (sv_posted s)\<rparr>"
  have run: "(case f of ConnectEstablished conn \<Rightarrow> Some (set_stage conn Up ?t) | RemoveConnectionInLoop conn \<Rightarrow> removeConnectionInLoop conn ?t
      | ConnectDestroyed conn \<Rightarrow> Some (set_stage conn Destroyed ?t)) = Some s'"
    using assms by (simp add: run_posted_def Let_def)
  have "?thesis1 \<and> ?thesis2 \<and> ?thesis3"
  proof (cases f)
    case (RemoveConnectionInLoop i)
    then show ?thesis using removeConnectionInLoop_changes [of i ?t s'] run by simp
  qed (use run in \<open>auto simp: set_stage_def\<close>)
  then show ?thesis1 ?thesis2 ?thesis3 by simp_all
qed

lemma accept_changes:
  assumes "server_accepts answer second_accept reopened s = Some s'"
  obtains "sv_objects s' = sv_objects s" "sv_posted s' = sv_posted s" "sv_loop s' = sv_loop s"
  | x fd a where "sv_objects s' = sv_objects s @ [x]" "sv_loop s' = sv_loop s" "answer = Accepted fd a" "sc_fd x = fd"
      "sc_stage x = Up \<and> sv_posted s' = sv_posted s
       \<or> sc_stage x = Created \<and> sv_posted s' = sv_posted s @ [(sc_loop x, ConnectEstablished (length (sv_objects s)))]"
      "\<exists>p. getNextLoop (sv_threadPool s) = Some (sc_loop x, p)"
proof -
  obtain eff a where a: "Acceptor_handleRead answer second_accept reopened (sv_acceptor s) = Some (eff, a)"
    "(case eff of NewConnection connfd peerAddr \<Rightarrow> newConnection connfd peerAddr (s\<lparr>sv_acceptor := a\<rparr>)
      | Closed fds \<Rightarrow> Some (s\<lparr>sv_acceptor := a\<rparr>)) = Some s'"
    using assms by (auto simp: server_accepts_def Let_def elim!: bind_eq_SomeE)
  show ?thesis
  proof (cases eff)
    case (NewConnection fd peer)
    have "answer = Accepted fd peer"
      using a(1) NewConnection
      by (auto simp: Acceptor_handleRead_def Socket_accept_def sockets_accept_def elim!: bind_eq_SomeE split: accept_answer.splits if_splits)
    moreover from a(2) NewConnection have new: "newConnection fd peer (s\<lparr>sv_acceptor := a\<rparr>) = Some s'" by simp
    moreover from new obtain l p where n: "getNextLoop (sv_threadPool s) = Some (l, p)" "sv_nextConnId s < 2 ^ 31 - 1"
      by (auto simp: newConnection_def elim!: bind_eq_SomeE)
    let ?x = "\<lambda>st. \<lparr>sc_name = conn_name (sv_name s) (sv_ipPort s) (sv_nextConnId s), sc_loop = l, sc_fd = fd, sc_peer = peer, sc_stage = st\<rparr>"
    from new n have "sv_objects s' = sv_objects s @ [?x (if l = sv_loop s then Up else Created)]" "sv_loop s' = sv_loop s"
      "sv_posted s' = sv_posted s @ (if l = sv_loop s then [] else [(l, ConnectEstablished (length (sv_objects s)))])"
      by (auto simp: newConnection_def Let_def set_stage_def post_def)
    ultimately show ?thesis using that(2) [of "?x (if l = sv_loop s then Up else Created)" fd peer] n(1)
      by (simp split: if_splits)
  next
    case (Closed fds)
    then show ?thesis using a(2) that(1) by auto
  qed
qed

section \<open>Steps\<close>

text \<open>When accepting goes wrong for good.\<close>

abbreviation accept_fails :: "accept_answer \<Rightarrow> TcpServer \<Rightarrow> bool" where
  "accept_fails answer s \<equiv> (case sockets_accept answer of None \<Rightarrow> True
     | Some (connfd, errno, a) \<Rightarrow> connfd \<ge> 0 \<and> sv_nextConnId s \<ge> 2 ^ 31 - 1)"

lemma server_accepts_ok:
  assumes "server_inv s" "\<not> accept_fails answer s"
  shows "\<exists>s'. server_accepts answer second_accept reopened s = Some s' \<and> server_inv s'"
proof -
  obtain connfd errno addr where acc: "sockets_accept answer = Some (connfd, errno, addr)" using assms(2) by (auto split: option.splits)
  show ?thesis
  proof (cases "sv_nextConnId s < 2 ^ 31 - 1")
    case True
    then show ?thesis using server_do_ok [OF assms(1), of "Accept answer second_accept reopened"] acc by simp
  next
    case False
    then have neg: "connfd < 0" using assms(2) acc by simp
    let ?a = "if errno = EMFILE then (sv_acceptor s)\<lparr>ac_idleFd := reopened\<rparr> else sv_acceptor s"
    have "server_accepts answer second_accept reopened s = Some (s\<lparr>sv_acceptor := ?a\<rparr>)"
      using acc neg by (simp add: server_accepts_def Acceptor_handleRead_def Socket_accept_def)
    moreover have "ac_hasCallback ?a" using server_invD(10) [OF assms(1)] by simp
    ultimately show ?thesis using server_inv_acceptor [OF assms(1)] by blast
  qed
qed

lemma server_accepts_stops:
  assumes "server_inv s" "accept_fails answer s"
  shows "server_accepts answer second_accept reopened s = None"
  using assms(2) server_invD(10) [OF assms(1)]
  by (auto simp: server_accepts_def Acceptor_handleRead_def Socket_accept_def newConnection_def
      split: option.splits Option.bind_splits)

lemma led_on_mono:
  assumes "led_on s j" "obj s' j = obj s j" "sv_loop s' = sv_loop s"
    "\<And>e. e \<in> set (sv_posted s) \<Longrightarrow> conn_of (snd e) = j \<Longrightarrow> e \<in> set (sv_posted s')"
  shows "led_on s' j"
  using assms by (cases "sc_stage (obj s j)") (auto simp: led_on_def)

lemma servingD:
  assumes "serving_inv g"
  shows "server_inv (sg_server g)" "length (sg_conns g) = length (sv_objects (sg_server g))"
    "i < length (sg_conns g) \<Longrightarrow> conn_inv (conn_view g i)"
    "i < length (sg_conns g) \<Longrightarrow> in_stage (sc_stage (obj (sg_server g) i)) (conn_view g i)"
    "i < length (sg_conns g) \<Longrightarrow> led_on (sg_server g) i"
    "i < length (sg_conns g) \<Longrightarrow> map_option ch_fd (tc_chan (conn_view g i)) = Some (sc_fd (obj (sg_server g) i))"
    "apart g" "reactor_inv (sg_pollers g l)" "\<not> rc_eventHandling (sg_pollers g l)"
  using assms by (simp_all add: serving_inv_def)

lemma conn_view_simps [simp]:
  "tc_state (conn_view g i) = tc_state (sg_conns g ! i)" "tc_channel (conn_view g i) = tc_channel (sg_conns g ! i)"
  "tc_reactor (conn_view g i) = sg_pollers g (loop_of g i)" "to_destroy (conn_view g i) = to_destroy (sg_conns g ! i)"
  "down (conn_view g i) = down (sg_conns g ! i)"
  by (simp_all add: conn_view_def to_destroy_def down_def)

text \<open>A connection does not notice that another one of its loop has changed the poller.\<close>

lemma other_view:
  assumes "conn_inv (d\<lparr>tc_reactor := r\<rparr>)" "reactor_inv r'" "\<not> rc_eventHandling r'" "chan r' (tc_channel d) = chan r (tc_channel d)"
    "\<And>ch. tc_state d = kConnecting \<Longrightarrow> chan r (tc_channel d) = Some ch
      \<Longrightarrow> map_find (rc_channels r') (ch_fd ch) = map_find (rc_channels r) (ch_fd ch)"
  shows "conn_inv (d\<lparr>tc_reactor := r'\<rparr>)"
    and "in_stage st (d\<lparr>tc_reactor := r\<rparr>) \<Longrightarrow> in_stage st (d\<lparr>tc_reactor := r'\<rparr>)"
proof -
  from assms(1) obtain ch where ch: "chan r (tc_channel d) = Some ch" "state_ok (d\<lparr>tc_reactor := r\<rparr>) ch"
    by (auto simp: conn_inv_def)
  have "state_ok (d\<lparr>tc_reactor := r'\<rparr>) ch"
    using ch assms(5) by (auto simp: state_ok_def connection_calls_def split: StateE.splits)
  then show "conn_inv (d\<lparr>tc_reactor := r'\<rparr>)" using assms(1-4) ch(1) by (simp add: conn_inv_def)
  show "in_stage st (d\<lparr>tc_reactor := r\<rparr>) \<Longrightarrow> in_stage st (d\<lparr>tc_reactor := r'\<rparr>)"
    using assms(4) by (cases st) (auto simp: in_stage_def down_def to_destroy_def)
qed

lemma kConnecting_stage: "in_stage st c \<Longrightarrow> tc_state c = kConnecting \<Longrightarrow> st = Created"
  by (cases st) (auto simp: in_stage_def down_def)

text \<open>One connection, the poller of its loop and the stage the server has for it change together.\<close>

lemma serving_change:
  assumes "serving_inv g" "i < length (sg_conns g)" "server_inv s'" "conn_inv c'" "in_stage st c'"
    and objects: "sv_objects s' = (sv_objects (sg_server g))[i := (obj (sg_server g) i)\<lparr>sc_stage := st\<rparr>]"
    and "sv_loop s' = sv_loop (sg_server g)"
    and posted: "\<And>e. e \<in> set (sv_posted (sg_server g)) \<Longrightarrow> conn_of (snd e) \<noteq> i \<Longrightarrow> e \<in> set (sv_posted s')"
    and "led_on s' i"
    and stays: "stays (conn_view g i) c'"
    and gone: "sc_stage (obj (sg_server g) i) = Destroyed \<Longrightarrow> st = Destroyed \<and> tc_reactor c' = tc_reactor (conn_view g i)"
  shows "serving_inv (put_conn i c' (g\<lparr>sg_server := s'\<rparr>))"
proof -
  note D = servingD [OF assms(1)]
  let ?s = "sg_server g" and ?g = "put_conn i c' (g\<lparr>sg_server := s'\<rparr>)"
  have o: "obj s' j = (if j = i then (obj ?s i)\<lparr>sc_stage := st\<rparr> else obj ?s j)" if "j < length (sg_conns g)" for j
    using that D(2) by (simp add: objects nth_list_update)
  have g: "sg_server ?g = s'" "sg_conns ?g = (sg_conns g)[i := c']" "sg_pollers ?g = (sg_pollers g)(loop_of g i := tc_reactor c')"
    using o [OF assms(2)] by (simp_all add: put_conn_def)
  have r: "reactor_inv (tc_reactor c')" "\<not> rc_eventHandling (tc_reactor c')" using assms(4) by (simp_all add: conn_inv_def)
  have ap: "apart ?g"
    using D(7) stays gone o assms(2) unfolding apart_def g by (auto simp: nth_list_update split: if_splits)
  have vi: "conn_view ?g i = c'" unfolding conn_view_def g using assms(2) o [OF assms(2)] by simp
  have "conn_inv (conn_view ?g j) \<and> in_stage (sc_stage (obj s' j)) (conn_view ?g j) \<and> led_on s' j
      \<and> map_option ch_fd (tc_chan (conn_view ?g j)) = Some (sc_fd (obj s' j))"
    if j: "j < length (sg_conns g)" for j
  proof (cases "j = i")
    case True
    have "map_option ch_fd (tc_chan c') = map_option ch_fd (tc_chan (conn_view g i))" using stays by (simp add: framed_def tc_chan_def)
    then show ?thesis using True assms(2,4,5,9) o [OF j] vi D(6) [OF assms(2)] by simp
  next
    case False
    have led: "led_on s' j"
      by (rule led_on_mono [OF D(5) [OF j]]) (use False o [OF j] assms(7) posted in auto)
    have ov: "obj s' j = obj ?s j" using False o [OF j] by simp
    show ?thesis
    proof (cases "loop_of g j = loop_of g i")
      case other: False
      then have "conn_view ?g j = conn_view g j" unfolding conn_view_def g using False ov by simp
      then show ?thesis using led ov D(3,4,6) [OF j] by simp
    next
      case same: True
      let ?d = "sg_conns g ! j" and ?r = "sg_pollers g (loop_of g i)"
      have v: "conn_view ?g j = ?d\<lparr>tc_reactor := tc_reactor c'\<rparr>" "conn_view g j = ?d\<lparr>tc_reactor := ?r\<rparr>"
        unfolding conn_view_def g using False ov same by simp_all
      have ch: "tc_channel ?d \<noteq> tc_channel (sg_conns g ! i)" using D(7) j assms(2) False same unfolding apart_def by blast
      then have chan: "chan (tc_reactor c') (tc_channel ?d) = chan ?r (tc_channel ?d)" using stays by (simp add: framed_def)
      have new: "map_find (rc_channels (tc_reactor c')) (ch_fd x) = map_find (rc_channels ?r) (ch_fd x)"
        if x: "tc_state ?d = kConnecting" "chan ?r (tc_channel ?d) = Some x" for x
      proof (cases "sc_stage (obj ?s i) = Destroyed")
        case True
        then show ?thesis using gone by simp
      next
        case alive: False
        have "sc_stage (obj ?s j) = Created" using kConnecting_stage [OF D(4) [OF j]] x(1) by simp
        then have "sc_fd (obj ?s j) \<noteq> sc_fd (obj ?s i)" using D(7) j assms(2) False alive unfolding apart_def by (metis stage.distinct(7))
        moreover have "ch_fd x = sc_fd (obj ?s j)" using D(6) [OF j] x(2) v(2) by (simp add: tc_chan_def)
        moreover have "map_option ch_fd (chan ?r (tc_channel (sg_conns g ! i))) = Some (sc_fd (obj ?s i))"
          using D(6) [OF assms(2)] by (simp add: tc_chan_def)
        ultimately have "map_option ch_fd (chan ?r (tc_channel (sg_conns g ! i))) \<noteq> Some (ch_fd x)" by auto
        then show ?thesis using stays unfolding framed_def conn_view_simps by blast
      qed
      have inv: "conn_inv (?d\<lparr>tc_reactor := ?r\<rparr>)" "in_stage (sc_stage (obj ?s j)) (?d\<lparr>tc_reactor := ?r\<rparr>)"
        using D(3,4) [OF j] v(2) by simp_all
      show ?thesis
        using other_view(1) [OF inv(1) r chan new] other_view(2) [OF inv(1) r chan new inv(2)] led ov D(6) [OF j] v chan
        by (simp add: tc_chan_def)
    qed
  qed
  then show ?thesis using D(2,8,9) r assms(3) ap unfolding serving_inv_def g by (simp add: objects)
qed

lemma serving_same:
  assumes "serving_inv g" "server_inv s'" "sv_objects s' = sv_objects (sg_server g)" "sv_posted s' = sv_posted (sg_server g)"
    "sv_loop s' = sv_loop (sg_server g)"
  shows "serving_inv (g\<lparr>sg_server := s'\<rparr>)"
proof -
  note D = servingD [OF assms(1)]
  have "led_on s' j" if "j < length (sg_conns g)" for j by (rule led_on_mono [OF D(5) [OF that]]) (simp_all add: assms)
  moreover have "conn_view (g\<lparr>sg_server := s'\<rparr>) j = conn_view g j" for j by (simp add: conn_view_def assms(3))
  moreover have "apart (g\<lparr>sg_server := s'\<rparr>)" using D(7) by (simp add: apart_def assms(3))
  ultimately show ?thesis using D assms(2) by (simp add: serving_inv_def assms(3))
qed

text \<open>A new connection joins the poller of its loop.\<close>

lemma serving_grow:
  assumes "serving_inv g" "server_inv s'" "sv_objects s' = sv_objects (sg_server g) @ [x]" "sv_loop s' = sv_loop (sg_server g)"
    and posted: "sc_stage x = Up \<and> sv_posted s' = sv_posted (sg_server g)
       \<or> sc_stage x = Created \<and> sv_posted s' = sv_posted (sg_server g) @ [(sc_loop x, ConnectEstablished (length (sv_objects (sg_server g))))]"
    and fds: "\<And>y. y \<in> set (sv_objects (sg_server g)) \<Longrightarrow> sc_stage y \<noteq> Destroyed \<Longrightarrow> sc_fd y \<noteq> sc_fd x"
    and ch: "chan (sg_pollers g (sc_loop x)) ch = None"
    and c: "conn_inv c" "in_stage (sc_stage x) c" "stays (TcpConnection_new ch (sc_fd x) now (sg_pollers g (sc_loop x))) c"
  shows "serving_inv (put_conn (length (sg_conns g)) c (g\<lparr>sg_server := s', sg_conns := sg_conns g @ [c]\<rparr>))"
proof -
  note D = servingD [OF assms(1)]
  let ?n = "length (sg_conns g)" and ?s = "sg_server g" and ?r = "sg_pollers g (sc_loop x)"
  let ?g = "put_conn ?n c (g\<lparr>sg_server := s', sg_conns := sg_conns g @ [c]\<rparr>)"
  have o: "obj s' j = (if j < ?n then obj ?s j else x)" if "j < Suc ?n" for j using that D(2) by (auto simp: assms(3) nth_append)
  have g: "sg_server ?g = s'" "sg_conns ?g = sg_conns g @ [c]" "sg_pollers ?g = (sg_pollers g)(sc_loop x := tc_reactor c)"
    using o [of ?n] by (simp_all add: put_conn_def)
  have r: "reactor_inv (tc_reactor c)" "\<not> rc_eventHandling (tc_reactor c)" using c(1) by (simp_all add: conn_inv_def)
  have tc: "tc_channel c = ch" and fr: "framed ch (set_chan ch (Channel_new (sc_fd x)) ?r) (tc_reactor c)"
    using c(3) by (simp_all add: TcpConnection_new_def)
  then have frame: "b \<noteq> ch \<Longrightarrow> chan (tc_reactor c) b = chan ?r b"
    "fd \<noteq> sc_fd x \<Longrightarrow> map_find (rc_channels (tc_reactor c)) fd = map_find (rc_channels ?r) fd" for b fd
    by (auto simp: framed_def Channel_new_def)
  have fresh: "tc_channel (sg_conns g ! j) \<noteq> ch" if "j < ?n" "loop_of g j = sc_loop x" for j
    using D(6) [OF that(1)] ch that(2) by (auto simp: tc_chan_def)
  have fd: "sc_fd (obj ?s j) \<noteq> sc_fd x" if "j < ?n" "sc_stage (obj ?s j) \<noteq> Destroyed" for j
    using fds that D(2) by simp
  have ap: "apart ?g"
    unfolding apart_def g
  proof (intro allI impI)
    fix i j assume ij: "i < length (sg_conns g @ [c])" "j < length (sg_conns g @ [c])" "i \<noteq> j"
    let ?apart = "\<lambda>i j. (sc_loop (obj s' i) = sc_loop (obj s' j) \<longrightarrow> tc_channel ((sg_conns g @ [c]) ! i) \<noteq> tc_channel ((sg_conns g @ [c]) ! j))
      \<and> (sc_stage (obj s' i) \<noteq> Destroyed \<and> sc_stage (obj s' j) \<noteq> Destroyed \<longrightarrow> sc_fd (obj s' i) \<noteq> sc_fd (obj s' j))"
    have new: "?apart i ?n" if "i < ?n" for i
      using that o [of i] o [of ?n] fresh [OF that] fd [OF that] tc by (auto simp: nth_append)
    consider "i < ?n" "j < ?n" | "i < ?n" "j = ?n" | "i = ?n" "j < ?n" using ij by (auto simp: less_Suc_eq)
    then show "?apart i j"
    proof cases
      case 1
      then show ?thesis using D(7) ij(3) o [of i] o [of j] by (simp add: apart_def nth_append)
    next
      case 2
      then show ?thesis using new by blast
    next
      case 3
      then show ?thesis using new [of j] by (metis (no_types))
    qed
  qed
  have vn: "conn_view ?g ?n = c" unfolding conn_view_def g using o [of ?n] by simp
  have own: "map_option ch_fd (tc_chan c) = Some (sc_fd x)" using tc fr by (simp add: tc_chan_def framed_def Channel_new_def)
  have led: "led_on s' j" if "j < Suc ?n" for j
  proof (cases "j < ?n")
    case True
    then show ?thesis by (intro led_on_mono [OF D(5) [OF True]]) (use o [OF that] assms(4) posted in auto)
  next
    case False
    then show ?thesis using that o [OF that] posted D(2) by (auto simp: led_on_def less_Suc_eq)
  qed
  have old: "conn_inv (conn_view ?g j) \<and> in_stage (sc_stage (obj s' j)) (conn_view ?g j)
      \<and> map_option ch_fd (tc_chan (conn_view ?g j)) = Some (sc_fd (obj s' j))" if j: "j < ?n" for j
  proof (cases "loop_of g j = sc_loop x")
    case False
    then have "conn_view ?g j = conn_view g j" unfolding conn_view_def g using j o [of j] by (simp add: nth_append)
    then show ?thesis using D(3,4,6) [OF j] o [of j] j by simp
  next
    case True
    let ?d = "sg_conns g ! j"
    have v: "conn_view ?g j = ?d\<lparr>tc_reactor := tc_reactor c\<rparr>" "conn_view g j = ?d\<lparr>tc_reactor := ?r\<rparr>"
      unfolding conn_view_def g using True j o [of j] by (simp_all add: nth_append)
    have chan: "chan (tc_reactor c) (tc_channel ?d) = chan ?r (tc_channel ?d)" using frame(1) fresh [OF j True] by simp
    have new: "map_find (rc_channels (tc_reactor c)) (ch_fd y) = map_find (rc_channels ?r) (ch_fd y)"
      if y: "tc_state ?d = kConnecting" "chan ?r (tc_channel ?d) = Some y" for y
    proof (rule frame(2))
      have "sc_stage (obj ?s j) = Created" using kConnecting_stage [OF D(4) [OF j]] y(1) by simp
      then show "ch_fd y \<noteq> sc_fd x" using fd [OF j] D(6) [OF j] y(2) True by (simp add: tc_chan_def)
    qed
    have inv: "conn_inv (?d\<lparr>tc_reactor := ?r\<rparr>)" "in_stage (sc_stage (obj ?s j)) (?d\<lparr>tc_reactor := ?r\<rparr>)"
      using D(3,4) [OF j] v(2) by simp_all
    show ?thesis
      using other_view(1) [OF inv(1) r chan new] other_view(2) [OF inv(1) r chan new inv(2)] D(6) [OF j] v chan o [of j] j
      by (simp add: tc_chan_def)
  qed
  have "conn_inv (conn_view ?g j) \<and> in_stage (sc_stage (obj s' j)) (conn_view ?g j) \<and> led_on s' j
      \<and> map_option ch_fd (tc_chan (conn_view ?g j)) = Some (sc_fd (obj s' j))" if "j < Suc ?n" for j
    using old [of j] led [OF that] that vn own c(1,2) o [OF that] by (cases "j < ?n") (auto simp: less_Suc_eq)
  then show ?thesis using D(2,8,9) r assms(2) ap unfolding serving_inv_def g by (simp add: assms(3))
qed

lemma serve_accept_ok:
  assumes "user_ok user" "serving_inv g" "serve_allowed (S_accept answer second_accept reopened ch now) g"
    "\<not> serve_stops (S_accept answer second_accept reopened ch now) g"
  shows "\<exists>g'. serve_accept user answer second_accept reopened ch now g = Some g' \<and> serving_inv g'"
proof -
  note D = servingD [OF assms(2)]
  let ?s = "sg_server g" and ?n = "length (sg_conns g)"
  obtain s' where s': "server_accepts answer second_accept reopened ?s = Some s'" "server_inv s'"
    using server_accepts_ok [OF D(1), of answer second_accept reopened] assms(4) by auto
  from s'(1) show ?thesis
  proof (cases rule: accept_changes)
    case 1
    then show ?thesis using s' D(2) serving_same [OF assms(2) s'(2)] by (simp add: serve_accept_def)
  next
    case (2 x fd a)
    let ?r = "sg_pollers g (sc_loop x)"
    let ?c = "TcpConnection_new ch fd now ?r"
    have al: "chan ?r ch = None" "map_find (rc_channels ?r) fd = None"
      "\<And>y. y \<in> set (sv_objects ?s) \<Longrightarrow> sc_stage y \<noteq> Destroyed \<Longrightarrow> sc_fd y \<noteq> fd"
      using assms(3) 2(3,6) by auto
    have new: "conn_inv ?c" "tc_state ?c = kConnecting" using new_connection_ok [of ?r ch fd now] D(8,9) al by simp_all
    obtain c where c: "(if sc_stage x = Up then connectEstablished user ?c else Some ?c) = Some c" "conn_inv c" "in_stage (sc_stage x) c"
      using 2(5) new connectEstablished_ok [OF assms(1) new] by (auto simp: in_stage_def)
    have "stays ?c c" using c(1) connectEstablished_stays by (auto split: if_splits)
    then have "serving_inv (put_conn ?n c (g\<lparr>sg_server := s', sg_conns := sg_conns g @ [c]\<rparr>))"
      using serving_grow [OF assms(2) s'(2) 2(1,2,5) _ al(1) c(2,3), of now] al(3) 2(4) by simp
    moreover have "obj s' ?n = x" using 2(1) D(2) by (simp add: nth_append)
    ultimately show ?thesis using s'(1) c(1) 2(1,4) D(2) by (simp add: serve_accept_def)
  qed
qed

lemma serve_conn_ok:
  assumes "user_ok user" "serving_inv g" "serve_allowed (S_conn i x) g" "\<not> serve_stops (S_conn i x) g"
  shows "\<exists>g'. serve_conn user i x g = Some g' \<and> serving_inv g'"
proof -
  note D = servingD [OF assms(2)]
  have i: "i < length (sg_conns g)" using assms(3) by simp
  let ?s = "sg_server g" and ?c = "conn_view g i"
  obtain c where c: "conn_turn user x ?c = Some c" "conn_inv c" "moves ?c c"
    using conn_turn_ok [OF assms(1) D(3) [OF i], of x] assms(3,4) by auto
  note st = in_stage_moves [OF c(3) D(4) [OF i]]
  have gone: "tc_reactor c = tc_reactor ?c" "\<not> up ?c" if "sc_stage (obj ?s i) = Destroyed"
    using D(4) [OF i] that c(3) by (auto simp: in_stage_def moves_def down_def)
  show ?thesis
  proof (cases "up ?c \<and> \<not> up c")
    case True
    with st have up: "sc_stage (obj ?s i) = Up" "down c" "to_destroy c = 1" by auto
    have io: "i < length (sv_objects ?s)" using i D(2) by simp
    obtain s' where s': "close_callback i ?s = Some s'" "server_inv s'" using close_callback_ok [OF D(1) io up(1)] by blast
    obtain st e where ch: "sv_objects s' = (sv_objects ?s)[i := (obj ?s i)\<lparr>sc_stage := st\<rparr>]" "sv_posted s' = sv_posted ?s @ [e]"
      "sv_loop s' = sv_loop ?s" "st = Closing \<and> e = (sv_loop ?s, RemoveConnectionInLoop i)
        \<or> st = Removed \<and> e = (sc_loop (obj ?s i), ConnectDestroyed i)"
      by (rule close_callback_changes [OF s'(1) io]) blast
    have "serving_inv (put_conn i c (g\<lparr>sg_server := s'\<rparr>))"
    proof (rule serving_change [OF assms(2) i s'(2) c(2) _ ch(1) ch(3)])
      show "in_stage st c" using ch(4) up by (auto simp: in_stage_def)
      show "led_on s' i" using ch io by (auto simp: led_on_def)
      show "stays ?c c" by (rule conn_turn_stays [OF c(1)])
    qed (use up(1) in \<open>simp_all add: ch(2)\<close>)
    then show ?thesis using c(1) s'(1) True by (simp add: serve_conn_def)
  next
    case False
    have "serving_inv (put_conn i c (g\<lparr>sg_server := ?s\<rparr>))"
    proof (rule serving_change [OF assms(2) i D(1) c(2), of "sc_stage (obj ?s i)"])
      show "in_stage (sc_stage (obj ?s i)) c" using st False by (simp only: if_False)
      show "led_on ?s i" by (rule D(5) [OF i])
      show "stays ?c c" by (rule conn_turn_stays [OF c(1)])
    qed (use gone in simp_all)
    then show ?thesis using c(1) False by (auto simp: serve_conn_def Let_def)
  qed
qed

lemma serve_posted_ok:
  assumes "user_ok user" "serving_inv g" "k < length (sv_posted (sg_server g))"
  shows "\<exists>g'. serve_posted user k g = Some g' \<and> serving_inv g'"
proof -
  note D = servingD [OF assms(2)]
  let ?s = "sg_server g"
  obtain l f where e: "sv_posted ?s ! k = (l, f)" by (cases "sv_posted ?s ! k")
  let ?i = "conn_of f" and ?st = "case f of ConnectEstablished _ \<Rightarrow> Up | RemoveConnectionInLoop _ \<Rightarrow> Removed | ConnectDestroyed _ \<Rightarrow> Destroyed"
  obtain s' where s': "run_posted k ?s = Some s'" "server_inv s'" using run_posted_ok [OF D(1) assms(3)] by blast
  note ch = run_posted_changes [OF s'(1) e]
  have p: "posted_ok ?s (l, f)" using server_invD(9) [OF D(1)] assms(3) e by (metis nth_mem)
  then have i: "?i < length (sg_conns g)" and alive: "sc_stage (obj ?s ?i) \<noteq> Destroyed" using D(2) by (cases f; simp)+
  have keep: "x \<in> set (sv_posted s')" if "x \<in> set (sv_posted ?s)" "conn_of (snd x) \<noteq> ?i" for x
  proof -
    have "sv_posted ?s = take k (sv_posted ?s) @ (l, f) # drop (Suc k) (sv_posted ?s)"
      using assms(3) e by (metis id_take_nth_drop)
    then have "x \<in> set (take k (sv_posted ?s)) \<or> x = (l, f) \<or> x \<in> set (drop (Suc k) (sv_posted ?s))"
      using that(1) by (metis Un_iff set_ConsD set_append)
    then show ?thesis using that(2) by (auto simp: ch(2))
  qed
  have change: "serving_inv (put_conn ?i c (g\<lparr>sg_server := s'\<rparr>))"
    if "conn_inv c" "in_stage ?st c" "stays (conn_view g ?i) c" for c
  proof (rule serving_change [OF assms(2) i s'(2) that(1,2) ch(1) ch(3) keep _ that(3)])
    show "led_on s' ?i" using i D(2) ch(1,2) by (cases f) (auto simp: led_on_def)
  qed (use alive in simp_all)
  show ?thesis
  proof (cases f)
    case (ConnectEstablished j)
    then have "tc_state (conn_view g j) = kConnecting" using p D(4) [OF i] by (auto simp: in_stage_def)
    then obtain c where c: "connectEstablished user (conn_view g j) = Some c" "conn_inv c" "up c"
      using connectEstablished_ok [OF assms(1) D(3)] i ConnectEstablished by (metis conn_of.simps(1))
    then show ?thesis using change [of c] connectEstablished_stays [OF c(1)] s'(1) e ConnectEstablished
      by (simp add: serve_posted_def in_stage_def)
  next
    case (RemoveConnectionInLoop j)
    then have "in_stage Removed (conn_view g j)" using p D(4) [OF i] by (auto simp: in_stage_def)
    then show ?thesis using change [of "conn_view g j"] D(3) [OF i] RemoveConnectionInLoop s'(1) e by (simp add: serve_posted_def)
  next
    case (ConnectDestroyed j)
    then have "down (conn_view g j)" "to_destroy (conn_view g j) = 1" using p D(4) [OF i] by (auto simp: in_stage_def)
    then obtain c where c: "run_queued user (destroy_first (conn_view g j)) = Some c" "conn_inv c" "in_stage Destroyed c"
      using destroyed_conn [OF D(3), of j user] i ConnectDestroyed by (auto simp: in_stage_def)
    have "stays (conn_view g j) c" using run_queued_stays [OF c(1)] by (simp add: destroy_first_def)
    then show ?thesis using change [of c] c s'(1) e ConnectDestroyed by (simp add: serve_posted_def)
  qed
qed

lemma serve_do_ok:
  assumes "user_ok user" "serving_inv g" "serve_allowed e g" "\<not> serve_stops e g"
  shows "\<exists>g'. serve_do user e g = Some g' \<and> serving_inv g'"
  using assms serve_accept_ok serve_posted_ok serve_conn_ok by (cases e) (simp_all only: serve_do.simps serve_allowed.simps)

lemma serve_do_stops:
  assumes "user_ok user" "serving_inv g" "serve_allowed e g" "serve_stops e g"
  shows "serve_do user e g = None"
proof (cases e)
  case (S_accept answer second_accept reopened ch now)
  then have "server_accepts answer second_accept reopened (sg_server g) = None"
    using assms(4) server_accepts_stops [OF servingD(1) [OF assms(2)], of answer second_accept reopened] by auto
  with S_accept show ?thesis by (simp add: serve_accept_def)
next
  case (S_conn i x)
  then show ?thesis using conn_turn_stops [OF assms(1) servingD(3) [OF assms(2)], of i x] assms(3,4)
    by (simp add: serve_conn_def Let_def)
qed (use assms(4) in simp)

lemma serve_reachable_inv: "user_ok user \<Longrightarrow> serve_reachable user g \<Longrightarrow> serving_inv g"
proof (rotate_tac, induction rule: serve_reachable.induct)
  case (serve_started s pollers)
  then show ?case using server_reachable_inv by (simp add: serving_inv_def apart_def)
next
  case (serve_happens g e g')
  then show ?case using serve_do_ok [of user g e] serve_do_stops [of user g e] by (cases "serve_stops e g") auto
qed

section \<open>Property\<close>

text \<open>What the invariant says about one connection.\<close>

lemma served_connection:
  assumes "serving_inv g" "i < length (sg_conns g)"
  defines "c \<equiv> conn_view g i"
    and "entry \<equiv> map_find (sv_connections (sg_server g)) (sc_name (obj (sg_server g) i))"
  shows "tc_sent c @ contents (tc_output c) = tc_accepted c"
    and "connection_calls c = (if tc_state c = kConnecting then [] else if up c then [ConnectionCb kConnected]
      else [ConnectionCb kConnected, ConnectionCb kDisconnected])"
    and "\<not> down c \<longrightarrow> entry = Some i"
    and "sv_posted (sg_server g) = [] \<longrightarrow> up c \<and> entry = Some i \<or> down c \<and> entry = None
      \<and> (\<exists>ch. tc_chan c = Some ch \<and> map_find (rc_channels (tc_reactor c)) (ch_fd ch) \<noteq> Some (tc_channel c))"
proof -
  note D = servingD [OF assms(1)] and i = assms(2)
  have inv: "conn_inv c" and st: "in_stage (sc_stage (obj (sg_server g) i)) c" and led: "led_on (sg_server g) i"
    using D(3-5) [OF i] by (simp_all add: c_def)
  have entry: "entry = (if live (sc_stage (obj (sg_server g) i)) then Some i else None)"
    using server_invD(6) [OF D(1), of i] i D(2) unfolding obj_ok_def entry_def by auto
  obtain ch where ch: "tc_chan c = Some ch" "state_ok c ch" "reactor_inv (tc_reactor c)"
    "tc_sent c @ contents (tc_output c) = tc_accepted c"
    using inv by (rule conn_invE) blast
  then show "tc_sent c @ contents (tc_output c) = tc_accepted c" by simp
  show "connection_calls c = (if tc_state c = kConnecting then [] else if up c then [ConnectionCb kConnected]
      else [ConnectionCb kConnected, ConnectionCb kDisconnected])"
    using ch(2) by (cases "tc_state c") (auto simp: state_ok_def)
  show "\<not> down c \<longrightarrow> entry = Some i"
    using st entry by (cases "sc_stage (obj (sg_server g) i)") (auto simp: in_stage_def live_def)
  have gone: "ch_index ch = kNew \<Longrightarrow> map_find (rc_channels (tc_reactor c)) (ch_fd ch) \<noteq> Some (tc_channel c)"
    using reactor_invD(1) [OF ch(3)] ch(1) by (simp add: tc_chan_def)
  show "sv_posted (sg_server g) = [] \<longrightarrow> up c \<and> entry = Some i \<or> down c \<and> entry = None
      \<and> (\<exists>ch. tc_chan c = Some ch \<and> map_find (rc_channels (tc_reactor c)) (ch_fd ch) \<noteq> Some (tc_channel c))"
    using st led entry gone ch(1) by (cases "sc_stage (obj (sg_server g) i)") (auto simp: in_stage_def live_def led_on_def)
qed


lemma demo_server_poller:
  assumes "TcpServer_start Suc False demo_server = Some s"
  shows "reactor_inv (ac_reactor (sv_acceptor s)) \<and> \<not> rc_eventHandling (ac_reactor (sv_acceptor s))"
proof -
  let ?r = "set_chan 1 (Channel_new 3) EpollPoller_new" and ?c = "Channel_new 3"
  have inv: "reactor_inv ?r" by (rule new_inv) (simp_all add: chan_def EpollPoller_new_def reactor_inv_new [unfolded EpollPoller_new_def])
  moreover have "\<not> (ch_index ?c = kNew \<and> map_find (rc_channels ?r) (ch_fd ?c) \<noteq> None)" by (simp add: EpollPoller_new_def)
  ultimately obtain r where r: "enableReading 1 ?r = Some r" "reactor_inv r" "rc_eventHandling r = rc_eventHandling ?r"
    using with_events_cases [of ?r 1 ?c "\<lambda>e. e OR kReadEvent"] by (auto simp: enableReading_def)
  then have "ac_reactor (sv_acceptor s) = r"
    using assms by (auto simp: TcpServer_start_def demo_server_def TcpServer_setThreadNum_def TcpServer_new_def pool_start_def
        EventLoopThreadPool_new_def demo_acceptor_def Acceptor_listen_def Let_def)
  then show ?thesis using r(2,3) by (simp add: EpollPoller_new_def)
qed


end
