(* ===== verification/Web.thy ===== *)
theory Web
  imports Http Connection
begin

text \<open>
  The HTTP server on its connections: the callbacks of \<open>Http\<close> installed on the connection of \<open>Connection\<close>, with the parser's context
  stored in the connection, as the constructor of \<^verbatim>\<open>HttpServer\<close> (\<^verbatim>\<open>pallette/http/HttpServer.cpp\<close>) does it. A step of the composition is
  a step of the connection whose user is the server. The lemmas follow a client's bytes from the reads over the parser, the user's
  callback and the response to the connection's output, for requests that are each cut into reads of their own in any way.
\<close>

section \<open>The parser on chunks\<close>

text \<open>Once the request line is read, the time of arrival is no longer looked at, and the line is not waited for again.\<close>

lemma parse_bytes_after_line:
  assumes "ctx_state c \<noteq> EXPECT_REQUEST_LINE"
  shows "parse_bytes t c s = parse_bytes t' c s \<and> (\<forall>ok c1 s1. parse_bytes t c s = Returns (ok, c1, s1) \<longrightarrow> ctx_state c1 \<noteq> EXPECT_REQUEST_LINE)"
  using assms
proof (induction t c s rule: parse_bytes.induct)
  case (1 t c s)
  note unfold = parse_bytes.simps [of _ c s]
  show ?case
  proof (cases "ctx_state c = EXPECT_HEADERS \<and> memmem s kCRLF \<noteq> None")
    case True
    then obtain k where k: "memmem s kCRLF = Some k" by blast
    from True k 1(2,3,4) [OF conjunct1 [OF True] k refl refl refl] show ?thesis
      by (auto simp: unfold Let_def)
  next
    case False
    with 1(5) show ?thesis
      by (cases "ctx_state c") (auto simp: unfold Let_def split: if_splits outcome.splits)
  qed
qed

lemma parse_bytes_waiting:
  assumes "parse_bytes t c s = Returns (True, c1, s1)" "ctx_state c1 = EXPECT_REQUEST_LINE"
  shows "c1 = c \<and> s1 = s"
proof (cases "ctx_state c = EXPECT_REQUEST_LINE")
  case True
  have "\<not> parse_bytes t d u = Returns (True, c1, s1)" if "ctx_state d = EXPECT_HEADERS" for d u
    using that parse_bytes_after_line [of d t u] assms(2) by force
  with True assms(1) show ?thesis
    by (auto simp: parse_bytes.simps [of t c s] split: option.splits if_splits)
qed (use assms parse_bytes_after_line in blast)

lemma parse_bytes_suffix:
  "parse_bytes t c s = Returns (ok, c1, s1) \<Longrightarrow> suffix s1 s"
proof (induction t c s rule: parse_bytes.induct)
  case (1 t c s)
  have d: "suffix s1 (drop k s) \<Longrightarrow> suffix s1 s" for k by (meson suffix_drop suffix_order.trans)
  show ?case
  proof (cases "ctx_state c")
    case EXPECT_REQUEST_LINE
    show ?thesis
    proof (cases "\<exists>k r. memmem s kCRLF = Some k \<and> processRequestLine (ctx_request c) (take k s) = Some (True, r)")
      case True
      then obtain k r where k: "memmem s kCRLF = Some k" "processRequestLine (ctx_request c) (take k s) = Some (True, r)" by blast
      from 1(1) [OF EXPECT_REQUEST_LINE k refl TrueI] 1(5) k EXPECT_REQUEST_LINE show ?thesis
        by (auto simp: parse_bytes.simps [of t c s] intro: d)
    qed (use 1(5) EXPECT_REQUEST_LINE in \<open>auto simp: parse_bytes.simps [of t c s] split: option.splits if_splits\<close>)
  next
    case EXPECT_HEADERS
    with 1(2,3,4) [OF this _ refl refl refl] 1(5) show ?thesis
      by (auto simp: parse_bytes.simps [of t c s] Let_def suffix_drop split: option.splits if_splits intro: d)
  qed (use 1(5) in \<open>auto simp: parse_bytes.simps [of t c s] Let_def suffix_drop split: if_splits outcome.splits\<close>)
qed

section \<open>The server's callbacks on a connection\<close>

record web =
  web_conn :: TcpConnection
  web_context :: "HttpContext option"

fun to_api :: "conn_call \<Rightarrow> conn_api" where
  "to_api (ConnSend m) = ApiSend m"
| "to_api ConnShutdown = ApiShutdown"

text \<open>The callbacks the constructor of \<^verbatim>\<open>HttpServer\<close> installs: a message goes to \<^verbatim>\<open>onMessage\<close> with the input buffer and the
  time it was received; the connection callback calls nothing on the connection.\<close>

definition http_user ::
  "(HttpRequest \<Rightarrow> HttpResponse \<Rightarrow> HttpResponse) \<Rightarrow> HttpContext option \<Rightarrow> conn_event \<Rightarrow> TcpConnection \<Rightarrow> conn_api list" where
  "http_user cb context ev s =
     (case ev of
        MessageCb m \<Rightarrow>
          (case HttpServer_onMessage cb context (tc_input s) (tc_lastReceiveTime s) of
             Some (Returns (calls, context', buf)) \<Rightarrow>
               ApiConsume (readableBytes (tc_input s) - readableBytes buf) # map to_api calls
           | _ \<Rightarrow> [])
      | _ \<Rightarrow> [])"

text \<open>What the callbacks leave in the connection's context; \<^const>\<open>None\<close> when \<^verbatim>\<open>onMessage\<close> stops the process, throws or
  does not return.\<close>

definition web_context_after ::
  "(HttpRequest \<Rightarrow> HttpResponse \<Rightarrow> HttpResponse) \<Rightarrow> conn_op \<Rightarrow> web \<Rightarrow> HttpContext option option" where
  "web_context_after cb x w =
     (case x of
        Establish \<Rightarrow> Some (HttpServer_onConnection True (web_context w))
      | Event revents answer t \<Rightarrow>
          if revents AND (EPOLLIN OR EPOLLPRI OR EPOLLHUP) \<noteq> 0 then do {
            (input, n, savedErrno) \<leftarrow> readFd (tc_input (web_conn w)) answer;
            if n > 0 then
              (case HttpServer_onMessage cb (web_context w) input t of
                 Some (Returns (calls, context', buf)) \<Rightarrow> Some context'
               | _ \<Rightarrow> None)
            else Some (web_context w) }
          else Some (web_context w)
      | _ \<Rightarrow> Some (web_context w))"

definition web_do :: "(HttpRequest \<Rightarrow> HttpResponse \<Rightarrow> HttpResponse) \<Rightarrow> conn_op \<Rightarrow> web \<Rightarrow> web option" where
  "web_do cb x w = do {
     context \<leftarrow> web_context_after cb x w;
     s \<leftarrow> conn_do (http_user cb (web_context w)) x (web_conn w);
     Some \<lparr>web_conn = s, web_context = context\<rparr> }"

lemma http_user_ok: "user_ok (http_user cb context)"
proof -
  have "a \<noteq> ApiStartRead \<and> a \<noteq> ApiStopRead" if "a \<in> to_api ` X" for a X
    using that by (auto elim: to_api.elims)
  then show ?thesis
    by (auto simp: user_ok_def http_user_def api_allowed_def split: conn_event.splits option.splits outcome.splits)
qed

section \<open>Frames of the connection's operations\<close>

definition faultless :: "write_answer list \<Rightarrow> bool" where
  "faultless as \<longleftrightarrow> WriteErr EPIPE \<notin> set as \<and> WriteErr ECONNRESET \<notin> set as"

text \<open>A connection that is up, whose queue holds only notifications (no forced close, no call of another thread), whose socket
  does not fail, and whose write side is not shut while it is connected.\<close>

fun notification :: "queued \<Rightarrow> bool" where
  "notification QWriteComplete \<longleftrightarrow> True"
| "notification (QHighWater n) \<longleftrightarrow> True"
| "notification _ \<longleftrightarrow> False"

definition healthy :: "TcpConnection \<Rightarrow> bool" where
  "healthy s \<longleftrightarrow> conn_inv s \<and> up s \<and> list_all notification (tc_queued s) \<and> faultless (tc_answers s)
     \<and> (tc_state s = kConnected \<longrightarrow> \<not> tc_shut s)"

lemma send_direct_healthy:
  assumes "faultless (tc_answers s)" "\<not> tc_shut s" "send_direct data c s = (n, f, t)"
  shows "\<not> f \<and> faultless (tc_answers t) \<and> tc_input t = tc_input s \<and> tc_shut t = tc_shut s
    \<and> (list_all notification (tc_queued s) \<longrightarrow> list_all notification (tc_queued t))"
  using assms
  by (auto simp: send_direct_def sockets_write_def faultless_def queue_functor_def Let_def
      split: if_splits list.splits write_answer.splits)

lemma note_high_water_healthy:
  "tc_answers (note_high_water k s) = tc_answers s" "tc_input (note_high_water k s) = tc_input s"
  "tc_shut (note_high_water k s) = tc_shut s"
  "list_all notification (tc_queued (note_high_water k s)) \<longleftrightarrow> list_all notification (tc_queued s)"
  by (auto simp: note_high_water_def queue_functor_def Let_def)

lemma on_channel_frame:
  "on_channel f s = Some s' \<Longrightarrow> \<exists>r. s' = s\<lparr>tc_reactor := r\<rparr>"
  by (auto simp: on_channel_def split: Option.bind_splits)

lemma send_rest_frame:
  assumes "send_rest data n s = Some s'"
  shows "tc_answers s' = tc_answers s \<and> tc_input s' = tc_input s \<and> tc_shut s' = tc_shut s
    \<and> (list_all notification (tc_queued s') \<longleftrightarrow> list_all notification (tc_queued s)) \<and> tc_accepted s' = tc_accepted s @ data"
proof -
  have "tc_accepted (note_high_water k s) = tc_accepted s" for k by (simp add: note_high_water_def queue_functor_def Let_def)
  then show ?thesis
    using assms by (auto simp: send_rest_def Let_def note_high_water_healthy dest!: on_channel_frame split: Option.bind_splits if_splits)
qed

lemma send_direct_accepted:
  "send_direct data c s = (n, f, t) \<Longrightarrow> tc_accepted t = tc_accepted s"
  by (auto simp: send_direct_def sockets_write_def queue_functor_def Let_def split: if_splits list.splits write_answer.splits)

text \<open>A healthy connected connection accepts all the bytes it is given.\<close>

lemma send_healthy:
  assumes "healthy s" "tc_state s = kConnected"
  obtains s' where "TcpConnection_send True data s = Some s'" "healthy s'" "tc_state s' = kConnected" "tc_input s' = tc_input s"
    "tc_accepted s' = tc_accepted s @ data"
proof -
  have inv: "conn_inv s" "up s" using assms by (simp_all add: healthy_def)
  obtain s' where s': "sendInLoop data s = Some s'" "conn_inv s'" "tc_state s' = tc_state s"
    using sendInLoop_ok [OF inv] by blast
  obtain c where c: "tc_chan s = Some c" using inv(1) by (rule conn_invE)
  obtain n f t where d: "send_direct data c s = (n, f, t)" by (metis prod_cases3)
  note h = send_direct_healthy [OF _ _ d] send_direct_accepted [OF d]
  have "send_rest data n t = Some s'"
    using s'(1) inv(2) c d h assms by (auto simp: sendInLoop_def healthy_def split: if_splits Option.bind_splits)
  from send_rest_frame [OF this] h assms s' have "healthy s'" "tc_input s' = tc_input s" "tc_accepted s' = tc_accepted s @ data"
    by (auto simp: healthy_def)
  with s' assms(2) that show ?thesis by (simp add: in_loop_thread)
qed

lemma shutdown_healthy:
  assumes "healthy s" "tc_state s = kConnected"
  obtains s' where "TcpConnection_shutdown True s = Some s'" "healthy s'" "tc_state s' = kDisconnecting" "tc_input s' = tc_input s"
    "tc_accepted s' = tc_accepted s"
proof -
  have inv: "conn_inv s" "up s" using assms by (simp_all add: healthy_def)
  obtain b where "shutdownInLoop (setState kDisconnecting s) = Some ((setState kDisconnecting s)\<lparr>tc_shut := b\<rparr>)"
    using shutdownInLoop_ok [OF conn_inv_setState [OF inv]] by blast
  moreover have "healthy ((setState kDisconnecting s)\<lparr>tc_shut := b\<rparr>)"
    using conn_inv_frame(1) [OF conn_inv_setState [OF inv]] assms(1) by (simp add: healthy_def setState_def)
  ultimately show ?thesis using assms(2) that by (simp add: in_loop_thread setState_def)
qed

lemma consume_healthy:
  assumes "healthy s" "suffix ys (contents (tc_input s))" "k = length (contents (tc_input s)) - length ys"
  obtains s' where "api_do (ApiConsume k) s = Some s'" "healthy s'" "tc_state s' = tc_state s" "contents (tc_input s') = ys"
    "tc_accepted s' = tc_accepted s"
proof -
  have b: "buf_inv (tc_input s)" using assms(1) by (auto simp: healthy_def elim: conn_invE)
  obtain zs where zs: "contents (tc_input s) = zs @ ys" using assms(2) by (auto simp: suffix_def)
  have k: "k = length zs" using assms(3) unfolding zs by simp
  then have le: "k \<le> length (contents (tc_input s))" using zs by simp
  with b have k1: "min k (readableBytes (tc_input s)) = k" by simp
  obtain i where "retrieve (tc_input s) k = Some i" "buf_inv i" "contents i = ys"
    using bq.pop_ok [OF b le] k zs by auto
  with k1 assms(1) conn_inv_frame(8) show ?thesis by (intro that [of "s\<lparr>tc_input := i\<rparr>"]) (auto simp: healthy_def)
qed

definition reply :: "(HttpRequest \<Rightarrow> HttpResponse \<Rightarrow> HttpResponse) \<Rightarrow> HttpRequest \<Rightarrow> HttpResponse" where
  "reply cb req = cb req (HttpResponse_new (HttpRequest_getHeader req ''Connection'' = ''close''
     \<or> req_version req = HTTP10 \<and> HttpRequest_getHeader req ''Connection'' \<noteq> ''Keep-Alive''))"

lemma onMessage_waits:
  assumes "buf_inv b" "ctx_state c \<noteq> GOT_ALL" "parse_bytes t c (contents b) = Returns (True, c1, s1)" "ctx_state c1 \<noteq> GOT_ALL"
  obtains b' where "HttpServer_onMessage cb (Some c) b t = Some (Returns ([], Some c1, b'))" "buf_inv b'" "contents b' = s1"
proof -
  obtain b' where "HttpContext_parseRequest c b t = Some (Returns (True, c1, b'))" "buf_inv b'" "contents b' = s1"
    using parse_Returns [OF assms(1-3)] by metis
  with assms(4) that show ?thesis by (simp add: HttpServer_onMessage_def gotAll_def)
qed

lemma onMessage_answers:
  assumes "buf_inv b" "ctx_state c \<noteq> GOT_ALL" "parse_bytes t c (contents b) = Returns (True, c1, s1)" "ctx_state c1 = GOT_ALL"
    and "length (resp_body (reply cb (ctx_request c1))) < 10 ^ 13"
  obtains b' where "HttpServer_onMessage cb (Some c) b t = Some (Returns (ConnSend (response_bytes (reply cb (ctx_request c1)))
      # (if resp_closeConnection (reply cb (ctx_request c1)) then [ConnShutdown] else []), Some HttpContext_new, b'))"
    "buf_inv b'" "contents b' = s1"
proof -
  obtain b' where b': "HttpContext_parseRequest c b t = Some (Returns (True, c1, b'))" "buf_inv b'" "contents b' = s1"
    using parse_Returns [OF assms(1-3)] by metis
  obtain out where "HttpResponse_appendToBuffer (reply cb (ctx_request c1)) (Buffer_new kInitalSize) = Some out" "buf_inv out"
    "contents out = response_bytes (reply cb (ctx_request c1))"
    using appendToBuffer_spec [OF Buffer_new_inv assms(5)] by auto
  then have "HttpServer_onRequest cb (ctx_request c1) = Some (ConnSend (response_bytes (reply cb (ctx_request c1)))
      # (if resp_closeConnection (reply cb (ctx_request c1)) then [ConnShutdown] else []))"
    by (simp add: HttpServer_onRequest_def Let_def Buffer_bytes_contents buf_inv_wf reply_def)
  moreover have "HttpContext_reset c1 = HttpContext_new"
    by (simp add: HttpContext_reset_def HttpContext_new_def HttpRequest_swap_def HttpRequest_new_def)
  ultimately show ?thesis
    using b' assms(4) that by (simp add: HttpServer_onMessage_def gotAll_def)
qed

section \<open>One step of a connection that serves HTTP\<close>

lemma read_mask: "EPOLLIN AND EPOLLHUP = 0" "EPOLLIN AND EPOLLERR = 0" "EPOLLIN AND EPOLLOUT = 0"
    "EPOLLIN AND (EPOLLIN OR EPOLLPRI OR EPOLLHUP) \<noteq> 0" "EPOLLIN \<noteq> 0"
  and write_only_mask: "EPOLLOUT AND EPOLLHUP = 0" "EPOLLOUT AND EPOLLERR = 0" "EPOLLOUT AND EPOLLOUT \<noteq> 0"
    "EPOLLOUT AND (EPOLLIN OR EPOLLPRI OR EPOLLHUP) = 0"
  by (simp_all add: epoll_defs)

text \<open>A read event runs \<^verbatim>\<open>onMessage\<close> on the unread bytes followed by those that arrived, takes what was parsed from the input
  buffer and makes the calls on the connection.\<close>

lemma read_event:
  assumes "healthy s" "chunk \<noteq> []" "length chunk \<le> extraBuf_size"
  obtains b s1 where "buf_inv b" "contents b = contents (tc_input s) @ chunk" "healthy s1" "tc_input s1 = b"
    "tc_state s1 = tc_state s" "tc_accepted s1 = tc_accepted s"
    "\<And>cb c calls c' b'. HttpServer_onMessage cb c b t = Some (Returns (calls, c', b')) \<Longrightarrow>
       web_do cb (Event EPOLLIN (ReadBytes chunk) t) \<lparr>web_conn = s, web_context = c\<rparr> = do {
         s' \<leftarrow> foldo api_do (ApiConsume (readableBytes b - readableBytes b') # map to_api calls) s1;
         Some \<lparr>web_conn = s', web_context = c'\<rparr> }"
proof -
  have inv: "conn_inv s" "buf_inv (tc_input s)" using assms(1) by (auto simp: healthy_def elim: conn_invE)
  have all: "take (readv_room (tc_input s)) chunk = chunk" using assms(3) by (simp add: readv_room_def)
  obtain b where b: "readFd (tc_input s) (ReadBytes chunk) = Some (b, int (length chunk), 0)" "buf_inv b"
    "contents b = contents (tc_input s) @ chunk"
    using readFd_spec [OF inv(2), of chunk] unfolding all by auto
  define s1 where "s1 = s\<lparr>tc_input := b, tc_bytesReceived := tc_bytesReceived s + word_of_int (int (length chunk)),
      tc_lastReceiveTime := t, tc_log := tc_log s @ [MessageCb (Buffer_bytes b)]\<rparr>"
  have "conn_inv (s\<lparr>tc_input := b, tc_bytesReceived := tc_bytesReceived s + word_of_int (int (length chunk)), tc_lastReceiveTime := t\<rparr>)"
    (is "conn_inv ?s") using conn_inv_frame(5,6) conn_inv_frame(8) [OF inv(1) b(2)] by blast
  then have "conn_inv s1" using call_other_ok [of "\<lambda>_ _. []" ?s "MessageCb (Buffer_bytes b)"] assms(1)
    by (auto simp: user_ok_def call_user_def Let_def healthy_def s1_def)
  then have h: "healthy s1" "tc_input s1 = b" "tc_state s1 = tc_state s" "tc_accepted s1 = tc_accepted s"
    using assms(1) by (auto simp: healthy_def s1_def)
  have run: "web_do cb (Event EPOLLIN (ReadBytes chunk) t) \<lparr>web_conn = s, web_context = c\<rparr> = do {
         s' \<leftarrow> foldo api_do (ApiConsume (readableBytes b - readableBytes b') # map to_api calls) s1;
         Some \<lparr>web_conn = s', web_context = c'\<rparr> }"
    if "HttpServer_onMessage cb c b t = Some (Returns (calls, c', b'))" for cb c calls c' b'
  proof -
    have "http_user cb c (MessageCb (Buffer_bytes b)) s1 = ApiConsume (readableBytes b - readableBytes b') # map to_api calls"
      using that by (simp add: http_user_def s1_def)
    moreover have "conn_do (http_user cb c) (Event EPOLLIN (ReadBytes chunk) t) s
        = foldo api_do (http_user cb c (MessageCb (Buffer_bytes b)) s1) s1"
      using b(1) assms(2) read_mask(5) unfolding s1_def
      by (simp add: conn_handleEvent_def read_mask TcpConnection_handleRead_def call_user_def Let_def)
    moreover have "web_context_after cb (Event EPOLLIN (ReadBytes chunk) t) \<lparr>web_conn = s, web_context = c\<rparr> = Some c'"
      using b(1) assms(2) that by (simp add: web_context_after_def read_mask)
    ultimately show ?thesis by (simp add: web_do_def)
  qed
  show ?thesis by (rule that [OF b(2,3) h run])
qed

text \<open>The connection and the context between two steps.\<close>

definition serving :: "StateE \<Rightarrow> string \<Rightarrow> string \<Rightarrow> HttpContext \<Rightarrow> web \<Rightarrow> bool" where
  "serving st unread accepted c w \<longleftrightarrow> healthy (web_conn w) \<and> tc_state (web_conn w) = st
     \<and> contents (tc_input (web_conn w)) = unread \<and> tc_accepted (web_conn w) = accepted \<and> web_context w = Some c"

text \<open>The parsed bytes leave the input buffer before the calls on the connection are made.\<close>

lemma read_consumes:
  assumes "serving st unread accepted c w" "chunk \<noteq> []" "length chunk \<le> extraBuf_size" "suffix s1 (unread @ chunk)"
  obtains b s where "buf_inv b" "contents b = unread @ chunk" "healthy s" "contents (tc_input s) = s1" "tc_state s = st"
    "tc_accepted s = accepted"
    "\<And>calls c' b'. HttpServer_onMessage cb (Some c) b t = Some (Returns (calls, c', b')) \<Longrightarrow> buf_inv b' \<Longrightarrow> contents b' = s1 \<Longrightarrow>
       web_do cb (Event EPOLLIN (ReadBytes chunk) t) w = do {
         s' \<leftarrow> foldo api_do (map to_api calls) s;
         Some \<lparr>web_conn = s', web_context = c'\<rparr> }"
proof -
  let ?s = "web_conn w"
  have w: "w = \<lparr>web_conn = ?s, web_context = Some c\<rparr>" "healthy ?s" "contents (tc_input ?s) = unread" "tc_state ?s = st"
    "tc_accepted ?s = accepted" using assms(1) by (simp_all add: serving_def)
  obtain b s where r: "buf_inv b" "contents b = unread @ chunk" "healthy s" "tc_input s = b" "tc_state s = st"
    "tc_accepted s = accepted" and
    run: "\<And>cb c calls c' b'. HttpServer_onMessage cb c b t = Some (Returns (calls, c', b')) \<Longrightarrow>
       web_do cb (Event EPOLLIN (ReadBytes chunk) t) \<lparr>web_conn = ?s, web_context = c\<rparr> = do {
         s' \<leftarrow> foldo api_do (ApiConsume (readableBytes b - readableBytes b') # map to_api calls) s;
         Some \<lparr>web_conn = s', web_context = c'\<rparr> }"
    using read_event [OF w(2) assms(2,3), of t] unfolding w(3-5) by metis
  have "suffix s1 (contents (tc_input s))" using assms(4) r(2,4) by simp
  from consume_healthy [OF r(3) this refl] obtain s2 where
    s2: "api_do (ApiConsume (length (contents b) - length s1)) s = Some s2" "healthy s2" "tc_state s2 = st"
    "contents (tc_input s2) = s1" "tc_accepted s2 = accepted" unfolding r(4-6) by metis
  show ?thesis
  proof (rule that [OF r(1,2) s2(2,4,3,5)])
    fix calls c' b'
    assume m: "HttpServer_onMessage cb (Some c) b t = Some (Returns (calls, c', b'))" "buf_inv b'" "contents b' = s1"
    have k: "length (contents b) - length s1 = readableBytes b - readableBytes b'" using r(1) m(2,3) by auto
    from run [OF m(1)] s2(1) show "web_do cb (Event EPOLLIN (ReadBytes chunk) t) w = do {
         s' \<leftarrow> foldo api_do (map to_api calls) s2;
         Some \<lparr>web_conn = s', web_context = c'\<rparr> }"
      unfolding w(1) [symmetric] k by (simp del: api_call.simps)
  qed
qed

lemma read_waits:
  assumes "serving st unread accepted c w" "chunk \<noteq> []" "length chunk \<le> extraBuf_size" "ctx_state c \<noteq> GOT_ALL"
    and "parse_bytes t c (unread @ chunk) = Returns (True, c1, s1)" "ctx_state c1 \<noteq> GOT_ALL"
  shows "\<exists>w'. web_do cb (Event EPOLLIN (ReadBytes chunk) t) w = Some w' \<and> serving st s1 accepted c1 w'"
proof (rule read_consumes [OF assms(1-3) parse_bytes_suffix [OF assms(5)], of cb t])
  fix b s
  assume r: "buf_inv b" "contents b = unread @ chunk" "healthy s" "contents (tc_input s) = s1" "tc_state s = st"
    "tc_accepted s = accepted" and
    run: "\<And>calls c' b'. HttpServer_onMessage cb (Some c) b t = Some (Returns (calls, c', b')) \<Longrightarrow> buf_inv b' \<Longrightarrow> contents b' = s1 \<Longrightarrow>
       web_do cb (Event EPOLLIN (ReadBytes chunk) t) w = do {
         s' \<leftarrow> foldo api_do (map to_api calls) s;
         Some \<lparr>web_conn = s', web_context = c'\<rparr> }"
  obtain b' where b': "HttpServer_onMessage cb (Some c) b t = Some (Returns ([], Some c1, b'))" "buf_inv b'" "contents b' = s1"
    using onMessage_waits [OF r(1) assms(4) _ assms(6), of t s1] assms(5) r(2) by metis
  with run [OF b'] r show ?thesis by (simp add: serving_def)
qed

definition state_after :: "HttpResponse \<Rightarrow> StateE" where
  "state_after resp = (if resp_closeConnection resp then kDisconnecting else kConnected)"

lemma answer_calls:
  assumes "healthy s" "tc_state s = kConnected"
  obtains s' where "foldo api_do (map to_api (ConnSend (response_bytes resp)
      # (if resp_closeConnection resp then [ConnShutdown] else []))) s = Some s'"
    "healthy s'" "tc_state s' = state_after resp" "tc_input s' = tc_input s" "tc_accepted s' = tc_accepted s @ response_bytes resp"
proof -
  obtain s1 where s1: "TcpConnection_send True (response_bytes resp) s = Some s1" "healthy s1" "tc_state s1 = kConnected"
    "tc_input s1 = tc_input s" "tc_accepted s1 = tc_accepted s @ response_bytes resp"
    using send_healthy [OF assms] by metis
  show ?thesis
  proof (cases "resp_closeConnection resp")
    case True
    obtain s2 where "TcpConnection_shutdown True s1 = Some s2" "healthy s2" "tc_state s2 = kDisconnecting" "tc_input s2 = tc_input s1"
      "tc_accepted s2 = tc_accepted s1" using shutdown_healthy [OF s1(2,3)] by metis
    with True s1 that show ?thesis by (simp add: state_after_def)
  qed (use s1 that in \<open>simp add: state_after_def\<close>)
qed

lemma read_answers:
  assumes "serving kConnected unread accepted c w" "chunk \<noteq> []" "length chunk \<le> extraBuf_size" "ctx_state c \<noteq> GOT_ALL"
    and "parse_bytes t c (unread @ chunk) = Returns (True, c1, s1)" "ctx_state c1 = GOT_ALL"
    and "length (resp_body (reply cb (ctx_request c1))) < 10 ^ 13"
  shows "\<exists>w'. web_do cb (Event EPOLLIN (ReadBytes chunk) t) w = Some w'
    \<and> serving (state_after (reply cb (ctx_request c1))) s1 (accepted @ response_bytes (reply cb (ctx_request c1))) HttpContext_new w'"
proof (rule read_consumes [OF assms(1-3) parse_bytes_suffix [OF assms(5)], of cb t])
  fix b s
  assume r: "buf_inv b" "contents b = unread @ chunk" "healthy s" "contents (tc_input s) = s1" "tc_state s = kConnected"
    "tc_accepted s = accepted" and
    run: "\<And>calls c' b'. HttpServer_onMessage cb (Some c) b t = Some (Returns (calls, c', b')) \<Longrightarrow> buf_inv b' \<Longrightarrow> contents b' = s1 \<Longrightarrow>
       web_do cb (Event EPOLLIN (ReadBytes chunk) t) w = do {
         s' \<leftarrow> foldo api_do (map to_api calls) s;
         Some \<lparr>web_conn = s', web_context = c'\<rparr> }"
  let ?resp = "reply cb (ctx_request c1)"
  obtain b' where b': "HttpServer_onMessage cb (Some c) b t = Some (Returns (ConnSend (response_bytes ?resp)
      # (if resp_closeConnection ?resp then [ConnShutdown] else []), Some HttpContext_new, b'))" "buf_inv b'" "contents b' = s1"
    using onMessage_answers [OF r(1) assms(4) _ assms(6,7), of t s1] assms(5) r(2) by metis
  obtain s' where "foldo api_do (map to_api (ConnSend (response_bytes ?resp)
      # (if resp_closeConnection ?resp then [ConnShutdown] else []))) s = Some s'"
    "healthy s'" "tc_state s' = state_after ?resp" "tc_input s' = tc_input s" "tc_accepted s' = tc_accepted s @ response_bytes ?resp"
    using answer_calls [OF r(3,5)] by metis
  with run [OF b'] r show ?thesis by (simp only: bind.simps serving_def) simp
qed

text \<open>What else happens between reads: the socket becomes writable, the loop runs the queued functors, the kernel settles
  how it will answer.\<close>

fun between_reads :: "conn_op \<Rightarrow> bool" where
  "between_reads (Event revents answer t) \<longleftrightarrow> revents = EPOLLOUT"
| "between_reads RunQueued \<longleftrightarrow> True"
| "between_reads (KernelWill as) \<longleftrightarrow> faultless as"
| "between_reads _ \<longleftrightarrow> False"

lemma handleWrite_healthy:
  assumes "healthy s"
  shows "\<exists>s'. TcpConnection_handleWrite s = Some s' \<and> healthy s' \<and> tc_state s' = tc_state s \<and> tc_input s' = tc_input s
    \<and> tc_accepted s' = tc_accepted s"
proof -
  obtain s' where s': "TcpConnection_handleWrite s = Some s'" "conn_inv s'" "tc_state s' = tc_state s"
    using conn_handleWrite_ok [of s] assms by (auto simp: healthy_def)
  have "tc_input s' = tc_input s \<and> tc_accepted s' = tc_accepted s \<and> set (tc_answers s') \<subseteq> set (tc_answers s)
    \<and> (list_all notification (tc_queued s) \<longrightarrow> list_all notification (tc_queued s'))"
    using s'(1)
    by (auto simp: TcpConnection_handleWrite_def sockets_write_def shutdownInLoop_def queue_functor_def Let_def
        dest!: on_channel_frame split: Option.bind_splits if_splits list.splits write_answer.splits)
  moreover have "tc_shut s' \<longrightarrow> tc_shut s \<or> tc_state s = kDisconnecting" using handleWrite_keeps [OF s'(1)] by blast
  ultimately show ?thesis using s' assms by (auto simp: healthy_def faultless_def)
qed

lemma run_queued_healthy:
  assumes "healthy s"
  shows "\<exists>s'. run_queued (http_user cb c) s = Some s' \<and> healthy s' \<and> tc_state s' = tc_state s \<and> tc_input s' = tc_input s
    \<and> tc_accepted s' = tc_accepted s"
proof (cases "tc_queued s")
  case (Cons f fs)
  then have f: "notification f" using assms by (simp add: healthy_def)
  then have "queue_allowed s" using Cons by (auto simp: queue_allowed_def)
  then obtain s' where s': "run_queued (http_user cb c) s = Some s'" "conn_inv s'"
    using run_queued_ok [OF http_user_ok, of s cb c] assms by (auto simp: healthy_def)
  with Cons f have "\<exists>l. s' = s\<lparr>tc_queued := fs, tc_log := l\<rparr>"
    by (cases f) (auto simp: run_queued_def call_user_def http_user_def Let_def)
  with s' assms Cons show ?thesis by (auto simp: healthy_def)
qed (use assms in \<open>simp add: run_queued_def\<close>)

lemma between_reads_keeps:
  assumes "serving st unread accepted c w" "between_reads x"
  shows "\<exists>w'. web_do cb x w = Some w' \<and> serving st unread accepted c w'"
proof -
  have h: "healthy (web_conn w)" using assms(1) by (simp add: serving_def)
  have "\<exists>s'. conn_do (http_user cb (web_context w)) x (web_conn w) = Some s' \<and> healthy s' \<and> tc_state s' = tc_state (web_conn w)
      \<and> tc_input s' = tc_input (web_conn w) \<and> tc_accepted s' = tc_accepted (web_conn w)"
    using assms(2)
  proof (cases x rule: between_reads.cases)
    case (1 revents answer t)
    then show ?thesis using assms(2) handleWrite_healthy [OF h] write_only_mask by (simp add: conn_handleEvent_def)
  next
    case 2
    then show ?thesis using run_queued_healthy [OF h] by simp
  next
    case (3 as)
    then show ?thesis using assms(2) h conn_inv_frame(7) by (auto simp: healthy_def)
  qed simp_all
  moreover have "web_context_after cb x w = Some (web_context w)"
    using assms(2) write_only_mask by (cases x rule: between_reads.cases) (auto simp: web_context_after_def)
  ultimately show ?thesis using assms(1) by (auto simp: web_do_def serving_def)
qed

lemma between_reads_keep:
  assumes "\<forall>x\<in>set xs. between_reads x" "serving st unread accepted c w"
  shows "\<exists>w'. foldo (web_do cb) xs w = Some w' \<and> serving st unread accepted c w'"
  using assms by (intro foldo_total [where P = "serving st unread accepted c"] between_reads_keeps) auto

section \<open>Requests and responses\<close>

text \<open>A complete message on the wire, and the request the callback gets for it.\<close>

definition message_ok :: "HttpRequest \<Rightarrow> string \<Rightarrow> bool" where
  "message_ok r body \<longleftrightarrow> request_ok r \<and> (req_method r = GET \<and> body = []
     \<or> req_method r = POST \<and> HttpRequest_getHeader r ''Content-Length'' = dec (length body) \<and> length body < 2 ^ 31)"

definition received :: "HttpRequest \<Rightarrow> string \<Rightarrow> Timestamp \<Rightarrow> HttpRequest" where
  "received r body t = (if req_method r = POST then r\<lparr>req_receiveTime := t, req_query := body\<rparr> else r\<lparr>req_receiveTime := t\<rparr>)"

lemma parse_message:
  assumes "message_ok r body"
  shows "parse_bytes t HttpContext_new (request_bytes r @ body @ rest) =
    Returns (True, \<lparr>ctx_state = GOT_ALL, ctx_request = received r body t\<rparr>, rest)"
  using assms parse_post_body [of "\<lparr>ctx_state = EXPECT_BODY, ctx_request = r\<lparr>req_receiveTime := t\<rparr>\<rparr>" body t rest]
  by (auto simp: message_ok_def received_def parse_request_head after_headers_def HttpRequest_getHeader_def)

lemma parse_partial:
  assumes "parse_bytes t c (s @ x) = Returns (True, d, [])" "x \<noteq> []"
  obtains c1 s1 where "parse_bytes t c s = Returns (True, c1, s1)" "ctx_state c1 \<noteq> GOT_ALL" "parse_bytes t c1 (s1 @ x) = Returns (True, d, [])"
  using assms that by (auto simp: parse_bytes_extend split: outcome.splits if_splits)

text \<open>A chunk that does not complete the message leaves a context from which the remaining bytes complete it; the time the
  callback will see is fixed by the read that completes the request line.\<close>

lemma parse_chunk:
  assumes "\<forall>t. \<exists>t0\<in>insert t T. parse_bytes t c (s @ x) = Returns (True, \<lparr>ctx_state = GOT_ALL, ctx_request = req t0\<rparr>, [])" "x \<noteq> []"
  obtains c1 s1 where "parse_bytes t c s = Returns (True, c1, s1)" "ctx_state c1 \<noteq> GOT_ALL"
    "\<forall>t'. \<exists>t0\<in>insert t' (insert t T). parse_bytes t' c1 (s1 @ x) = Returns (True, \<lparr>ctx_state = GOT_ALL, ctx_request = req t0\<rparr>, [])"
proof -
  obtain t0 where t0: "t0 \<in> insert t T" "parse_bytes t c (s @ x) = Returns (True, \<lparr>ctx_state = GOT_ALL, ctx_request = req t0\<rparr>, [])"
    using assms(1) by blast
  obtain c1 s1 where c1: "parse_bytes t c s = Returns (True, c1, s1)" "ctx_state c1 \<noteq> GOT_ALL"
    "parse_bytes t c1 (s1 @ x) = Returns (True, \<lparr>ctx_state = GOT_ALL, ctx_request = req t0\<rparr>, [])"
    using parse_partial [OF t0(2) assms(2)] by blast
  have "\<exists>t1\<in>insert t' (insert t T). parse_bytes t' c1 (s1 @ x) = Returns (True, \<lparr>ctx_state = GOT_ALL, ctx_request = req t1\<rparr>, [])" for t'
  proof (cases "ctx_state c1 = EXPECT_REQUEST_LINE")
    case True
    then have "c1 = c" "s1 = s" using parse_bytes_waiting [OF c1(1)] by auto
    with assms(1) show ?thesis by blast
  next
    case False
    have "parse_bytes t' c1 (s1 @ x) = parse_bytes t c1 (s1 @ x)" using parse_bytes_after_line [OF False, of t' _ t] by blast
    with c1(3) t0(1) show ?thesis by (intro bexI [of _ t0]) auto
  qed
  with c1(1,2) that show ?thesis by blast
qed

fun is_read :: "conn_op \<Rightarrow> bool" where
  "is_read (Event revents (ReadBytes chunk) t) \<longleftrightarrow> revents = EPOLLIN \<and> chunk \<noteq> [] \<and> length chunk \<le> extraBuf_size"
| "is_read _ \<longleftrightarrow> False"

fun bytes_in :: "conn_op \<Rightarrow> string" where
  "bytes_in (Event revents (ReadBytes chunk) t) = (if revents = EPOLLIN then chunk else [])"
| "bytes_in _ = []"

fun arrivals :: "conn_op \<Rightarrow> Timestamp list" where
  "arrivals (Event revents (ReadBytes chunk) t) = (if revents = EPOLLIN then [t] else [])"
| "arrivals _ = []"

lemma between_reads_silent: "between_reads x \<Longrightarrow> bytes_in x = []"
  by (cases x rule: bytes_in.cases) (auto simp: epoll_defs)

lemma is_readE:
  assumes "is_read x"
  obtains chunk t where "x = Event EPOLLIN (ReadBytes chunk) t" "chunk \<noteq> []" "length chunk \<le> extraBuf_size" "bytes_in x = chunk"
    "arrivals x = [t]"
  using assms by (cases x rule: is_read.cases) auto

lemma exchange_from:
  assumes "\<forall>x\<in>set xs. between_reads x \<or> is_read x" "concat (map bytes_in xs) \<noteq> []"
    and "serving kConnected unread accepted c w" "ctx_state c \<noteq> GOT_ALL"
    and "\<forall>t. \<exists>t0\<in>insert t T. parse_bytes t c (unread @ concat (map bytes_in xs))
      = Returns (True, \<lparr>ctx_state = GOT_ALL, ctx_request = req t0\<rparr>, [])"
    and "\<forall>t. length (resp_body (reply cb (req t))) < 10 ^ 13"
  shows "\<exists>w' t0. t0 \<in> T \<union> set (concat (map arrivals xs)) \<and> foldo (web_do cb) xs w = Some w'
    \<and> serving (state_after (reply cb (req t0))) [] (accepted @ response_bytes (reply cb (req t0))) HttpContext_new w'"
  using assms(1-5)
proof (induction xs arbitrary: unread c w T)
  case (Cons x xs)
  show ?case
  proof (cases "between_reads x")
    case True
    obtain w1 where w1: "web_do cb x w = Some w1" "serving kConnected unread accepted c w1"
      using between_reads_keeps [OF Cons.prems(3) True] by blast
    note silent = between_reads_silent [OF True]
    have "\<exists>w' t0. t0 \<in> T \<union> set (concat (map arrivals xs)) \<and> foldo (web_do cb) xs w1 = Some w'
      \<and> serving (state_after (reply cb (req t0))) [] (accepted @ response_bytes (reply cb (req t0))) HttpContext_new w'"
      using Cons.prems silent by (intro Cons.IH [OF _ _ w1(2) Cons.prems(4)]) auto
    with w1(1) show ?thesis by auto
  next
    case False
    with Cons.prems(1) have "is_read x" by simp
    then obtain chunk t where x: "x = Event EPOLLIN (ReadBytes chunk) t" "chunk \<noteq> []" "length chunk \<le> extraBuf_size"
      "bytes_in x = chunk" "arrivals x = [t]" by (rule is_readE)
    let ?rest = "concat (map bytes_in xs)"
    obtain t0 where t0: "t0 \<in> insert t T" "parse_bytes t c (unread @ chunk @ ?rest)
        = Returns (True, \<lparr>ctx_state = GOT_ALL, ctx_request = req t0\<rparr>, [])"
      using Cons.prems(5) x(4) by fastforce
    show ?thesis
    proof (cases "?rest = []")
      case True
      with t0(2) have p: "parse_bytes t c (unread @ chunk) = Returns (True, \<lparr>ctx_state = GOT_ALL, ctx_request = req t0\<rparr>, [])" by simp
      from read_answers [OF Cons.prems(3) x(2,3) Cons.prems(4) p, of cb] assms(6) obtain w1 where
        w1: "web_do cb x w = Some w1"
        "serving (state_after (reply cb (req t0))) [] (accepted @ response_bytes (reply cb (req t0))) HttpContext_new w1"
        using x(1) by auto
      have "\<forall>y\<in>set xs. between_reads y" using True Cons.prems(1) by (auto elim!: is_readE)
      from between_reads_keep [OF this w1(2)] obtain w' where
        "foldo (web_do cb) xs w1 = Some w'"
        "serving (state_after (reply cb (req t0))) [] (accepted @ response_bytes (reply cb (req t0))) HttpContext_new w'"
        by blast
      with w1(1) t0(1) x(5) show ?thesis by (intro exI [of _ w'] exI [of _ t0]) auto
    next
      case False
      have "\<forall>t. \<exists>t0\<in>insert t T. parse_bytes t c ((unread @ chunk) @ ?rest)
          = Returns (True, \<lparr>ctx_state = GOT_ALL, ctx_request = req t0\<rparr>, [])" using Cons.prems(5) x(4) by simp
      from parse_chunk [OF this False, of t] obtain c1 s1 where
        c1: "parse_bytes t c (unread @ chunk) = Returns (True, c1, s1)" "ctx_state c1 \<noteq> GOT_ALL"
        "\<forall>t'. \<exists>t0\<in>insert t' (insert t T). parse_bytes t' c1 (s1 @ ?rest)
          = Returns (True, \<lparr>ctx_state = GOT_ALL, ctx_request = req t0\<rparr>, [])" by blast
      obtain w1 where w1: "web_do cb x w = Some w1" "serving kConnected s1 accepted c1 w1"
        using read_waits [OF Cons.prems(3) x(2,3) Cons.prems(4) c1(1,2)] x(1) by blast
      from Cons.IH [OF _ False w1(2) c1(2,3)] Cons.prems(1) obtain w' t1 where
        "t1 \<in> insert t T \<union> set (concat (map arrivals xs))" "foldo (web_do cb) xs w1 = Some w'"
        "serving (state_after (reply cb (req t1))) [] (accepted @ response_bytes (reply cb (req t1))) HttpContext_new w'"
        by auto
      with w1(1) x(5) show ?thesis by (intro exI [of _ w'] exI [of _ t1]) auto
    qed
  qed
qed simp

section \<open>Sessions\<close>

text \<open>One request of a client with everything that happens on the connection from its first byte to the next request.\<close>

type_synonym exchange = "HttpRequest \<times> string \<times> conn_op list"

definition exchange_ops :: "exchange \<Rightarrow> conn_op list" where
  "exchange_ops x = snd (snd x)"

definition exchange_ok :: "exchange \<Rightarrow> bool" where
  "exchange_ok x \<longleftrightarrow> (case x of (r, body, xs) \<Rightarrow> message_ok r body \<and> list_all (\<lambda>y. between_reads y \<or> is_read y) xs
     \<and> concat (map bytes_in xs) = request_bytes r @ body)"

definition exchange_times :: "exchange \<Rightarrow> Timestamp set" where
  "exchange_times x = set (concat (map arrivals (exchange_ops x)))"

definition answer_to :: "(HttpRequest \<Rightarrow> HttpResponse \<Rightarrow> HttpResponse) \<Rightarrow> exchange \<Rightarrow> Timestamp \<Rightarrow> HttpResponse" where
  "answer_to cb x t = (case x of (r, body, xs) \<Rightarrow> reply cb (received r body t))"

lemma exchange_answered:
  assumes "exchange_ok x" "\<forall>t. length (resp_body (answer_to cb x t)) < 10 ^ 13"
    and "serving kConnected [] accepted HttpContext_new w"
  shows "\<exists>w' t. t \<in> exchange_times x \<and> foldo (web_do cb) (exchange_ops x) w = Some w'
    \<and> serving (state_after (answer_to cb x t)) [] (accepted @ response_bytes (answer_to cb x t)) HttpContext_new w'"
proof -
  obtain r body xs where x: "x = (r, body, xs)" by (cases x)
  have ok: "message_ok r body" "\<forall>y\<in>set xs. between_reads y \<or> is_read y" "concat (map bytes_in xs) = request_bytes r @ body"
    using assms(1) by (simp_all add: exchange_ok_def x list_all_iff)
  have "request_bytes r \<noteq> []" by (simp add: request_bytes_def kCRLF_def)
  then have "concat (map bytes_in xs) \<noteq> []" using ok(3) by simp
  moreover have "\<forall>t. \<exists>t0\<in>insert t {}. parse_bytes t HttpContext_new ([] @ concat (map bytes_in xs))
      = Returns (True, \<lparr>ctx_state = GOT_ALL, ctx_request = received r body t0\<rparr>, [])"
    using parse_message [OF ok(1), of _ "[]"] ok(3) by simp
  ultimately show ?thesis
    using exchange_from [OF ok(2) _ assms(3), of "{}" "received r body" cb] assms(2)
    by (simp add: x answer_to_def exchange_ops_def exchange_times_def HttpContext_new_def)
qed

lemma session_answered:
  assumes "\<forall>x\<in>set xs. exchange_ok x" "\<forall>x\<in>set xs. \<forall>t. length (resp_body (answer_to cb x t)) < 10 ^ 13"
    and "\<forall>x\<in>set (butlast xs). \<forall>t. \<not> resp_closeConnection (answer_to cb x t)"
    and "serving kConnected [] accepted HttpContext_new w"
  shows "\<exists>w' ts. list_all2 (\<lambda>x t. t \<in> exchange_times x) xs ts \<and> foldo (web_do cb) (concat (map exchange_ops xs)) w = Some w'
    \<and> serving (if xs = [] then kConnected else state_after (answer_to cb (last xs) (last ts))) []
        (accepted @ concat (map2 (\<lambda>x t. response_bytes (answer_to cb x t)) xs ts)) HttpContext_new w'"
  using assms
proof (induction xs arbitrary: accepted w)
  case (Cons x xs)
  obtain w1 t where w1: "t \<in> exchange_times x" "foldo (web_do cb) (exchange_ops x) w = Some w1"
    "serving (state_after (answer_to cb x t)) [] (accepted @ response_bytes (answer_to cb x t)) HttpContext_new w1"
    using exchange_answered [OF _ _ Cons.prems(4), of x cb] Cons.prems(1,2) by auto
  show ?case
  proof (cases "xs = []")
    case True
    with w1 show ?thesis by (intro exI [of _ w1] exI [of _ "[t]"]) simp
  next
    case False
    then have "state_after (answer_to cb x t) = kConnected" using Cons.prems(3) by (simp add: state_after_def)
    with w1(3) have up: "serving kConnected [] (accepted @ response_bytes (answer_to cb x t)) HttpContext_new w1" by simp
    have rest: "\<forall>x\<in>set xs. exchange_ok x" "\<forall>x\<in>set xs. \<forall>t. length (resp_body (answer_to cb x t)) < 10 ^ 13"
      "\<forall>x\<in>set (butlast xs). \<forall>t. \<not> resp_closeConnection (answer_to cb x t)"
      using Cons.prems False by simp_all
    from Cons.IH [OF rest up] False obtain w' ts where ts: "list_all2 (\<lambda>x t. t \<in> exchange_times x) xs ts"
      "foldo (web_do cb) (concat (map exchange_ops xs)) w1 = Some w'"
      "serving (state_after (answer_to cb (last xs) (last ts))) []
        ((accepted @ response_bytes (answer_to cb x t)) @ concat (map2 (\<lambda>x t. response_bytes (answer_to cb x t)) xs ts)) HttpContext_new w'"
      by auto
    have "ts \<noteq> []" using ts(1) False by auto
    with ts w1(1,2) False show ?thesis by (intro exI [of _ w'] exI [of _ "t # ts"]) simp
  qed
qed simp

lemma web_established:
  assumes "reactor_inv r" "\<not> rc_eventHandling r" "chan r ch = None" "map_find (rc_channels r) sockfd = None"
  shows "\<exists>w. web_do cb Establish \<lparr>web_conn = TcpConnection_new ch sockfd now r, web_context = None\<rparr> = Some w
    \<and> serving kConnected [] [] HttpContext_new w"
proof -
  let ?s = "TcpConnection_new ch sockfd now r"
  have new: "conn_inv ?s" "tc_state ?s = kConnecting" using new_connection_ok [OF assms] by auto
  obtain s where s: "connectEstablished (http_user cb None) ?s = Some s" "conn_inv s" "up s"
    using connectEstablished_ok [OF http_user_ok new] by blast
  then obtain r l where "s = ?s\<lparr>tc_state := kConnected, tc_reactor := r, tc_log := l\<rparr>"
    by (auto simp: connectEstablished_def setState_def call_user_def http_user_def Let_def dest!: on_channel_frame split: Option.bind_splits)
  with s have "serving kConnected [] [] HttpContext_new \<lparr>web_conn = s, web_context = Some HttpContext_new\<rparr>"
    by (auto simp: serving_def healthy_def TcpConnection_new_def faultless_def contents_def Buffer_new_def)
  with s(1) show ?thesis by (simp add: web_do_def web_context_after_def HttpServer_onConnection_def)
qed

section \<open>Properties\<close>


text \<open>A session of two requests: a \<^verbatim>\<open>POST\<close> over two reads, whose response the kernel takes in two parts, and a \<^verbatim>\<open>GET\<close> that asks
  to close.\<close>

definition demo_post :: HttpRequest where
  "demo_post = \<lparr>req_method = POST, req_version = HTTP11, req_path = ''/f'', req_query = '''', req_receiveTime = 0,
     req_headers = [(''Content-Length'', dec 2)]\<rparr>"

definition demo_get :: HttpRequest where
  "demo_get = \<lparr>req_method = GET, req_version = HTTP11, req_path = ''/'', req_query = '''', req_receiveTime = 0,
     req_headers = [(''Connection'', ''close'')]\<rparr>"

definition demo_answer :: "HttpRequest \<Rightarrow> HttpResponse \<Rightarrow> HttpResponse" where
  "demo_answer req resp = setBody (setStatusCode resp K200_OK) (req_query req)"

definition demo_session :: "exchange list" where
  "demo_session =
     [(demo_post, ''hi'', [KernelWill [WriteOk 3], Event EPOLLIN (ReadBytes (take 9 (request_bytes demo_post))) 5,
         Event EPOLLIN (ReadBytes (drop 9 (request_bytes demo_post) @ ''hi'')) 6, KernelWill [WriteOk 1000],
         Event EPOLLOUT (ReadBytes []) 7, RunQueued]),
      (demo_get, [], [Event EPOLLIN (ReadBytes (request_bytes demo_get)) 8])]"

lemma demo_session_ok: "\<forall>x\<in>set demo_session. exchange_ok x"
proof -
  have "message_ok demo_post ''hi''" "message_ok demo_get []" by (simp add: message_ok_def, code_simp)+
  moreover have len: "length (request_bytes demo_post) < 100" "9 < length (request_bytes demo_post)" "0 < length (request_bytes demo_get)"
    "length (request_bytes demo_get) < 100" by code_simp+
  moreover have "request_bytes demo_get \<noteq> []" "request_bytes demo_post \<noteq> []" using len by auto
  ultimately show ?thesis by (simp add: exchange_ok_def demo_session_def extraBuf_size_def faultless_def epoll_defs)
qed

lemma demo_reply_time: "reply demo_answer (received r body t) = reply demo_answer (received r body 0)"
  by (simp add: reply_def received_def demo_answer_def HttpRequest_getHeader_def)

lemma demo_body: "resp_body (reply demo_answer req) = req_query req"
  by (simp add: reply_def demo_answer_def)

lemma demo_replies:
  "\<not> resp_closeConnection (reply demo_answer (received demo_post ''hi'' t))" (is "\<not> ?c1 t")
  "response_bytes (reply demo_answer (received demo_post ''hi'' t))
     = ''HTTP/1.1 200'' @ kCRLF @ ''Content-Length: 2'' @ kCRLF @ ''Connection: Keep-Alive'' @ kCRLF @ kCRLF @ ''hi''" (is "?r1 t = _")
  "resp_closeConnection (reply demo_answer (received demo_get [] t))" (is "?c2 t")
  "response_bytes (reply demo_answer (received demo_get [] t)) = ''HTTP/1.1 200'' @ kCRLF @ ''Connection: close'' @ kCRLF @ kCRLF" (is "?r2 t = _")
proof -
  have "\<not> ?c1 0" "?c2 0" by code_simp+
  then show "\<not> ?c1 t" "?c2 t" by (simp_all only: demo_reply_time [of _ _ t] not_False_eq_True)
  show "?r1 t = ''HTTP/1.1 200'' @ kCRLF @ ''Content-Length: 2'' @ kCRLF @ ''Connection: Keep-Alive'' @ kCRLF @ kCRLF @ ''hi''"
    unfolding demo_reply_time [of _ _ t] by code_simp
  show "?r2 t = ''HTTP/1.1 200'' @ kCRLF @ ''Connection: close'' @ kCRLF @ kCRLF"
    unfolding demo_reply_time [of _ _ t] by code_simp
qed


text \<open>Requests that arrive together are not all answered: \<^verbatim>\<open>onMessage\<close> handles one request for each read, so that a second one in
  the same read stays in the input buffer, unanswered, until the client happens to send something more.\<close>

lemma pipelined_request_waits:
  assumes "serving kConnected [] accepted HttpContext_new w" "message_ok r body" "message_ok r' body'"
    and "\<not> resp_closeConnection (reply cb (received r body t))" "length (resp_body (reply cb (received r body t))) < 10 ^ 13"
    and "chunk = request_bytes r @ body @ request_bytes r' @ body'" "length chunk \<le> extraBuf_size"
  shows "\<exists>w'. web_do cb (Event EPOLLIN (ReadBytes chunk) t) w = Some w'
    \<and> serving kConnected (request_bytes r' @ body') (accepted @ response_bytes (reply cb (received r body t))) HttpContext_new w'"
proof -
  have ne: "chunk \<noteq> []" using assms(6) by (simp add: request_bytes_def kCRLF_def)
  have "parse_bytes t HttpContext_new ([] @ chunk)
      = Returns (True, \<lparr>ctx_state = GOT_ALL, ctx_request = received r body t\<rparr>, request_bytes r' @ body')"
    using parse_message [OF assms(2)] assms(6) by simp
  from read_answers [OF assms(1) ne assms(7) _ this, of cb] assms(4,5) show ?thesis
    by (simp add: HttpContext_new_def state_after_def)
qed

end
