(* ===== verification/Spec2Isabelle.thy ===== *)
theory Spec2Isabelle
  imports Codec Http Loop Connection Base64 Server Client AsyncLogs Pools AnyValue Wheel Inspect Signals Threads Chat Sockets Utilities Lifetimes Exceptions Serving Web
begin

text \<open>
  Verification of pallette, a C++11 library of non-blocking TCP servers and clients in the reactor style, with the components it needs:
  buffers, timers, an epoll loop, connections, HTTP, logging, time zones, thread pools and a run-time inspector.

  \<^bold>\<open>The program.\<close> One thread runs one \<^verbatim>\<open>EventLoop\<close>. The loop asks \<^verbatim>\<open>EpollPoller\<close> for active \<^verbatim>\<open>Channel\<close>s, lets each dispatch its events, and
  then runs the functors other threads have posted, who wake it through an \<^verbatim>\<open>eventfd\<close>. \<^verbatim>\<open>TimerQueue\<close> is a channel of the loop that runs
  due timers. \<^verbatim>\<open>Acceptor\<close> and \<^verbatim>\<open>Connector\<close> produce sockets, \<^verbatim>\<open>TcpServer\<close> and \<^verbatim>\<open>TcpClient\<close> make \<^verbatim>\<open>TcpConnection\<close>s of them and pass them to loops of
  an \<^verbatim>\<open>EventLoopThreadPool\<close>; a connection moves bytes between the socket and two \<^verbatim>\<open>Buffer\<close>s and calls the user back. \<^verbatim>\<open>HttpServer\<close>, the
  \<^verbatim>\<open>Inspector\<close> and the examples are users of \<^verbatim>\<open>TcpServer\<close>. Log statements format a record in a \<^verbatim>\<open>LogStream\<close> and hand it to an output function,
  which may be \<^verbatim>\<open>AsyncLogging\<close>, whose thread writes a rolling \<^verbatim>\<open>LogFile\<close>.

  \<^bold>\<open>Conventions.\<close> \<^const>\<open>None\<close> is a process that stops: a failed assertion, \<^verbatim>\<open>LOG_FATAL\<close>, an access outside an array or a freed object, or an
  exception nothing catches. A theorem that an operation gives \<^const>\<open>Some\<close> therefore says that none of these happens. Bytes are characters;
  \<^verbatim>\<open>size_t\<close> is \<^typ>\<open>nat\<close>; \<^verbatim>\<open>int\<close> is \<^typ>\<open>int\<close> with the conversion written out where a value can leave its range; event masks, ports, addresses and
  the numbers of the wire formats are words of their width; division is C's, towards zero. \<^verbatim>\<open>std::map\<close> and \<^verbatim>\<open>std::set\<close> are sorted
  lists. A \<^verbatim>\<open>double\<close> is the rational number it stands for, and \<open>Doubles\<close> rounds the result of every operation to 53 binary digits. The answers of system calls, the clock, allocation, \<^verbatim>\<open>gmtime_r\<close>, \<^verbatim>\<open>inet_ntop\<close>, the text of a \<^verbatim>\<open>double\<close>, the matches of
  a regular expression and the user's callbacks are arguments. What runs on several threads is a step relation or a list of events cut
  where the code takes a mutex, reads an atomic or blocks; a theorem for all event lists is one for all interleavings.

  \<^bold>\<open>Theories.\<close>
  \<^item> \<open>Prelude\<close>: assertions, \<open>foldo\<close> (an event list run until something stops) with its invariant and totality rules, slices of lists,
    little-endian bytes, decimal text. \<open>StdMap\<close>: \<^verbatim>\<open>std::map\<close> and its contract, the locale \<open>ordered_map\<close>.
  \<^item> \<open>Buffer\<close> (\<^verbatim>\<open>Buffer.cpp\<close>, \<^verbatim>\<open>Endian.h\<close>): the vector with its two indices. The locale \<open>byte_queue\<close> is what clients rely on; the buffer is a
    refinement of a byte queue, keeps its invariant, and round-trips integers.
  \<^item> \<open>Codec\<close> (\<^verbatim>\<open>ChatCodec.h\<close>), \<open>Chat\<close> (\<^verbatim>\<open>ChatServer.cpp\<close>, \<^verbatim>\<open>ChatClient.cpp\<close>): framing, its round trip over any cutting of the stream, and whole
    conversations.
  \<^item> \<open>Http\<close> (\<^verbatim>\<open>http/\<close>): request, context, response and server. The parser is proved equal to a function on bytes, incremental, and
    terminating exactly when it should; requests and responses round-trip.
  \<^item> \<open>Doubles\<close>: rounding to the nearest double and its error. \<open>Timestamps\<close> (\<^verbatim>\<open>Timestamp\<close>, \<^verbatim>\<open>operators.hpp\<close>): arithmetic over seconds is exact
    up to one microsecond; the locale \<open>comparable\<close> is what the derived operators ask of a class. \<open>Timers\<close> (\<^verbatim>\<open>Timer\<close>, \<^verbatim>\<open>TimerQueue.cpp\<close>): both
    sets, cancellation and the timer descriptor over an explicit heap.
  \<^item> \<open>Poller\<close> (\<^verbatim>\<open>Channel.cpp\<close>, \<^verbatim>\<open>EpollPoller.cpp\<close>): the kernel's interest list is exactly the channels' wishes; dispatch order.
  \<^item> \<open>Loop\<close> (\<^verbatim>\<open>EventLoop.cpp\<close>): posting, waking and quitting as a step relation with its invariant.
    \<open>Threads\<close> (\<^verbatim>\<open>Thread.cpp\<close>, \<^verbatim>\<open>EventLoopThread.cpp\<close>): a loop in a thread of its own, started and destroyed by another.
    \<open>Lifetimes\<close> (\<^verbatim>\<open>EventLoop.cpp\<close>, \<^verbatim>\<open>TimerQueue.cpp\<close>, \<^verbatim>\<open>EpollPoller.cpp\<close>): construction and destruction of loops over \<open>Poller\<close> and \<open>Timers\<close>
    together, one loop per thread, and no descriptor left open.
  \<^item> \<open>Connection\<close> (\<^verbatim>\<open>TcpConnection.cpp\<close>): the state machine, the output buffer and the bytes sent and received.
  \<^item> \<open>Addresses\<close>, \<open>Sockets\<close> (\<^verbatim>\<open>InetAddress.cpp\<close>, \<^verbatim>\<open>SocketsOperations.cpp\<close>, \<^verbatim>\<open>Socket.cpp\<close>), \<open>Connectors\<close> (\<^verbatim>\<open>Connector.cpp\<close>), \<open>Server\<close>
    (\<^verbatim>\<open>Acceptor.cpp\<close>, \<^verbatim>\<open>TcpServer.cpp\<close>, \<^verbatim>\<open>EventLoopThreadPool.cpp\<close>), \<open>Client\<close> (\<^verbatim>\<open>TcpClient.cpp\<close>).
  \<^item> \<open>Serving\<close>: the server of \<open>Server\<close> with a connection of \<open>Connection\<close> for each of its objects; the stages of the one are an abstraction of
    the states of the other, and closed connections are destroyed to the end.
  \<^item> \<open>Web\<close>: the HTTP server's callbacks of \<open>Http\<close> on a connection of \<open>Connection\<close>, from the bytes read to the bytes written.
  \<^item> \<open>Calendar\<close> (\<^verbatim>\<open>Date.cpp\<close>, UTC), \<open>Zones\<close> (\<^verbatim>\<open>TimeZone.cpp\<close>): the Julian day is inverted exactly; the local time in effect.
  \<^item> \<open>Logs\<close> (\<^verbatim>\<open>LogStream.cpp\<close>, \<^verbatim>\<open>Logging.cpp\<close>, \<^verbatim>\<open>Strings.cpp\<close>), \<open>LogFiles\<close> (\<^verbatim>\<open>LogFile.cpp\<close>, \<^verbatim>\<open>FileUtil.cpp\<close>), \<open>AsyncLogs\<close>
    (\<^verbatim>\<open>AsyncLogging.cpp\<close>): what a statement writes, and that lines reach the files whole and in order.
  \<^item> \<open>Pools\<close> (\<^verbatim>\<open>CountDownLatch.cpp\<close>, \<^verbatim>\<open>ThreadPool.cpp\<close>): the pool neither loses nor strands work while it runs.
  \<^item> \<open>AnyValue\<close> (\<^verbatim>\<open>any.hpp\<close>), \<open>Signals\<close> (\<^verbatim>\<open>SignalSlot.hpp\<close>, \<^verbatim>\<open>ObjectPool.hpp\<close>), \<open>Wheel\<close> (\<^verbatim>\<open>CircularBuffer.hpp\<close>, \<^verbatim>\<open>RingBuffer.hpp\<close>,
    \<^verbatim>\<open>examples/idleconnection\<close>), \<open>Base64\<close> (\<^verbatim>\<open>Base64.cpp\<close>), \<open>Utilities\<close> (\<^verbatim>\<open>Daemon.cpp\<close>, \<^verbatim>\<open>StatElapseTime.h\<close>, \<^verbatim>\<open>singleton.hpp\<close>,
    \<^verbatim>\<open>WeakCallback.h\<close>): objects whose life is the point, over explicit heaps and owner counts.
  \<^item> \<open>Exceptions\<close> (\<^verbatim>\<open>Exception.cpp\<close>): which name of a stack frame the trace shows.
  \<^item> \<open>ProcInfo\<close> (\<^verbatim>\<open>ProcessInfo.cpp\<close>, the reading half of \<^verbatim>\<open>FileUtil.cpp\<close>), \<open>Inspect\<close> (\<^verbatim>\<open>inspect/\<close>): what the inspector answers.

  \<^bold>\<open>Bounds and fuel.\<close> Loops are total functions with a measure, or, where the source may run forever (the HTTP parser on a complete context),
  \<^verbatim>\<open>partial_function\<close>, with theorems that say when they return. The scaling in \<open>Doubles\<close> has one step for each exponent of a \<^verbatim>\<open>double\<close>. Lengths the code keeps in an \<^verbatim>\<open>int\<close> are assumed below \<open>2 ^ 31\<close> where a theorem says so.

  \<^bold>\<open>Not modelled.\<close> \<^verbatim>\<open>BlockingQueue.h\<close> and \<^verbatim>\<open>BoundedBlockingQueue.h\<close>, whose members do not compile when instantiated;
  \<^verbatim>\<open>BaseError.hpp\<close>, which does not compile; \<^verbatim>\<open>Callbacks.h\<close> and \<^verbatim>\<open>noncopyable.h\<close>, which have no behaviour; the \<^verbatim>\<open>main\<close> functions and the
  programs under \<^verbatim>\<open>tests\<close>; the text of log messages the components emit about themselves.
\<close>

section \<open>A request to the inspector\<close>

text \<open>The parser, the table of commands and the printer of responses together: the bytes of a well-formed \<^verbatim>\<open>GET\<close> request for
  \<^verbatim>\<open>/module/command/arguments\<close> are answered with exactly one response, the text the registered callback gives for these arguments; the
  connection is shut down as the request asks, and bytes of later requests stay in the buffer.\<close>

lemma inspector_over_http:
  assumes new: "Inspector_new main_thread other_inspector title = Some ins"
    and table: "fold table_exec ops (fold table_exec built_in Map.empty) (m, c) = Some (Some cb, help)"
    and path: "req_path r = concat (map (\<lambda>p. ''/'' @ p) (m # c # args))" "\<forall>p\<in>set (m # c # args). p \<noteq> [] \<and> CHR ''/'' \<notin> set p"
    and body: "cb w GET args = Some body" "length body < 10 ^ 13"
    and request: "request_ok r" "req_method r = GET" "buf_inv b" "contents b = request_bytes r @ rest"
    and close: "close \<longleftrightarrow> HttpRequest_getHeader r ''Connection'' = ''close''
      \<or> req_version r = HTTP10 \<and> HttpRequest_getHeader r ''Connection'' \<noteq> ''Keep-Alive''"
  shows "\<exists>b'. HttpServer_onMessage (\<lambda>req resp. the (Inspector_onRequest w (fold ins_exec ops ins) req resp)) (Some HttpContext_new) b t =
      Some (Returns (ConnSend (response_bytes (answer (HttpResponse_new close) ''text/plain'' body)) # (if close then [ConnShutdown] else []),
        Some HttpContext_new, b')) \<and> Buffer_bytes b' = rest"
proof -
  let ?ins = "fold ins_exec ops ins" and ?r = "r\<lparr>req_receiveTime := t\<rparr>"
  let ?resp = "answer (HttpResponse_new close) ''text/plain'' body"
  have ok: "ins_ok ?ins" "table_of ?ins (m, c) = Some (Some cb, help)"
    using new_refines [OF new] execs_refine [of ins ops] table by simp_all
  have "segments (req_path ?r) = m # c # args" using segments_join [OF path(2)] path(1) by simp
  moreover have "req_path ?r \<noteq> ''/''" using path by (cases m) auto
  ultimately have "Inspector_onRequest w ?ins ?r (HttpResponse_new close) = Some ?resp"
    using onRequest_table [OF ok(1), of ?r w "HttpResponse_new close"] ok(2) body(1) request(2) by simp
  then have resp: "?resp = the (Inspector_onRequest w ?ins ?r (HttpResponse_new close))" by simp
  have fields: "resp_body ?resp = body" "resp_closeConnection ?resp = close"
    by (simp_all add: answer_def HttpResponse_setContentType_def HttpResponse_addHeader_def HttpResponse_new_def)
  show ?thesis
    using server_answers_get [OF request, of ?resp "\<lambda>req resp. the (Inspector_onRequest w ?ins req resp)" t] resp close fields body(2)
    by simp
qed

end
